(* ===== verification/Prelude.thy ===== *)
theory Prelude
  imports Main "HOL-Library.Word" "HOL-Library.Multiset" "HOL-Library.List_Lexorder" "HOL-Library.Char_ord"
begin

text \<open>
  Shared vocabulary of the development: the machine integer types of the code, the
  arithmetic of \<open>size_t\<close>, the way a hash map is listed when the code iterates over it,
  and the generic lemmas on lists and maps that several components use.
\<close>

unbundle bit_operations_syntax

section \<open>Machine integers\<close>

type_synonym u8 = "8 word"
type_synonym u16 = "16 word"
type_synonym u32 = "32 word"
type_synonym u64 = "64 word"

lemma u64_bound: "unat (w :: u64) < 2 ^ 64"
  using unsigned_less [of w] by simp

lemma u64_of_nat: "n < 2 ^ 64 \<Longrightarrow> unat (of_nat n :: u64) = n"
  by (simp add: unat_of_nat)

text \<open>
  Indices and sizes of containers are \<open>size_t\<close>. They are modelled as \<open>nat\<close> with the
  wrap-around of a 64-bit addition written out where the code adds.
\<close>

definition size_add :: "nat \<Rightarrow> nat \<Rightarrow> nat" where
  "size_add a b = (a + b) mod 2 ^ 64"

lemma size_add_exact [simp]: "a + b < 2 ^ 64 \<Longrightarrow> size_add a b = a + b"
  by (simp add: size_add_def)

text \<open>The successor of an index of an object that fits in memory does not wrap.\<close>

lemma size_add_Suc: "h < n \<Longrightarrow> n < 2 ^ 64 \<Longrightarrow> size_add h 1 = Suc h"
  by simp

section \<open>Collections of facts\<close>

named_theorems fifo_intros \<open>preservation rules of the queue components\<close>
named_theorems str_simps \<open>rewrite rules of the std::string operations\<close>
named_theorems float_simps \<open>rewrite rules of the double operations\<close>

section \<open>Hash maps and their iteration order\<close>

text \<open>
  A \<^verbatim>\<open>std::unordered_map\<close> is a finite map; the order in which a range-for visits it is
  not specified. \<open>listing m es\<close> says that \<open>es\<close> is one order in which the code may see
  the entries of \<open>m\<close>; what is proved for every listing holds for every hash function.
\<close>

definition listing :: "('k \<rightharpoonup> 'v) \<Rightarrow> ('k \<times> 'v) list \<Rightarrow> bool" where
  "listing m es \<longleftrightarrow> distinct (map fst es) \<and> map_of es = m"

lemma listing_mem: "listing m es \<Longrightarrow> (k, v) \<in> set es \<longleftrightarrow> m k = Some v"
  by (auto simp: listing_def)

lemma listing_keys: "listing m es \<Longrightarrow> fst ` set es = dom m"
  unfolding listing_def using dom_map_of_conv_image_fst [of es] by blast

lemma listing_length: "listing m es \<Longrightarrow> length es = card (dom m)"
  unfolding listing_def
  by (metis distinct_card length_map dom_map_of_conv_image_fst set_map)

lemma listing_finite: "listing m es \<Longrightarrow> finite (dom m)"
  by (auto simp: listing_def finite_dom_map_of)

lemma listing_exists: "finite (dom m) \<Longrightarrow> \<exists>es. listing m es"
proof -
  assume fin: "finite (dom m)"
  then obtain ks where ks: "set ks = dom m" "distinct ks"
    using finite_distinct_list by metis
  let ?es = "map (\<lambda>k. (k, the (m k))) ks"
  have "map_of ?es = m"
    using ks by (auto simp: map_of_map_restrict fun_eq_iff restrict_map_def)
  moreover have "map fst ?es = ks" by (simp add: comp_def)
  ultimately have "listing m ?es" using ks by (simp only: listing_def)
  then show ?thesis by blast
qed

text \<open>Sums over the entries do not depend on the order of the listing.\<close>

lemma listing_sum:
  fixes f :: "'k \<Rightarrow> 'v \<Rightarrow> 'a::comm_monoid_add"
  assumes "listing m es"
  shows "(\<Sum>(k, v) \<leftarrow> es. f k v) = (\<Sum>k \<in> dom m. f k (the (m k)))"
proof -
  have d: "distinct es" using assms by (auto simp: listing_def distinct_map)
  have "(\<Sum>(k, v) \<leftarrow> es. f k v) = (\<Sum>e \<in> set es. case e of (k, v) \<Rightarrow> f k v)"
    using d by (simp add: sum_list_distinct_conv_sum_set)
  also have "\<dots> = (\<Sum>k \<in> fst ` set es. f k (the (m k)))"
    using assms
    by (subst sum.reindex)
      (auto simp: listing_def distinct_map inj_on_def intro!: sum.cong split: prod.splits)
  finally show ?thesis using listing_keys [OF assms] by simp
qed

lemma mset_listing_perm: "mset es = mset es' \<Longrightarrow> listing m es \<Longrightarrow> listing m es'"
proof -
  assume perm: "mset es = mset es'" and l: "listing m es"
  have "mset (map fst es) = mset (map fst es')" using perm by simp
  then have d: "distinct (map fst es')"
    using l mset_eq_imp_distinct_iff unfolding listing_def by blast
  have s: "set es' = set es" using perm mset_eq_setD by blast
  have "map_of es' = map_of es"
    using map_of_inject_set [of es' es] d l s unfolding listing_def by simp
  with d l show "listing m es'" by (simp add: listing_def)
qed

section \<open>Lists\<close>

lemma foldl_invariant:
  "I s \<Longrightarrow> (\<And>s x. I s \<Longrightarrow> x \<in> set xs \<Longrightarrow> I (f s x)) \<Longrightarrow> I (foldl f s xs)"
  by (induction xs arbitrary: s) auto

lemma map_of_consistent:
  assumes "\<And>k v. (k, v) \<in> set xs \<longleftrightarrow> f k = Some v"
  shows "map_of xs = f"
proof
  fix k
  show "map_of xs k = f k"
  proof (cases "map_of xs k")
    case None
    then have "(k, v) \<notin> set xs" for v by (force simp: map_of_eq_None_iff)
    then show ?thesis using None assms by (cases "f k") auto
  next
    case (Some v)
    then show ?thesis using assms map_of_SomeD [of xs k v] by simp
  qed
qed

lemma set_update_cases: "x \<in> set (ws[i := w]) \<Longrightarrow> x = w \<or> x \<in> set ws"
  using set_update_subset_insert by fastforce

lemma int_le_div_iff:
  fixes k d c :: int
  assumes "0 < c"
  shows "k \<le> d div c \<longleftrightarrow> k * c \<le> d"
proof
  assume "k \<le> d div c"
  then have "k * c \<le> d div c * c" using assms by (simp add: mult_right_mono)
  also have "\<dots> \<le> d" using div_mult_mod_eq [of d c] pos_mod_sign [OF assms, of d] by linarith
  finally show "k * c \<le> d" .
next
  assume "k * c \<le> d"
  then have "k * c div c \<le> d div c" using assms by (rule zdiv_mono1)
  then show "k \<le> d div c" using assms by simp
qed

lemma take_append_full: "length xs = n \<Longrightarrow> take n (xs @ ys) = xs"
  by simp

end
