(* ===== verification/Memory_Pool.thy ===== *)
theory Memory_Pool
  imports Prelude
begin

text \<open>
  \<^verbatim>\<open>core/memory/memory_pool.hpp\<close>: a pool of fixed-size blocks cut from chunks, with the free
  blocks linked through their own storage; the object pool and the allocator above it.
  Pointers are byte addresses, 0 is the null pointer, \<open>sz\<close> is \<^verbatim>\<open>sizeof(Block)\<close> and \<open>n\<close> is
  \<^verbatim>\<open>BlocksPerChunk\<close>, both positive. What \<^verbatim>\<open>aligned_alloc\<close> returns is an argument.
\<close>

section \<open>The pool\<close>

datatype pool_error = BadAlloc | NotFromPool

record pool =
  free_blocks :: nat
  chunks :: "nat list"
  next_of :: "nat \<Rightarrow> nat"

definition new_pool :: pool where
  "new_pool = \<lparr>free_blocks = 0, chunks = [], next_of = (\<lambda>_. 0)\<rparr>"

text \<open>The loop that links block \<open>i\<close> of a chunk to block \<open>i + 1\<close>, and the last one to null.\<close>

definition link_chunk :: "nat \<Rightarrow> nat \<Rightarrow> nat \<Rightarrow> (nat \<Rightarrow> nat) \<Rightarrow> (nat \<Rightarrow> nat)" where
  "link_chunk sz n a m =
     (foldl (\<lambda>m i. m(a + i * sz := a + (i + 1) * sz)) m [0 ..< n - 1]) (a + (n - 1) * sz := 0)"

definition allocateChunk :: "nat \<Rightarrow> nat \<Rightarrow> nat option \<Rightarrow> pool \<Rightarrow> pool_error + pool" where
  "allocateChunk sz n region p =
     (case region of None \<Rightarrow> Inl BadAlloc
      | Some a \<Rightarrow> Inr (p\<lparr>chunks := chunks p @ [a], next_of := link_chunk sz n a (next_of p),
                        free_blocks := a\<rparr>))"

definition allocate :: "nat \<Rightarrow> nat \<Rightarrow> nat option \<Rightarrow> pool \<Rightarrow> pool_error + (nat \<times> pool)" where
  "allocate sz n region p =
     (case (if free_blocks p = 0 then allocateChunk sz n region p else Inr p) of
        Inl e \<Rightarrow> Inl e
      | Inr p1 \<Rightarrow> Inr (free_blocks p1, p1\<lparr>free_blocks := next_of p1 (free_blocks p1)\<rparr>))"

text \<open>
  The difference of two block pointers is a number of blocks; the code then takes it modulo
  the size of a block.
\<close>

fun address_in_chunks :: "nat \<Rightarrow> nat \<Rightarrow> nat \<Rightarrow> nat list \<Rightarrow> bool" where
  "address_in_chunks sz n b [] = False"
| "address_in_chunks sz n b (c # cs) =
     (if b \<ge> c \<and> b < c + n * sz then ((b - c) div sz) mod sz = 0 else address_in_chunks sz n b cs)"

definition isAddressInPool :: "nat \<Rightarrow> nat \<Rightarrow> nat \<Rightarrow> pool \<Rightarrow> bool" where
  "isAddressInPool sz n b p = address_in_chunks sz n b (chunks p)"

definition deallocate :: "nat \<Rightarrow> nat \<Rightarrow> nat \<Rightarrow> pool \<Rightarrow> pool_error + pool" where
  "deallocate sz n b p =
     (if b = 0 then Inr p
      else if \<not> isAddressInPool sz n b p then Inl NotFromPool
      else Inr (p\<lparr>next_of := (next_of p)(b := free_blocks p), free_blocks := b\<rparr>))"

text \<open>
  The destructor gives every chunk back. \<open>live\<close> is what \<^verbatim>\<open>aligned_alloc\<close> has handed out and
  not taken back; \<^verbatim>\<open>free\<close> of anything else is undefined, \<open>None\<close>.
\<close>

definition free_chunk :: "nat \<Rightarrow> nat set \<Rightarrow> nat set option" where
  "free_chunk a live = (if a \<in> live then Some (live - {a}) else None)"

definition destroy_pool :: "pool \<Rightarrow> nat set \<Rightarrow> nat set option" where
  "destroy_pool p live = foldl (\<lambda>l c. Option.bind l (free_chunk c)) (Some live) (chunks p)"

section \<open>Objects\<close>

text \<open>Constructor and destructor calls, in order; a constructor or destructor that throws is left out.\<close>

datatype life_call = Constructed nat | Destroyed nat

definition object_allocate :: "nat \<Rightarrow> nat \<Rightarrow> nat option \<Rightarrow> pool \<times> life_call list \<Rightarrow>
    pool_error + (nat \<times> pool \<times> life_call list)" where
  "object_allocate sz n region s =
     (case allocate sz n region (fst s) of Inl e \<Rightarrow> Inl e
      | Inr (b, p) \<Rightarrow> Inr (b, p, snd s @ [Constructed b]))"

text \<open>The pool refuses by an exception after the destructor has run: the state keeps the call.\<close>

definition object_deallocate :: "nat \<Rightarrow> nat \<Rightarrow> nat \<Rightarrow> pool \<times> life_call list \<Rightarrow>
    pool_error option \<times> pool \<times> life_call list" where
  "object_deallocate sz n b s =
     (if b = 0 then (None, s)
      else let calls = snd s @ [Destroyed b] in
        (case deallocate sz n b (fst s) of
           Inl e \<Rightarrow> (Some e, fst s, calls)
         | Inr p \<Rightarrow> (None, p, calls)))"

text \<open>\<open>PoolAllocator\<close>: one object comes from the object pool, several from \<^verbatim>\<open>operator new\<close>.\<close>

definition pa_allocate :: "nat \<Rightarrow> nat \<Rightarrow> nat option \<Rightarrow> nat \<Rightarrow> nat \<Rightarrow> pool \<times> life_call list \<Rightarrow>
    pool_error + (nat \<times> pool \<times> life_call list)" where
  "pa_allocate sz n region op_new k s =
     (if k = 1 then object_allocate sz n region s else Inr (op_new, s))"

definition pa_deallocate :: "nat \<Rightarrow> nat \<Rightarrow> nat \<Rightarrow> nat \<Rightarrow> pool \<times> life_call list \<Rightarrow>
    pool_error option \<times> pool \<times> life_call list" where
  "pa_deallocate sz n b k s =
     (if k = 1 then object_deallocate sz n b s else (None, s))"

definition pa_construct :: "nat \<Rightarrow> pool \<times> life_call list \<Rightarrow> pool \<times> life_call list" where
  "pa_construct b s = (fst s, snd s @ [Constructed b])"

definition pa_destroy :: "nat \<Rightarrow> pool \<times> life_call list \<Rightarrow> pool \<times> life_call list" where
  "pa_destroy b s = (fst s, snd s @ [Destroyed b])"

section \<open>Invariant\<close>

text \<open>The list of free blocks that starts at \<open>b\<close>.\<close>

fun chain :: "(nat \<Rightarrow> nat) \<Rightarrow> nat \<Rightarrow> nat list \<Rightarrow> bool" where
  "chain m b [] = (b = 0)"
| "chain m b (x # xs) = (b = x \<and> x \<noteq> 0 \<and> chain m (m x) xs)"

definition chunk_blocks :: "nat \<Rightarrow> nat \<Rightarrow> nat \<Rightarrow> nat list" where
  "chunk_blocks sz n a = map (\<lambda>i. a + i * sz) [0 ..< n]"

definition pool_blocks :: "nat \<Rightarrow> nat \<Rightarrow> nat list \<Rightarrow> nat set" where
  "pool_blocks sz n cs = (\<Union>c \<in> set cs. set (chunk_blocks sz n c))"

definition apart :: "nat \<Rightarrow> nat \<Rightarrow> nat \<Rightarrow> bool" where
  "apart k a b \<longleftrightarrow> a + k \<le> b \<or> b + k \<le> a"

text \<open>What the documentation of \<^verbatim>\<open>aligned_alloc\<close> promises of a non-null result.\<close>

definition fresh_region :: "nat \<Rightarrow> nat \<Rightarrow> nat list \<Rightarrow> nat option \<Rightarrow> bool" where
  "fresh_region sz n cs region =
     (case region of None \<Rightarrow> True | Some a \<Rightarrow> 0 < a \<and> (\<forall>c \<in> set cs. apart (n * sz) a c))"

definition pool_ok :: "nat \<Rightarrow> nat \<Rightarrow> pool \<Rightarrow> nat set \<Rightarrow> nat list \<Rightarrow> bool" where
  "pool_ok sz n p A fs \<longleftrightarrow>
     chain (next_of p) (free_blocks p) fs \<and> distinct fs \<and> set fs \<inter> A = {} \<and>
     set fs \<union> A = pool_blocks sz n (chunks p) \<and>
     (\<forall>c \<in> set (chunks p). 0 < c) \<and> distinct (chunks p) \<and>
     (\<forall>c \<in> set (chunks p). \<forall>c' \<in> set (chunks p). c \<noteq> c' \<longrightarrow> apart (n * sz) c c')"

text \<open>Clients that give back only what they hold; \<open>A\<close> is what they hold.\<close>

inductive pool_reach :: "nat \<Rightarrow> nat \<Rightarrow> pool \<Rightarrow> nat set \<Rightarrow> bool" for sz n where
  init: "pool_reach sz n new_pool {}"
| alloc: "pool_reach sz n p A \<Longrightarrow> fresh_region sz n (chunks p) region \<Longrightarrow>
    allocate sz n region p = Inr (b, p') \<Longrightarrow> pool_reach sz n p' (insert b A)"
| dealloc: "pool_reach sz n p A \<Longrightarrow> b \<in> A \<Longrightarrow> deallocate sz n b p = Inr p' \<Longrightarrow>
    pool_reach sz n p' (A - {b})"

lemma chain_frame: "chain m b xs \<Longrightarrow> y \<notin> set xs \<Longrightarrow> chain (m(y := z)) b xs"
  by (induction xs arbitrary: b) auto

lemma chain_cong: "chain m b xs \<Longrightarrow> (\<And>x. x \<in> set xs \<Longrightarrow> m' x = m x) \<Longrightarrow> chain m' b xs"
  by (induction xs arbitrary: b) auto

lemma chain_empty: "chain m 0 xs \<longleftrightarrow> xs = []"
  by (cases xs) auto

lemma chunk_blocks_bound:
  "b \<in> set (chunk_blocks sz n a) \<Longrightarrow> a \<le> b \<and> b + sz \<le> a + n * sz"
proof -
  assume "b \<in> set (chunk_blocks sz n a)"
  then obtain i where i: "i < n" "b = a + i * sz" by (auto simp: chunk_blocks_def)
  then have "Suc i * sz \<le> n * sz" by (intro mult_le_mono1) simp
  with i show ?thesis by simp
qed

text \<open>The links of a new chunk.\<close>

lemma foldl_links:
  "0 < sz \<Longrightarrow> foldl (\<lambda>m i. m(a + i * sz := a + (i + 1) * sz)) m [0 ..< k] x =
    (if \<exists>i < k. x = a + i * sz then x + sz else m x)"
proof (induction k)
  case (Suc k)
  show ?case
  proof (cases "x = a + k * sz")
    case True
    then show ?thesis by (auto simp: algebra_simps)
  next
    case False
    then show ?thesis using Suc by (auto simp: less_Suc_eq)
  qed
qed simp

lemma link_chunk_block:
  assumes "0 < sz" and "i < n"
  shows "link_chunk sz n a m (a + i * sz) = (if i + 1 < n then a + (i + 1) * sz else 0)"
proof (cases "i + 1 < n")
  case True
  then have "a + i * sz \<noteq> a + (n - 1) * sz" using assms(1) by simp
  moreover have "\<exists>j < n - 1. a + i * sz = a + j * sz" using True by (intro exI [of _ i]) simp
  ultimately show ?thesis
    using assms True foldl_links [OF assms(1), of a m "n - 1" "a + i * sz"] by (simp add: link_chunk_def)
next
  case False
  then have "i = n - 1" using assms(2) by simp
  then show ?thesis using False by (simp add: link_chunk_def)
qed

lemma link_chunk_other:
  assumes "0 < sz" and "0 < n" and "x \<notin> set (chunk_blocks sz n a)"
  shows "link_chunk sz n a m x = m x"
proof -
  have "x \<noteq> a + (n - 1) * sz" "\<not> (\<exists>j < n - 1. x = a + j * sz)"
    using assms(2,3) by (auto simp: chunk_blocks_def)
  then show ?thesis using foldl_links [OF assms(1), of a m "n - 1" x] by (auto simp: link_chunk_def)
qed

lemma chain_chunk:
  assumes "0 < sz" and "0 < a" and "k \<le> n" and "\<And>i. i < n \<Longrightarrow> m (a + i * sz) = (if i + 1 < n then a + (i + 1) * sz else 0)"
  shows "chain m (if k < n then a + k * sz else 0) (map (\<lambda>i. a + i * sz) [k ..< n])"
  using assms(3)
proof (induction "n - k" arbitrary: k)
  case 0
  then show ?case by simp
next
  case (Suc d)
  then have k: "k < n" by simp
  have IH: "chain m (if Suc k < n then a + Suc k * sz else 0) (map (\<lambda>i. a + i * sz) [Suc k ..< n])"
    using Suc.hyps(2) k by (intro Suc.hyps(1)) simp_all
  have "m (a + k * sz) = (if Suc k < n then a + Suc k * sz else 0)" using assms(4) [OF k] by simp
  then show ?case using IH assms(2) k by (simp add: upt_conv_Cons del: mult_Suc)
qed

lemma chain_new_chunk:
  assumes "0 < sz" and "0 < n" and "0 < a"
  shows "chain (link_chunk sz n a m) a (chunk_blocks sz n a)"
  using chain_chunk [of sz a 0 n "link_chunk sz n a m"] assms link_chunk_block [OF assms(1)]
  by (simp add: chunk_blocks_def)

lemma distinct_chunk_blocks: "0 < sz \<Longrightarrow> distinct (chunk_blocks sz n a)"
  by (auto simp: chunk_blocks_def distinct_map inj_on_def)

section \<open>Operations on a sound pool\<close>

lemma chunk_blocks_disjoint:
  assumes "apart (n * sz) a c" and "0 < sz"
  shows "set (chunk_blocks sz n a) \<inter> set (chunk_blocks sz n c) = {}"
proof -
  have "b \<notin> set (chunk_blocks sz n c)" if "b \<in> set (chunk_blocks sz n a)" for b
    using chunk_blocks_bound [OF that] chunk_blocks_bound [of b sz n c] assms by (auto simp: apart_def)
  then show ?thesis by blast
qed

lemma allocateChunk_ok:
  assumes ok: "pool_ok sz n p A []" and sz: "0 < sz" and n: "0 < n"
    and fresh: "fresh_region sz n (chunks p) (Some a)" and r: "allocateChunk sz n (Some a) p = Inr p1"
  shows "pool_ok sz n p1 A (chunk_blocks sz n a)"
proof -
  have a: "0 < a" "\<forall>c \<in> set (chunks p). apart (n * sz) a c" using fresh by (simp_all add: fresh_region_def)
  have p1: "p1 = p\<lparr>chunks := chunks p @ [a], next_of := link_chunk sz n a (next_of p), free_blocks := a\<rparr>"
    using r by (simp add: allocateChunk_def)
  have A: "A = pool_blocks sz n (chunks p)" using ok by (auto simp: pool_ok_def)
  have "set (chunk_blocks sz n a) \<inter> A = {}"
    using a(2) chunk_blocks_disjoint [OF _ sz] unfolding A pool_blocks_def by fastforce
  moreover have "a \<notin> set (chunks p)" using a(2) sz n by (auto simp: apart_def)
  moreover have "apart k x y \<longleftrightarrow> apart k y x" for k x y by (auto simp: apart_def)
  ultimately show ?thesis
    using ok a chain_new_chunk [OF sz n a(1)] distinct_chunk_blocks [OF sz]
    unfolding p1 pool_ok_def by (auto simp: pool_blocks_def A)
qed

text \<open>The first free block is handed out.\<close>

lemma take_free:
  "pool_ok sz n p A (b # fs) \<Longrightarrow>
    free_blocks p = b \<and> b \<noteq> 0 \<and> b \<notin> A \<and> b \<in> pool_blocks sz n (chunks p) \<and>
    pool_ok sz n (p\<lparr>free_blocks := next_of p b\<rparr>) (insert b A) fs"
  by (auto simp: pool_ok_def)

lemma allocate_free:
  "pool_ok sz n p A (b # fs) \<Longrightarrow>
    allocate sz n region p = Inr (b, p\<lparr>free_blocks := next_of p b\<rparr>)"
  using take_free [of sz n p A b fs] by (simp add: allocate_def)

lemma allocate_full:
  assumes "pool_ok sz n p A []"
  shows "allocate sz n region p = (case allocateChunk sz n region p of Inl e \<Rightarrow> Inl e
    | Inr p1 \<Rightarrow> Inr (free_blocks p1, p1\<lparr>free_blocks := next_of p1 (free_blocks p1)\<rparr>))"
  using assms by (simp add: allocate_def pool_ok_def)

lemma allocate_ok:
  assumes ok: "pool_ok sz n p A fs" and sz: "0 < sz" and n: "0 < n"
    and fresh: "fresh_region sz n (chunks p) region" and r: "allocate sz n region p = Inr (b, p')"
  shows "b \<noteq> 0 \<and> b \<notin> A \<and> b \<in> pool_blocks sz n (chunks p') \<and> (\<exists>fs'. pool_ok sz n p' (insert b A) fs') \<and>
    (chunks p' = chunks p \<or> fs = [])"
proof (cases fs)
  case (Cons x xs)
  then show ?thesis using take_free [of sz n p A x xs] allocate_free [of sz n p A x xs region] ok r by auto
next
  case Nil
  obtain a where a: "region = Some a"
    using r allocate_full [of sz n p A region] ok Nil by (cases region) (auto simp: allocateChunk_def)
  obtain p1 where p1: "allocateChunk sz n (Some a) p = Inr p1" by (simp add: allocateChunk_def)
  have ok1: "pool_ok sz n p1 A (chunk_blocks sz n a)"
    using allocateChunk_ok [OF _ sz n _ p1] ok fresh Nil a by simp
  have cb: "chunk_blocks sz n a = a # map (\<lambda>i. a + i * sz) [1 ..< n]"
    using n by (simp add: chunk_blocks_def upt_conv_Cons)
  have "free_blocks p1 = a" using take_free [OF ok1 [unfolded cb]] by simp
  then have "(b, p') = (a, p1\<lparr>free_blocks := next_of p1 a\<rparr>)"
    using r allocate_full [of sz n p A region] ok Nil a p1 by simp
  then show ?thesis using take_free [OF ok1 [unfolded cb]] Nil by auto
qed

lemma address_in_chunks_block:
  assumes "0 < sz" and "c \<in> set cs" and "i < n"
    and "\<forall>x \<in> set cs. \<forall>y \<in> set cs. x \<noteq> y \<longrightarrow> apart (n * sz) x y"
  shows "address_in_chunks sz n (c + i * sz) cs \<longleftrightarrow> i mod sz = 0"
  using assms(2,4)
proof (induction cs)
  case (Cons x cs)
  have in_c: "c + i * sz < c + n * sz" using assms(1,3) by simp
  show ?case
  proof (cases "x = c")
    case True
    then show ?thesis using in_c assms(1) by simp
  next
    case False
    then have "apart (n * sz) x c" "c \<in> set cs" using Cons.prems by auto
    then have "\<not> (x \<le> c + i * sz \<and> c + i * sz < x + n * sz)"
      using in_c unfolding apart_def by linarith
    then show ?thesis using Cons.IH Cons.prems \<open>c \<in> set cs\<close> by auto
  qed
qed simp

lemma deallocate_block:
  assumes "pool_ok sz n p A fs" and "0 < sz" and "c \<in> set (chunks p)" and "i < n"
  shows "deallocate sz n (c + i * sz) p =
    (if i mod sz = 0 then Inr (p\<lparr>next_of := (next_of p)(c + i * sz := free_blocks p), free_blocks := c + i * sz\<rparr>)
     else Inl NotFromPool)"
proof -
  have "0 < c" using assms(1,3) by (auto simp: pool_ok_def)
  moreover have "isAddressInPool sz n (c + i * sz) p \<longleftrightarrow> i mod sz = 0"
    unfolding isAddressInPool_def using assms by (intro address_in_chunks_block) (auto simp: pool_ok_def)
  ultimately show ?thesis by (simp add: deallocate_def)
qed

lemma pool_blocks_cases:
  assumes "b \<in> pool_blocks sz n cs"
  obtains c i where "c \<in> set cs" "i < n" "b = c + i * sz"
  using assms by (auto simp: pool_blocks_def chunk_blocks_def)

lemma deallocate_ok:
  assumes "pool_ok sz n p A fs" and "0 < sz" and "b \<in> A" and "deallocate sz n b p = Inr p'"
  shows "pool_ok sz n p' (A - {b}) (b # fs)"
proof -
  have "b \<in> pool_blocks sz n (chunks p)" using assms(1,3) by (auto simp: pool_ok_def)
  then obtain c i where ci: "c \<in> set (chunks p)" "i < n" "b = c + i * sz" by (rule pool_blocks_cases)
  then have "0 < b" using assms(1) by (auto simp: pool_ok_def)
  have b: "b \<notin> set fs" using assms(1,3) by (auto simp: pool_ok_def)
  have p': "p' = p\<lparr>next_of := (next_of p)(b := free_blocks p), free_blocks := b\<rparr>"
    using deallocate_block [OF assms(1,2) ci(1,2)] assms(4) ci(3) by (simp split: if_splits)
  have "chain ((next_of p)(b := free_blocks p)) (free_blocks p) fs"
    using assms(1) b by (intro chain_frame) (auto simp: pool_ok_def)
  then show ?thesis using assms(1,3) b \<open>0 < b\<close> unfolding p' pool_ok_def by auto
qed

lemma pool_reach_ok: "pool_reach sz n p A \<Longrightarrow> 0 < sz \<Longrightarrow> 0 < n \<Longrightarrow> \<exists>fs. pool_ok sz n p A fs"
proof (induction rule: pool_reach.induct)
  case init
  then show ?case by (intro exI [of _ "[]"]) (simp add: pool_ok_def new_pool_def pool_blocks_def)
next
  case (alloc p A region b p')
  then show ?case using allocate_ok by blast
next
  case (dealloc p A b p')
  then show ?case using deallocate_ok by blast
qed

lemma blocks_apart:
  assumes ok: "pool_ok sz n p A fs" and x: "x \<in> pool_blocks sz n (chunks p)" and y: "y \<in> pool_blocks sz n (chunks p)"
    and ne: "x \<noteq> y"
  shows "apart sz x y"
proof -
  obtain c i where x': "c \<in> set (chunks p)" "i < n" "x = c + i * sz" using x by (rule pool_blocks_cases)
  obtain d j where y': "d \<in> set (chunks p)" "j < n" "y = d + j * sz" using y by (rule pool_blocks_cases)
  show ?thesis
  proof (cases "c = d")
    case True
    then consider "Suc i \<le> j" | "Suc j \<le> i" using ne x' y' by fastforce
    then show ?thesis
    proof cases
      case 1
      then have "Suc i * sz \<le> j * sz" by (rule mult_le_mono1)
      then show ?thesis using True x' y' by (simp add: apart_def)
    next
      case 2
      then have "Suc j * sz \<le> i * sz" by (rule mult_le_mono1)
      then show ?thesis using True x' y' by (simp add: apart_def)
    qed
  next
    case False
    then have "apart (n * sz) c d" using ok x' y' by (auto simp: pool_ok_def)
    moreover have "x \<in> set (chunk_blocks sz n c)" "y \<in> set (chunk_blocks sz n d)"
      using x' y' by (auto simp: chunk_blocks_def)
    then have "c \<le> x" "x + sz \<le> c + n * sz" "d \<le> y" "y + sz \<le> d + n * sz"
      using chunk_blocks_bound by blast+
    ultimately show ?thesis by (auto simp: apart_def)
  qed
qed

section \<open>Properties\<close>

text \<open>
  C22: A pool never hands out a block that is in use. For every client that gives back only what
  it holds, and an \<^verbatim>\<open>aligned_alloc\<close> that returns regions apart from the chunks it has
  already given, each block handed out is not null, is not held by the client, lies in a
  chunk of the pool, and overlaps no block the client holds.
\<close>

theorem pool_no_overlap:
  assumes "pool_reach sz n p A" and "0 < sz" and "0 < n"
    and "fresh_region sz n (chunks p) region" and "allocate sz n region p = Inr (b, p')"
  shows "b \<noteq> 0 \<and> b \<notin> A \<and> (\<exists>c \<in> set (chunks p'). \<exists>i < n. b = c + i * sz) \<and>
    (\<forall>a \<in> A. b + sz \<le> a \<or> a + sz \<le> b)"
proof -
  obtain fs where "pool_ok sz n p A fs" using pool_reach_ok assms(1-3) by blast
  then obtain fs' where b: "b \<noteq> 0" "b \<notin> A" "b \<in> pool_blocks sz n (chunks p')" and ok: "pool_ok sz n p' (insert b A) fs'"
    using allocate_ok [OF _ assms(2-5)] by blast
  have "apart sz b a" if "a \<in> A" for a
    using blocks_apart [OF ok b(3)] ok that b(2) by (auto simp: pool_ok_def)
  then show ?thesis using b by (auto simp: apart_def elim!: pool_blocks_cases)
qed

theorem pool_no_overlap_witness:
  "let p = new_pool; p' = \<lparr>free_blocks = 72, chunks = [64], next_of = (\<lambda>_. 0)(64 := 72, 72 := 0)\<rparr> in
   (64 :: nat) \<noteq> 0 \<and> 64 \<notin> ({} :: nat set) \<and> (\<exists>c \<in> set (chunks p'). \<exists>i < 2. (64 :: nat) = c + i * 8) \<and>
    (\<forall>a \<in> ({} :: nat set). 64 + 8 \<le> a \<or> a + 8 \<le> 64)"
  unfolding Let_def
  by (rule pool_no_overlap [OF pool_reach.init, of 8 2 "Some 64"])
    (simp_all add: fresh_region_def new_pool_def allocate_def allocateChunk_def link_chunk_def)

lemma free_all:
  "distinct cs \<Longrightarrow> set cs \<subseteq> live \<Longrightarrow>
    foldl (\<lambda>l c. Option.bind l (free_chunk c)) (Some live) cs = Some (live - set cs)"
proof (induction cs arbitrary: live)
  case (Cons c cs)
  then have c: "free_chunk c live = Some (live - {c})" "set cs \<subseteq> live - {c}" "distinct cs"
    by (auto simp: free_chunk_def)
  have "live - set (c # cs) = live - {c} - set cs" by auto
  then show ?case using Cons.IH [OF c(3,2)] c(1) by simp
qed simp

text \<open>
  The destructor takes back every chunk exactly once and nothing else, whatever the clients did
  before, blocks they still hold included: these then point into freed memory.
\<close>

theorem pool_destroyed:
  assumes "pool_reach sz n p A" and "0 < sz" and "0 < n" and "others \<inter> set (chunks p) = {}"
  shows "destroy_pool p (others \<union> set (chunks p)) = Some others \<and>
    (\<forall>b \<in> A. \<exists>c \<in> set (chunks p) - others. c \<le> b \<and> b + sz \<le> c + n * sz)"
proof -
  obtain fs where ok: "pool_ok sz n p A fs" using pool_reach_ok assms(1-3) by blast
  then have d: "distinct (chunks p)" and A: "A \<subseteq> pool_blocks sz n (chunks p)" by (auto simp: pool_ok_def)
  have "others \<union> set (chunks p) - set (chunks p) = others" using assms(4) by blast
  then have "destroy_pool p (others \<union> set (chunks p)) = Some others"
    using free_all [OF d, of "others \<union> set (chunks p)"] by (simp add: destroy_pool_def)
  moreover have "\<exists>c \<in> set (chunks p) - others. c \<le> b \<and> b + sz \<le> c + n * sz" if "b \<in> A" for b
  proof -
    obtain c where "c \<in> set (chunks p)" "b \<in> set (chunk_blocks sz n c)"
      using A \<open>b \<in> A\<close> by (auto simp: pool_blocks_def)
    then show ?thesis using chunk_blocks_bound assms(4) by blast
  qed
  ultimately show ?thesis by blast
qed

theorem pool_destroyed_witness:
  "destroy_pool \<lparr>free_blocks = 72, chunks = [64], next_of = (\<lambda>_. 0)(64 := 72, 72 := 0)\<rparr> {8, 64} = Some {8}"
proof -
  let ?p1 = "\<lparr>free_blocks = 72, chunks = [64], next_of = (\<lambda>_. 0)(64 := 72, 72 := 0)\<rparr>"
  have 1: "allocate 8 2 (Some 64) new_pool = Inr (64, ?p1)"
    by (simp add: new_pool_def allocate_def allocateChunk_def link_chunk_def)
  have "pool_reach 8 2 ?p1 {64}"
    by (rule pool_reach.alloc [OF pool_reach.init _ 1]) (simp add: fresh_region_def new_pool_def)
  from pool_destroyed [OF this, of "{8}"] show ?thesis by (simp add: insert_commute)
qed

text \<open>
  A pool asks for a chunk only when every block is in use: an allocation keeps the chunks as
  they are whenever some block of the pool is not held, and then it cannot fail; when all
  are held it fails exactly if \<^verbatim>\<open>aligned_alloc\<close> does.
\<close>

theorem pool_chunk_demand:
  assumes "pool_reach sz n p A" and "0 < sz" and "0 < n"
  shows "if A = pool_blocks sz n (chunks p)
    then (case region of None \<Rightarrow> allocate sz n region p = Inl BadAlloc
          | Some a \<Rightarrow> \<exists>p'. allocate sz n region p = Inr (a, p') \<and> chunks p' = chunks p @ [a])
    else \<exists>b p'. allocate sz n region p = Inr (b, p') \<and> chunks p' = chunks p \<and> b \<in> pool_blocks sz n (chunks p) - A"
proof -
  obtain fs where ok: "pool_ok sz n p A fs" using pool_reach_ok assms by blast
  show ?thesis
  proof (cases fs)
    case Nil
    then have "A = pool_blocks sz n (chunks p)" using ok by (auto simp: pool_ok_def)
    moreover have "allocate sz n region p = (case allocateChunk sz n region p of Inl e \<Rightarrow> Inl e
        | Inr p1 \<Rightarrow> Inr (free_blocks p1, p1\<lparr>free_blocks := next_of p1 (free_blocks p1)\<rparr>))"
      using ok Nil by (intro allocate_full) simp
    ultimately show ?thesis by (auto simp: allocateChunk_def split: option.splits)
  next
    case (Cons b xs)
    then have "b \<in> pool_blocks sz n (chunks p)" "b \<notin> A" using take_free [of sz n p A b xs] ok by simp_all
    moreover from this have "A \<noteq> pool_blocks sz n (chunks p)" by blast
    ultimately show ?thesis using allocate_free [of sz n p A b xs region] ok Cons by auto
  qed
qed

theorem pool_chunk_demand_witness:
  "if ({} :: nat set) = pool_blocks 8 2 (chunks new_pool)
    then (case Some 64 of None \<Rightarrow> allocate 8 2 (Some 64) new_pool = Inl BadAlloc
          | Some a \<Rightarrow> \<exists>p'. allocate 8 2 (Some 64) new_pool = Inr (a, p') \<and> chunks p' = chunks new_pool @ [a])
    else \<exists>b p'. allocate 8 2 (Some 64) new_pool = Inr (b, p') \<and> chunks p' = chunks new_pool \<and>
      b \<in> pool_blocks 8 2 (chunks new_pool) - {}"
  by (rule pool_chunk_demand [OF pool_reach.init]) simp_all

text \<open>
  A block in use is taken back exactly if its index in its chunk is a multiple of the size
  of a block: \<open>isAddressInPool\<close> applies the modulo to a difference of block pointers, which
  is already an index. All the other blocks are refused with \<open>NotFromPool\<close>, so they can
  never be returned; a block that is taken back is the next one handed out.
\<close>

theorem pool_deallocate_exact:
  assumes "pool_reach sz n p A" and "0 < sz" and "0 < n" and "c \<in> set (chunks p)" and "i < n"
    and "c + i * sz \<in> A"
  shows "if i mod sz = 0
    then \<exists>p'. deallocate sz n (c + i * sz) p = Inr p' \<and>
      (\<exists>p''. allocate sz n region p' = Inr (c + i * sz, p'') \<and> free_blocks p'' = free_blocks p)
    else deallocate sz n (c + i * sz) p = Inl NotFromPool"
proof -
  obtain fs where ok: "pool_ok sz n p A fs" using pool_reach_ok assms(1-3) by blast
  then have "0 < c" using assms(4) by (auto simp: pool_ok_def)
  then show ?thesis using deallocate_block [OF ok assms(2,4,5)] by (simp add: allocate_def)
qed

theorem pool_deallocate_exact_witness:
  "if (1 :: nat) mod 8 = 0
    then \<exists>p'. deallocate 8 2 (64 + 1 * 8) \<lparr>free_blocks = 0, chunks = [64], next_of = (\<lambda>_. 0)(64 := 72, 72 := 0)\<rparr> = Inr p' \<and>
      (\<exists>p''. allocate 8 2 None p' = Inr (64 + 1 * 8, p'') \<and>
        free_blocks p'' = free_blocks \<lparr>free_blocks = 0, chunks = [64], next_of = (\<lambda>_. 0)(64 := 72, 72 := 0)\<rparr>)
    else deallocate 8 2 (64 + 1 * 8) \<lparr>free_blocks = 0, chunks = [64], next_of = (\<lambda>_. 0)(64 := 72, 72 := 0)\<rparr> = Inl NotFromPool"
proof (rule pool_deallocate_exact)
  let ?p1 = "\<lparr>free_blocks = 72, chunks = [64], next_of = (\<lambda>_. 0)(64 := 72, 72 := 0)\<rparr>"
  have 1: "allocate 8 2 (Some 64) new_pool = Inr (64, ?p1)"
    by (simp add: new_pool_def allocate_def allocateChunk_def link_chunk_def)
  have 2: "allocate 8 2 None ?p1 = Inr (72, \<lparr>free_blocks = 0, chunks = [64], next_of = (\<lambda>_. 0)(64 := 72, 72 := 0)\<rparr>)"
    by (simp add: allocate_def)
  have "pool_reach 8 2 ?p1 {64}"
    by (rule pool_reach.alloc [OF pool_reach.init _ 1]) (simp add: fresh_region_def new_pool_def)
  then show "pool_reach 8 2 \<lparr>free_blocks = 0, chunks = [64], next_of = (\<lambda>_. 0)(64 := 72, 72 := 0)\<rparr> {72, 64}"
    by (rule pool_reach.alloc [OF _ _ 2]) (simp add: fresh_region_def)
qed simp_all

text \<open>
  A block that is given back twice is handed out twice: the pool accepts the second return,
  and the next two allocations give the same block to two holders.
\<close>

theorem pool_double_free:
  assumes "pool_reach sz n p A" and "0 < sz" and "0 < n" and "c \<in> set (chunks p)" and "i < n"
    and "c + i * sz \<in> A" and "i mod sz = 0"
  shows "\<exists>p1 p2 p3 p4. deallocate sz n (c + i * sz) p = Inr p1 \<and> deallocate sz n (c + i * sz) p1 = Inr p2 \<and>
    allocate sz n None p2 = Inr (c + i * sz, p3) \<and> allocate sz n None p3 = Inr (c + i * sz, p4)"
proof -
  let ?b = "c + i * sz"
  obtain fs where ok: "pool_ok sz n p A fs" using pool_reach_ok assms(1-3) by blast
  then have pos: "0 < c" using assms(4) by (auto simp: pool_ok_def)
  let ?p1 = "p\<lparr>next_of := (next_of p)(?b := free_blocks p), free_blocks := ?b\<rparr>"
  have d1: "deallocate sz n ?b p = Inr ?p1" using deallocate_block [OF ok assms(2,4,5)] assms(7) by simp
  have ok1: "pool_ok sz n ?p1 (A - {?b}) (?b # fs)" using deallocate_ok [OF ok assms(2,6) d1] .
  have d2: "deallocate sz n ?b ?p1 = Inr (?p1\<lparr>next_of := (next_of ?p1)(?b := ?b), free_blocks := ?b\<rparr>)"
    using deallocate_block [OF ok1 assms(2) _ assms(5), of c] assms(4,7) by simp
  show ?thesis using d1 d2 pos by (simp add: allocate_def)
qed

theorem pool_double_free_witness:
  "\<exists>p1 p2 p3 p4. deallocate 8 2 (64 + 0 * 8) \<lparr>free_blocks = 72, chunks = [64], next_of = (\<lambda>_. 0)(64 := 72, 72 := 0)\<rparr> = Inr p1 \<and>
    deallocate 8 2 (64 + 0 * 8) p1 = Inr p2 \<and>
    allocate 8 2 None p2 = Inr (64 + 0 * 8, p3) \<and> allocate 8 2 None p3 = Inr (64 + 0 * 8, p4)"
proof (rule pool_double_free)
  have 1: "allocate 8 2 (Some 64) new_pool =
      Inr (64, \<lparr>free_blocks = 72, chunks = [64], next_of = (\<lambda>_. 0)(64 := 72, 72 := 0)\<rparr>)"
    by (simp add: new_pool_def allocate_def allocateChunk_def link_chunk_def)
  show "pool_reach 8 2 \<lparr>free_blocks = 72, chunks = [64], next_of = (\<lambda>_. 0)(64 := 72, 72 := 0)\<rparr> {64}"
    by (rule pool_reach.alloc [OF pool_reach.init _ 1]) (simp add: fresh_region_def new_pool_def)
qed simp_all

text \<open>
  The allocator breaks object lifetimes: the calls a container makes for one element,
  allocate, construct, destroy, deallocate, construct the object twice and destroy it twice,
  because the object pool behind the allocator also constructs and destroys.
\<close>

theorem pa_double_lifetime:
  assumes "pa_allocate sz n region op_new 1 (p, calls) = Inr (b, s1)" and "b \<noteq> 0"
  shows "snd (snd (pa_deallocate sz n b 1 (pa_destroy b (pa_construct b s1)))) =
    calls @ [Constructed b, Constructed b, Destroyed b, Destroyed b]"
  using assms
  by (auto simp: pa_allocate_def object_allocate_def pa_deallocate_def object_deallocate_def
      pa_construct_def pa_destroy_def Let_def split: sum.splits)

theorem pa_double_lifetime_witness:
  "snd (snd (pa_deallocate 8 2 64 1 (pa_destroy 64 (pa_construct 64
      (\<lparr>free_blocks = 72, chunks = [64], next_of = (\<lambda>_. 0)(64 := 72, 72 := 0)\<rparr>, [Constructed 64]))))) =
    [] @ [Constructed 64, Constructed 64, Destroyed 64, Destroyed 64]"
  by (rule pa_double_lifetime [of 8 2 "Some 64" 0 new_pool])
    (simp_all add: pa_allocate_def object_allocate_def new_pool_def allocate_def allocateChunk_def link_chunk_def)

end
