(* ===== verification/Queue_Interface.thy ===== *)
theory Queue_Interface
  imports Prelude
begin

text \<open>
  The contract of the FIFO containers of \<^verbatim>\<open>src/core/data\<close>. A container is used through
  \<open>push\<close> (which may refuse) and \<open>pop\<close> (which may find nothing); both are atomic for
  the caller, so the behaviour of any number of threads is the behaviour of one sequence
  of operations, in the order in which they took effect. The clients of the contract are
  \<^verbatim>\<open>PacketCapture\<close> and \<^verbatim>\<open>PacketAnalyzer\<close>, which push packets and ignore the result.
\<close>

section \<open>Sequences of operations\<close>

datatype 'a queue_op = PushOp 'a | PopOp

text \<open>
  \<open>queue_run push pop ops q\<close> performs the operations in order and returns the items that
  were accepted, the items that were popped, and the final container.
\<close>

fun queue_run :: "('a \<Rightarrow> 'q \<Rightarrow> bool \<times> 'q) \<Rightarrow> ('q \<Rightarrow> 'a option \<times> 'q) \<Rightarrow> 'a queue_op list \<Rightarrow> 'q
    \<Rightarrow> 'a list \<times> 'a list \<times> 'q" where
  "queue_run push pop [] q = ([], [], q)"
| "queue_run push pop (PushOp x # ops) q =
     (let (ok, q') = push x q; (acc, out, q'') = queue_run push pop ops q'
      in (if ok then x # acc else acc, out, q''))"
| "queue_run push pop (PopOp # ops) q =
     (let (r, q') = pop q; (acc, out, q'') = queue_run push pop ops q'
      in (acc, (case r of None \<Rightarrow> out | Some x \<Rightarrow> x # out), q''))"

text \<open>A client that pushes every item and ignores what \<open>push\<close> says.\<close>

definition push_all :: "('a \<Rightarrow> 'q \<Rightarrow> bool \<times> 'q) \<Rightarrow> 'a list \<Rightarrow> 'q \<Rightarrow> 'q" where
  "push_all push xs q = foldl (\<lambda>q x. snd (push x q)) q xs"

lemma push_all_simps [simp]:
  "push_all push [] q = q"
  "push_all push (x # xs) q = push_all push xs (snd (push x q))"
  by (simp_all add: push_all_def)

lemma push_all_append: "push_all push (xs @ ys) q = push_all push ys (push_all push xs q)"
  by (simp add: push_all_def)

section \<open>The contract\<close>

locale fifo =
  fixes push :: "'a \<Rightarrow> 'q \<Rightarrow> bool \<times> 'q"
    and pop :: "'q \<Rightarrow> 'a option \<times> 'q"
    and contents :: "'q \<Rightarrow> 'a list"
    and inv :: "'q \<Rightarrow> bool"
  assumes push_inv: "inv q \<Longrightarrow> inv (snd (push x q))"
    and push_accepted: "inv q \<Longrightarrow> fst (push x q) \<Longrightarrow> contents (snd (push x q)) = contents q @ [x]"
    and push_refused: "inv q \<Longrightarrow> \<not> fst (push x q) \<Longrightarrow> contents (snd (push x q)) = contents q"
    and pop_inv: "inv q \<Longrightarrow> inv (snd (pop q))"
    and pop_none: "inv q \<Longrightarrow> contents q = [] \<Longrightarrow> pop q = (None, q)"
    and pop_some: "inv q \<Longrightarrow> contents q = x # xs \<Longrightarrow>
      fst (pop q) = Some x \<and> contents (snd (pop q)) = xs"
begin

lemma push_contents:
  "inv q \<Longrightarrow> contents (snd (push x q)) = contents q @ (if fst (push x q) then [x] else [])"
  by (simp add: push_accepted push_refused)

lemma pop_contents:
  "inv q \<Longrightarrow> contents q = (case fst (pop q) of None \<Rightarrow> [] | Some x \<Rightarrow> [x]) @ contents (snd (pop q))"
  by (cases "contents q") (auto simp: pop_none pop_some)

text \<open>
  Nothing is lost, duplicated or reordered: whatever the interleaving, the popped items
  followed by what is left are the initial contents followed by the accepted items.
\<close>

lemma run_conserves:
  "inv q \<Longrightarrow> queue_run push pop ops q = (acc, out, q') \<Longrightarrow>
     inv q' \<and> out @ contents q' = contents q @ acc"
proof (induction ops arbitrary: q acc out q')
  case (Cons op ops)
  show ?case
  proof (cases op)
    case (PushOp x)
    obtain ok q1 where p: "push x q = (ok, q1)" by fastforce
    obtain acc1 out1 q2 where r: "queue_run push pop ops q1 = (acc1, out1, q2)"
      by (metis prod_cases3)
    have "inv q1" and c: "contents q1 = contents q @ (if ok then [x] else [])"
      using push_inv [OF Cons.prems(1), of x] push_contents [OF Cons.prems(1), of x] p by auto
    with Cons.IH [OF _ r] Cons.prems(2) show ?thesis
      by (auto simp: PushOp p r split: if_splits)
  next
    case PopOp
    obtain v q1 where p: "pop q = (v, q1)" by fastforce
    obtain acc1 out1 q2 where r: "queue_run push pop ops q1 = (acc1, out1, q2)"
      by (metis prod_cases3)
    have "inv q1" and c: "contents q = (case v of None \<Rightarrow> [] | Some x \<Rightarrow> [x]) @ contents q1"
      using pop_inv [OF Cons.prems(1)] pop_contents [OF Cons.prems(1)] p by auto
    with Cons.IH [OF _ r] Cons.prems(2) show ?thesis
      by (auto simp: PopOp p r split: option.splits)
  qed
qed auto

text \<open>The count of what is left is what was accepted minus what was popped.\<close>

lemma run_length:
  assumes "inv q" and "queue_run push pop ops q = (acc, out, q')"
  shows "length (contents q') + length out = length (contents q) + length acc"
proof -
  have "out @ contents q' = contents q @ acc" using run_conserves [OF assms] ..
  then have "length (out @ contents q') = length (contents q @ acc)" by simp
  then show ?thesis by simp
qed

lemma push_all_inv: "inv q \<Longrightarrow> inv (push_all push xs q)"
  by (induction xs arbitrary: q) (auto simp: push_inv)

end

text \<open>A container that refuses exactly when it holds \<open>capacity\<close> items.\<close>

locale bounded_fifo = fifo +
  fixes capacity :: nat
  assumes accepts_iff: "inv q \<Longrightarrow> fst (push x q) \<longleftrightarrow> length (contents q) < capacity"
    and within: "inv q \<Longrightarrow> length (contents q) \<le> capacity"
begin

text \<open>
  A client that only pushes keeps the \<^emph>\<open>oldest\<close> items: once the container is full every
  later item is dropped.
\<close>

lemma push_all_contents:
  "inv q \<Longrightarrow> contents (push_all push xs q) = take capacity (contents q @ xs)"
proof (induction xs arbitrary: q)
  case Nil
  then show ?case using within [of q] by simp
next
  case (Cons x xs)
  have i: "inv (snd (push x q))" by (rule push_inv [OF Cons.prems])
  show ?case
  proof (cases "length (contents q) < capacity")
    case True
    then have "contents (snd (push x q)) = contents q @ [x]"
      using Cons.prems accepts_iff push_accepted by blast
    then show ?thesis using Cons.IH [OF i] by simp
  next
    case False
    then have len: "length (contents q) = capacity" using within [OF Cons.prems] by simp
    have "contents (snd (push x q)) = contents q"
      using False Cons.prems accepts_iff push_refused by blast
    then show ?thesis using Cons.IH [OF i] len by simp
  qed
qed

lemma full_frozen:
  "inv q \<Longrightarrow> length (contents q) = capacity \<Longrightarrow> contents (push_all push xs q) = contents q"
  by (simp add: push_all_contents)

end

text \<open>A container that never refuses.\<close>

locale unbounded_fifo = fifo +
  assumes accepts: "inv q \<Longrightarrow> fst (push x q)"
begin

lemma push_all_unbounded: "inv q \<Longrightarrow> contents (push_all push xs q) = contents q @ xs"
  by (induction xs arbitrary: q) (auto simp: push_inv accepts push_accepted)

end

end
