(* ===== verification/Lock_Free_Queue.thy ===== *)
theory Lock_Free_Queue
  imports Queue_Interface
begin

text \<open>
  \<^verbatim>\<open>core/data/lock_free_queue.hpp\<close>: a linked queue worked on by any number of threads. Each
  access to an atomic, to a node and to the heap is one step of one thread; the steps of the
  threads interleave freely (sequential consistency). A null pointer is 0. \<^verbatim>\<open>new\<close> gives
  addresses that were never used, so what is reachable here is reachable with an allocator
  that reuses memory, too. A step that touches a node that is not allocated is \<open>None\<close>.
\<close>

section \<open>State\<close>

record 'a node =
  data :: "'a option"
  nxt :: nat

record 'a lfq =
  heap :: "nat \<rightharpoonup> 'a node"
  lf_head :: nat
  lf_tail :: nat
  lf_size :: u64
  brk :: nat

definition lf_new :: "'a option \<Rightarrow> 'a lfq \<Rightarrow> nat \<times> 'a lfq" where
  "lf_new d q = (brk q, q\<lparr>heap := (heap q)(brk q \<mapsto> \<lparr>data = d, nxt = 0\<rparr>), brk := Suc (brk q)\<rparr>)"

definition LockFreeQueue :: "'a lfq" where
  "LockFreeQueue =
     (let (dummy, q) = lf_new None \<lparr>heap = Map.empty, lf_head = 0, lf_tail = 0, lf_size = 0, brk = 1\<rparr>
      in q\<lparr>lf_head := dummy, lf_tail := dummy\<rparr>)"

section \<open>The threads\<close>

text \<open>
  Where a thread stands, with its local variables: \<open>n\<close> the new node, \<open>e\<close> the variable
  \<open>null_node\<close>, which a failed exchange overwrites, \<open>ot\<close> \<open>old_tail\<close>, \<open>nx\<close> \<open>next\<close>, \<open>oh\<close>
  \<open>old_head\<close>.
\<close>

datatype 'a pc =
    PushLoadTail nat nat
  | PushLoadNext nat nat nat
  | PushCheck nat nat nat nat
  | PushLink nat nat nat
  | PushHelp nat nat nat nat
  | PushSwing nat nat
  | PushCount
  | PushDone
  | PopLoadHead
  | PopLoadNext nat
  | PopCas nat nat
  | PopData nat nat
  | PopDelete nat "'a option"
  | PopCount "'a option"
  | PopDone "'a option"

text \<open>\<^verbatim>\<open>tail_.compare_exchange_weak(expected, desired)\<close>; \<open>spur\<close> is a spurious failure.\<close>

definition cas_tail :: "bool \<Rightarrow> nat \<Rightarrow> nat \<Rightarrow> 'a lfq \<Rightarrow> 'a lfq" where
  "cas_tail spur expected desired q =
     (if lf_tail q = expected \<and> \<not> spur then q\<lparr>lf_tail := desired\<rparr> else q)"

fun push_step :: "bool \<Rightarrow> 'a pc \<Rightarrow> 'a lfq \<Rightarrow> ('a pc \<times> 'a lfq) option" where
  "push_step spur (PushLoadTail n e) q = Some (PushLoadNext n e (lf_tail q), q)"
| "push_step spur (PushLoadNext n e ot) q =
     (case heap q ot of None \<Rightarrow> None | Some nd \<Rightarrow> Some (PushCheck n e ot (nxt nd), q))"
| "push_step spur (PushCheck n e ot nx) q =
     Some (if ot = lf_tail q then (if nx = 0 then PushLink n e ot else PushHelp n e ot nx)
           else PushLoadTail n e, q)"
| "push_step spur (PushLink n e ot) q =
     (case heap q ot of None \<Rightarrow> None
      | Some nd \<Rightarrow>
         if nxt nd = e \<and> \<not> spur
         then Some (PushSwing n ot, q\<lparr>heap := (heap q)(ot \<mapsto> nd\<lparr>nxt := n\<rparr>)\<rparr>)
         else Some (PushLoadTail n (nxt nd), q))"
| "push_step spur (PushHelp n e ot nx) q = Some (PushLoadTail n e, cas_tail spur ot nx q)"
| "push_step spur (PushSwing n ot) q = Some (PushCount, cas_tail spur ot n q)"
| "push_step spur PushCount q = Some (PushDone, q\<lparr>lf_size := lf_size q + 1\<rparr>)"
| "push_step spur pc q = Some (pc, q)"

fun pop_step :: "bool \<Rightarrow> 'a pc \<Rightarrow> 'a lfq \<Rightarrow> ('a pc \<times> 'a lfq) option" where
  "pop_step spur PopLoadHead q = Some (PopLoadNext (lf_head q), q)"
| "pop_step spur (PopLoadNext oh) q =
     (case heap q oh of None \<Rightarrow> None
      | Some nd \<Rightarrow> Some (if nxt nd = 0 then PopDone None else PopCas oh (nxt nd), q))"
| "pop_step spur (PopCas oh nx) q =
     Some (if lf_head q = oh \<and> \<not> spur then (PopData oh nx, q\<lparr>lf_head := nx\<rparr>)
           else (PopLoadNext (lf_head q), q))"
| "pop_step spur (PopData oh nx) q =
     (case heap q nx of None \<Rightarrow> None | Some nd \<Rightarrow> Some (PopDelete oh (data nd), q))"
| "pop_step spur (PopDelete oh r) q =
     (case heap q oh of None \<Rightarrow> None
      | Some nd \<Rightarrow> Some (PopCount r, q\<lparr>heap := (heap q)(oh := None)\<rparr>))"
| "pop_step spur (PopCount r) q = Some (PopDone r, q\<lparr>lf_size := lf_size q - 1\<rparr>)"
| "pop_step spur pc q = Some (pc, q)"

fun is_push :: "'a pc \<Rightarrow> bool" where
  "is_push (PushLoadTail _ _) = True"
| "is_push (PushLoadNext _ _ _) = True"
| "is_push (PushCheck _ _ _ _) = True"
| "is_push (PushLink _ _ _) = True"
| "is_push (PushHelp _ _ _ _) = True"
| "is_push (PushSwing _ _) = True"
| "is_push PushCount = True"
| "is_push PushDone = True"
| "is_push _ = False"

definition lf_step :: "bool \<Rightarrow> 'a pc \<Rightarrow> 'a lfq \<Rightarrow> ('a pc \<times> 'a lfq) option" where
  "lf_step spur pc q = (if is_push pc then push_step spur pc q else pop_step spur pc q)"

definition lf_size_of :: "'a lfq \<Rightarrow> u64" where
  "lf_size_of q = lf_size q"

definition lf_empty :: "'a lfq \<Rightarrow> bool" where
  "lf_empty q \<longleftrightarrow> lf_size q = 0"

text \<open>A call of \<open>push\<close> makes its node before the loop.\<close>

definition begin_push :: "'a \<Rightarrow> 'a lfq \<Rightarrow> 'a pc \<times> 'a lfq" where
  "begin_push v q = (let (n, q1) = lf_new (Some v) q in (PushLoadTail n 0, q1))"

section \<open>One thread alone\<close>

fun run_alone :: "nat \<Rightarrow> 'a pc \<times> 'a lfq \<Rightarrow> ('a pc \<times> 'a lfq) option" where
  "run_alone 0 s = Some s"
| "run_alone (Suc k) s =
     (case lf_step False (fst s) (snd s) of None \<Rightarrow> None | Some s' \<Rightarrow> run_alone k s')"

text \<open>
  A whole operation without interference takes at most six steps; a state in which it has
  not ended or has failed is left as it is.
\<close>

definition lf_push :: "'a \<Rightarrow> 'a lfq \<Rightarrow> bool \<times> 'a lfq" where
  "lf_push v q = (case run_alone 6 (begin_push v q) of Some (PushDone, q1) \<Rightarrow> (True, q1) | _ \<Rightarrow> (False, q))"

definition lf_pop :: "'a lfq \<Rightarrow> 'a option \<times> 'a lfq" where
  "lf_pop q = (case run_alone 6 (PopLoadHead, q) of Some (PopDone r, q1) \<Rightarrow> (r, q1) | _ \<Rightarrow> (None, q))"

text \<open>The nodes reached from an address.\<close>

fun lpath :: "(nat \<rightharpoonup> 'a node) \<Rightarrow> nat \<Rightarrow> nat list \<Rightarrow> bool" where
  "lpath h a [] = (a = 0)"
| "lpath h a (x # xs) = (a = x \<and> x \<noteq> 0 \<and> (\<exists>nd. h x = Some nd \<and> lpath h (nxt nd) xs))"

definition node_data :: "(nat \<rightharpoonup> 'a node) \<Rightarrow> nat \<Rightarrow> 'a option" where
  "node_data h a = Option.bind (h a) data"

lemma lpath_upd: "lpath h a xs \<Longrightarrow> x \<notin> set xs \<Longrightarrow> lpath (h(x := v)) a xs"
  by (induction xs arbitrary: a) auto

lemma lpath_dom: "lpath h a xs \<Longrightarrow> set xs \<subseteq> dom h \<and> 0 \<notin> set xs"
  by (induction xs arbitrary: a) auto

lemma lpath_last: "lpath h a xs \<Longrightarrow> x \<in> set xs \<Longrightarrow> h x = Some nd \<Longrightarrow> nxt nd = 0 \<Longrightarrow> distinct xs \<Longrightarrow> x = last xs"
proof (induction xs arbitrary: a)
  case (Cons y ys)
  then show ?case
    by (cases ys) auto
qed simp

lemma lpath_snoc:
  "lpath h a xs \<Longrightarrow> xs \<noteq> [] \<Longrightarrow> distinct xs \<Longrightarrow> h (last xs) = Some nd \<Longrightarrow> h n = Some \<lparr>data = d, nxt = 0\<rparr> \<Longrightarrow>
    n \<notin> set xs \<Longrightarrow> n \<noteq> 0 \<Longrightarrow> lpath (h(last xs \<mapsto> nd\<lparr>nxt := n\<rparr>)) a (xs @ [n])"
proof (induction xs arbitrary: a)
  case (Cons y ys)
  show ?case
  proof (cases "ys = []")
    case True
    then show ?thesis using Cons.prems by auto
  next
    case False
    then have "y \<noteq> last ys" using Cons.prems(3) by auto
    then show ?thesis using Cons False by auto
  qed
qed simp

lemma lpath_last_null: "lpath h a xs \<Longrightarrow> xs \<noteq> [] \<Longrightarrow> \<exists>nd. h (last xs) = Some nd \<and> nxt nd = 0"
  by (induction xs arbitrary: a) auto

lemma lpath_next_in: "lpath h a xs \<Longrightarrow> x \<in> set xs \<Longrightarrow> h x = Some nd \<Longrightarrow> nxt nd = 0 \<or> nxt nd \<in> set xs"
proof (induction xs arbitrary: a)
  case (Cons y ys)
  then show ?case by (cases ys) auto
qed simp

text \<open>Addresses in use are not null and below the next new one.\<close>

definition addr_ok :: "'a lfq \<Rightarrow> bool" where
  "addr_ok q \<longleftrightarrow> 0 < brk q \<and> (\<forall>a \<in> dom (heap q). 0 < a \<and> a < brk q)"

lemma addr_okD:
  "addr_ok q \<Longrightarrow> heap q 0 = None" "addr_ok q \<Longrightarrow> heap q (brk q) = None"
  by (auto simp: addr_ok_def dom_def)

text \<open>Between operations of a single thread the tail is the last node.\<close>

definition quiet :: "'a lfq \<Rightarrow> nat list \<Rightarrow> bool" where
  "quiet q ns \<longleftrightarrow> ns \<noteq> [] \<and> distinct ns \<and> lpath (heap q) (lf_head q) ns \<and> lf_tail q = last ns \<and>
     addr_ok q \<and> (\<forall>a \<in> set (tl ns). node_data (heap q) a \<noteq> None)"

definition lf_inv :: "'a lfq \<Rightarrow> bool" where
  "lf_inv q \<longleftrightarrow> (\<exists>ns. quiet q ns)"

text \<open>The contents, read by walking from the head.\<close>

fun walk :: "nat \<Rightarrow> (nat \<rightharpoonup> 'a node) \<Rightarrow> nat \<Rightarrow> 'a list" where
  "walk 0 h a = []"
| "walk (Suc k) h a =
     (case h a of None \<Rightarrow> []
      | Some nd \<Rightarrow> (case data nd of None \<Rightarrow> [] | Some v \<Rightarrow> [v]) @ walk k h (nxt nd))"

definition lf_contents :: "'a lfq \<Rightarrow> 'a list" where
  "lf_contents q = (case heap q (lf_head q) of None \<Rightarrow> [] | Some nd \<Rightarrow> walk (brk q) (heap q) (nxt nd))"

lemma walk_lpath:
  "lpath h a xs \<Longrightarrow> length xs \<le> k \<Longrightarrow> h 0 = None \<Longrightarrow> \<forall>x \<in> set xs. node_data h x \<noteq> None \<Longrightarrow>
    walk k h a = map (\<lambda>x. the (node_data h x)) xs"
proof (induction xs arbitrary: a k)
  case Nil
  then show ?case by (cases k) auto
next
  case (Cons x xs)
  then show ?case by (cases k) (auto simp: node_data_def split: option.splits)
qed

lemma path_length:
  assumes "addr_ok q" and "lpath (heap q) a ns" and "distinct ns"
  shows "length ns < brk q"
proof -
  have "set ns \<subseteq> {1 ..< brk q}"
  proof
    fix x assume "x \<in> set ns"
    then have "x \<in> dom (heap q)" using lpath_dom [OF assms(2)] by blast
    then have "0 < x \<and> x < brk q" using assms(1) by (simp add: addr_ok_def)
    then show "x \<in> {1 ..< brk q}" by simp
  qed
  then have "card (set ns) \<le> card {1 ..< brk q}" by (intro card_mono) auto
  then show ?thesis using distinct_card [OF assms(3)] assms(1) by (auto simp: addr_ok_def)
qed

lemma path_contents:
  assumes "addr_ok q" and "lpath (heap q) (lf_head q) (x # ns)" and "distinct (x # ns)"
    and "\<forall>a \<in> set ns. node_data (heap q) a \<noteq> None"
  shows "lf_contents q = map (\<lambda>a. the (node_data (heap q) a)) ns"
proof -
  obtain nd where nd: "heap q x = Some nd" "lpath (heap q) (nxt nd) ns" "lf_head q = x" using assms(2) by auto
  have "length ns \<le> brk q" using path_length [OF assms(1-3)] by simp
  then show ?thesis
    using walk_lpath [OF nd(2) _ addr_okD(1) [OF assms(1)] assms(4)] nd by (simp add: lf_contents_def)
qed

lemma quiet_contents: "quiet q (x # ns) \<Longrightarrow> lf_contents q = map (\<lambda>a. the (node_data (heap q) a)) ns"
  by (rule path_contents) (auto simp: quiet_def)

lemma map_data_cong:
  "(\<And>a. a \<noteq> n \<Longrightarrow> f a = g a) \<Longrightarrow> n \<notin> set ns \<Longrightarrow> map (\<lambda>a. the (f a)) ns = map (\<lambda>a. the (g a)) ns"
  by (induction ns) auto

lemma lf_push_quiet:
  assumes "quiet q (x # ns)"
  shows "fst (lf_push v q) \<and> quiet (snd (lf_push v q)) (x # ns @ [brk q]) \<and>
    lf_contents (snd (lf_push v q)) = lf_contents q @ [v] \<and> lf_size (snd (lf_push v q)) = lf_size q + 1 \<and>
    dom (heap (snd (lf_push v q))) = insert (brk q) (dom (heap q))"
proof -
  let ?n = "brk q" and ?l = "last (x # ns)"
  have q: "distinct (x # ns)" "lpath (heap q) (lf_head q) (x # ns)" "lf_tail q = ?l" "addr_ok q"
    "\<forall>a \<in> set ns. node_data (heap q) a \<noteq> None"
    using assms by (auto simp: quiet_def)
  obtain nd where nd: "heap q ?l = Some nd" "nxt nd = 0" using lpath_last_null [OF q(2)] by auto
  have fresh: "heap q ?n = None" "?n \<noteq> 0" using q(4) addr_okD(2) by (auto simp: addr_ok_def)
  then have nin: "?n \<notin> set (x # ns)" using lpath_dom [OF q(2)] by (metis domIff subsetD)
  have "?l \<in> set (x # ns)" by (rule last_in_set) simp
  then have ne: "?l \<noteq> ?n" using nin by metis
  let ?h1 = "(heap q)(?n \<mapsto> \<lparr>data = Some v, nxt = 0\<rparr>)"
  let ?h2 = "?h1(?l \<mapsto> nd\<lparr>nxt := ?n\<rparr>)"
  let ?q = "q\<lparr>heap := ?h2, lf_tail := ?n, lf_size := lf_size q + 1, brk := Suc ?n\<rparr>"
  have run: "lf_push v q = (True, ?q)"
    using nd q(3) ne
    by (simp add: lf_push_def begin_push_def lf_new_def numeral_eq_Suc lf_step_def cas_tail_def)
  have "lpath ?h1 (lf_head q) (x # ns)" using q(2) nin by (rule lpath_upd)
  then have path: "lpath ?h2 (lf_head q) (x # ns @ [?n])"
    using lpath_snoc [of ?h1 "lf_head q" "x # ns" nd ?n "Some v"] q(1) nd ne nin fresh(2) by auto
  have data: "node_data ?h2 a = node_data (heap q) a" if "a \<noteq> ?n" for a
    using that nd by (auto simp: node_data_def)
  have datan: "node_data ?h2 ?n = Some v" using ne by (simp add: node_data_def)
  have dat: "\<forall>a \<in> set (ns @ [?n]). node_data ?h2 a \<noteq> None"
  proof
    fix a assume "a \<in> set (ns @ [?n])"
    then show "node_data ?h2 a \<noteq> None" using data [of a] datan q(5) by (cases "a = ?n") simp_all
  qed
  have ok: "addr_ok ?q" using q(4) nd by (auto simp: addr_ok_def dom_def)
  have quiet: "quiet ?q (x # ns @ [?n])" using path dat ok q(1) nin by (simp add: quiet_def)
  have "map (\<lambda>a. the (node_data ?h2 a)) ns = map (\<lambda>a. the (node_data (heap q) a)) ns"
    using data nin by (intro map_data_cong) auto
  then have "lf_contents ?q = lf_contents q @ [v]"
    using quiet_contents [OF quiet] quiet_contents [OF assms] datan by simp
  moreover have "dom ?h2 = insert ?n (dom (heap q))" using nd(1) by (auto simp: dom_def)
  ultimately show ?thesis using run quiet by simp
qed

lemma lf_pop_quiet_empty: "quiet q [x] \<Longrightarrow> lf_pop q = (None, q)"
  by (auto simp: quiet_def lf_pop_def numeral_eq_Suc lf_step_def)

lemma lf_pop_quiet:
  assumes "quiet q (x # y # ns)"
  shows "fst (lf_pop q) = Some (the (node_data (heap q) y)) \<and> quiet (snd (lf_pop q)) (y # ns) \<and>
    lf_contents (snd (lf_pop q)) = tl (lf_contents q) \<and> lf_size (snd (lf_pop q)) = lf_size q - 1 \<and>
    dom (heap (snd (lf_pop q))) = dom (heap q) - {x}"
proof -
  have q: "distinct (x # y # ns)" "lpath (heap q) (lf_head q) (x # y # ns)" "lf_tail q = last (y # ns)" "addr_ok q"
    "\<forall>a \<in> set (y # ns). node_data (heap q) a \<noteq> None"
    using assms by (auto simp: quiet_def)
  obtain nx ny where nd: "heap q x = Some nx" "nxt nx = y" "heap q y = Some ny" "y \<noteq> 0" "lf_head q = x"
    using q(2) by auto
  obtain v where v: "data ny = Some v" using q(5) nd(3) by (auto simp: node_data_def)
  let ?q = "q\<lparr>heap := (heap q)(x := None), lf_head := y, lf_size := lf_size q - 1\<rparr>"
  have run: "lf_pop q = (Some v, ?q)"
    using nd v q(1) by (simp add: lf_pop_def numeral_eq_Suc lf_step_def)
  have path: "lpath ((heap q)(x := None)) y (y # ns)"
    using q(1,2) nd by (intro lpath_upd) auto
  have data: "node_data ((heap q)(x := None)) a = node_data (heap q) a" if "a \<noteq> x" for a
    using that by (simp add: node_data_def)
  have ok: "addr_ok ?q" using q(4) by (auto simp: addr_ok_def)
  have "\<forall>a \<in> set ns. node_data ((heap q)(x := None)) a \<noteq> None"
  proof
    fix a assume "a \<in> set ns"
    moreover from this have "a \<noteq> x" using q(1) by auto
    ultimately show "node_data ((heap q)(x := None)) a \<noteq> None" using data q(5) by simp
  qed
  then have quiet: "quiet ?q (y # ns)" using q path ok by (simp add: quiet_def)
  have "map (\<lambda>a. the (node_data ((heap q)(x := None)) a)) ns = map (\<lambda>a. the (node_data (heap q) a)) ns"
    using data q(1) by (intro map_data_cong) auto
  then have "lf_contents ?q = tl (lf_contents q)"
    using quiet_contents [OF quiet] quiet_contents [OF assms] by simp
  then show ?thesis using run quiet nd v by (simp add: node_data_def)
qed

lemma quiet_init: "quiet LockFreeQueue [1]"
  by (simp add: LockFreeQueue_def lf_new_def quiet_def addr_ok_def)

lemma lf_inv_cases:
  assumes "lf_inv q"
  obtains x ns where "quiet q (x # ns)"
proof -
  obtain ns where "quiet q ns" using assms by (auto simp: lf_inv_def)
  then show ?thesis using that by (cases ns) (auto simp: quiet_def)
qed

text \<open>A single thread sees an unbounded FIFO.\<close>

interpretation lfqueue: unbounded_fifo lf_push lf_pop lf_contents lf_inv
proof
  fix q :: "'a lfq" and v x :: 'a and xs :: "'a list"
  assume "lf_inv q"
  then obtain d ns where q: "quiet q (d # ns)" by (rule lf_inv_cases)
  note p = lf_push_quiet [OF q]
  show "lf_inv (snd (lf_push v q))" using p by (auto simp: lf_inv_def)
  show "lf_contents (snd (lf_push v q)) = lf_contents q @ [v]" using p by simp
  show "fst (lf_push v q)" using p by simp
  show "\<not> fst (lf_push v q) \<Longrightarrow> lf_contents (snd (lf_push v q)) = lf_contents q" using p by simp
  have empty: "ns = [] \<Longrightarrow> lf_pop q = (None, q)" using q lf_pop_quiet_empty by simp
  show "lf_inv (snd (lf_pop q))"
  proof (cases ns)
    case Nil
    then show ?thesis using empty \<open>lf_inv q\<close> by simp
  next
    case (Cons y ns')
    then show ?thesis using lf_pop_quiet [of q d y ns'] q by (auto simp: lf_inv_def)
  qed
  show "lf_contents q = [] \<Longrightarrow> lf_pop q = (None, q)"
    using empty quiet_contents [OF q] by (cases ns) auto
  assume c: "lf_contents q = x # xs"
  then obtain y ns' where ns: "ns = y # ns'" using quiet_contents [OF q] by (cases ns) auto
  then show "fst (lf_pop q) = Some x \<and> lf_contents (snd (lf_pop q)) = xs"
    using lf_pop_quiet [OF q [unfolded ns]] quiet_contents [OF q [unfolded ns]] c by simp
qed

section \<open>Destruction\<close>

text \<open>The destructor: the loop that pops until nothing is left, and the deletion of the dummy node.\<close>

partial_function (option) drain :: "'a lfq \<Rightarrow> 'a lfq option" where
  "drain q = (case lf_pop q of (None, q1) \<Rightarrow> Some q1 | (Some _, q1) \<Rightarrow> drain q1)"

definition delete_node :: "nat \<Rightarrow> 'a lfq \<Rightarrow> 'a lfq option" where
  "delete_node a q = (case heap q a of None \<Rightarrow> None | Some _ \<Rightarrow> Some (q\<lparr>heap := (heap q)(a := None)\<rparr>))"

definition destroy_queue :: "'a lfq \<Rightarrow> 'a lfq option" where
  "destroy_queue q = Option.bind (drain q) (\<lambda>q. delete_node (lf_head q) q)"

text \<open>The heap holds the nodes of the queue and no other.\<close>

definition tight :: "'a lfq \<Rightarrow> nat list \<Rightarrow> bool" where
  "tight q ns \<longleftrightarrow> quiet q ns \<and> dom (heap q) = set ns"

lemma tight_init: "tight LockFreeQueue [1]"
  unfolding tight_def using quiet_init by (auto simp: LockFreeQueue_def lf_new_def split: if_splits)

lemma tight_push:
  assumes "tight q (x # ns)"
  shows "tight (snd (lf_push v q)) (x # ns @ [brk q])"
  using assms lf_push_quiet [of q x ns v] by (simp add: tight_def insert_commute)

lemma tight_pop:
  assumes "tight q (x # y # ns)"
  shows "tight (snd (lf_pop q)) (y # ns) \<and> fst (lf_pop q) \<noteq> None"
  using assms lf_pop_quiet [of q x y ns] by (auto simp: tight_def quiet_def)

lemma tight_run:
  "tight q (x # ns) \<Longrightarrow> \<exists>y ms. tight (snd (snd (queue_run lf_push lf_pop ops q))) (y # ms)"
proof (induction ops arbitrary: q x ns)
  case (Cons op ops)
  show ?case
  proof (cases op)
    case (PushOp v)
    then show ?thesis
      using Cons.IH [OF tight_push [OF Cons.prems, of v]] by (simp add: Let_def case_prod_beta)
  next
    case PopOp
    have "\<exists>z ks. tight (snd (lf_pop q)) (z # ks)"
    proof (cases ns)
      case Nil
      then have "lf_pop q = (None, q)" using Cons.prems lf_pop_quiet_empty [of q x] by (simp add: tight_def)
      then show ?thesis using Cons.prems by auto
    next
      case (Cons y ks)
      then show ?thesis using tight_pop [of q x y ks] \<open>tight q (x # ns)\<close> by blast
    qed
    then show ?thesis using Cons.IH by (auto simp: PopOp Let_def case_prod_beta)
  qed
qed auto

lemma drain_tight:
  "tight q (x # ns) \<Longrightarrow> \<exists>q1. drain q = Some q1 \<and> tight q1 [last (x # ns)]"
proof (induction ns arbitrary: q x)
  case Nil
  then have "lf_pop q = (None, q)" using lf_pop_quiet_empty [of q x] by (simp add: tight_def)
  then show ?case using Nil by (subst drain.simps) simp
next
  case (Cons y ns)
  obtain v where "fst (lf_pop q) = Some v" using tight_pop [OF Cons.prems] by blast
  then have "drain q = drain (snd (lf_pop q))"
    by (subst drain.simps) (auto split: prod.splits)
  then show ?case using Cons.IH tight_pop [OF Cons.prems] by simp
qed

text \<open>
  The destructor returns and leaks nothing. Whatever pushes and pops came before, the loop that
  pops ends, every node is deleted exactly once (a second deletion has no result), and no node
  is left.
\<close>

theorem queue_destroyed:
  "\<exists>q. destroy_queue (snd (snd (queue_run lf_push lf_pop ops LockFreeQueue))) = Some q \<and> heap q = Map.empty"
proof -
  obtain y ms where t: "tight (snd (snd (queue_run lf_push lf_pop ops LockFreeQueue))) (y # ms)"
    using tight_run [OF tight_init] by blast
  obtain q where q: "drain (snd (snd (queue_run lf_push lf_pop ops LockFreeQueue))) = Some q"
    "tight q [last (y # ms)]"
    using drain_tight [OF t] by blast
  have "lf_head q = last (y # ms)" "dom (heap q) = {last (y # ms)}"
    using q(2) by (auto simp: tight_def quiet_def)
  then have "\<exists>nd. heap q (lf_head q) = Some nd" "(heap q)(lf_head q := None) = Map.empty"
    by (auto simp: dom_def fun_eq_iff)
  then show ?thesis using q(1) by (auto simp: destroy_queue_def delete_node_def)
qed

section \<open>Many threads\<close>

text \<open>
  The threads by number, the values each has called \<open>push\<close> with, and the log of the links: an
  entry is added when a thread's exchange on \<open>next\<close> succeeds. \<open>pops\<close> says whether threads
  may call \<open>pop\<close>.
\<close>

record 'a system =
  queue :: "'a lfq"
  pcs :: "nat \<Rightarrow> 'a pc"
  called :: "nat \<Rightarrow> 'a list"
  linked :: "(nat \<times> 'a) list"

definition sys_init :: "'a system" where
  "sys_init = \<lparr>queue = LockFreeQueue, pcs = (\<lambda>_. PushDone), called = (\<lambda>_. []), linked = []\<rparr>"

fun at_rest :: "'a pc \<Rightarrow> bool" where
  "at_rest PushDone = True"
| "at_rest (PopDone _) = True"
| "at_rest _ = False"

fun is_link :: "'a pc \<Rightarrow> 'a pc \<Rightarrow> bool" where
  "is_link (PushLink _ _ _) (PushSwing _ _) = True"
| "is_link _ _ = False"

definition call_push :: "nat \<Rightarrow> 'a \<Rightarrow> 'a system \<Rightarrow> 'a system" where
  "call_push t v s =
     (let (pc, q) = begin_push v (queue s)
      in s\<lparr>queue := q, pcs := (pcs s)(t := pc), called := (called s)(t := called s t @ [v])\<rparr>)"

definition call_pop :: "nat \<Rightarrow> 'a system \<Rightarrow> 'a system" where
  "call_pop t s = s\<lparr>pcs := (pcs s)(t := PopLoadHead)\<rparr>"

definition sys_step :: "nat \<Rightarrow> bool \<Rightarrow> 'a system \<Rightarrow> 'a system option" where
  "sys_step t spur s =
     map_option (\<lambda>(pc, q).
       s\<lparr>queue := q, pcs := (pcs s)(t := pc),
         linked := linked s @ (if is_link (pcs s t) pc then [(t, last (called s t))] else [])\<rparr>)
       (lf_step spur (pcs s t) (queue s))"

inductive sys_reach :: "bool \<Rightarrow> 'a system \<Rightarrow> bool" for pops where
  init: "sys_reach pops sys_init"
| push: "sys_reach pops s \<Longrightarrow> at_rest (pcs s t) \<Longrightarrow> sys_reach pops (call_push t v s)"
| pop: "sys_reach pops s \<Longrightarrow> pops \<Longrightarrow> at_rest (pcs s t) \<Longrightarrow> sys_reach pops (call_pop t s)"
| step: "sys_reach pops s \<Longrightarrow> \<not> at_rest (pcs s t) \<Longrightarrow> sys_step t spur s = Some s' \<Longrightarrow> sys_reach pops s'"

subsection \<open>Invariant of producers\<close>

text \<open>The node a thread has made and not yet linked.\<close>

fun own :: "'a pc \<Rightarrow> nat option" where
  "own (PushLoadTail n _) = Some n"
| "own (PushLoadNext n _ _) = Some n"
| "own (PushCheck n _ _ _) = Some n"
| "own (PushLink n _ _) = Some n"
| "own (PushHelp n _ _ _) = Some n"
| "own _ = None"

definition next_in :: "(nat \<rightharpoonup> 'a node) \<Rightarrow> nat \<Rightarrow> nat" where
  "next_in h a = (case h a of None \<Rightarrow> 0 | Some nd \<Rightarrow> nxt nd)"

text \<open>
  What a thread knows: the addresses it holds are of linked nodes, and the expected value of
  its next exchange is null or cannot be what it will find.
\<close>

definition expect_ok :: "nat list \<Rightarrow> nat \<Rightarrow> bool" where
  "expect_ok ns e \<longleftrightarrow> e = 0 \<or> e \<in> set ns"

fun thread_ok :: "(nat \<rightharpoonup> 'a node) \<Rightarrow> nat list \<Rightarrow> 'a pc \<Rightarrow> bool" where
  "thread_ok h ns (PushLoadTail n e) = expect_ok ns e"
| "thread_ok h ns (PushLoadNext n e ot) = (expect_ok ns e \<and> ot \<in> set ns)"
| "thread_ok h ns (PushCheck n e ot nx) =
     (expect_ok ns e \<and> ot \<in> set ns \<and> (nx = 0 \<longrightarrow> e = 0 \<or> next_in h ot \<noteq> e) \<and> (nx \<noteq> 0 \<longrightarrow> nx \<in> set ns))"
| "thread_ok h ns (PushLink n e ot) =
     (expect_ok ns e \<and> ot \<in> set ns \<and> (e = 0 \<or> next_in h ot \<noteq> e))"
| "thread_ok h ns (PushHelp n e ot nx) = (expect_ok ns e \<and> nx \<in> set ns)"
| "thread_ok h ns (PushSwing n ot) = (n \<in> set ns)"
| "thread_ok h ns pc = is_push pc"

definition path_ok :: "'a lfq \<Rightarrow> nat list \<Rightarrow> (nat \<times> 'a) list \<Rightarrow> bool" where
  "path_ok q ns lk \<longleftrightarrow> ns \<noteq> [] \<and> distinct ns \<and> lpath (heap q) (lf_head q) ns \<and> lf_tail q \<in> set ns \<and>
     addr_ok q \<and> map (node_data (heap q)) (tl ns) = map (\<lambda>p. Some (snd p)) lk"

definition log_of :: "nat \<Rightarrow> (nat \<times> 'a) list \<Rightarrow> 'a list" where
  "log_of t lk = map snd (filter (\<lambda>p. fst p = t) lk)"

definition thread_inv :: "'a system \<Rightarrow> nat list \<Rightarrow> nat \<Rightarrow> bool" where
  "thread_inv s ns t \<longleftrightarrow> thread_ok (heap (queue s)) ns (pcs s t) \<and>
     (own (pcs s t) = None \<longrightarrow> log_of t (linked s) = called s t) \<and>
     (\<forall>n. own (pcs s t) = Some n \<longrightarrow>
        called s t \<noteq> [] \<and> log_of t (linked s) = butlast (called s t) \<and> n \<notin> set ns \<and>
        heap (queue s) n = Some \<lparr>data = Some (last (called s t)), nxt = 0\<rparr> \<and>
        (\<forall>u. u \<noteq> t \<longrightarrow> own (pcs s u) \<noteq> Some n))"

definition producers_ok :: "'a system \<Rightarrow> nat list \<Rightarrow> bool" where
  "producers_ok s ns \<longleftrightarrow> path_ok (queue s) ns (linked s) \<and> (\<forall>t. thread_inv s ns t)"

lemma thread_ok_frame:
  assumes "thread_ok h ns pc" and "\<And>a. a \<in> set ns \<Longrightarrow> h' a = h a"
  shows "thread_ok h' ns pc"
  using assms by (cases pc) (auto simp: next_in_def)

lemma thread_ok_link:
  assumes "thread_ok h ns pc" and "l \<in> set ns" and "n \<notin> set ns" and "n \<noteq> 0" and "h l = Some nd"
  shows "thread_ok (h(l \<mapsto> nd\<lparr>nxt := n\<rparr>)) (ns @ [n]) pc"
  using assms by (cases pc) (auto simp: next_in_def expect_ok_def)

lemma path_node: "path_ok q ns lk \<Longrightarrow> a \<in> set ns \<Longrightarrow> \<exists>nd. heap q a = Some nd"
  unfolding path_ok_def using lpath_dom by blast

text \<open>Steps that leave the heap as it is.\<close>

lemma producers_local:
  assumes ok: "producers_ok s ns" and h: "heap q' = heap (queue s)" "lf_head q' = lf_head (queue s)"
    "brk q' = brk (queue s)" "lf_tail q' \<in> set ns"
    and pc: "own pc' = own (pcs s t)" "thread_ok (heap (queue s)) ns pc'"
  shows "producers_ok (s\<lparr>queue := q', pcs := (pcs s)(t := pc'), linked := linked s @ []\<rparr>) ns"
proof -
  let ?s = "s\<lparr>queue := q', pcs := (pcs s)(t := pc'), linked := linked s @ []\<rparr>"
  have own: "own (((pcs s)(t := pc')) u) = own (pcs s u)" for u using pc(1) by simp
  have "thread_inv ?s ns u" for u
  proof -
    have "thread_inv s ns u" using ok by (simp add: producers_ok_def)
    moreover from this have "thread_ok (heap (queue s)) ns (((pcs s)(t := pc')) u)"
      using pc(2) by (simp add: thread_inv_def)
    ultimately show ?thesis using own h(1) by (simp add: thread_inv_def)
  qed
  moreover have "path_ok (queue ?s) ns (linked ?s)"
    using ok h by (simp add: producers_ok_def path_ok_def addr_ok_def)
  ultimately show ?thesis by (simp add: producers_ok_def)
qed

text \<open>A successful link appends the thread's value.\<close>

lemma producers_link:
  assumes ok: "producers_ok s ns" and pc: "pcs s t = PushLink n e ot"
    and nd: "heap (queue s) ot = Some nd" "nxt nd = e"
  shows "producers_ok (s\<lparr>queue := (queue s)\<lparr>heap := (heap (queue s))(ot \<mapsto> nd\<lparr>nxt := n\<rparr>)\<rparr>,
      pcs := (pcs s)(t := PushSwing n ot), linked := linked s @ [(t, last (called s t))]\<rparr>) (ns @ [n])"
    (is "producers_ok ?s _")
proof -
  let ?h = "heap (queue s)" and ?h' = "(heap (queue s))(ot \<mapsto> nd\<lparr>nxt := n\<rparr>)"
  have inv: "thread_inv s ns u" for u using ok by (simp add: producers_ok_def)
  have p: "ns \<noteq> []" "distinct ns" "lpath ?h (lf_head (queue s)) ns" "lf_tail (queue s) \<in> set ns"
    "addr_ok (queue s)" "map (node_data ?h) (tl ns) = map (\<lambda>p. Some (snd p)) (linked s)"
    using ok by (simp_all add: producers_ok_def path_ok_def)
  have t: "called s t \<noteq> []" "log_of t (linked s) = butlast (called s t)" "n \<notin> set ns"
    "?h n = Some \<lparr>data = Some (last (called s t)), nxt = 0\<rparr>" "\<And>u. u \<noteq> t \<Longrightarrow> own (pcs s u) \<noteq> Some n"
    "ot \<in> set ns" "e = 0 \<or> next_in ?h ot \<noteq> e"
    using inv [of t] pc by (simp_all add: thread_inv_def)
  have "nxt nd = 0" using t(7) nd by (simp add: next_in_def)
  then have last: "ot = last ns" using lpath_last [OF p(3) t(6) nd(1)] p(2) by simp
  have n0: "n \<noteq> 0" using addr_okD(1) [OF p(5)] t(4) by (metis option.distinct(1))
  have path: "lpath ?h' (lf_head (queue s)) (ns @ [n])"
    using lpath_snoc [OF p(3,1,2) _ t(4,3) n0, of nd] nd(1) last by simp
  have ne: "n \<noteq> ot" using t(3,6) by auto
  have data: "node_data ?h' = node_data ?h" by (rule ext) (simp add: node_data_def nd(1))
  have dn: "node_data ?h n = Some (last (called s t))" using t(4) by (simp add: node_data_def)
  have "addr_ok (queue ?s)" using p(5) nd(1) by (auto simp: addr_ok_def dom_def)
  then have "path_ok (queue ?s) (ns @ [n]) (linked ?s)"
    using path p t(3) data dn by (simp add: path_ok_def)
  moreover have "thread_inv ?s (ns @ [n]) u" for u
  proof (cases "u = t")
    case True
    have "called s t = butlast (called s t) @ [last (called s t)]" using t(1) by simp
    then show ?thesis using True t(2) by (simp add: thread_inv_def log_of_def)
  next
    case False
    have "thread_ok ?h' (ns @ [n]) (pcs s u)"
      using inv [of u] thread_ok_link [of ?h ns "pcs s u" ot n nd] t(6,3) n0 nd(1) by (simp add: thread_inv_def)
    moreover have "log_of u (linked s @ [(t, last (called s t))]) = log_of u (linked s)"
      using False by (simp add: log_of_def)
    moreover have "m \<noteq> n \<and> m \<noteq> ot" if "own (pcs s u) = Some m" for m
      using that False t(5,6) inv [of u] by (auto simp: thread_inv_def)
    ultimately show ?thesis
      using inv [of u] False unfolding thread_inv_def by (auto split: option.splits)
  qed
  ultimately show ?thesis unfolding producers_ok_def by blast
qed

lemma producers_call:
  assumes ok: "producers_ok s ns" and rest: "at_rest (pcs s t)"
  shows "producers_ok (call_push t v s) ns"
proof -
  let ?q = "queue s" and ?n = "brk (queue s)"
  let ?h' = "(heap ?q)(?n \<mapsto> \<lparr>data = Some v, nxt = 0\<rparr>)"
  have inv: "thread_inv s ns u" for u using ok by (simp add: producers_ok_def)
  have p: "ns \<noteq> []" "distinct ns" "lpath (heap ?q) (lf_head ?q) ns" "lf_tail ?q \<in> set ns"
    "addr_ok ?q" "map (node_data (heap ?q)) (tl ns) = map (\<lambda>p. Some (snd p)) (linked s)"
    using ok by (simp_all add: producers_ok_def path_ok_def)
  have fresh: "heap ?q ?n = None" using addr_okD(2) [OF p(5)] .
  then have nin: "?n \<notin> set ns" using lpath_dom [OF p(3)] by (metis domIff subsetD)
  have owned: "own (pcs s u) \<noteq> Some ?n" for u
    using inv [of u] fresh by (auto simp: thread_inv_def split: option.splits)
  have call: "call_push t v s = s\<lparr>queue := ?q\<lparr>heap := ?h', brk := Suc ?n\<rparr>,
      pcs := (pcs s)(t := PushLoadTail ?n 0), called := (called s)(t := called s t @ [v])\<rparr>"
    by (simp add: call_push_def begin_push_def lf_new_def)
  have "map (node_data ?h') (tl ns) = map (node_data (heap ?q)) (tl ns)"
    using nin p(1) by (intro map_cong) (auto simp: node_data_def dest: list.set_sel(2))
  moreover have "addr_ok (queue (call_push t v s))"
    using p(5) unfolding call by (auto simp: addr_ok_def intro: less_SucI)
  ultimately have "path_ok (queue (call_push t v s)) ns (linked s)"
    using p lpath_upd [OF p(3) nin] unfolding call by (simp add: path_ok_def)
  moreover have "thread_inv (call_push t v s) ns u" for u
  proof (cases "u = t")
    case True
    have "own (pcs s t) = None" using rest by (cases "pcs s t") auto
    then have "log_of t (linked s) = called s t" using inv [of t] by (simp add: thread_inv_def)
    then show ?thesis using True nin owned unfolding call by (simp add: thread_inv_def expect_ok_def)
  next
    case False
    have "thread_ok ?h' ns (pcs s u)"
    proof (rule thread_ok_frame)
      show "thread_ok (heap ?q) ns (pcs s u)" using inv [of u] unfolding thread_inv_def by blast
      show "?h' a = heap ?q a" if "a \<in> set ns" for a using that nin by (cases "a = ?n") simp_all
    qed
    moreover have "?h' m = heap ?q m \<and> (\<forall>w. w \<noteq> u \<longrightarrow> own (pcs (call_push t v s) w) \<noteq> Some m)"
      if m: "own (pcs s u) = Some m" for m
    proof -
      have "m \<noteq> ?n" using m owned [of u] by auto
      moreover have "own (pcs s w) \<noteq> Some m" if "w \<noteq> u" for w
        using that m inv [of u] by (simp add: thread_inv_def)
      ultimately show ?thesis by (simp add: call)
    qed
    moreover have "pcs (call_push t v s) u = pcs s u" "called (call_push t v s) u = called s u"
      "linked (call_push t v s) = linked s" "heap (queue (call_push t v s)) = ?h'"
      using False by (simp_all add: call)
    ultimately show ?thesis
      using inv [of u] unfolding thread_inv_def by (simp only:) blast
  qed
  moreover have "linked (call_push t v s) = linked s" by (simp add: call)
  ultimately show ?thesis unfolding producers_ok_def by (simp only:) blast
qed

text \<open>Every step of a producer succeeds and keeps the invariant.\<close>

lemma producers_step:
  assumes ok: "producers_ok s ns" and rest: "\<not> at_rest (pcs s t)"
  shows "\<exists>s' ns'. sys_step t spur s = Some s' \<and> producers_ok s' ns'"
proof -
  let ?q = "queue s"
  have p: "path_ok ?q ns (linked s)" and inv: "thread_ok (heap ?q) ns (pcs s t)"
    using ok by (simp_all add: producers_ok_def thread_inv_def)
  have tail: "lf_tail ?q \<in> set ns" using p by (simp add: path_ok_def)
  have local: "\<exists>s' ns'. sys_step t spur s = Some s' \<and> producers_ok s' ns'"
    if "lf_step spur (pcs s t) ?q = Some (pc', q')" "\<not> is_link (pcs s t) pc'"
      "heap q' = heap ?q" "lf_head q' = lf_head ?q" "brk q' = brk ?q" "lf_tail q' \<in> set ns"
      "own pc' = own (pcs s t)" "thread_ok (heap ?q) ns pc'" for pc' q'
    using that producers_local [OF ok, of q' pc' t] by (auto simp: sys_step_def)
  show ?thesis
  proof (cases "pcs s t")
    case (PushLoadTail n e)
    then show ?thesis using inv tail by (intro local [of "PushLoadNext n e (lf_tail ?q)" ?q]) (simp_all add: lf_step_def)
  next
    case (PushLoadNext n e ot)
    then obtain nd where nd: "heap ?q ot = Some nd" using inv path_node [OF p] by auto
    then have "nxt nd \<noteq> 0 \<longrightarrow> nxt nd \<in> set ns"
      using lpath_next_in [of "heap ?q" "lf_head ?q" ns ot nd] p inv PushLoadNext by (auto simp: path_ok_def)
    then show ?thesis using inv tail nd PushLoadNext
      by (intro local [of "PushCheck n e ot (nxt nd)" ?q]) (auto simp: lf_step_def next_in_def)
  next
    case (PushCheck n e ot nx)
    then show ?thesis using inv tail
      by (intro local [of "if ot = lf_tail ?q then (if nx = 0 then PushLink n e ot else PushHelp n e ot nx)
            else PushLoadTail n e" ?q]) (auto simp: lf_step_def)
  next
    case (PushLink n e ot)
    then obtain nd where nd: "heap ?q ot = Some nd" using inv path_node [OF p] by auto
    show ?thesis
    proof (cases "nxt nd = e \<and> \<not> spur")
      case True
      then have "sys_step t spur s = Some (s\<lparr>queue := ?q\<lparr>heap := (heap ?q)(ot \<mapsto> nd\<lparr>nxt := n\<rparr>)\<rparr>,
          pcs := (pcs s)(t := PushSwing n ot), linked := linked s @ [(t, last (called s t))]\<rparr>)"
        using PushLink nd by (simp add: sys_step_def lf_step_def)
      then show ?thesis using producers_link [OF ok PushLink nd] True by blast
    next
      case False
      have "expect_ok ns (nxt nd)"
        using lpath_next_in [of "heap ?q" "lf_head ?q" ns ot nd] p inv nd PushLink
        by (auto simp: path_ok_def expect_ok_def)
      then show ?thesis using inv tail nd False PushLink
        by (intro local [of "PushLoadTail n (nxt nd)" ?q]) (auto simp: lf_step_def)
    qed
  next
    case (PushHelp n e ot nx)
    then show ?thesis using inv tail
      by (intro local [of "PushLoadTail n e" "cas_tail spur ot nx ?q"]) (simp_all add: lf_step_def cas_tail_def)
  next
    case (PushSwing n ot)
    then show ?thesis using inv tail
      by (intro local [of PushCount "cas_tail spur ot n ?q"]) (simp_all add: lf_step_def cas_tail_def)
  next
    case PushCount
    then show ?thesis using inv tail
      by (intro local [of PushDone "?q\<lparr>lf_size := lf_size ?q + 1\<rparr>"]) (simp_all add: lf_step_def)
  qed (use inv rest in simp_all)
qed

lemma producers_init: "producers_ok sys_init [1]"
proof -
  have "path_ok LockFreeQueue [1] []"
    using quiet_init by (simp add: quiet_def path_ok_def)
  then show ?thesis by (simp add: producers_ok_def sys_init_def thread_inv_def log_of_def)
qed

lemma producers_reach: "sys_reach False s \<Longrightarrow> \<exists>ns. producers_ok s ns"
proof (induction rule: sys_reach.induct)
  case init
  then show ?case using producers_init by blast
next
  case (push s t v)
  then obtain ns where ns: "producers_ok s ns" by blast
  show ?case by (rule exI, rule producers_call [OF ns push.hyps(2)])
next
  case (step s t spur s')
  then obtain ns where "producers_ok s ns" by blast
  then show ?case using producers_step [of s ns t spur] step by auto
qed simp

lemma producers_contents:
  assumes "producers_ok s ns"
  shows "lf_contents (queue s) = map snd (linked s)"
proof -
  have p: "path_ok (queue s) ns (linked s)" using assms by (simp add: producers_ok_def)
  then obtain x xs where ns: "ns = x # xs" by (cases ns) (auto simp: path_ok_def)
  have d: "map (node_data (heap (queue s))) xs = map (\<lambda>p. Some (snd p)) (linked s)"
    using p ns by (simp add: path_ok_def)
  have "\<forall>a \<in> set xs. node_data (heap (queue s)) a \<noteq> None"
  proof
    fix a assume "a \<in> set xs"
    then have "node_data (heap (queue s)) a \<in> set (map (\<lambda>p. Some (snd p)) (linked s))"
      unfolding d [symmetric] by simp
    then show "node_data (heap (queue s)) a \<noteq> None" by auto
  qed
  then have "lf_contents (queue s) = map (\<lambda>a. the (node_data (heap (queue s)) a)) xs"
    using p ns by (intro path_contents [of _ x]) (auto simp: path_ok_def)
  also have "\<dots> = map the (map (node_data (heap (queue s))) xs)" by simp
  also have "\<dots> = map snd (linked s)" unfolding d by simp
  finally show ?thesis .
qed

subsection \<open>Schedules\<close>

text \<open>An interleaving written out as a list of events.\<close>

datatype 'a sched = CallPush nat 'a | CallPop nat | Step nat bool

fun run_sched :: "'a sched list \<Rightarrow> 'a system \<Rightarrow> 'a system option" where
  "run_sched [] s = Some s"
| "run_sched (CallPush t v # es) s =
     (if at_rest (pcs s t) then run_sched es (call_push t v s) else None)"
| "run_sched (CallPop t # es) s = (if at_rest (pcs s t) then run_sched es (call_pop t s) else None)"
| "run_sched (Step t spur # es) s =
     (if at_rest (pcs s t) then None
      else case sys_step t spur s of None \<Rightarrow> None | Some s' \<Rightarrow> run_sched es s')"

lemma run_sched_reach: "sys_reach True s \<Longrightarrow> run_sched es s = Some s' \<Longrightarrow> sys_reach True s'"
proof (induction es arbitrary: s)
  case (Cons e es)
  show ?case
  proof (cases e)
    case (CallPush t v)
    then show ?thesis using Cons sys_reach.push [of True s t v] by (auto split: if_splits)
  next
    case (CallPop t)
    then show ?thesis using Cons sys_reach.pop [of True s t] by (auto split: if_splits)
  next
    case (Step t spur)
    then show ?thesis using Cons sys_reach.step [of True s t spur]
      by (auto split: if_splits option.splits)
  qed
qed simp

definition whole_push :: "nat \<Rightarrow> 'a \<Rightarrow> 'a sched list" where
  "whole_push t v = CallPush t v # replicate 6 (Step t False)"

definition whole_pop :: "nat \<Rightarrow> 'a sched list" where
  "whole_pop t = CallPop t # replicate 6 (Step t False)"

section \<open>Properties\<close>

text \<open>
  For one thread the queue is an unbounded FIFO: whatever the sequence of pushes and pops
  on a new queue, every push is accepted, and the popped values followed by the remaining
  contents are the pushed values in order.
\<close>

theorem lock_free_fifo:
  assumes "queue_run lf_push lf_pop ops LockFreeQueue = (acc, out, q)"
  shows "out @ lf_contents q = acc \<and> lf_inv q"
proof -
  have i: "lf_inv LockFreeQueue" using quiet_init by (auto simp: lf_inv_def)
  have "lf_contents LockFreeQueue = []" using quiet_contents [OF quiet_init] by simp
  then show ?thesis using lfqueue.run_conserves [OF i assms] by simp
qed

theorem lock_free_fifo_witness:
  "[7 :: nat] @ lf_contents (snd (snd (queue_run lf_push lf_pop [PushOp 7, PushOp 8, PopOp] LockFreeQueue))) = [7, 8] \<and>
    lf_inv (snd (snd (queue_run lf_push lf_pop [PushOp (7 :: nat), PushOp 8, PopOp] LockFreeQueue)))"
proof (rule lock_free_fifo)
  show "queue_run lf_push lf_pop [PushOp (7 :: nat), PushOp 8, PopOp] LockFreeQueue =
      ([7, 8], [7], snd (snd (queue_run lf_push lf_pop [PushOp 7, PushOp 8, PopOp] LockFreeQueue)))"
    by (simp add: LockFreeQueue_def lf_new_def lf_push_def lf_pop_def begin_push_def numeral_eq_Suc
        lf_step_def cas_tail_def)
qed

text \<open>
  C26: Any number of threads that only push, under every interleaving and with spurious failures
  of the exchanges: no step touches a node that is not allocated, the contents of the queue
  are the linked values in the order of their links, and the values of each thread appear
  in the order in which it pushed them, all of them once its calls have returned.
\<close>

theorem lock_free_producers:
  assumes "sys_reach False s"
  shows "(\<not> at_rest (pcs s t) \<longrightarrow> sys_step t spur s \<noteq> None) \<and>
    lf_contents (queue s) = map snd (linked s) \<and>
    (if own (pcs s t) = None then map snd (filter (\<lambda>p. fst p = t) (linked s)) = called s t
     else map snd (filter (\<lambda>p. fst p = t) (linked s)) = butlast (called s t)) \<and>
    (at_rest (pcs s t) \<longrightarrow> own (pcs s t) = None)"
proof -
  obtain ns where ok: "producers_ok s ns" using producers_reach [OF assms] by blast
  then have "thread_inv s ns t" by (simp add: producers_ok_def)
  then have "if own (pcs s t) = None then log_of t (linked s) = called s t
      else log_of t (linked s) = butlast (called s t)" by (auto simp: thread_inv_def)
  moreover have "at_rest (pcs s t) \<longrightarrow> own (pcs s t) = None" by (cases "pcs s t") auto
  ultimately show ?thesis
    using producers_contents [OF ok] producers_step [OF ok, of t spur] by (auto simp: log_of_def)
qed

theorem lock_free_producers_witness:
  "let s = call_push 1 (5 :: nat) (call_push 0 4 sys_init); t = 0; spur = False in
   (\<not> at_rest (pcs s t) \<longrightarrow> sys_step t spur s \<noteq> None) \<and>
    lf_contents (queue s) = map snd (linked s) \<and>
    (if own (pcs s t) = None then map snd (filter (\<lambda>p. fst p = t) (linked s)) = called s t
     else map snd (filter (\<lambda>p. fst p = t) (linked s)) = butlast (called s t)) \<and>
    (at_rest (pcs s t) \<longrightarrow> own (pcs s t) = None)"
proof -
  have a: "sys_reach False (call_push 0 (4 :: nat) sys_init)"
    by (rule sys_reach.push [OF sys_reach.init]) (simp add: sys_init_def)
  have "sys_reach False (call_push 1 (5 :: nat) (call_push 0 4 sys_init))"
    by (rule sys_reach.push [OF a]) (simp add: call_push_def begin_push_def sys_init_def lf_new_def)
  then show ?thesis unfolding Let_def by (rule lock_free_producers)
qed

text \<open>
  Two consumers are enough for a use after free: one has loaded the head and has not yet
  read its link when the other pops the element and deletes that node. Without any spurious
  failure, a state is reachable in which the next step of the first consumer reads a node
  that is no longer allocated.
\<close>

theorem lock_free_use_after_free:
  "\<exists>s t. sys_reach True s \<and> \<not> at_rest (pcs s t) \<and> sys_step t False s = None \<and> called s 0 = [7 :: nat]"
proof -
  let ?es = "whole_push 0 (7 :: nat) @ [CallPop 1, Step 1 False] @ whole_pop 2"
  let ?s = "the (run_sched ?es sys_init)"
  have run: "run_sched ?es sys_init = Some ?s"
    by (simp add: whole_push_def whole_pop_def numeral_eq_Suc sys_init_def LockFreeQueue_def lf_new_def
        call_push_def begin_push_def call_pop_def sys_step_def lf_step_def cas_tail_def)
  have "sys_reach True ?s" using run_sched_reach [OF sys_reach.init run] .
  moreover have "\<not> at_rest (pcs ?s 1) \<and> sys_step 1 False ?s = None \<and> called ?s 0 = [7]"
    by (simp add: whole_push_def whole_pop_def numeral_eq_Suc sys_init_def LockFreeQueue_def lf_new_def
        call_push_def begin_push_def call_pop_def sys_step_def lf_step_def cas_tail_def)
  ultimately show ?thesis by blast
qed

text \<open>
  The size counter can wrap: a consumer can pop an element whose producer has linked it and
  not yet counted it, and then \<open>size\<close> is the greatest \<^verbatim>\<open>size_t\<close> and \<open>empty\<close> is false on an
  empty queue.
\<close>

theorem lock_free_size_wraps:
  "\<exists>s. sys_reach True s \<and> lf_size_of (queue s) = - 1 \<and> \<not> lf_empty (queue s) \<and>
    lf_contents (queue s) = ([] :: nat list)"
proof -
  let ?es = "CallPush 0 (7 :: nat) # replicate 5 (Step 0 False) @ whole_pop 2"
  let ?s = "the (run_sched ?es sys_init)"
  have run: "run_sched ?es sys_init = Some ?s"
    by (simp add: whole_push_def whole_pop_def numeral_eq_Suc sys_init_def LockFreeQueue_def lf_new_def
        call_push_def begin_push_def call_pop_def sys_step_def lf_step_def cas_tail_def)
  have "sys_reach True ?s" using run_sched_reach [OF sys_reach.init run] .
  moreover have "lf_size_of (queue ?s) = - 1 \<and> \<not> lf_empty (queue ?s) \<and> lf_contents (queue ?s) = []"
    by (simp add: whole_push_def whole_pop_def numeral_eq_Suc sys_init_def LockFreeQueue_def lf_new_def
        call_push_def begin_push_def call_pop_def sys_step_def lf_step_def cas_tail_def lf_size_of_def
        lf_empty_def lf_contents_def)
  ultimately show ?thesis by blast
qed

end
