(* ===== verification/Cpp_String.thy ===== *)
theory Cpp_String
  imports Prelude
begin

text \<open>
  The part of \<^verbatim>\<open>std::string\<close> and of the standard conversions that the code uses, on
  \<open>string\<close> (a list of bytes): searching, cutting, trimming, \<^verbatim>\<open>std::to_string\<close> of integers,
  \<^verbatim>\<open>std::stoi\<close> and its kin. \<open>npos\<close> is \<open>None\<close>; a thrown exception is the left side of a sum.
\<close>

section \<open>Characters\<close>

abbreviation nl :: char where "nl \<equiv> CHR 0x0A"
abbreviation cr :: char where "cr \<equiv> CHR 0x0D"
abbreviation tab :: char where "tab \<equiv> CHR 0x09"
abbreviation dquote :: char where "dquote \<equiv> CHR 0x22"
abbreviation crlf :: string where "crlf \<equiv> [CHR 0x0D, CHR 0x0A]"

definition char_code :: "char \<Rightarrow> nat" where
  "char_code c = of_char c"

text \<open>\<open>isspace\<close> and \<open>isdigit\<close> in the C locale.\<close>

definition is_space :: "char \<Rightarrow> bool" where
  "is_space c \<longleftrightarrow> c = CHR '' '' \<or> (9 \<le> char_code c \<and> char_code c \<le> 13)"

definition is_digit :: "char \<Rightarrow> bool" where
  "is_digit c \<longleftrightarrow> 48 \<le> char_code c \<and> char_code c \<le> 57"

definition digit_val :: "char \<Rightarrow> nat" where
  "digit_val c = char_code c - 48"

definition digit_char :: "nat \<Rightarrow> char" where
  "digit_char d = char_of (48 + d)"

lemma char_code_digit_char [simp]: "d < 10 \<Longrightarrow> char_code (digit_char d) = 48 + d"
  by (simp add: char_code_def digit_char_def of_char_of take_bit_eq_mod)

lemma digit_char_simps [simp]:
  "d < 10 \<Longrightarrow> is_digit (digit_char d)"
  "d < 10 \<Longrightarrow> digit_val (digit_char d) = d"
  by (simp_all add: is_digit_def digit_val_def)

lemma digit_not_space: "is_digit c \<Longrightarrow> \<not> is_space c"
  by (auto simp: is_digit_def is_space_def char_code_def)

text \<open>A string made from bytes, as \<^verbatim>\<open>std::string(data.begin(), data.end())\<close>.\<close>

definition str_of_bytes :: "u8 list \<Rightarrow> string" where
  "str_of_bytes bs = map (\<lambda>b. char_of (unat b)) bs"

definition bytes_of_str :: "string \<Rightarrow> u8 list" where
  "bytes_of_str s = map (\<lambda>c. of_nat (of_char c)) s"

lemma length_str_of_bytes [simp]: "length (str_of_bytes bs) = length bs"
  by (simp add: str_of_bytes_def)

lemma length_bytes_of_str [simp]: "length (bytes_of_str s) = length s"
  by (simp add: bytes_of_str_def)

lemma str_of_bytes_append [simp]: "str_of_bytes (xs @ ys) = str_of_bytes xs @ str_of_bytes ys"
  by (simp add: str_of_bytes_def)

lemma str_of_bytes_take: "str_of_bytes (take n xs) = take n (str_of_bytes xs)"
  by (simp add: str_of_bytes_def take_map)

lemma str_of_bytes_of_str [simp]: "str_of_bytes (bytes_of_str s) = s"
proof -
  have "char_of (unat (of_nat (of_char c) :: u8)) = c" for c
  proof -
    have "(of_char c :: nat) mod 256 = of_char c"
      by (metis char_of_char of_char_of)
    then have "unat (of_nat (of_char c) :: u8) = of_char c" by (simp add: unat_of_nat)
    then show ?thesis by simp
  qed
  then show ?thesis by (simp add: str_of_bytes_def bytes_of_str_def comp_def)
qed

section \<open>Searching\<close>

text \<open>Index of the first occurrence of \<open>pat\<close> in \<open>s\<close>.\<close>

fun find_sub :: "string \<Rightarrow> string \<Rightarrow> nat option" where
  "find_sub pat [] = (if pat = [] then Some 0 else None)"
| "find_sub pat (c # s) =
     (if take (length pat) (c # s) = pat then Some 0 else map_option Suc (find_sub pat s))"

text \<open>\<^verbatim>\<open>s.find(pat, pos)\<close>\<close>

definition str_find :: "string \<Rightarrow> string \<Rightarrow> nat \<Rightarrow> nat option" where
  "str_find s pat pos =
     (if pos \<le> length s then map_option (\<lambda>i. pos + i) (find_sub pat (drop pos s)) else None)"

text \<open>\<^verbatim>\<open>s.substr(pos, n)\<close> and \<^verbatim>\<open>s.substr(pos)\<close>, for a position inside the string.\<close>

definition substr :: "string \<Rightarrow> nat \<Rightarrow> nat \<Rightarrow> string" where
  "substr s pos n = take n (drop pos s)"

definition substr_from :: "string \<Rightarrow> nat \<Rightarrow> string" where
  "substr_from s pos = drop pos s"

lemma find_sub_bound: "find_sub pat s = Some i \<Longrightarrow> i + length pat \<le> length s"
proof (induction s arbitrary: i)
  case (Cons c s)
  show ?case
  proof (cases "take (length pat) (c # s) = pat")
    case True
    then have "length pat \<le> length (c # s)"
      by (metis length_take min.cobounded1)
    with True Cons.prems show ?thesis by simp
  next
    case False
    with Cons.prems obtain j where "find_sub pat s = Some j" "i = Suc j" by auto
    with Cons.IH show ?thesis by simp
  qed
qed (auto split: if_splits)

lemma str_find_bound: "str_find s pat pos = Some i \<Longrightarrow> pos \<le> i \<and> i + length pat \<le> length s"
  by (auto simp: str_find_def split: if_splits dest!: find_sub_bound)

lemma find_sub_occurs: "find_sub pat s = Some i \<Longrightarrow> take (length pat) (drop i s) = pat"
  by (induction s arbitrary: i) (auto split: if_splits)

text \<open>Searching for a single character that the part before does not contain.\<close>

lemma find_char_append:
  "c \<notin> set xs \<Longrightarrow> find_sub [c] (xs @ c # ys) = Some (length xs)"
  by (induction xs) auto

lemma find_char_none: "c \<notin> set s \<Longrightarrow> find_sub [c] s = None"
  by (induction s) auto

lemma find_char_none_iff: "find_sub [c] s = None \<longleftrightarrow> c \<notin> set s"
  by (induction s) auto

lemma find_char_some: "find_sub [c] s = Some i \<Longrightarrow> c \<notin> set (take i s) \<and> i < length s \<and> s ! i = c"
  by (induction s arbitrary: i) (auto split: if_splits)

text \<open>Searching for CR LF in text whose part before has no CR.\<close>

lemma find_crlf_append:
  "cr \<notin> set xs \<Longrightarrow> find_sub crlf (xs @ crlf @ ys) = Some (length xs)"
  by (induction xs) auto

lemma find_crlf_none: "cr \<notin> set s \<Longrightarrow> find_sub crlf s = None"
  by (induction s) (auto split: list.splits)

text \<open>Text in which the first character of the pattern does not occur is skipped.\<close>

lemma find_sub_skip:
  "c \<notin> set xs \<Longrightarrow> find_sub (c # pat) (xs @ ys) = map_option (\<lambda>i. length xs + i) (find_sub (c # pat) ys)"
  by (induction xs; cases "find_sub (c # pat) ys") auto

lemma str_find_append:
  "str_find (xs @ ys) pat (length xs) = map_option (\<lambda>i. length xs + i) (find_sub pat ys)"
  by (simp add: str_find_def)

lemma str_find_0 [simp]: "str_find s pat 0 = find_sub pat s"
  by (cases "find_sub pat s") (simp_all add: str_find_def)

lemma substr_0_append [simp]: "substr (xs @ ys) 0 (length xs) = xs"
  by (simp add: substr_def)

lemma substr_append [simp]: "substr (xs @ ys @ zs) (length xs) (length ys) = ys"
  by (simp add: substr_def)

lemma find_sub_prefix: "take (length pat) s = pat \<Longrightarrow> find_sub pat s = Some 0"
  by (cases s) auto

section \<open>Trimming\<close>

definition drop_while_front :: "(char \<Rightarrow> bool) \<Rightarrow> string \<Rightarrow> string" where
  "drop_while_front P s = dropWhile P s"

definition drop_while_back :: "(char \<Rightarrow> bool) \<Rightarrow> string \<Rightarrow> string" where
  "drop_while_back P s = rev (dropWhile P (rev s))"

definition is_blank :: "char \<Rightarrow> bool" where
  "is_blank c \<longleftrightarrow> c = CHR '' '' \<or> c = tab"

section \<open>Printing integers\<close>

text \<open>\<^verbatim>\<open>std::to_string\<close> of an unsigned and of a signed integer.\<close>

fun nat_str :: "nat \<Rightarrow> string" where
  "nat_str n = (if n < 10 then [digit_char n] else nat_str (n div 10) @ [digit_char (n mod 10)])"

declare nat_str.simps [simp del]

definition int_str :: "int \<Rightarrow> string" where
  "int_str i = (if i < 0 then CHR ''-'' # nat_str (nat (- i)) else nat_str (nat i))"

section \<open>Reading integers\<close>

datatype conv_error = InvalidArgument | OutOfRange

text \<open>Value of a run of digits, most significant first.\<close>

definition digits_val :: "string \<Rightarrow> nat" where
  "digits_val ds = foldl (\<lambda>n c. 10 * n + digit_val c) 0 ds"

text \<open>
  The part of \<open>strtol\<close> in base 10 that all the conversions share: leading white space, an
  optional sign, then digits; anything after the digits is ignored. \<open>None\<close> is "no
  conversion could be performed".
\<close>

definition scan_int :: "string \<Rightarrow> (bool \<times> nat) option" where
  "scan_int s =
     (let t = dropWhile is_space s;
          neg = (t \<noteq> [] \<and> hd t = CHR ''-'');
          u = (if t \<noteq> [] \<and> (hd t = CHR ''-'' \<or> hd t = CHR ''+'') then tl t else t);
          ds = takeWhile is_digit u
      in if ds = [] then None else Some (neg, digits_val ds))"

definition signed_val :: "bool \<times> nat \<Rightarrow> int" where
  "signed_val p = (if fst p then - int (snd p) else int (snd p))"

definition in_range :: "int \<Rightarrow> int \<Rightarrow> int \<Rightarrow> conv_error + int" where
  "in_range lo hi v = (if lo \<le> v \<and> v \<le> hi then Inr v else Inl OutOfRange)"

text \<open>\<^verbatim>\<open>std::stoi\<close>, \<^verbatim>\<open>std::stoll\<close> and \<^verbatim>\<open>std::stoul\<close>; the last negates modulo \<open>2 ^ 64\<close>.\<close>

definition stoi :: "string \<Rightarrow> conv_error + int" where
  "stoi s = (case scan_int s of None \<Rightarrow> Inl InvalidArgument
     | Some p \<Rightarrow> in_range (- (2 ^ 31)) (2 ^ 31 - 1) (signed_val p))"

definition stoll :: "string \<Rightarrow> conv_error + int" where
  "stoll s = (case scan_int s of None \<Rightarrow> Inl InvalidArgument
     | Some p \<Rightarrow> in_range (- (2 ^ 63)) (2 ^ 63 - 1) (signed_val p))"

definition stoul :: "string \<Rightarrow> conv_error + nat" where
  "stoul s = (case scan_int s of None \<Rightarrow> Inl InvalidArgument
     | Some (neg, n) \<Rightarrow> if n < 2 ^ 64 then Inr (if neg then (2 ^ 64 - n) mod 2 ^ 64 else n)
                      else Inl OutOfRange)"

subsection \<open>Printing and reading back\<close>

lemma digits_val_append: "digits_val (ds @ [c]) = 10 * digits_val ds + digit_val c"
  by (simp add: digits_val_def)

lemma nat_str_digits: "\<forall>c \<in> set (nat_str n). is_digit c"
  by (induction n rule: nat_str.induct) (subst nat_str.simps, auto)

lemma nat_str_not_empty [simp]: "nat_str n \<noteq> []"
  by (subst nat_str.simps) simp

lemma digits_val_nat_str [simp]: "digits_val (nat_str n) = n"
proof (induction n rule: nat_str.induct)
  case (1 n)
  show ?case
  proof (cases "n < 10")
    case True
    then show ?thesis by (subst nat_str.simps) (simp add: digits_val_def)
  next
    case False
    then show ?thesis using "1.IH" by (subst nat_str.simps) (simp add: digits_val_append)
  qed
qed

lemma nat_str_inj: "nat_str m = nat_str n \<Longrightarrow> m = n"
  by (metis digits_val_nat_str)

lemma takeWhile_digits [simp]: "takeWhile is_digit (nat_str n) = nat_str n"
  using nat_str_digits by (simp add: takeWhile_eq_all_conv)

lemma hd_nat_str: "is_digit (hd (nat_str n))"
  using nat_str_digits [of n] hd_in_set [OF nat_str_not_empty [of n]] by blast

lemma dropWhile_space_nat_str [simp]: "dropWhile is_space (nat_str n @ r) = nat_str n @ r"
proof (cases "nat_str n")
  case Nil
  then show ?thesis by simp
next
  case (Cons c t)
  then have "\<not> is_space c" using hd_nat_str [of n] digit_not_space by simp
  with Cons show ?thesis by simp
qed

lemma digit_not_sign: "is_digit c \<Longrightarrow> c \<noteq> CHR ''-'' \<and> c \<noteq> CHR ''+''"
  by (auto simp: is_digit_def char_code_def)

text \<open>A number followed by something that is not a digit reads back as that number.\<close>

lemma scan_int_nat_str:
  assumes "r = [] \<or> \<not> is_digit (hd r)"
  shows "scan_int (nat_str n @ r) = Some (False, n)"
proof -
  have "takeWhile is_digit (nat_str n @ r) = nat_str n"
    using assms nat_str_digits [of n]
    by (cases r) (auto simp: takeWhile_append)
  then show ?thesis
    using digit_not_sign [OF hd_nat_str [of n]] by (simp add: scan_int_def Let_def hd_append)
qed

end
