(* ===== verification/Cpp_Double.thy ===== *)
theory Cpp_Double
  imports Cpp_String "HOL-Library.Log_Nat"
begin

text \<open>
  IEEE 754 binary64, the type \<open>double\<close> of the code, in round-to-nearest-even mode. A finite
  double is the rational it denotes, so every operation is the exact rational result rounded
  once; the definitions compute. The two zeros are one value: no comparison or sum of the
  code distinguishes them.
\<close>

datatype dbl = NaN | Inf bool | Fin rat

section \<open>Rounding\<close>

text \<open>Round to the nearest integer, ties to even.\<close>

definition rne :: "rat \<Rightarrow> int" where
  "rne x = (let f = \<lfloor>x\<rfloor>; d = x - of_int f in
     if d < 1 / 2 then f else if d > 1 / 2 then f + 1 else if even f then f else f + 1)"

text \<open>Binary exponent of a positive rational.\<close>

definition ilog2 :: "rat \<Rightarrow> int" where
  "ilog2 x = (case quotient_of x of (p, q) \<Rightarrow>
     let k = bitlen p - bitlen q in if 2 powi k \<le> x then k else k - 1)"

text \<open>Exponent of the last place: 53 significant bits, nothing below \<open>2 ^ -1074\<close>.\<close>

definition last_place :: "rat \<Rightarrow> int" where
  "last_place x = max (ilog2 \<bar>x\<bar> - 52) (- 1074)"

definition round53 :: "rat \<Rightarrow> rat" where
  "round53 x = of_int (rne (x / 2 powi last_place x)) * 2 powi last_place x"

definition rnd :: "rat \<Rightarrow> dbl" where
  "rnd x = (if \<bar>round53 x\<bar> \<ge> 2 ^ 1024 then Inf (x < 0) else Fin (round53 x))"

section \<open>Operations\<close>

fun dadd :: "dbl \<Rightarrow> dbl \<Rightarrow> dbl" where
  "dadd (Fin a) (Fin b) = rnd (a + b)"
| "dadd (Inf s) (Fin _) = Inf s"
| "dadd (Fin _) (Inf s) = Inf s"
| "dadd (Inf s) (Inf t) = (if s = t then Inf s else NaN)"
| "dadd _ _ = NaN"

fun dneg :: "dbl \<Rightarrow> dbl" where
  "dneg (Fin a) = Fin (- a)"
| "dneg (Inf s) = Inf (\<not> s)"
| "dneg NaN = NaN"

definition dsub :: "dbl \<Rightarrow> dbl \<Rightarrow> dbl" where
  "dsub a b = dadd a (dneg b)"

fun dmul :: "dbl \<Rightarrow> dbl \<Rightarrow> dbl" where
  "dmul (Fin a) (Fin b) = rnd (a * b)"
| "dmul (Inf s) (Fin b) = (if b = 0 then NaN else Inf (s \<noteq> (b < 0)))"
| "dmul (Fin a) (Inf s) = (if a = 0 then NaN else Inf (s \<noteq> (a < 0)))"
| "dmul (Inf s) (Inf t) = Inf (s \<noteq> t)"
| "dmul _ _ = NaN"

fun ddiv :: "dbl \<Rightarrow> dbl \<Rightarrow> dbl" where
  "ddiv (Fin a) (Fin b) = (if b = 0 then (if a = 0 then NaN else Inf (a < 0)) else rnd (a / b))"
| "ddiv (Inf s) (Fin b) = Inf (s \<noteq> (b < 0))"
| "ddiv (Fin _) (Inf _) = Fin 0"
| "ddiv _ _ = NaN"

fun dabs :: "dbl \<Rightarrow> dbl" where
  "dabs (Fin a) = Fin \<bar>a\<bar>"
| "dabs (Inf _) = Inf False"
| "dabs NaN = NaN"

text \<open>Comparisons: every comparison with NaN is false.\<close>

fun dlt :: "dbl \<Rightarrow> dbl \<Rightarrow> bool" where
  "dlt (Fin a) (Fin b) = (a < b)"
| "dlt (Inf s) (Fin _) = s"
| "dlt (Fin _) (Inf s) = (\<not> s)"
| "dlt (Inf s) (Inf t) = (s \<and> \<not> t)"
| "dlt _ _ = False"

fun dle :: "dbl \<Rightarrow> dbl \<Rightarrow> bool" where
  "dle (Fin a) (Fin b) = (a \<le> b)"
| "dle (Inf s) (Fin _) = s"
| "dle (Fin _) (Inf s) = (\<not> s)"
| "dle (Inf s) (Inf t) = (s \<or> \<not> t)"
| "dle _ _ = False"

text \<open>\<^verbatim>\<open>static_cast<double>\<close> of an unsigned 64-bit and of a 32-bit value.\<close>

definition dbl_of_u64 :: "u64 \<Rightarrow> dbl" where
  "dbl_of_u64 w = rnd (of_nat (unat w))"

definition dbl_of_u32 :: "u32 \<Rightarrow> dbl" where
  "dbl_of_u32 w = rnd (of_nat (unat w))"

section \<open>Printing\<close>

text \<open>\<open>n\<close> in decimal, padded with zeros to \<open>w\<close> digits.\<close>

definition pad_zeros :: "nat \<Rightarrow> nat \<Rightarrow> string" where
  "pad_zeros w n = replicate (w - length (nat_str n)) (CHR ''0'') @ nat_str n"

text \<open>\<^verbatim>\<open>std::to_string(double)\<close>: the format \<open>%f\<close>, six digits after the point.\<close>

fun dbl_to_string :: "dbl \<Rightarrow> string" where
  "dbl_to_string NaN = ''nan''"
| "dbl_to_string (Inf s) = (if s then ''-inf'' else ''inf'')"
| "dbl_to_string (Fin x) =
     (let n = nat (rne (\<bar>x\<bar> * 10 ^ 6))
      in (if x < 0 then ''-'' else '''') @ nat_str (n div 10 ^ 6) @ ''.'' @ pad_zeros 6 (n mod 10 ^ 6))"

section \<open>Correctness of the rounding\<close>

lemma rne_int [simp]: "rne (of_int n) = n"
  by (simp add: rne_def Let_def)

lemma rne_0 [simp]: "rne 0 = 0"
  using rne_int [of 0] by simp

lemma rne_bounds: "\<lfloor>x\<rfloor> \<le> rne x \<and> rne x \<le> \<lfloor>x\<rfloor> + 1"
  by (simp add: rne_def Let_def)

lemma rne_mono:
  assumes "x \<le> y"
  shows "rne x \<le> rne y"
proof (cases "\<lfloor>x\<rfloor> = \<lfloor>y\<rfloor>")
  case True
  then show ?thesis using assms by (auto simp: rne_def Let_def)
next
  case False
  then have "\<lfloor>x\<rfloor> + 1 \<le> \<lfloor>y\<rfloor>" using floor_mono [OF assms] by linarith
  then show ?thesis using rne_bounds [of x] rne_bounds [of y] by linarith
qed

lemma rne_minus: "rne (- x) = - rne x"
proof (cases "x = of_int \<lfloor>x\<rfloor>")
  case True
  then have "rne (- x) = rne (of_int (- \<lfloor>x\<rfloor>))" "rne x = rne (of_int \<lfloor>x\<rfloor>)" by simp_all
  then show ?thesis by (simp only: rne_int)
next
  case False
  let ?f = "\<lfloor>x\<rfloor>"
  have lt: "of_int ?f < x" using False of_int_floor_le [of x] by linarith
  have up: "x < of_int ?f + 1" by linarith
  have f: "\<lfloor>- x\<rfloor> = - ?f - 1" by (rule floor_unique) (use lt up in simp_all)
  have *: "even (- ?f - 1) = odd ?f" by simp
  show ?thesis
    unfolding rne_def Let_def f using * by (simp add: field_simps)
qed

lemma powi_pos [simp]: "0 < (2 :: rat) powi k"
  by (simp add: zero_less_power_int)

lemma powi_mono: "j \<le> k \<Longrightarrow> (2 :: rat) powi j \<le> 2 powi k"
  by (rule power_int_increasing) simp_all

lemma powi_strict_mono: "j < k \<Longrightarrow> (2 :: rat) powi j < 2 powi k"
  by (rule power_int_strict_increasing) simp_all

lemma powi_less_cancel: "(2 :: rat) powi j < 2 powi k \<Longrightarrow> j < k"
  using powi_mono [of k j] by linarith

lemma powi_bitlen:
  assumes "0 < p"
  shows "(2 :: rat) powi (bitlen p - 1) \<le> of_int p" and "of_int p < (2 :: rat) powi bitlen p"
proof -
  have b: "2 ^ nat (bitlen p - 1) \<le> p \<and> p < 2 ^ nat (bitlen p)" using assms by (rule bitlen_bounds)
  have pos: "0 \<le> bitlen p - 1" using assms bitlen_nonneg [of p] bitlen_eq_zero_iff [of p] by linarith
  have "(of_int (2 ^ nat (bitlen p - 1)) :: rat) \<le> of_int p" using b by (simp only: of_int_le_iff)
  then show "(2 :: rat) powi (bitlen p - 1) \<le> of_int p" using pos by (simp add: power_int_def)
  have "(of_int p :: rat) < of_int (2 ^ nat (bitlen p))" using b by (simp only: of_int_less_iff)
  then show "of_int p < (2 :: rat) powi bitlen p" using pos by (simp add: power_int_def)
qed

lemma ilog2_bounds:
  assumes "0 < x"
  shows "2 powi ilog2 x \<le> x" and "x < 2 powi (ilog2 x + 1)"
proof -
  obtain p q where pq: "quotient_of x = (p, q)" by fastforce
  have q: "0 < q" using quotient_of_denom_pos [OF pq] .
  have x: "x = of_int p / of_int q" using quotient_of_div [OF pq] .
  have p: "0 < p" using assms q x by (simp add: zero_less_divide_iff)
  define k where "k = bitlen p - bitlen q"
  have add: "(2 :: rat) powi (i + j) = 2 powi i * 2 powi j" for i j by (rule power_int_add) simp
  note bp = powi_bitlen [OF p] and bq = powi_bitlen [OF q]
  have "of_int p < (2 :: rat) powi (k + 1) * 2 powi (bitlen q - 1)"
    using bp(2) unfolding add [symmetric] by (simp add: k_def)
  also have "\<dots> \<le> 2 powi (k + 1) * of_int q" using bq(1) by (simp add: mult_left_mono less_imp_le)
  finally have hi: "x < 2 powi (k + 1)" using q by (simp add: x divide_less_eq)
  have "(2 :: rat) powi (k - 1) * of_int q \<le> 2 powi (k - 1) * 2 powi bitlen q"
    using bq(2) by (simp add: mult_left_mono less_imp_le)
  also have "\<dots> \<le> of_int p" using bp(1) unfolding add [symmetric] by (simp add: k_def)
  finally have lo: "2 powi (k - 1) \<le> x" using q by (simp add: x le_divide_eq)
  have i: "ilog2 x = (if 2 powi k \<le> x then k else k - 1)"
    by (simp add: ilog2_def pq k_def Let_def)
  show "2 powi ilog2 x \<le> x" and "x < 2 powi (ilog2 x + 1)"
    using hi lo by (auto simp: i)
qed

lemma ilog2_mono:
  assumes "0 < x" and "x \<le> y"
  shows "ilog2 x \<le> ilog2 y"
proof -
  have "(2 :: rat) powi ilog2 x \<le> x" by (rule ilog2_bounds [OF assms(1)])
  also have "x < 2 powi (ilog2 y + 1)"
    using assms ilog2_bounds(2) [of y] by linarith
  finally show ?thesis using powi_less_cancel by force
qed

text \<open>Rounding is odd, keeps the order and keeps the sign.\<close>

lemma last_place_minus [simp]: "last_place (- x) = last_place x"
  by (simp add: last_place_def)

lemma round53_minus: "round53 (- x) = - round53 x"
  by (simp add: round53_def rne_minus)

lemma round53_0 [simp]: "round53 0 = 0"
  by (simp add: round53_def)

lemma round53_nonneg: "0 \<le> x \<Longrightarrow> 0 \<le> round53 x"
  using rne_mono [of 0 "x / 2 powi last_place x"]
  by (simp add: round53_def zero_le_divide_iff less_imp_le)

lemma round53_mono_pos:
  assumes "0 < x" and "x \<le> y"
  shows "round53 x \<le> round53 y"
proof -
  define e f where "e = last_place x" and "f = last_place y"
  have ef: "e \<le> f" using ilog2_mono [OF assms] assms by (auto simp: e_def f_def last_place_def)
  have add: "(2 :: rat) powi (i + j) = 2 powi i * 2 powi j" for i j by (rule power_int_add) simp
  show ?thesis
  proof (cases "e = f")
    case True
    have "x / 2 powi f \<le> y / 2 powi f" using assms by (simp add: divide_right_mono less_imp_le)
    then have "rne (x / 2 powi f) \<le> rne (y / 2 powi f)" by (rule rne_mono)
    then have "of_int (rne (x / 2 powi f)) * (2 :: rat) powi f \<le> of_int (rne (y / 2 powi f)) * 2 powi f"
      by (simp add: mult_right_mono less_imp_le)
    then show ?thesis using True by (simp add: round53_def e_def f_def)
  next
    case False
    with ef have lt: "e + 1 \<le> f" by simp
    have fe: "f = ilog2 y - 52" using lt assms by (auto simp: e_def f_def last_place_def)
    have "ilog2 x \<le> e + 52" using assms by (simp add: e_def last_place_def)
    then have "x \<le> 2 powi (53 + e)"
      using ilog2_bounds(2) [OF assms(1)] powi_mono [of "ilog2 x + 1" "53 + e"] by simp
    then have "x / 2 powi e \<le> of_int (2 ^ 53)" by (simp add: divide_le_eq add)
    then have "rne (x / 2 powi e) \<le> 2 ^ 53" using rne_mono rne_int by metis
    then have "of_int (rne (x / 2 powi e)) \<le> (of_int (2 ^ 53) :: rat)" by (simp only: of_int_le_iff)
    then have "round53 x \<le> 2 ^ 53 * 2 powi e"
      by (simp add: round53_def e_def [symmetric] mult_right_mono less_imp_le)
    also have "\<dots> = 2 powi (53 + e)" by (simp add: add)
    also have "\<dots> \<le> 2 powi (52 + f)" using lt by (intro powi_mono) simp
    also have "\<dots> = 2 ^ 52 * 2 powi f" by (simp add: add)
    also have "\<dots> \<le> round53 y"
    proof -
      have "2 powi (52 + f) \<le> y" using ilog2_bounds(1) [of y] assms by (simp add: fe)
      then have "of_int (2 ^ 52) \<le> y / 2 powi f" by (simp add: le_divide_eq add)
      then have "2 ^ 52 \<le> rne (y / 2 powi f)" using rne_mono rne_int by metis
      then have "(of_int (2 ^ 52) :: rat) \<le> of_int (rne (y / 2 powi f))" by (simp only: of_int_le_iff)
      then show ?thesis by (simp add: round53_def f_def [symmetric] mult_right_mono less_imp_le)
    qed
    finally show ?thesis .
  qed
qed

lemma round53_mono: "x \<le> y \<Longrightarrow> round53 x \<le> round53 y"
proof -
  assume le: "x \<le> y"
  consider "0 < x" | "x \<le> 0" "0 \<le> y" | "y < 0" by linarith
  then show ?thesis
  proof cases
    case 1
    then show ?thesis using round53_mono_pos le by blast
  next
    case 2
    then show ?thesis using round53_nonneg [of y] round53_nonneg [of "- x"] by (simp add: round53_minus)
  next
    case 3
    then show ?thesis using round53_mono_pos [of "- y" "- x"] le by (simp add: round53_minus)
  qed
qed

text \<open>Integers of up to 53 bits are represented exactly.\<close>

lemma round53_of_nat:
  assumes "n \<le> 2 ^ 53"
  shows "round53 (of_nat n) = of_nat n"
proof (cases "n = 0")
  case False
  then have pos: "0 < (of_nat n :: rat)" by simp
  define e where "e = last_place (of_nat n)"
  have lt: "(of_nat n :: rat) \<le> 2 powi 53" using assms of_nat_le_iff [of n "2 ^ 53", where 'a = rat] by simp
  show ?thesis
  proof (cases "e \<le> 0")
    case True
    then obtain d where d: "e = - int d" by (metis int_cases2 zero_le_imp_eq_int neg_le_0_iff_le linear neg_equal_iff_equal add.inverse_inverse)
    have *: "(2 :: rat) powi e = 1 / 2 ^ d" by (simp add: d power_int_minus divide_inverse)
    have "of_nat n / (2 :: rat) powi e = of_int (int n * 2 ^ d)" unfolding * by simp
    then have "rne (of_nat n / 2 powi e) = int n * 2 ^ d" by (simp only: rne_int)
    then have "round53 (of_nat n) = of_int (int n * 2 ^ d) * (1 / 2 ^ d)"
      unfolding round53_def e_def [symmetric] * by simp
    then show ?thesis by simp
  next
    case False
    then have "1 \<le> ilog2 (of_nat n) - 52" using pos by (auto simp: e_def last_place_def)
    then have "2 powi 53 \<le> (of_nat n :: rat)"
      using ilog2_bounds(1) [OF pos] powi_mono [of 53 "ilog2 (of_nat n)"] by linarith
    with lt have n: "(of_nat n :: rat) = 2 powi 53" by simp
    have "ilog2 (2 powi 53) = 53" by (code_simp)
    then have e: "last_place (of_nat n) = 1" unfolding n by (simp add: last_place_def)
    have "rne ((2 powi 53 :: rat) / 2 powi 1) = rne (of_int (2 ^ 52))" by simp
    then have "rne ((2 powi 53 :: rat) / 2 powi 1) = 2 ^ 52" by (simp only: rne_int)
    then show ?thesis unfolding round53_def e unfolding n by simp
  qed
qed simp

text \<open>A result between two representable numbers is finite and stays between them.\<close>

lemma rnd_between:
  assumes "a \<le> x" and "x \<le> b" and "round53 a = a" and "round53 b = b" and "\<bar>a\<bar> < 2 ^ 1024" and "\<bar>b\<bar> < 2 ^ 1024"
  shows "\<exists>y. rnd x = Fin y \<and> a \<le> y \<and> y \<le> b"
proof -
  have "a \<le> round53 x" "round53 x \<le> b" using round53_mono [of a x] round53_mono [of x b] assms by simp_all
  moreover from this have "\<not> 2 ^ 1024 \<le> \<bar>round53 x\<bar>" using assms by linarith
  ultimately show ?thesis by (simp add: rnd_def)
qed

lemma rnd_of_nat: "n \<le> 2 ^ 53 \<Longrightarrow> rnd (of_nat n) = Fin (of_nat n)"
proof -
  assume n: "n \<le> 2 ^ 53"
  have "(of_nat n :: rat) \<le> of_nat (2 ^ 53)" using n by (simp only: of_nat_le_iff)
  also have "\<dots> < 2 ^ 1024" by simp
  finally show ?thesis using round53_of_nat [OF n] by (simp add: rnd_def)
qed

end
