(* ===== verification/Ordered_Map.thy ===== *)
theory Ordered_Map
  imports Prelude
begin

text \<open>
  \<^verbatim>\<open>std::map\<close>: its elements in key order, as the association list that an iteration from
  \<open>begin()\<close> sees. \<open>map_of\<close> is the abstraction to a finite map.
\<close>

type_synonym ('k, 'v) omap = "('k \<times> 'v) list"

definition om_ok :: "('k::linorder, 'v) omap \<Rightarrow> bool" where
  "om_ok m \<longleftrightarrow> sorted_wrt (<) (map fst m)"

text \<open>\<^verbatim>\<open>m[k] = v\<close>\<close>

fun om_put :: "'k::linorder \<Rightarrow> 'v \<Rightarrow> ('k, 'v) omap \<Rightarrow> ('k, 'v) omap" where
  "om_put k v [] = [(k, v)]"
| "om_put k v ((k', v') # m) =
     (if k < k' then (k, v) # (k', v') # m
      else if k = k' then (k, v) # m
      else (k', v') # om_put k v m)"

text \<open>\<^verbatim>\<open>m.find(k)\<close>, and \<^verbatim>\<open>m.lower_bound(k)\<close>: the first element whose key is not below \<open>k\<close>.\<close>

definition om_find :: "'k \<Rightarrow> ('k, 'v) omap \<Rightarrow> 'v option" where
  "om_find k m = map_of m k"

definition om_lower_bound :: "'k::linorder \<Rightarrow> ('k, 'v) omap \<Rightarrow> ('k \<times> 'v) option" where
  "om_lower_bound k m = find (\<lambda>e. \<not> fst e < k) m"

text \<open>\<^verbatim>\<open>while (m.size() > n) m.erase(m.begin())\<close>\<close>

fun om_trim :: "nat \<Rightarrow> ('k, 'v) omap \<Rightarrow> ('k, 'v) omap" where
  "om_trim n [] = []"
| "om_trim n (e # m) = (if length (e # m) > n then om_trim n m else e # m)"

section \<open>Laws\<close>

lemma om_ok_Nil [simp]: "om_ok []"
  by (simp add: om_ok_def)

lemma om_ok_Cons: "om_ok ((k, v) # m) \<longleftrightarrow> (\<forall>e \<in> set m. k < fst e) \<and> om_ok m"
  by (auto simp: om_ok_def)

lemma om_ok_distinct: "om_ok m \<Longrightarrow> distinct (map fst m)"
  by (simp add: om_ok_def strict_sorted_iff)

lemma set_om_put: "e \<in> set (om_put k v m) \<Longrightarrow> e = (k, v) \<or> e \<in> set m"
  by (induction m) (auto split: if_splits)

lemma om_put_mem: "(k, v) \<in> set (om_put k v m)"
  by (induction m) auto

lemma om_put_not_Nil [simp]: "om_put k v m \<noteq> []"
  using om_put_mem [of k v m] by auto

lemma om_ok_put [simp]: "om_ok m \<Longrightarrow> om_ok (om_put k v m)"
proof (induction m)
  case (Cons e m)
  obtain k' v' where e: "e = (k', v')" by fastforce
  show ?case
    using Cons by (auto simp: e om_ok_Cons dest!: set_om_put)
qed (simp add: om_ok_def)

lemma map_of_om_put: "om_ok m \<Longrightarrow> map_of (om_put k v m) = (map_of m)(k \<mapsto> v)"
proof (induction m)
  case (Cons e m)
  obtain k' v' where e: "e = (k', v')" by fastforce
  show ?case using Cons by (auto simp: e om_ok_Cons fun_eq_iff)
qed auto

lemma om_find_put [simp]: "om_ok m \<Longrightarrow> om_find k' (om_put k v m) = (if k' = k then Some v else om_find k' m)"
  by (simp add: om_find_def map_of_om_put)

lemma om_find_Nil [simp]: "om_find k [] = None"
  by (simp add: om_find_def)

lemma om_find_mem: "om_ok m \<Longrightarrow> om_find k m = Some v \<longleftrightarrow> (k, v) \<in> set m"
  unfolding om_find_def using om_ok_distinct map_of_eq_Some_iff by metis

lemma keys_om_put: "fst ` set (om_put k v m) = insert k (fst ` set m)"
proof (induction m)
  case (Cons e m)
  obtain a b where e: "e = (a, b)" by fastforce
  show ?case using Cons by (cases "k < a"; cases "k = a") (simp_all add: e insert_commute)
qed simp

text \<open>A key above every other goes to the end.\<close>

lemma om_put_append:
  "\<forall>e \<in> set m. fst e < k \<Longrightarrow> om_put k v m = m @ [(k, v)]"
  by (induction m) auto

text \<open>The trimmed map is the \<open>n\<close> elements with the greatest keys.\<close>

lemma om_trim_drop: "om_trim n m = drop (length m - n) m"
proof (induction m)
  case (Cons e m)
  show ?case
  proof (cases "length (e # m) > n")
    case True
    then have "length (e # m) - n = Suc (length m - n)" by simp
    then show ?thesis using Cons True by simp
  qed simp
qed simp

lemma om_ok_trim [simp]: "om_ok m \<Longrightarrow> om_ok (om_trim n m)"
  by (simp add: om_trim_drop om_ok_def drop_map [symmetric] sorted_wrt_drop)

lemma length_om_trim: "length (om_trim n m) = min n (length m)"
  by (simp add: om_trim_drop)

lemma om_lower_bound_some:
  assumes "om_ok m" and "om_lower_bound k m = Some (k', v)"
  shows "(k', v) \<in> set m \<and> k \<le> k' \<and> (\<forall>e \<in> set m. k \<le> fst e \<longrightarrow> k' \<le> fst e)"
  using assms
proof (induction m)
  case (Cons e m)
  obtain a b where e: "e = (a, b)" by fastforce
  show ?case
  proof (cases "a < k")
    case True
    then show ?thesis using Cons by (auto simp: e om_ok_Cons om_lower_bound_def)
  next
    case False
    then show ?thesis using Cons.prems by (auto simp: e om_ok_Cons om_lower_bound_def intro: less_imp_le)
  qed
qed (simp add: om_lower_bound_def)

lemma om_lower_bound_none: "om_lower_bound k m = None \<longleftrightarrow> (\<forall>e \<in> set m. fst e < k)"
  by (auto simp: om_lower_bound_def find_None_iff)

text \<open>The last element has the greatest key.\<close>

lemma om_last_max:
  assumes "om_ok m" and "m \<noteq> []"
  shows "last m \<in> set m \<and> (\<forall>e \<in> set m. fst e \<le> fst (last m))"
  using assms
proof (induction m)
  case (Cons e m)
  obtain a b where e: "e = (a, b)" by fastforce
  show ?case
  proof (cases "m = []")
    case False
    with Cons have "last m \<in> set m" "\<forall>e \<in> set m. fst e \<le> fst (last m)"
      by (auto simp: e om_ok_Cons)
    moreover have "\<forall>e \<in> set m. a < fst e" using Cons.prems by (simp add: e om_ok_Cons)
    ultimately show ?thesis using False e by (auto intro: less_imp_le)
  qed (simp add: e)
qed simp

end
