(* ===== verification/Metrics.thy ===== *)
theory Metrics
  imports Cpp_Double Ordered_Map
begin

text \<open>
  \<^verbatim>\<open>core/metrics/system_metrics\<close>: gauges and counters. A metric keeps its current value and
  a history of at most 1000 samples ordered by the system clock, read as the tick \<open>now\<close>
  that each operation receives (the clock may be set back, so nothing is assumed of the
  order of the ticks unless a lemma says so).
\<close>

section \<open>State\<close>

datatype metric_type = GAUGE | COUNTER | HISTOGRAM

record metric =
  m_name :: string
  m_type :: metric_type
  last_updated :: int
  current_value :: dbl
  historical_values :: "(int, dbl) omap"

definition new_metric :: "string \<Rightarrow> metric_type \<Rightarrow> int \<Rightarrow> metric" where
  "new_metric name ty now =
     \<lparr>m_name = name, m_type = ty, last_updated = now, current_value = Fin 0, historical_values = []\<rparr>"

definition GaugeMetric :: "string \<Rightarrow> int \<Rightarrow> metric" where
  "GaugeMetric name now = new_metric name GAUGE now"

definition CounterMetric :: "string \<Rightarrow> int \<Rightarrow> metric" where
  "CounterMetric name now = new_metric name COUNTER now"

section \<open>Operations\<close>

definition max_history :: nat where
  "max_history = 1000"

definition gauge_update :: "int \<Rightarrow> dbl \<Rightarrow> metric \<Rightarrow> metric" where
  "gauge_update now value m =
     (let m1 = m\<lparr>current_value := value, last_updated := now\<rparr>;
          m2 = m1\<lparr>historical_values := om_put (last_updated m1) value (historical_values m1)\<rparr>
      in m2\<lparr>historical_values := om_trim max_history (historical_values m2)\<rparr>)"

definition counter_update :: "int \<Rightarrow> dbl \<Rightarrow> metric \<Rightarrow> metric" where
  "counter_update now value m =
     (let m1 = m\<lparr>current_value := value, last_updated := now\<rparr>;
          m2 = m1\<lparr>historical_values := om_put (last_updated m1) value (historical_values m1)\<rparr>
      in m2\<lparr>historical_values := om_trim max_history (historical_values m2)\<rparr>)"

definition counter_increment :: "int \<Rightarrow> dbl \<Rightarrow> metric \<Rightarrow> metric" where
  "counter_increment now amount m =
     (let m1 = m\<lparr>current_value := dadd (current_value m) amount, last_updated := now\<rparr>;
          m2 = m1\<lparr>historical_values :=
                 om_put (last_updated m1) (current_value m1) (historical_values m1)\<rparr>
      in m2\<lparr>historical_values := om_trim max_history (historical_values m2)\<rparr>)"

definition gauge_getCurrentValue :: "metric \<Rightarrow> dbl" where
  "gauge_getCurrentValue m = current_value m"

definition gauge_getValueAt :: "int \<Rightarrow> metric \<Rightarrow> dbl option" where
  "gauge_getValueAt time m =
     (case om_lower_bound time (historical_values m) of
        None \<Rightarrow> if historical_values m = [] then None else Some (snd (last (historical_values m)))
      | Some e \<Rightarrow> Some (snd e))"

definition counter_getCurrentValue :: "metric \<Rightarrow> dbl" where
  "counter_getCurrentValue m = current_value m"

definition counter_getValueAt :: "int \<Rightarrow> metric \<Rightarrow> dbl option" where
  "counter_getValueAt time m =
     (case om_lower_bound time (historical_values m) of
        None \<Rightarrow> if historical_values m = [] then None else Some (snd (last (historical_values m)))
      | Some e \<Rightarrow> Some (snd e))"

text \<open>The virtual readers.\<close>

definition getCurrentValue :: "metric \<Rightarrow> dbl" where
  "getCurrentValue m =
     (if m_type m = COUNTER then counter_getCurrentValue m else gauge_getCurrentValue m)"

definition getValueAt :: "int \<Rightarrow> metric \<Rightarrow> dbl option" where
  "getValueAt time m =
     (if m_type m = COUNTER then counter_getValueAt time m else gauge_getValueAt time m)"

text \<open>The virtual \<open>update\<close>, and a run of the operations of a metric.\<close>

definition update :: "int \<Rightarrow> dbl \<Rightarrow> metric \<Rightarrow> metric" where
  "update now value m = (if m_type m = COUNTER then counter_update now value m else gauge_update now value m)"

datatype metric_op = Update int dbl | Increment int dbl

fun op_time :: "metric_op \<Rightarrow> int" where
  "op_time (Update t _) = t"
| "op_time (Increment t _) = t"

fun metric_step :: "metric \<Rightarrow> metric_op \<Rightarrow> metric" where
  "metric_step m (Update t v) = update t v m"
| "metric_step m (Increment t a) = (if m_type m = COUNTER then counter_increment t a m else m)"

text \<open>A gauge has no \<open>increment\<close>.\<close>

fun op_fits :: "metric_type \<Rightarrow> metric_op \<Rightarrow> bool" where
  "op_fits ty (Update _ _) = True"
| "op_fits ty (Increment _ _) = (ty = COUNTER)"

definition metric_run :: "metric \<Rightarrow> metric_op list \<Rightarrow> metric" where
  "metric_run m ops = foldl metric_step m ops"

section \<open>Specification: the full log\<close>

text \<open>What the metric is worth after each operation, with the tick of the operation.\<close>

fun op_value :: "dbl \<Rightarrow> metric_op \<Rightarrow> dbl" where
  "op_value c (Update _ v) = v"
| "op_value c (Increment _ a) = dadd c a"

fun full_log :: "dbl \<Rightarrow> metric_op list \<Rightarrow> (int \<times> dbl) list" where
  "full_log c [] = []"
| "full_log c (p # ops) = (op_time p, op_value c p) # full_log (op_value c p) ops"

definition metric_ok :: "metric \<Rightarrow> bool" where
  "metric_ok m \<longleftrightarrow> om_ok (historical_values m) \<and> length (historical_values m) \<le> max_history"

section \<open>Laws\<close>

text \<open>Gauges and counters answer alike.\<close>

lemma getCurrentValue_alt [simp]: "getCurrentValue m = current_value m"
  by (simp add: getCurrentValue_def gauge_getCurrentValue_def counter_getCurrentValue_def)

lemma getValueAt_alt:
  "getValueAt time m =
     (case om_lower_bound time (historical_values m) of
        None \<Rightarrow> if historical_values m = [] then None else Some (snd (last (historical_values m)))
      | Some e \<Rightarrow> Some (snd e))"
  by (simp add: getValueAt_def gauge_getValueAt_def counter_getValueAt_def)

text \<open>All three writers record one sample.\<close>

definition record_sample :: "int \<Rightarrow> dbl \<Rightarrow> metric \<Rightarrow> metric" where
  "record_sample now v m =
     m\<lparr>current_value := v, last_updated := now,
       historical_values := om_trim max_history (om_put now v (historical_values m))\<rparr>"

lemma writers_record:
  "gauge_update now v m = record_sample now v m"
  "counter_update now v m = record_sample now v m"
  "counter_increment now v m = record_sample now (dadd (current_value m) v) m"
  "update now v m = record_sample now v m"
  by (simp_all add: gauge_update_def counter_update_def counter_increment_def update_def
      record_sample_def Let_def)

lemma record_sample_fields [simp]:
  "m_name (record_sample t v m) = m_name m"
  "m_type (record_sample t v m) = m_type m"
  "current_value (record_sample t v m) = v"
  "last_updated (record_sample t v m) = t"
  "historical_values (record_sample t v m) = om_trim max_history (om_put t v (historical_values m))"
  by (simp_all add: record_sample_def)

lemma metric_step_record:
  "op_fits (m_type m) p \<Longrightarrow> metric_step m p = record_sample (op_time p) (op_value (current_value m) p) m"
  by (cases p) (simp_all add: writers_record)

lemma metric_ok_record [simp]: "metric_ok m \<Longrightarrow> metric_ok (record_sample t v m)"
  by (simp add: metric_ok_def length_om_trim)

lemma metric_ok_new [simp]: "metric_ok (new_metric n ty t)"
  by (simp add: metric_ok_def new_metric_def)

lemma metric_ok_step: "metric_ok m \<Longrightarrow> metric_ok (metric_step m p)"
  by (cases p) (simp_all add: writers_record)

lemma metric_ok_run: "metric_ok m \<Longrightarrow> metric_ok (metric_run m ops)"
  unfolding metric_run_def by (rule foldl_invariant) (simp_all add: metric_ok_step)

lemma metric_run_snoc [simp]: "metric_run m (ops @ [p]) = metric_step (metric_run m ops) p"
  by (simp add: metric_run_def)

lemma metric_run_Nil [simp]: "metric_run m [] = m"
  by (simp add: metric_run_def)

lemma metric_run_type [simp]: "m_type (metric_run m ops) = m_type m"
proof (induction ops rule: rev_induct)
  case (snoc p ops)
  then show ?case by (cases p) (simp_all add: writers_record)
qed simp

lemma length_full_log [simp]: "length (full_log c ops) = length ops"
  by (induction ops arbitrary: c) auto

lemma full_log_times: "map fst (full_log c ops) = map op_time ops"
  by (induction ops arbitrary: c) auto

text \<open>The last value of a log that starts at \<open>c\<close>.\<close>

definition log_value :: "dbl \<Rightarrow> metric_op list \<Rightarrow> dbl" where
  "log_value c ops = foldl op_value c ops"

lemma full_log_snoc: "full_log c (ops @ [p]) = full_log c ops @ [(op_time p, op_value (log_value c ops) p)]"
  by (induction ops arbitrary: c) (auto simp: log_value_def)

lemma current_value_run:
  assumes "\<forall>p \<in> set ops. op_fits (m_type m) p"
  shows "current_value (metric_run m ops) = log_value (current_value m) ops"
  using assms
proof (induction ops rule: rev_induct)
  case (snoc p ops)
  then show ?case by (simp add: metric_step_record log_value_def)
qed (simp add: log_value_def)

text \<open>With a clock that advances, the history is the tail of the full log.\<close>

lemma history_is_tail:
  assumes "\<forall>p \<in> set ops. op_fits (m_type m) p" and "sorted_wrt (<) (map op_time ops)"
    and "historical_values m = []"
  shows "historical_values (metric_run m ops) =
    drop (length ops - max_history) (full_log (current_value m) ops)"
  using assms
proof (induction ops rule: rev_induct)
  case (snoc p ops)
  let ?m = "metric_run m ops" and ?v = "op_value (log_value (current_value m) ops) p"
  let ?log = "full_log (current_value m) ops"
  have IH: "historical_values ?m = drop (length ops - max_history) ?log"
    using snoc by (simp add: sorted_wrt_append)
  have below: "\<forall>e \<in> set ?log. fst e < op_time p"
  proof
    fix e assume "e \<in> set ?log"
    then have "fst e \<in> set (map op_time ops)" by (metis full_log_times image_eqI list.set_map)
    then show "fst e < op_time p" using snoc.prems(2) by (auto simp: sorted_wrt_append)
  qed
  then have "\<forall>e \<in> set (historical_values ?m). fst e < op_time p"
    using IH set_drop_subset by (metis subsetD)
  then have put: "om_put (op_time p) ?v (historical_values ?m) = historical_values ?m @ [(op_time p, ?v)]"
    by (rule om_put_append)
  have "historical_values (metric_run m (ops @ [p])) =
      om_trim max_history (historical_values ?m @ [(op_time p, ?v)])"
    using snoc.prems put by (simp add: metric_step_record current_value_run)
  also have "\<dots> = drop (length (ops @ [p]) - max_history) (?log @ [(op_time p, ?v)])"
  proof (cases "length ops < max_history")
    case True
    then show ?thesis by (simp add: om_trim_drop IH)
  next
    case False
    then show ?thesis
      by (simp add: om_trim_drop IH Suc_diff_le add.commute)
  qed
  finally show ?case by (simp add: full_log_snoc)
qed simp

text \<open>What \<open>getValueAt\<close> returns.\<close>

lemma getValueAt_none: "getValueAt t m = None \<longleftrightarrow> historical_values m = []"
  by (auto simp: getValueAt_alt om_lower_bound_def split: option.splits)

lemma getValueAt_after:
  assumes "\<forall>e \<in> set (historical_values m). fst e < t" and "historical_values m \<noteq> []"
  shows "getValueAt t m = Some (snd (last (historical_values m)))"
  using assms om_lower_bound_none [of t "historical_values m"] by (simp add: getValueAt_alt)

lemma getValueAt_sample:
  assumes "metric_ok m" and "(k, v) \<in> set (historical_values m)" and "t \<le> k"
    and "\<forall>e \<in> set (historical_values m). t \<le> fst e \<longrightarrow> k \<le> fst e"
  shows "getValueAt t m = Some v"
proof -
  have ok: "om_ok (historical_values m)" using assms(1) by (simp add: metric_ok_def)
  have "om_lower_bound t (historical_values m) \<noteq> None"
  proof
    assume "om_lower_bound t (historical_values m) = None"
    then have "fst (k, v) < t" using assms(2) om_lower_bound_none by blast
    with assms(3) show False by simp
  qed
  then obtain k' v' where lb: "om_lower_bound t (historical_values m) = Some (k', v')" by auto
  note s = om_lower_bound_some [OF ok lb]
  have "k' = k" using s assms(2-4) by force
  moreover have "v' = v" using s assms(2) ok \<open>k' = k\<close> om_find_mem by (metis option.inject)
  ultimately show ?thesis using lb by (simp add: getValueAt_alt)
qed

lemma getValueAt_cases:
  assumes "metric_ok m" and "historical_values m \<noteq> []"
  shows "\<exists>k v. (k, v) \<in> set (historical_values m) \<and> getValueAt t m = Some v \<and>
    (if \<exists>e \<in> set (historical_values m). t \<le> fst e
     then t \<le> k \<and> (\<forall>e \<in> set (historical_values m). t \<le> fst e \<longrightarrow> k \<le> fst e)
     else (\<forall>e \<in> set (historical_values m). fst e \<le> k))"
proof -
  have ok: "om_ok (historical_values m)" using assms(1) by (simp add: metric_ok_def)
  note lst = om_last_max [OF ok assms(2)]
  show ?thesis
  proof (cases "om_lower_bound t (historical_values m)")
    case None
    then have n: "\<not> (\<exists>e \<in> set (historical_values m). t \<le> fst e)"
      by (auto simp: om_lower_bound_none)
    have g: "getValueAt t m = Some (snd (last (historical_values m)))"
      using None assms(2) by (simp add: getValueAt_alt)
    show ?thesis
      using lst g n by (intro exI [of _ "fst (last (historical_values m))"] exI [of _ "snd (last (historical_values m))"]) simp
  next
    case (Some e)
    obtain k v where e: "e = (k, v)" by fastforce
    note s = om_lower_bound_some [OF ok Some [unfolded e]]
    then have "\<exists>e \<in> set (historical_values m). t \<le> fst e" by force
    then show ?thesis using s Some e by (intro exI [of _ k] exI [of _ v]) (simp add: getValueAt_alt)
  qed
qed

text \<open>The newest sample is what later reads see.\<close>

lemma last_om_put:
  assumes "om_ok m" and "\<forall>e \<in> set m. fst e \<le> k"
  shows "last (om_put k v m) = (k, v)"
proof -
  have ok: "om_ok (om_put k v m)" using assms by simp
  note l = om_last_max [OF ok om_put_not_Nil]
  have "fst (last (om_put k v m)) = k"
    using l om_put_mem [of k v m] set_om_put [of "last (om_put k v m)" k v m] assms(2)
    by (metis antisym fst_conv)
  then show ?thesis
    using l om_put_mem [of k v m] om_find_mem [OF ok] by (metis option.inject prod.collapse)
qed

lemma visible_now:
  assumes "metric_ok m" and "\<forall>e \<in> set (historical_values m). fst e \<le> now" and "now \<le> t"
  shows "getValueAt t (update now v m) = Some v"
proof -
  let ?h = "om_put now v (historical_values m)" and ?m = "record_sample now v m"
  have ok: "om_ok (historical_values m)" and ok': "metric_ok ?m"
    using assms(1) by (simp_all add: metric_ok_def length_om_trim)
  have hist: "historical_values ?m = drop (length ?h - max_history) ?h" by (simp add: om_trim_drop)
  have pos: "length ?h - max_history < length ?h" by (simp add: max_history_def)
  have lst: "last (historical_values ?m) = (now, v)"
    unfolding hist using last_om_put [OF ok assms(2)] pos by (simp add: last_drop)
  have ne: "historical_values ?m \<noteq> []" unfolding hist using pos by simp
  have max: "fst e \<le> now" if "e \<in> set (historical_values ?m)" for e
    using that assms(2) unfolding hist by (auto dest!: in_set_dropD set_om_put)
  have "getValueAt t ?m = Some v"
  proof (cases "t = now")
    case True
    then show ?thesis
      using getValueAt_sample [OF ok', of now v now] last_in_set [OF ne] lst by simp
  next
    case False
    then have "\<forall>e \<in> set (historical_values ?m). fst e < t" using max assms(3) by fastforce
    then show ?thesis using getValueAt_after [of ?m t] ne lst by simp
  qed
  then show ?thesis by (simp add: writers_record)
qed

lemma evicted_past:
  assumes "\<forall>e \<in> set (historical_values m). now < fst e" and "length (historical_values m) = max_history"
  shows "historical_values (update now v m) = historical_values m \<and> getCurrentValue (update now v m) = v"
proof -
  have "om_put now v (historical_values m) = (now, v) # historical_values m"
    using assms(1) by (cases "historical_values m") auto
  then show ?thesis
    using assms(2) by (simp add: writers_record om_trim_drop)
qed

section \<open>Properties\<close>

text \<open>
  C37: A metric is a bounded window over the full log of its samples. Whatever updates and
  increments a new gauge or counter receives, as long as the clock advances between them,
  its history is the last 1000 entries of the full log (a counter's increments accumulate in
  double arithmetic from 0) and its current value is the last value of that log.
\<close>

theorem metric_history_window:
  assumes "\<forall>p \<in> set ops. op_fits ty p" and "sorted_wrt (<) (map op_time ops)"
  shows "historical_values (metric_run (new_metric name ty t0) ops) =
      drop (length ops - 1000) (full_log (Fin 0) ops) \<and>
    getCurrentValue (metric_run (new_metric name ty t0) ops) = foldl op_value (Fin 0) ops"
  using history_is_tail [of ops "new_metric name ty t0"] assms
    current_value_run [of ops "new_metric name ty t0"]
  by (simp add: new_metric_def max_history_def log_value_def)

theorem metric_history_window_witness:
  "let ops = [Increment 10 (Fin 1), Increment 20 (Fin 2), Update 30 (Fin 7)] in
   historical_values (metric_run (new_metric ''c'' COUNTER 0) ops) =
     drop (length ops - 1000) (full_log (Fin 0) ops) \<and>
   getCurrentValue (metric_run (new_metric ''c'' COUNTER 0) ops) = foldl op_value (Fin 0) ops"
  unfolding Let_def by (rule metric_history_window) simp_all

text \<open>
  \<open>getValueAt\<close> on any reachable metric, whatever the clock did: with no sample it is empty;
  otherwise it is the value of a recorded sample, the earliest one at or after the time asked
  for if there is one, and the latest sample if there is none. The history never exceeds
  1000 samples.
\<close>

theorem metric_value_at:
  assumes "m = metric_run (new_metric name ty t0) ops"
  shows "length (historical_values m) \<le> 1000 \<and>
    (if historical_values m = [] then getValueAt t m = None
     else \<exists>k v. (k, v) \<in> set (historical_values m) \<and> getValueAt t m = Some v \<and>
       (if \<exists>e \<in> set (historical_values m). t \<le> fst e
        then t \<le> k \<and> (\<forall>e \<in> set (historical_values m). t \<le> fst e \<longrightarrow> k \<le> fst e)
        else (\<forall>e \<in> set (historical_values m). fst e \<le> k)))"
proof -
  have "metric_ok m" using metric_ok_run assms by simp
  then show ?thesis
    using getValueAt_cases [of m t] getValueAt_none [of t m]
    by (simp add: metric_ok_def max_history_def)
qed

theorem metric_value_at_witness:
  "let m = metric_run (new_metric ''g'' GAUGE 0) [Update 10 (Fin 1), Update 5 (Fin 2)]; t = 7 in
   length (historical_values m) \<le> 1000 \<and>
    (if historical_values m = [] then getValueAt t m = None
     else \<exists>k v. (k, v) \<in> set (historical_values m) \<and> getValueAt t m = Some v \<and>
       (if \<exists>e \<in> set (historical_values m). t \<le> fst e
        then t \<le> k \<and> (\<forall>e \<in> set (historical_values m). t \<le> fst e \<longrightarrow> k \<le> fst e)
        else (\<forall>e \<in> set (historical_values m). fst e \<le> k)))"
  unfolding Let_def by (rule metric_value_at [OF refl])

text \<open>
  A write is visible to readers of the present unless the clock was set back: if no recorded
  sample is later than \<open>now\<close>, then after the update every read at \<open>now\<close> or later gives the
  written value; but if the history is full and \<open>now\<close> lies before every recorded sample, the
  new sample is the one evicted and the history does not change, although the current value
  does.
\<close>

theorem metric_update_visible:
  assumes "m = metric_run (new_metric name ty t0) ops"
  shows "((\<forall>e \<in> set (historical_values m). fst e \<le> now) \<and> now \<le> t \<longrightarrow>
      getValueAt t (update now v m) = Some v) \<and>
    ((\<forall>e \<in> set (historical_values m). now < fst e) \<and> length (historical_values m) = 1000 \<longrightarrow>
      historical_values (update now v m) = historical_values m \<and> getCurrentValue (update now v m) = v)"
  using visible_now [of m now t v] evicted_past [of m now v] metric_ok_run assms
  by (simp add: max_history_def)

theorem metric_update_visible_witness:
  "let m = metric_run (new_metric ''g'' GAUGE 0) [Update 10 (Fin 1), Update 5 (Fin 2)] in
   ((\<forall>e \<in> set (historical_values m). fst e \<le> 11) \<and> (11 :: int) \<le> 12 \<longrightarrow>
      getValueAt 12 (update 11 (Fin 3) m) = Some (Fin 3)) \<and>
   ((\<forall>e \<in> set (historical_values m). 11 < fst e) \<and> length (historical_values m) = 1000 \<longrightarrow>
      historical_values (update 11 (Fin 3) m) = historical_values m \<and>
      getCurrentValue (update 11 (Fin 3) m) = Fin 3)"
  unfolding Let_def by (rule metric_update_visible [OF refl])

end
