(* ===== verification/Event_Machine.thy ===== *)
theory Event_Machine
  imports Main
begin

text \<open>
  What the state machines of the development share: an executable step that is \<open>None\<close> while an
  event is not possible, the run of a list of events, and two interfaces: an invariant, which a
  machine provides by one preservation proof per step, and a simulation, which carries the runs of
  one machine over to another.
\<close>

fun run_events :: "('e \<Rightarrow> 's \<Rightarrow> 's option) \<Rightarrow> 'e list \<Rightarrow> 's \<Rightarrow> 's option" where
  "run_events step [] s = Some s"
| "run_events step (e # es) s = (case step e s of None \<Rightarrow> None | Some s' \<Rightarrow> run_events step es s')"

lemma run_events_Cons:
  "run_events step (e # es) s = Some t \<longleftrightarrow> (\<exists>s'. step e s = Some s' \<and> run_events step es s' = Some t)"
  by (simp split: option.splits)

lemma run_events_append:
  "run_events step (es @ es') s = Option.bind (run_events step es s) (run_events step es')"
  by (induction es arbitrary: s) (simp_all split: option.splits)

text \<open>\<open>allowed\<close> restricts the schedule: which event may come in which state.\<close>

fun run_allowed :: "('e \<Rightarrow> 's \<Rightarrow> bool) \<Rightarrow> ('e \<Rightarrow> 's \<Rightarrow> 's option) \<Rightarrow> 'e list \<Rightarrow> 's \<Rightarrow> bool" where
  "run_allowed allowed step [] s = True"
| "run_allowed allowed step (e # es) s =
     (allowed e s \<and> (case step e s of None \<Rightarrow> True | Some s' \<Rightarrow> run_allowed allowed step es s'))"

locale machine_invariant =
  fixes step :: "'e \<Rightarrow> 's \<Rightarrow> 's option" and allowed :: "'e \<Rightarrow> 's \<Rightarrow> bool" and inv :: "'s \<Rightarrow> bool"
  assumes keeps: "inv s \<Longrightarrow> allowed e s \<Longrightarrow> step e s = Some s' \<Longrightarrow> inv s'"
begin

lemma holds_after: "inv s \<Longrightarrow> run_allowed allowed step es s \<Longrightarrow> run_events step es s = Some t \<Longrightarrow> inv t"
  by (induction es arbitrary: s) (auto dest: keeps split: option.splits)

end

text \<open>A machine with a first state.\<close>

locale started_machine = machine_invariant +
  fixes start :: 's
  assumes starts: "inv start"
begin

lemma reachable: "run_allowed allowed step es start \<Longrightarrow> run_events step es start = Some t \<Longrightarrow> inv t"
  by (rule holds_after [OF starts])

end

section \<open>Simulation\<close>

text \<open>\<open>lab\<close> gives the events of the other machine that a step stands for, none if it is internal.\<close>

fun run_labels :: "('e \<Rightarrow> 's \<Rightarrow> 'l list) \<Rightarrow> ('e \<Rightarrow> 's \<Rightarrow> 's option) \<Rightarrow> 'e list \<Rightarrow> 's \<Rightarrow> 'l list" where
  "run_labels lab step [] s = []"
| "run_labels lab step (e # es) s = lab e s @ (case step e s of None \<Rightarrow> [] | Some s' \<Rightarrow> run_labels lab step es s')"

lemma run_labels_append:
  "run_labels lab step (es @ es') s =
    run_labels lab step es s @ (case run_events step es s of None \<Rightarrow> [] | Some s' \<Rightarrow> run_labels lab step es' s')"
  by (induction es arbitrary: s) (auto split: option.splits)

text \<open>The labels of every step of a run are among those of the run.\<close>

lemma run_allowed_labels: "run_allowed (\<lambda>e s. set (lab e s) \<subseteq> set (run_labels lab step es s0)) step es s0"
proof -
  have "set (run_labels lab step es s) \<subseteq> X \<Longrightarrow> run_allowed (\<lambda>e s. set (lab e s) \<subseteq> X) step es s" for X s
    by (induction es arbitrary: s) (auto split: option.splits)
  then show ?thesis by blast
qed

lemma run_allowed_append:
  "run_allowed allowed step (es @ es') s \<longleftrightarrow> run_allowed allowed step es s \<and>
    (case run_events step es s of None \<Rightarrow> True | Some s' \<Rightarrow> run_allowed allowed step es' s')"
  by (induction es arbitrary: s) (auto split: option.splits)

locale machine_simulation = machine_invariant step allowed inv
  for step :: "'e \<Rightarrow> 's \<Rightarrow> 's option" and allowed and inv +
  fixes abs_step :: "'l \<Rightarrow> 't \<Rightarrow> 't option" and abs_allowed :: "'l \<Rightarrow> 't \<Rightarrow> bool"
    and view :: "'s \<Rightarrow> 't" and lab :: "'e \<Rightarrow> 's \<Rightarrow> 'l list"
  assumes simulates: "inv s \<Longrightarrow> allowed e s \<Longrightarrow> step e s = Some s' \<Longrightarrow>
    run_events abs_step (lab e s) (view s) = Some (view s') \<and> run_allowed abs_allowed abs_step (lab e s) (view s)"
begin

lemma run_simulates:
  "inv s \<Longrightarrow> run_allowed allowed step es s \<Longrightarrow> run_events step es s = Some t \<Longrightarrow>
    run_events abs_step (run_labels lab step es s) (view s) = Some (view t) \<and>
    run_allowed abs_allowed abs_step (run_labels lab step es s) (view s)"
proof (induction es arbitrary: s)
  case (Cons e es)
  obtain s1 where s1: "step e s = Some s1" "run_events step es s1 = Some t"
    using Cons.prems(3) unfolding run_events_Cons by blast
  have e: "allowed e s" "run_allowed allowed step es s1" using Cons.prems(2) s1(1) by simp_all
  then show ?case
    using simulates [OF Cons.prems(1) e(1) s1(1)] keeps [OF Cons.prems(1) e(1) s1(1)] Cons.IH [of s1] s1
    by (simp add: run_events_append run_allowed_append)
qed simp

text \<open>Labels of the other machine's run, seen from this one.\<close>

lemma run_labels_compose:
  "inv s \<Longrightarrow> run_allowed allowed step es s \<Longrightarrow> run_events step es s = Some t \<Longrightarrow>
    run_labels f abs_step (run_labels lab step es s) (view s) =
      run_labels (\<lambda>e s. run_labels f abs_step (lab e s) (view s)) step es s"
proof (induction es arbitrary: s)
  case (Cons e es)
  obtain s1 where s1: "step e s = Some s1" "run_events step es s1 = Some t"
    using Cons.prems(3) unfolding run_events_Cons by blast
  have e: "allowed e s" "run_allowed allowed step es s1" using Cons.prems(2) s1(1) by simp_all
  then show ?case
    using simulates [OF Cons.prems(1) e(1) s1(1)] keeps [OF Cons.prems(1) e(1) s1(1)] Cons.IH [of s1] s1
    by (simp add: run_labels_append)
qed simp

text \<open>An invariant of the other machine is one of this.\<close>

lemma transfers:
  assumes "machine_invariant abs_step abs_allowed abs_inv" and "abs_inv (view s)"
    and "inv s" and "run_allowed allowed step es s" and "run_events step es s = Some t"
  shows "abs_inv (view t)"
  using machine_invariant.holds_after [OF assms(1,2)] run_simulates [OF assms(3-5)] by blast

end

lemma run_allowed_True [simp]: "run_allowed (\<lambda>e s. True) step es s"
  by (induction es arbitrary: s) (simp_all split: option.splits)

lemma run_allowed_events: "\<forall>e \<in> set es. A e \<Longrightarrow> run_allowed (\<lambda>e s. A e) step es s"
  by (induction es arbitrary: s) (simp_all split: option.splits)

lemma run_allowed_conj:
  "run_allowed (\<lambda>e s. A e s \<and> B e s) step es s \<longleftrightarrow> run_allowed A step es s \<and> run_allowed B step es s"
  by (induction es arbitrary: s) (auto split: option.splits)

lemma run_allowed_mono:
  "run_allowed A step es s \<Longrightarrow> (\<And>e s. e \<in> set es \<Longrightarrow> A e s \<Longrightarrow> B e s) \<Longrightarrow> run_allowed B step es s"
proof (induction es arbitrary: s)
  case (Cons e es)
  have "B e s" using Cons.prems by simp
  then show ?case using Cons by (cases "step e s") auto
qed simp

text \<open>The simplest other machine: a list that grows.\<close>

definition append_event :: "'l \<Rightarrow> 'l list \<Rightarrow> 'l list option" where
  "append_event x xs = Some (xs @ [x])"

lemma append_run [simp]: "run_events append_event ys xs = Some (xs @ ys)"
  by (induction ys arbitrary: xs) (simp_all add: append_event_def)

end
