(* ===== verification/Collector_Base.thy ===== *)
theory Collector_Base
  imports Metrics Event_Machine
begin

text \<open>
  \<^verbatim>\<open>core/collectors/collector_base.hpp\<close>: the registry of a collector's metrics, and the
  life of its worker thread. Metrics are shared objects: a \<^verbatim>\<open>shared_ptr\<close> is an index into a
  store of metrics, so that a collector, the registry and the alert conditions that hold the
  same pointer see the same object.
\<close>

section \<open>Shared metrics and the registry\<close>

type_synonym mstore = "metric list"
type_synonym registry = "(string, nat) omap"

definition make_shared :: "metric \<Rightarrow> mstore \<Rightarrow> nat \<times> mstore" where
  "make_shared m h = (length h, h @ [m])"

text \<open>\<^verbatim>\<open>p->update(value)\<close> when the clock reads \<open>now\<close>.\<close>

definition store_update :: "nat \<Rightarrow> int \<Rightarrow> dbl \<Rightarrow> mstore \<Rightarrow> mstore" where
  "store_update p now value h = h[p := update now value (h ! p)]"

definition registerMetric :: "mstore \<Rightarrow> nat \<Rightarrow> registry \<Rightarrow> registry" where
  "registerMetric h p reg = om_put (m_name (h ! p)) p reg"

definition getMetric :: "string \<Rightarrow> registry \<Rightarrow> nat option" where
  "getMetric name reg = om_find name reg"

definition getMetricNames :: "registry \<Rightarrow> string list" where
  "getMetricNames reg = map fst reg"

lemma length_store_update [simp]: "length (store_update p t v h) = length h"
  by (simp add: store_update_def)

lemma store_update_other [simp]: "q \<noteq> p \<Longrightarrow> store_update p t v h ! q = h ! q"
  by (simp add: store_update_def)

lemma store_update_same: "p < length h \<Longrightarrow> store_update p t v h ! p = update t v (h ! p)"
  by (simp add: store_update_def)

lemma store_update_name [simp]: "m_name (store_update p t v h ! q) = m_name (h ! q)"
proof (cases "q = p \<and> p < length h")
  case True
  then show ?thesis by (simp add: store_update_def writers_record)
next
  case False
  then show ?thesis by (cases "q = p") (simp_all add: store_update_def list_update_beyond)
qed

lemma current_store_update:
  "p < length h \<Longrightarrow> current_value (store_update p t v h ! p) = v"
  by (simp add: store_update_same writers_record)

lemma make_shared_simps [simp]:
  "fst (make_shared m h) = length h"
  "snd (make_shared m h) = h @ [m]"
  by (simp_all add: make_shared_def)

lemma getMetric_register:
  "om_ok reg \<Longrightarrow> getMetric n (registerMetric h p reg) = (if n = m_name (h ! p) then Some p else getMetric n reg)"
  by (simp add: getMetric_def registerMetric_def)

lemma registerMetric_ok [simp]: "om_ok reg \<Longrightarrow> om_ok (registerMetric h p reg)"
  by (simp add: registerMetric_def)

lemma set_getMetricNames: "om_ok reg \<Longrightarrow> n \<in> set (getMetricNames reg) \<longleftrightarrow> getMetric n reg \<noteq> None"
  by (auto simp: getMetricNames_def getMetric_def om_find_def map_of_eq_None_iff)

section \<open>The worker thread\<close>

text \<open>
  Where the thread stands in \<open>collectLoop\<close>. \<open>NoThread\<close> is a \<^verbatim>\<open>std::thread\<close> that is not
  joinable; every other value is joinable, \<open>Returned\<close> with the loop over.
\<close>

datatype worker_pc = NoThread | LoopTest | InCollect | Sleeping | Returned

text \<open>
  \<open>joining\<close> counts the callers of \<open>stop\<close> between the locked block and the join: the
  mutex is free there. \<open>crashed\<close> is \<^verbatim>\<open>std::terminate\<close>, which the assignment to a joinable
  thread calls.
\<close>

record lifecycle =
  running :: bool
  worker :: worker_pc
  joining :: nat
  rounds :: nat
  crashed :: bool

definition new_collector :: lifecycle where
  "new_collector = \<lparr>running = False, worker = NoThread, joining = 0, rounds = 0, crashed = False\<rparr>"

definition collector_start :: "lifecycle \<Rightarrow> lifecycle" where
  "collector_start c =
     (if running c then c
      else let c1 = c\<lparr>running := True\<rparr>
           in if worker c1 \<noteq> NoThread then c1\<lparr>crashed := True\<rparr> else c1\<lparr>worker := LoopTest\<rparr>)"

text \<open>The locked block of \<open>stop\<close>, and the join, which waits for the loop to return.\<close>

definition stop_locked :: "lifecycle \<Rightarrow> lifecycle" where
  "stop_locked c = (if \<not> running c then c else c\<lparr>running := False, joining := Suc (joining c)\<rparr>)"

definition stop_join :: "lifecycle \<Rightarrow> lifecycle option" where
  "stop_join c =
     (if joining c = 0 then None
      else if worker c = NoThread then Some (c\<lparr>joining := joining c - 1\<rparr>)
      else if worker c = Returned then Some (c\<lparr>worker := NoThread, joining := joining c - 1\<rparr>)
      else None)"

text \<open>One step of \<open>collectLoop\<close>; \<open>elapsed\<close> says that the interval is over.\<close>

definition collectLoop :: "bool \<Rightarrow> lifecycle \<Rightarrow> lifecycle option" where
  "collectLoop elapsed c =
     (case worker c of
        LoopTest \<Rightarrow> Some (if running c then c\<lparr>worker := InCollect\<rparr> else c\<lparr>worker := Returned\<rparr>)
      | InCollect \<Rightarrow> Some (c\<lparr>rounds := Suc (rounds c), worker := Sleeping\<rparr>)
      | Sleeping \<Rightarrow> Some (if running c \<and> \<not> elapsed then c else c\<lparr>worker := LoopTest\<rparr>)
      | _ \<Rightarrow> None)"

datatype life_event = Start | StopLocked | StopJoin | Worker bool

fun life_step :: "life_event \<Rightarrow> lifecycle \<Rightarrow> lifecycle option" where
  "life_step Start c = (if crashed c then None else Some (collector_start c))"
| "life_step StopLocked c = (if crashed c then None else Some (stop_locked c))"
| "life_step StopJoin c = (if crashed c then None else stop_join c)"
| "life_step (Worker e) c = (if crashed c then None else collectLoop e c)"

text \<open>All the interleavings, and those in which no \<open>start\<close> overlaps a \<open>stop\<close>.\<close>

inductive reaches :: "lifecycle \<Rightarrow> bool" where
  init: "reaches new_collector"
| step: "reaches c \<Longrightarrow> life_step e c = Some c' \<Longrightarrow> reaches c'"

inductive serial_reaches :: "lifecycle \<Rightarrow> bool" where
  init: "serial_reaches new_collector"
| step: "serial_reaches c \<Longrightarrow> life_step e c = Some c' \<Longrightarrow> e = Start \<longrightarrow> joining c = 0 \<Longrightarrow>
    serial_reaches c'"

subsection \<open>Invariant\<close>

definition life_ok :: "lifecycle \<Rightarrow> bool" where
  "life_ok c \<longleftrightarrow> \<not> crashed c \<and> joining c \<le> 1 \<and>
     (joining c = 0 \<longrightarrow> (running c \<longleftrightarrow> worker c \<noteq> NoThread)) \<and>
     (joining c = 1 \<longrightarrow> \<not> running c \<and> worker c \<noteq> NoThread) \<and>
     (running c \<longrightarrow> worker c \<noteq> Returned)"

lemmas life_defs = life_ok_def collector_start_def stop_locked_def stop_join_def collectLoop_def Let_def

lemma life_ok_step:
  assumes "life_ok c" and "life_step e c = Some c'" and "e = Start \<longrightarrow> joining c = 0"
  shows "life_ok c'"
proof (cases e)
  case Start
  then show ?thesis using assms by (auto simp: life_defs)
next
  case StopLocked
  then show ?thesis using assms by (auto simp: life_defs split: if_splits)
next
  case StopJoin
  then show ?thesis using assms by (auto simp: life_defs split: if_splits)
next
  case (Worker b)
  then show ?thesis using assms by (auto simp: life_defs split: if_splits worker_pc.splits)
qed

lemma serial_life_ok: "serial_reaches c \<Longrightarrow> life_ok c"
  by (induction rule: serial_reaches.induct) (auto simp: life_ok_step, simp add: life_ok_def new_collector_def)

text \<open>Steps the loop still needs once \<open>running\<close> is false.\<close>

fun steps_left :: "worker_pc \<Rightarrow> nat" where
  "steps_left InCollect = 3"
| "steps_left Sleeping = 2"
| "steps_left LoopTest = 1"
| "steps_left _ = 0"

fun run_worker :: "bool list \<Rightarrow> lifecycle \<Rightarrow> lifecycle" where
  "run_worker [] c = c"
| "run_worker (b # bs) c = (case collectLoop b c of None \<Rightarrow> c | Some c' \<Rightarrow> run_worker bs c')"

lemma run_worker_returns:
  assumes "\<not> running c" and "worker c \<noteq> NoThread" and "steps_left (worker c) \<le> length bs"
  shows "worker (run_worker bs c) = Returned \<and> \<not> running (run_worker bs c) \<and>
    joining (run_worker bs c) = joining c \<and> crashed (run_worker bs c) = crashed c"
  using assms
proof (induction bs arbitrary: c)
  case Nil
  then show ?case by (cases "worker c") auto
next
  case (Cons b bs)
  then show ?case by (cases "worker c") (auto simp: collectLoop_def)
qed

section \<open>Properties\<close>

text \<open>
  Life of a collector whose \<open>start\<close> and \<open>stop\<close> calls do not overlap, whatever the worker
  does in between: the process is never terminated, there is exactly one worker thread while
  \<open>running\<close> is set and none once \<open>stop\<close> has returned, and at most one caller waits in the
  join.
\<close>

theorem collector_life:
  assumes "serial_reaches c"
  shows "\<not> crashed c \<and> joining c \<le> 1 \<and>
    (running c \<longrightarrow> worker c \<in> {LoopTest, InCollect, Sleeping}) \<and>
    (\<not> running c \<and> joining c = 0 \<longrightarrow> worker c = NoThread)"
proof -
  have ok: "life_ok c" using assms by (rule serial_life_ok)
  then have "running c \<Longrightarrow> worker c \<noteq> NoThread" by (cases "joining c") (auto simp: life_ok_def)
  with ok show ?thesis by (cases "worker c") (auto simp: life_ok_def)
qed

theorem collector_life_witness:
  "let c = the (collectLoop False (the (collectLoop False (collector_start new_collector)))) in
   \<not> crashed c \<and> joining c \<le> 1 \<and>
    (running c \<longrightarrow> worker c \<in> {LoopTest, InCollect, Sleeping}) \<and>
    (\<not> running c \<and> joining c = 0 \<longrightarrow> worker c = NoThread)"
proof -
  let ?c0 = "collector_start new_collector"
  let ?c1 = "the (collectLoop False ?c0)"
  let ?c2 = "the (collectLoop False ?c1)"
  have s: "life_step Start new_collector = Some ?c0" "life_step (Worker False) ?c0 = Some ?c1"
    "life_step (Worker False) ?c1 = Some ?c2"
    by (simp_all add: new_collector_def life_defs)
  have "serial_reaches ?c2"
    by (rule serial_reaches.step [OF serial_reaches.step [OF serial_reaches.step [OF serial_reaches.init s(1)] s(2)] s(3)])
      (simp_all add: new_collector_def)
  then show ?thesis unfolding Let_def by (rule collector_life)
qed

text \<open>
  \<open>stop\<close> returns: once its locked block has run, three steps of the worker are enough
  for the loop to return, whatever the clock says, and then the join succeeds and leaves a
  collector without a thread that can be started again.
\<close>

theorem collector_stop_returns:
  assumes "serial_reaches c" and "running c" and "3 \<le> length bs"
  shows "\<exists>c'. stop_join (run_worker bs (stop_locked c)) = Some c' \<and>
    worker c' = NoThread \<and> \<not> running c' \<and> joining c' = 0 \<and>
    worker (collector_start c') = LoopTest \<and> \<not> crashed (collector_start c')"
proof -
  have ok: "life_ok c" using assms(1) by (rule serial_life_ok)
  then have j: "joining c = 0" "worker c \<noteq> NoThread" "\<not> crashed c"
    using assms(2) by (cases "joining c"; auto simp: life_ok_def)+
  have "steps_left (worker c) \<le> length bs" using assms(3) by (cases "worker c") auto
  then have "worker (run_worker bs (stop_locked c)) = Returned \<and>
      \<not> running (run_worker bs (stop_locked c)) \<and> joining (run_worker bs (stop_locked c)) = 1 \<and>
      \<not> crashed (run_worker bs (stop_locked c))"
    using run_worker_returns [of "stop_locked c" bs] assms(2) j by (simp add: stop_locked_def)
  then show ?thesis by (simp add: stop_join_def collector_start_def Let_def)
qed

theorem collector_stop_returns_witness:
  "\<exists>c'. stop_join (run_worker [False, True, False] (stop_locked (collector_start new_collector))) = Some c' \<and>
    worker c' = NoThread \<and> \<not> running c' \<and> joining c' = 0 \<and>
    worker (collector_start c') = LoopTest \<and> \<not> crashed (collector_start c')"
proof (rule collector_stop_returns)
  show "serial_reaches (collector_start new_collector)"
    by (rule serial_reaches.step [OF serial_reaches.init, of Start]) (simp_all add: new_collector_def)
qed (simp_all add: new_collector_def life_defs)

text \<open>
  A \<open>start\<close> that comes after another thread's \<open>stop\<close> has cleared \<open>running\<close> and before that
  thread has joined the worker assigns to a joinable thread object, which terminates the
  process; the interleaving is reachable.
\<close>

theorem collector_restart_race:
  "reaches (collector_start (stop_locked (collector_start new_collector))) \<and>
   crashed (collector_start (stop_locked (collector_start new_collector)))"
proof
  have s: "life_step Start new_collector = Some (collector_start new_collector)"
    "life_step StopLocked (collector_start new_collector) = Some (stop_locked (collector_start new_collector))"
    "life_step Start (stop_locked (collector_start new_collector)) =
       Some (collector_start (stop_locked (collector_start new_collector)))"
    by (simp_all add: new_collector_def life_defs)
  show "reaches (collector_start (stop_locked (collector_start new_collector)))"
    by (rule reaches.step [OF reaches.step [OF reaches.step [OF reaches.init s(1)] s(2)] s(3)])
  show "crashed (collector_start (stop_locked (collector_start new_collector)))"
    by (simp add: new_collector_def life_defs)
qed

section \<open>Destruction\<close>

text \<open>
  A collector is destroyed from the derived class down: first the members and the \<open>collect\<close> of
  the derived class are gone, then \<^verbatim>\<open>~CollectorBase\<close> calls \<open>stop\<close>, then the members of the base are
  destroyed. \<open>derived_part\<close> says that the derived part exists, \<open>stale_collect\<close> that the worker was in
  \<open>collect\<close> without it: by then the call is to a pure virtual function or on destroyed members.
\<close>

record collector_object =
  object_life :: lifecycle
  derived_part :: bool
  stale_collect :: bool

datatype object_event = DropDerived | Life life_event

fun object_step :: "object_event \<Rightarrow> collector_object \<Rightarrow> collector_object option" where
  "object_step DropDerived b = (if derived_part b then Some (b\<lparr>derived_part := False\<rparr>) else None)"
| "object_step (Life e) b =
     map_option (\<lambda>l. b\<lparr>object_life := l,
         stale_collect := stale_collect b \<or> (\<not> derived_part b \<and> (\<exists>d. e = Worker d) \<and> worker (object_life b) = InCollect)\<rparr>)
       (life_step e (object_life b))"

definition whole_object :: "lifecycle \<Rightarrow> collector_object" where
  "whole_object c = \<lparr>object_life = c, derived_part = True, stale_collect = False\<rparr>"

text \<open>What is left to do of \<^verbatim>\<open>~CollectorBase\<close>: nothing but its \<open>stop\<close> and the worker's own steps.\<close>

definition destructor_event :: "object_event \<Rightarrow> collector_object \<Rightarrow> bool" where
  "destructor_event e b \<longleftrightarrow> e \<noteq> DropDerived \<and> e \<noteq> Life Start"

text \<open>The end of the destructor: a joinable thread member terminates the process.\<close>

definition destroyed_safely :: "collector_object \<Rightarrow> bool" where
  "destroyed_safely b \<longleftrightarrow> \<not> stale_collect b \<and> \<not> crashed (object_life b) \<and> worker (object_life b) = NoThread"

definition stopped_object :: "collector_object \<Rightarrow> bool" where
  "stopped_object b \<longleftrightarrow> \<not> running (object_life b) \<and> joining (object_life b) = 0 \<and> destroyed_safely b"

lemma stopped_object_step:
  assumes "stopped_object b" and "destructor_event e b" and "object_step e b = Some b'"
  shows "stopped_object b'"
proof (cases e)
  case (Life l)
  then show ?thesis
    using assms by (cases l) (auto simp: stopped_object_def destroyed_safely_def destructor_event_def life_defs)
qed (use assms in \<open>simp add: destructor_event_def\<close>)

interpretation dying_collector: machine_invariant object_step destructor_event stopped_object
  by unfold_locales (rule stopped_object_step)

text \<open>
  A collector that was stopped before it is destroyed is destroyed safely, in whatever order the
  destructor and the scheduler go on. A collector that is destroyed while it runs is not: the
  \<open>stop\<close> in the destructor of the base comes too late, and from every such state there is a schedule
  in which the worker collects on the destroyed object before \<open>stop\<close> takes the lock.
\<close>

theorem collector_destruction:
  assumes "serial_reaches c" and "joining c = 0"
  shows "if running c
    then \<exists>es b. run_events object_step (DropDerived # map Life es) (whole_object c) = Some b \<and> stale_collect b
      \<and> StopLocked \<notin> set es
    else \<forall>es b. run_allowed destructor_event object_step es ((whole_object c)\<lparr>derived_part := False\<rparr>) \<longrightarrow>
      run_events object_step (DropDerived # es) (whole_object c) = Some b \<longrightarrow> destroyed_safely b"
proof -
  have ok: "life_ok c" using assms(1) by (rule serial_life_ok)
  show ?thesis
  proof (cases "running c")
    case True
    then have "worker c \<in> {LoopTest, InCollect, Sleeping}" "\<not> crashed c"
      using ok assms(2) by (cases "worker c"; auto simp: life_ok_def)+
    then consider "worker c = LoopTest" | "worker c = InCollect" | "worker c = Sleeping" by blast
    then have "\<exists>es b. run_events object_step (DropDerived # map Life es) (whole_object c) = Some b \<and> stale_collect b
        \<and> StopLocked \<notin> set es"
    proof cases
      case 1
      then show ?thesis using True \<open>\<not> crashed c\<close>
        by (intro exI [of _ "[Worker False, Worker False]"]) (auto simp: whole_object_def collectLoop_def)
    next
      case 2
      then show ?thesis using True \<open>\<not> crashed c\<close>
        by (intro exI [of _ "[Worker False]"]) (auto simp: whole_object_def collectLoop_def)
    next
      case 3
      then show ?thesis using True \<open>\<not> crashed c\<close>
        by (intro exI [of _ "[Worker True, Worker False, Worker False]"]) (auto simp: whole_object_def collectLoop_def)
    qed
    then show ?thesis using True by simp
  next
    case False
    then have "stopped_object ((whole_object c)\<lparr>derived_part := False\<rparr>)"
      using ok assms(2) by (auto simp: stopped_object_def destroyed_safely_def whole_object_def life_ok_def)
    then have "destroyed_safely b" if "run_allowed destructor_event object_step es ((whole_object c)\<lparr>derived_part := False\<rparr>)"
      "run_events object_step es ((whole_object c)\<lparr>derived_part := False\<rparr>) = Some b" for es b
      using dying_collector.holds_after that unfolding stopped_object_def by blast
    then show ?thesis using False by (simp add: whole_object_def)
  qed
qed

theorem collector_destruction_witness:
  "\<exists>es b. run_events object_step (DropDerived # map Life es) (whole_object (collector_start new_collector)) = Some b \<and>
    stale_collect b \<and> StopLocked \<notin> set es"
proof -
  have "serial_reaches (collector_start new_collector)"
    by (rule serial_reaches.step [OF serial_reaches.init, of Start]) (simp_all add: new_collector_def)
  moreover have "joining (collector_start new_collector) = 0" "running (collector_start new_collector)"
    by (simp_all add: new_collector_def collector_start_def)
  ultimately show ?thesis using collector_destruction [of "collector_start new_collector"] by simp
qed

end
