(* ===== verification/Alerts.thy ===== *)
theory Alerts
  imports Collector_Base
begin

text \<open>
  \<^verbatim>\<open>alert/alert_rule\<close> and \<^verbatim>\<open>alert/alert_manager\<close>: threshold conditions over shared metrics, the
  cooldown by alert name, and the manager that checks every alert and calls every callback.
  The steady clock is an argument, in nanoseconds.
\<close>

section \<open>Conditions\<close>

datatype severity = INFO | WARNING | ERROR | CRITICAL

datatype comparator = GREATER_THAN | LESS_THAN | EQUAL_TO | NOT_EQUAL_TO | GREATER_EQUAL | LESS_EQUAL

text \<open>The only \<open>ConditionPolicy\<close>; a null metric is \<open>None\<close>.\<close>

record condition =
  cond_metric :: "nat option"
  cond_comparator :: comparator
  cond_threshold :: dbl

definition MetricThresholdCondition :: "nat option \<Rightarrow> comparator \<Rightarrow> dbl \<Rightarrow> condition" where
  "MetricThresholdCondition metric cmp threshold =
     \<lparr>cond_metric = metric, cond_comparator = cmp, cond_threshold = threshold\<rparr>"

text \<open>The literal \<^verbatim>\<open>1e-6\<close>\<close>

definition tolerance :: dbl where
  "tolerance = rnd (1 / 10 ^ 6)"

fun compareValues :: "comparator \<Rightarrow> dbl \<Rightarrow> dbl \<Rightarrow> bool" where
  "compareValues GREATER_THAN value threshold = dlt threshold value"
| "compareValues LESS_THAN value threshold = dlt value threshold"
| "compareValues EQUAL_TO value threshold = dlt (dabs (dsub value threshold)) tolerance"
| "compareValues NOT_EQUAL_TO value threshold = dle tolerance (dabs (dsub value threshold))"
| "compareValues GREATER_EQUAL value threshold = dle threshold value"
| "compareValues LESS_EQUAL value threshold = dle value threshold"

definition evaluate :: "mstore \<Rightarrow> condition \<Rightarrow> bool" where
  "evaluate h c =
     (case cond_metric c of None \<Rightarrow> False
      | Some p \<Rightarrow> compareValues (cond_comparator c) (getCurrentValue (h ! p)) (cond_threshold c))"

fun comparator_str :: "comparator \<Rightarrow> string" where
  "comparator_str GREATER_THAN = ''>''"
| "comparator_str LESS_THAN = ''<''"
| "comparator_str EQUAL_TO = ''==''"
| "comparator_str NOT_EQUAL_TO = ''!=''"
| "comparator_str GREATER_EQUAL = ''>=''"
| "comparator_str LESS_EQUAL = ''<=''"

definition getDescription :: "mstore \<Rightarrow> condition \<Rightarrow> string" where
  "getDescription h c =
     (case cond_metric c of None \<Rightarrow> ''Invalid metric''
      | Some p \<Rightarrow> m_name (h ! p) @ '' '' @ comparator_str (cond_comparator c) @ '' '' @
          dbl_to_string (cond_threshold c))"

section \<open>Alerts and the cooldown\<close>

record alert =
  al_name :: string
  al_condition :: condition
  al_severity :: severity

fun severity_str :: "severity \<Rightarrow> string" where
  "severity_str INFO = ''INFO''"
| "severity_str WARNING = ''WARNING''"
| "severity_str ERROR = ''ERROR''"
| "severity_str CRITICAL = ''CRITICAL''"

definition alert_check :: "mstore \<Rightarrow> alert \<Rightarrow> bool" where
  "alert_check h a = evaluate h (al_condition a)"

definition getMessage :: "mstore \<Rightarrow> alert \<Rightarrow> string" where
  "getMessage h a = ''['' @ severity_str (al_severity a) @ ''] Alert: '' @ al_name a @ '' - '' @
     getDescription h (al_condition a)"

record cooldown =
  cooldown_duration :: int
  last_fired :: "(string, int) omap"

definition CooldownPolicy :: "int \<Rightarrow> cooldown" where
  "CooldownPolicy duration = \<lparr>cooldown_duration = duration, last_fired = []\<rparr>"

definition shouldSuppressAlert :: "int \<Rightarrow> alert \<Rightarrow> cooldown \<Rightarrow> bool" where
  "shouldSuppressAlert now a cd =
     (case om_find (al_name a) (last_fired cd) of None \<Rightarrow> False
      | Some t \<Rightarrow> now - t < cooldown_duration cd)"

definition recordAlertFired :: "int \<Rightarrow> alert \<Rightarrow> cooldown \<Rightarrow> cooldown" where
  "recordAlertFired now a cd = cd\<lparr>last_fired := om_put (al_name a) now (last_fired cd)\<rparr>"

section \<open>The manager\<close>

text \<open>A callback is a number; the calls are recorded in the order in which they are made.\<close>

record manager =
  mgr_alerts :: "alert list"
  mgr_callbacks :: "nat list"
  mgr_cooldown :: cooldown

definition AlertManager :: manager where
  "AlertManager = \<lparr>mgr_alerts = [], mgr_callbacks = [], mgr_cooldown = CooldownPolicy (60 * 10 ^ 9)\<rparr>"

definition createAlert :: "string \<Rightarrow> condition \<Rightarrow> severity \<Rightarrow> manager \<Rightarrow> manager" where
  "createAlert name c sev m =
     m\<lparr>mgr_alerts := mgr_alerts m @ [\<lparr>al_name = name, al_condition = c, al_severity = sev\<rparr>]\<rparr>"

definition registerCallback :: "nat \<Rightarrow> manager \<Rightarrow> manager" where
  "registerCallback cb m = m\<lparr>mgr_callbacks := mgr_callbacks m @ [cb]\<rparr>"

definition getAlerts :: "manager \<Rightarrow> alert list" where
  "getAlerts m = mgr_alerts m"

text \<open>
  The moment at which an alert is checked: the metrics as they are then, and the two readings
  of the clock, in \<open>shouldSuppressAlert\<close> and in \<open>recordAlertFired\<close>.
\<close>

type_synonym moment = "mstore \<times> int \<times> int"

text \<open>The loop: the cooldown, the alerts that fired with their recorded times, the calls made.\<close>

fun check_loop :: "nat list \<Rightarrow> (alert \<times> moment) list \<Rightarrow> cooldown \<Rightarrow>
    cooldown \<times> (alert \<times> int) list \<times> (nat \<times> alert) list" where
  "check_loop cbs [] cd = (cd, [], [])"
| "check_loop cbs ((a, h, now1, now2) # as) cd =
     (if alert_check h a \<and> \<not> shouldSuppressAlert now1 a cd
      then let (cd', fired, calls) = check_loop cbs as (recordAlertFired now2 a cd)
           in (cd', (a, now2) # fired, map (\<lambda>cb. (cb, a)) cbs @ calls)
      else check_loop cbs as cd)"

definition checkAlerts :: "moment list \<Rightarrow> manager \<Rightarrow> manager \<times> (alert \<times> int) list \<times> (nat \<times> alert) list" where
  "checkAlerts moments m =
     (let (cd, fired, calls) = check_loop (mgr_callbacks m) (zip (mgr_alerts m) moments) (mgr_cooldown m)
      in (m\<lparr>mgr_cooldown := cd\<rparr>, fired, calls))"

text \<open>A run of the manager's operations, with the log of all firings.\<close>

datatype manager_op = Create string condition severity | Register nat | Check "moment list"

fun mgr_step :: "manager_op \<Rightarrow> manager \<times> (alert \<times> int) list \<Rightarrow> manager \<times> (alert \<times> int) list" where
  "mgr_step (Create n c sev) (m, lg) = (createAlert n c sev m, lg)"
| "mgr_step (Register cb) (m, lg) = (registerCallback cb m, lg)"
| "mgr_step (Check ms) (m, lg) = (let (m', fired, calls) = checkAlerts ms m in (m', lg @ fired))"

definition mgr_run :: "manager_op list \<Rightarrow> manager \<times> (alert \<times> int) list" where
  "mgr_run ops = foldl (\<lambda>s p. mgr_step p s) (AlertManager, []) ops"

text \<open>The readings of the clock, in order.\<close>

fun op_readings :: "manager_op \<Rightarrow> int list" where
  "op_readings (Check ms) = concat (map (\<lambda>(h, t1, t2). [t1, t2]) ms)"
| "op_readings _ = []"

section \<open>Cooldown invariant\<close>

definition spaced :: "int \<Rightarrow> (alert \<times> int) list \<Rightarrow> bool" where
  "spaced d lg \<longleftrightarrow> sorted_wrt (\<lambda>p q. al_name (fst p) = al_name (fst q) \<longrightarrow> d \<le> snd q - snd p) lg"

definition log_inv :: "int \<Rightarrow> cooldown \<Rightarrow> (alert \<times> int) list \<Rightarrow> bool" where
  "log_inv now cd lg \<longleftrightarrow> om_ok (last_fired cd) \<and>
     (\<forall>n t. om_find n (last_fired cd) = Some t \<longrightarrow> (\<forall>p \<in> set lg. al_name (fst p) = n \<longrightarrow> snd p \<le> t)) \<and>
     (\<forall>n. om_find n (last_fired cd) = None \<longrightarrow> (\<forall>p \<in> set lg. al_name (fst p) \<noteq> n)) \<and>
     (\<forall>p \<in> set lg. snd p \<le> now) \<and> spaced (cooldown_duration cd) lg"

lemma log_inv_later: "log_inv now cd lg \<Longrightarrow> now \<le> now' \<Longrightarrow> log_inv now' cd lg"
  by (force simp: log_inv_def)

lemma log_inv_fire:
  assumes inv: "log_inv now cd lg" and t: "now \<le> t1" "t1 \<le> t2" and free: "\<not> shouldSuppressAlert t1 a cd"
  shows "log_inv t2 (recordAlertFired t2 a cd) (lg @ [(a, t2)])"
proof -
  let ?n = "al_name a"
  have gap: "cooldown_duration cd \<le> t2 - snd p" if p: "p \<in> set lg" "al_name (fst p) = ?n" for p
  proof (cases "om_find ?n (last_fired cd)")
    case None
    then show ?thesis using inv p by (auto simp: log_inv_def)
  next
    case (Some u)
    then have "snd p \<le> u" using inv p by (simp add: log_inv_def)
    moreover have "cooldown_duration cd \<le> t1 - u" using free Some by (simp add: shouldSuppressAlert_def)
    ultimately show ?thesis using t by simp
  qed
  have "spaced (cooldown_duration cd) (lg @ [(a, t2)])"
    using inv gap by (simp add: log_inv_def spaced_def sorted_wrt_append)
  moreover have "snd p \<le> t2" if "p \<in> set lg" for p using inv t that by (force simp: log_inv_def)
  ultimately show ?thesis using inv by (auto simp: log_inv_def recordAlertFired_def)
qed

lemma check_loop_log:
  assumes "log_inv now cd lg" and "check_loop cbs as cd = (cd', fired, calls)"
    and "sorted (now # concat (map (\<lambda>(a, h, t1, t2). [t1, t2]) as))"
  shows "log_inv (last (now # concat (map (\<lambda>(a, h, t1, t2). [t1, t2]) as))) cd' (lg @ fired) \<and>
    cooldown_duration cd' = cooldown_duration cd"
  using assms
proof (induction as arbitrary: now cd lg fired calls)
  case (Cons x as)
  obtain a h t1 t2 where x: "x = (a, h, t1, t2)" by (metis prod_cases4)
  let ?ts = "concat (map (\<lambda>(a, h, t1, t2). [t1, t2]) as)"
  have t: "now \<le> t1" "t1 \<le> t2" "sorted (t2 # ?ts)" using Cons.prems(3) by (auto simp: x)
  have l: "last (now # concat (map (\<lambda>(a, h, t1, t2). [t1, t2]) (x # as))) = last (t2 # ?ts)" by (simp add: x)
  show ?case
  proof (cases "alert_check h a \<and> \<not> shouldSuppressAlert t1 a cd")
    case True
    then obtain fired' calls' where r: "check_loop cbs as (recordAlertFired t2 a cd) = (cd', fired', calls')"
        "fired = (a, t2) # fired'"
      using Cons.prems(2) by (auto simp: x split: prod.splits)
    have "log_inv t2 (recordAlertFired t2 a cd) (lg @ [(a, t2)])"
      using log_inv_fire [OF Cons.prems(1) t(1,2)] True by blast
    from Cons.IH [OF this r(1) t(3)] show ?thesis by (simp only: l) (simp add: r(2) recordAlertFired_def)
  next
    case False
    then have r: "check_loop cbs as cd = (cd', fired, calls)" using Cons.prems(2) by (auto simp: x)
    have "log_inv t2 cd lg" using log_inv_later [OF Cons.prems(1)] t by simp
    from Cons.IH [OF this r t(3)] show ?thesis by (simp only: l)
  qed
qed simp

text \<open>A check may have more moments than alerts; the rest of them are not read.\<close>

lemma readings_zip:
  "\<exists>r. concat (map (\<lambda>(h, t1, t2). [t1, t2]) ms) =
    concat (map (\<lambda>(a, h, t1, t2). [t1, t2]) (zip as ms)) @ r"
proof (induction as arbitrary: ms)
  case (Cons a as)
  then show ?case by (cases ms) (auto split: prod.splits)
qed simp

lemma mgr_step_log:
  assumes inv: "log_inv now (mgr_cooldown m) lg" and s: "sorted (now # op_readings p)"
    and r: "mgr_step p (m, lg) = (m', lg')"
  shows "log_inv (last (now # op_readings p)) (mgr_cooldown m') lg' \<and>
    cooldown_duration (mgr_cooldown m') = cooldown_duration (mgr_cooldown m)"
proof (cases p)
  case (Check ms)
  let ?zs = "zip (mgr_alerts m) ms"
  obtain rest where rest: "op_readings p = concat (map (\<lambda>(a, h, t1, t2). [t1, t2]) ?zs) @ rest"
    using readings_zip [of ms "mgr_alerts m"] Check by auto
  obtain cd fired calls where c: "check_loop (mgr_callbacks m) ?zs (mgr_cooldown m) = (cd, fired, calls)"
    by (metis prod_cases3)
  have m': "mgr_cooldown m' = cd" "lg' = lg @ fired" using r Check c by (auto simp: checkAlerts_def)
  let ?t = "last (now # concat (map (\<lambda>(a, h, t1, t2). [t1, t2]) ?zs))"
  have s': "sorted ((now # concat (map (\<lambda>(a, h, t1, t2). [t1, t2]) ?zs)) @ rest)" using s rest by simp
  then have "log_inv ?t cd (lg @ fired) \<and> cooldown_duration cd = cooldown_duration (mgr_cooldown m)"
    using check_loop_log [OF inv c] by (simp only: sorted_append)
  moreover have "?t \<le> last (now # op_readings p)"
  proof (cases "rest = []")
    case False
    then have "?t \<le> last rest"
      using s' last_in_set [of rest] last_in_set [of "now # concat (map (\<lambda>(a, h, t1, t2). [t1, t2]) ?zs)"]
      by (simp only: sorted_append) blast
    then show ?thesis using False by (simp add: rest)
  qed (simp add: rest)
  ultimately show ?thesis using log_inv_later m' by blast
qed (use inv r in \<open>auto simp: createAlert_def registerCallback_def\<close>)

lemma mgr_run_log:
  assumes "log_inv now (mgr_cooldown m) lg" and "sorted (now # concat (map op_readings ops))"
    and "foldl (\<lambda>s p. mgr_step p s) (m, lg) ops = (m', lg')"
  shows "spaced (cooldown_duration (mgr_cooldown m)) lg'"
  using assms
proof (induction ops arbitrary: now m lg)
  case Nil
  then show ?case by (simp add: log_inv_def)
next
  case (Cons p ops)
  obtain m1 lg1 where s1: "mgr_step p (m, lg) = (m1, lg1)" by fastforce
  have "sorted ((now # op_readings p) @ concat (map op_readings ops))" using Cons.prems(2) by simp
  then have srt: "sorted (now # op_readings p)" "sorted (last (now # op_readings p) # concat (map op_readings ops))"
    using last_in_set [of "now # op_readings p"] by (simp_all only: sorted_append sorted_simps) auto
  from mgr_step_log [OF Cons.prems(1) srt(1) s1] Cons.IH [OF _ srt(2), of m1 lg1] Cons.prems(3) s1
  show ?case by simp
qed

text \<open>What a check does when no two alerts share a name.\<close>

lemma shouldSuppress_other:
  "om_ok (last_fired cd) \<Longrightarrow> al_name b \<noteq> al_name a \<Longrightarrow>
    shouldSuppressAlert t b (recordAlertFired t2 a cd) = shouldSuppressAlert t b cd"
  by (simp add: shouldSuppressAlert_def recordAlertFired_def split: option.splits)

definition fires :: "cooldown \<Rightarrow> alert \<times> moment \<Rightarrow> bool" where
  "fires cd e \<longleftrightarrow> (let (a, h, t1, t2) = e in alert_check h a \<and> \<not> shouldSuppressAlert t1 a cd)"

definition firing :: "alert \<times> moment \<Rightarrow> alert \<times> int" where
  "firing e = (let (a, h, t1, t2) = e in (a, t2))"

lemma check_loop_calls:
  "check_loop cbs as cd = (cd', fired, calls) \<Longrightarrow>
    calls = concat (map (\<lambda>p. map (\<lambda>cb. (cb, fst p)) cbs) fired)"
proof (induction as arbitrary: cd fired calls)
  case (Cons x as)
  obtain a h t1 t2 where x: "x = (a, h, t1, t2)" by (metis prod_cases4)
  show ?case using Cons by (auto simp: x split: if_splits prod.splits)
qed simp

lemma check_loop_fired:
  "om_ok (last_fired cd) \<Longrightarrow> distinct (map (al_name \<circ> fst) as) \<Longrightarrow>
    fst (snd (check_loop cbs as cd)) = map firing (filter (fires cd) as) \<and>
    om_ok (last_fired (fst (check_loop cbs as cd)))"
proof (induction as arbitrary: cd)
  case (Cons x as)
  obtain a h t1 t2 where x: "x = (a, h, t1, t2)" by (metis prod_cases4)
  show ?case
  proof (cases "fires cd x")
    case True
    let ?cd = "recordAlertFired t2 a cd"
    have ok: "om_ok (last_fired ?cd)" using Cons.prems(1) by (simp add: recordAlertFired_def)
    have "fires ?cd y = fires cd y" if "y \<in> set as" for y
    proof -
      have "al_name (fst y) \<noteq> al_name a" using Cons.prems(2) that x by force
      then show ?thesis using shouldSuppress_other [OF Cons.prems(1)]
        by (cases y) (simp add: fires_def)
    qed
    then have f: "filter (fires ?cd) as = filter (fires cd) as" by (rule filter_cong [OF refl])
    have "check_loop cbs (x # as) cd = (let (cd', fired, calls) = check_loop cbs as ?cd
        in (cd', (a, t2) # fired, map (\<lambda>cb. (cb, a)) cbs @ calls))"
      using True by (simp add: x fires_def)
    then show ?thesis using Cons.IH [OF ok] Cons.prems(2) f True
      by (simp add: case_prod_beta Let_def x firing_def)
  next
    case False
    then have "check_loop cbs (x # as) cd = check_loop cbs as cd" by (auto simp: x fires_def)
    then show ?thesis using Cons False by simp
  qed
qed simp

lemma check_loop_ok: "om_ok (last_fired cd) \<Longrightarrow> om_ok (last_fired (fst (check_loop cbs as cd)))"
proof (induction as arbitrary: cd)
  case (Cons x as)
  obtain a h t1 t2 where x: "x = (a, h, t1, t2)" by (metis prod_cases4)
  have "om_ok (last_fired (recordAlertFired t2 a cd))" using Cons.prems by (simp add: recordAlertFired_def)
  then show ?case using Cons by (simp add: x case_prod_beta Let_def)
qed simp

lemma mgr_run_ok: "om_ok (last_fired (mgr_cooldown (fst (mgr_run ops))))"
proof -
  have "om_ok (last_fired (mgr_cooldown (fst (mgr_step p s))))" if "om_ok (last_fired (mgr_cooldown (fst s)))" for p s
    using that check_loop_ok
    by (cases s; cases p) (simp_all add: createAlert_def registerCallback_def checkAlerts_def case_prod_beta Let_def)
  then show ?thesis unfolding mgr_run_def
    by (intro foldl_invariant [where I = "\<lambda>s. om_ok (last_fired (mgr_cooldown (fst s)))"])
      (simp_all add: AlertManager_def CooldownPolicy_def)
qed

lemma tolerance_fin:
  obtains e where "tolerance = Fin e" "0 < e"
proof -
  have "tolerance = Fin (round53 (1 / 10 ^ 6)) \<and> 0 < round53 (1 / 10 ^ 6)"
    unfolding tolerance_def by code_simp
  then show ?thesis using that by blast
qed

section \<open>Properties\<close>

text \<open>
  C20: No alert name fires twice within a minute: in every run of the manager's operations
  under a clock that does not go back, whatever the conditions evaluate to, two firings with
  the same name are at least 60 seconds apart, also when several alerts share the name.
\<close>

theorem alert_cooldown:
  assumes "sorted (concat (map op_readings ops))" and "mgr_run ops = (m, lg)"
    and "i < j" and "j < length lg" and "al_name (fst (lg ! i)) = al_name (fst (lg ! j))"
  shows "60 * 10 ^ 9 \<le> snd (lg ! j) - snd (lg ! i)"
proof -
  define r where "r = concat (map op_readings ops)"
  define now where "now = (if r = [] then 0 else hd r)"
  have "log_inv now (mgr_cooldown AlertManager) []"
    by (simp add: log_inv_def AlertManager_def CooldownPolicy_def spaced_def)
  moreover have "sorted r" using assms(1) by (simp only: r_def)
  then have "sorted (now # r)" by (cases r) (auto simp: now_def)
  then have "sorted (now # concat (map op_readings ops))" by (simp only: r_def)
  ultimately have "spaced (60 * 10 ^ 9) lg"
    using mgr_run_log [of now AlertManager "[]" ops m lg] assms(2)
    by (simp add: mgr_run_def AlertManager_def CooldownPolicy_def)
  then show ?thesis using assms(3-5) by (auto simp: spaced_def sorted_wrt_iff_nth_less)
qed

definition hot_store :: mstore where
  "hot_store = [gauge_update 1 (Fin 95) (GaugeMetric ''cpu.usage'' 0)]"

definition hot_ops :: "manager_op list" where
  "hot_ops = [Create ''cpu'' (MetricThresholdCondition (Some 0) GREATER_THAN (Fin 90)) CRITICAL,
     Check [(hot_store, 0, 1)], Check [(hot_store, 60 * 10 ^ 9, 60 * 10 ^ 9)],
     Check [(hot_store, 61 * 10 ^ 9, 62 * 10 ^ 9)]]"

lemma hot_run:
  "snd (mgr_run hot_ops) = [(\<lparr>al_name = ''cpu'', al_condition = MetricThresholdCondition (Some 0) GREATER_THAN (Fin 90),
      al_severity = CRITICAL\<rparr>, 1), (\<lparr>al_name = ''cpu'',
      al_condition = MetricThresholdCondition (Some 0) GREATER_THAN (Fin 90), al_severity = CRITICAL\<rparr>, 62 * 10 ^ 9)]"
  by (simp add: mgr_run_def hot_ops_def createAlert_def AlertManager_def CooldownPolicy_def checkAlerts_def
      alert_check_def evaluate_def MetricThresholdCondition_def hot_store_def gauge_update_def GaugeMetric_def
      new_metric_def shouldSuppressAlert_def recordAlertFired_def om_find_def)

theorem alert_cooldown_witness:
  "60 * 10 ^ 9 \<le> snd (snd (mgr_run hot_ops) ! 1) - snd (snd (mgr_run hot_ops) ! 0)"
proof (rule alert_cooldown)
  show "sorted (concat (map op_readings hot_ops))" by (simp add: hot_ops_def)
  show "mgr_run hot_ops = (fst (mgr_run hot_ops), snd (mgr_run hot_ops))" by simp
qed (simp_all add: hot_run)

text \<open>
  A check fires exactly the alerts whose condition holds and whose name is not in its
  cooldown, in the order of creation, and for each of them calls every callback once in the
  order of registration; nothing else of the manager changes but the cooldown. This is for
  alerts with distinct names, one moment for each, after any run.
\<close>

theorem check_alerts_exact:
  assumes "mgr_run ops = (m, lg)" and "distinct (map al_name (mgr_alerts m))"
    and "length moments = length (mgr_alerts m)"
  defines "fired \<equiv> map firing (filter (fires (mgr_cooldown m)) (zip (mgr_alerts m) moments))"
  shows "\<exists>cd. checkAlerts moments m = (m\<lparr>mgr_cooldown := cd\<rparr>, fired,
    concat (map (\<lambda>p. map (\<lambda>cb. (cb, fst p)) (mgr_callbacks m)) fired))"
proof -
  let ?zs = "zip (mgr_alerts m) moments"
  have ok: "om_ok (last_fired (mgr_cooldown m))" using mgr_run_ok [of ops] assms(1) by simp
  have "map (al_name \<circ> fst) ?zs = map al_name (mgr_alerts m)"
    using assms(3) by (simp flip: map_map)
  then have d: "distinct (map (al_name \<circ> fst) ?zs)" using assms(2) by simp
  obtain cd f c where r: "check_loop (mgr_callbacks m) ?zs (mgr_cooldown m) = (cd, f, c)"
    by (metis prod_cases3)
  have "f = fired" using check_loop_fired [OF ok d, of "mgr_callbacks m"] r by (simp add: fired_def)
  then show ?thesis using check_loop_calls [OF r] r
    by (intro exI [of _ cd]) (simp add: checkAlerts_def)
qed

theorem check_alerts_exact_witness:
  "let m = fst (mgr_run hot_ops); moments = [(hot_store, 70 * 10 ^ 9, 70 * 10 ^ 9)];
       fired = map firing (filter (fires (mgr_cooldown m)) (zip (mgr_alerts m) moments)) in
   \<exists>cd. checkAlerts moments m = (m\<lparr>mgr_cooldown := cd\<rparr>, fired,
     concat (map (\<lambda>p. map (\<lambda>cb. (cb, fst p)) (mgr_callbacks m)) fired))"
proof -
  have a: "length (mgr_alerts (fst (mgr_run hot_ops))) = 1"
    by (simp add: mgr_run_def hot_ops_def createAlert_def AlertManager_def checkAlerts_def case_prod_beta Let_def)
  then obtain x where "mgr_alerts (fst (mgr_run hot_ops)) = [x]" by (cases "mgr_alerts (fst (mgr_run hot_ops))") auto
  then show ?thesis unfolding Let_def
    by (intro check_alerts_exact [of hot_ops _ "snd (mgr_run hot_ops)"]) simp_all
qed

text \<open>
  The comparators: a value or threshold that is not a number satisfies none of them; for
  numbers the ordered ones are exact and complementary, \<open>EQUAL_TO\<close> and \<open>NOT_EQUAL_TO\<close> are
  complementary for finite values and a value equals itself; a condition without a metric is
  never satisfied.
\<close>

theorem comparator_laws:
  "\<not> compareValues cmp NaN t \<and> \<not> compareValues cmp v NaN \<and>
   (v \<noteq> NaN \<and> t \<noteq> NaN \<longrightarrow>
      (compareValues GREATER_EQUAL v t \<longleftrightarrow> \<not> compareValues LESS_THAN v t) \<and>
      (compareValues LESS_EQUAL v t \<longleftrightarrow> \<not> compareValues GREATER_THAN v t)) \<and>
   (compareValues NOT_EQUAL_TO (Fin a) (Fin b) \<longleftrightarrow> \<not> compareValues EQUAL_TO (Fin a) (Fin b)) \<and>
   compareValues EQUAL_TO (Fin a) (Fin a) \<and>
   (compareValues GREATER_THAN (Fin a) (Fin b) \<longleftrightarrow> b < a) \<and>
   (cond_metric c = None \<longrightarrow> \<not> evaluate h c)"
proof -
  have n: "\<not> compareValues cmp NaN t" "\<not> compareValues cmp v NaN"
    by (cases cmp; cases t; cases tolerance; simp add: dsub_def)
      (cases cmp; cases v; cases tolerance; simp add: dsub_def)
  have o: "v \<noteq> NaN \<and> t \<noteq> NaN \<longrightarrow>
      (compareValues GREATER_EQUAL v t \<longleftrightarrow> \<not> compareValues LESS_THAN v t) \<and>
      (compareValues LESS_EQUAL v t \<longleftrightarrow> \<not> compareValues GREATER_THAN v t)"
    by (cases v; cases t) auto
  obtain e where e: "tolerance = Fin e" "0 < e" by (rule tolerance_fin)
  have d: "dsub (Fin a) (Fin b) = rnd (a - b)" "dsub (Fin a) (Fin a) = Fin 0"
    by (simp_all add: dsub_def rnd_def)
  have "dabs (rnd (a - b)) \<noteq> NaN" by (simp add: rnd_def)
  then have "dle (Fin e) (dabs (rnd (a - b))) \<longleftrightarrow> \<not> dlt (dabs (rnd (a - b))) (Fin e)"
    by (cases "dabs (rnd (a - b))") auto
  then have "compareValues NOT_EQUAL_TO (Fin a) (Fin b) \<longleftrightarrow> \<not> compareValues EQUAL_TO (Fin a) (Fin b)"
    by (simp add: d e(1))
  moreover have "compareValues EQUAL_TO (Fin a) (Fin a)" using e(2) by (simp add: d e(1))
  moreover have "compareValues GREATER_THAN (Fin a) (Fin b) \<longleftrightarrow> b < a" by simp
  moreover have "cond_metric c = None \<longrightarrow> \<not> evaluate h c" by (simp add: evaluate_def)
  ultimately show ?thesis using n o by blast
qed

theorem comparator_laws_witness:
  "let cmp = EQUAL_TO; v = Fin 1; t = Fin 2; a = 3; b = 4; c = MetricThresholdCondition None LESS_THAN (Fin 1); h = [] in
   \<not> compareValues cmp NaN t \<and> \<not> compareValues cmp v NaN \<and>
   (v \<noteq> NaN \<and> t \<noteq> NaN \<longrightarrow>
      (compareValues GREATER_EQUAL v t \<longleftrightarrow> \<not> compareValues LESS_THAN v t) \<and>
      (compareValues LESS_EQUAL v t \<longleftrightarrow> \<not> compareValues GREATER_THAN v t)) \<and>
   (compareValues NOT_EQUAL_TO (Fin a) (Fin b) \<longleftrightarrow> \<not> compareValues EQUAL_TO (Fin a) (Fin b)) \<and>
   compareValues EQUAL_TO (Fin a) (Fin a) \<and>
   (compareValues GREATER_THAN (Fin a) (Fin b) \<longleftrightarrow> b < a) \<and>
   (cond_metric c = None \<longrightarrow> \<not> evaluate h c)"
  unfolding Let_def by (rule comparator_laws)

end
