(* ===== verification/Cpp_Stream.thy ===== *)
theory Cpp_Stream
  imports Cpp_String
begin

text \<open>
  Line-wise reading with \<^verbatim>\<open>std::getline\<close> and formatted extraction from a
  \<^verbatim>\<open>std::istringstream\<close>. A stream is the text still to be read, or \<open>None\<close> once its fail
  bit is set: from then on every extraction leaves its target as it is.
\<close>

section \<open>Lines\<close>

function split_lines :: "string \<Rightarrow> string list" where
  "split_lines s = (if s = [] then []
     else takeWhile (\<lambda>c. c \<noteq> nl) s # split_lines (tl (dropWhile (\<lambda>c. c \<noteq> nl) s)))"
  by auto

termination split_lines
proof (relation "measure length")
  fix s :: string
  assume "s \<noteq> []"
  then have "0 < length s" by simp
  then have "length (dropWhile (\<lambda>c. c \<noteq> nl) s) - 1 < length s"
    using length_dropWhile_le [of "\<lambda>c. c \<noteq> nl" s] by linarith
  then show "(tl (dropWhile (\<lambda>c. c \<noteq> nl) s), s) \<in> measure length"
    by (simp only: in_measure length_tl)
qed simp

declare split_lines.simps [simp del]

lemma split_lines_Nil [simp]: "split_lines [] = []"
  by (simp add: split_lines.simps)

lemma split_lines_line:
  "nl \<notin> set l \<Longrightarrow> split_lines (l @ nl # s) = l # split_lines s"
proof -
  assume l: "nl \<notin> set l"
  then have "takeWhile (\<lambda>c. c \<noteq> nl) (l @ nl # s) = l" "dropWhile (\<lambda>c. c \<noteq> nl) (l @ nl # s) = nl # s"
    by (auto simp: takeWhile_append dropWhile_append)
  then show ?thesis by (subst split_lines.simps) simp
qed

lemma split_lines_last: "nl \<notin> set l \<Longrightarrow> l \<noteq> [] \<Longrightarrow> split_lines l = [l]"
proof -
  assume l: "nl \<notin> set l" "l \<noteq> []"
  then have tw: "takeWhile (\<lambda>c. c \<noteq> nl) l = l" and dw: "dropWhile (\<lambda>c. c \<noteq> nl) l = []"
    by (auto simp: takeWhile_eq_all_conv dropWhile_eq_Nil_conv)
  have "split_lines l = takeWhile (\<lambda>c. c \<noteq> nl) l # split_lines (tl (dropWhile (\<lambda>c. c \<noteq> nl) l))"
    using l(2) by (subst split_lines.simps) simp
  then show ?thesis unfolding tw dw by simp
qed

text \<open>A text written line by line is read back line by line.\<close>

definition unlines :: "string list \<Rightarrow> string" where
  "unlines ls = concat (map (\<lambda>l. l @ [nl]) ls)"

lemma split_lines_unlines:
  "\<forall>l \<in> set ls. nl \<notin> set l \<Longrightarrow> split_lines (unlines ls @ r) = ls @ split_lines r"
  by (induction ls) (simp_all add: unlines_def split_lines_line)

section \<open>Extraction\<close>

type_synonym istream = "string option"

text \<open>\<^verbatim>\<open>iss >> word\<close>\<close>

definition extract_word :: "istream \<Rightarrow> string \<Rightarrow> istream \<times> string" where
  "extract_word st w =
     (case st of None \<Rightarrow> (None, w)
      | Some s \<Rightarrow>
         let t = dropWhile is_space s in
         if t = [] then (None, w)
         else (Some (dropWhile (\<lambda>c. \<not> is_space c) t), takeWhile (\<lambda>c. \<not> is_space c) t))"

text \<open>
  \<^verbatim>\<open>iss >> number\<close> for \<open>uint64_t\<close>. At the end of the text the target keeps its value; a text
  that is no number sets it to 0, one that does not fit to the greatest value.
\<close>

definition extract_u64 :: "istream \<Rightarrow> u64 \<Rightarrow> istream \<times> u64" where
  "extract_u64 st v =
     (case st of None \<Rightarrow> (None, v)
      | Some s \<Rightarrow>
         let t = dropWhile is_space s in
         if t = [] then (None, v)
         else
           let neg = (hd t = CHR ''-'');
               u = (if hd t = CHR ''-'' \<or> hd t = CHR ''+'' then tl t else t);
               ds = takeWhile is_digit u
           in if ds = [] then (None, 0)
              else if digits_val ds \<ge> 2 ^ 64 then (None, - 1)
              else (Some (dropWhile is_digit u),
                    if neg then - of_nat (digits_val ds) else of_nat (digits_val ds)))"

lemma extract_u64_fail [simp]: "extract_u64 None v = (None, v)"
  by (simp add: extract_u64_def)

lemma extract_word_fail [simp]: "extract_word None w = (None, w)"
  by (simp add: extract_word_def)

text \<open>Extraction reads back what was printed.\<close>

lemma dropWhile_digits_nat_str:
  "r = [] \<or> \<not> is_digit (hd r) \<Longrightarrow> dropWhile is_digit (nat_str n @ r) = r"
  using nat_str_digits [of n] by (cases r) (auto simp: dropWhile_append)

lemma takeWhile_digits_nat_str:
  "r = [] \<or> \<not> is_digit (hd r) \<Longrightarrow> takeWhile is_digit (nat_str n @ r) = nat_str n"
  using nat_str_digits [of n] by (cases r) (auto simp: takeWhile_append)

lemma extract_u64_nat_str:
  assumes "r = [] \<or> \<not> is_digit (hd r)" and "\<forall>c \<in> set sp. is_space c"
  shows "extract_u64 (Some (sp @ nat_str (unat w) @ r)) v = (Some r, w)"
proof -
  have "dropWhile is_space (sp @ nat_str (unat w) @ r) = nat_str (unat w) @ r"
    using assms(2) by (simp add: dropWhile_append2)
  moreover have "unat w < 2 ^ 64" using unsigned_less [of w] by simp
  ultimately show ?thesis
    using digit_not_sign [OF hd_nat_str [of "unat w"]]
      dropWhile_digits_nat_str [OF assms(1)] takeWhile_digits_nat_str [OF assms(1)]
    by (simp add: extract_u64_def Let_def hd_append)
qed

lemma extract_word_prefix:
  assumes "w \<noteq> []" and "\<forall>c \<in> set w. \<not> is_space c" and "r = [] \<or> is_space (hd r)"
  shows "extract_word (Some (w @ r)) v = (Some r, w)"
proof -
  have "dropWhile is_space (w @ r) = w @ r" using assms(1,2) by (cases w) auto
  moreover have "takeWhile (\<lambda>c. \<not> is_space c) (w @ r) = w"
    using assms by (cases r) (auto simp: takeWhile_append)
  moreover have "dropWhile (\<lambda>c. \<not> is_space c) (w @ r) = r"
    using assms by (cases r) (auto simp: dropWhile_append)
  ultimately show ?thesis using assms(1) by (simp add: extract_word_def)
qed

end
