(* ===== verification/Config_Manager.thy ===== *)
theory Config_Manager
  imports Cpp_Stream Cpp_Double
begin

text \<open>
  \<^verbatim>\<open>core/config/config_manager\<close>: the typed settings, their defaults, the line format they are
  read from and the text they are written as. A value carries the type it was stored with;
  the object mutex is part of the state, because one operation takes it twice.
\<close>

section \<open>State\<close>

text \<open>\<^verbatim>\<open>std::any\<close> with its \<^verbatim>\<open>type_index\<close>; signed integers are in the range of their type.\<close>

datatype cfg_value = CBool bool | CStr string | CInt64 int | CInt32 int | CUInt64 u64
  | CUInt32 u32 | CUInt16 u16 | CDouble dbl | CFloat dbl

datatype cfg_type = TBool | TStr | TInt64 | TInt32 | TUInt64 | TUInt32 | TUInt16 | TDouble | TFloat

fun type_of :: "cfg_value \<Rightarrow> cfg_type" where
  "type_of (CBool _) = TBool"
| "type_of (CStr _) = TStr"
| "type_of (CInt64 _) = TInt64"
| "type_of (CInt32 _) = TInt32"
| "type_of (CUInt64 _) = TUInt64"
| "type_of (CUInt32 _) = TUInt32"
| "type_of (CUInt16 _) = TUInt16"
| "type_of (CDouble _) = TDouble"
| "type_of (CFloat _) = TFloat"

record config =
  cfg_values :: "string \<rightharpoonup> cfg_value"
  cfg_locked :: bool

section \<open>Settings\<close>

text \<open>
  Locking a mutex that the same thread holds never returns; an operation that does so is
  \<open>None\<close>. On return the mutex is free again.
\<close>

definition with_lock :: "config \<Rightarrow> (config \<Rightarrow> 'a) \<Rightarrow> 'a option" where
  "with_lock c f = (if cfg_locked c then None else Some (f (c\<lparr>cfg_locked := True\<rparr>)))"

definition cfg_get :: "cfg_type \<Rightarrow> string \<Rightarrow> config \<Rightarrow> cfg_value option" where
  "cfg_get T key c =
     (case cfg_values c key of None \<Rightarrow> None
      | Some v \<Rightarrow> if T \<noteq> type_of v then None else Some v)"

definition cfg_getOrDefault :: "cfg_type \<Rightarrow> string \<Rightarrow> cfg_value \<Rightarrow> config \<Rightarrow> cfg_value" where
  "cfg_getOrDefault T key dflt c = (case cfg_get T key c of None \<Rightarrow> dflt | Some v \<Rightarrow> v)"

definition cfg_set :: "string \<Rightarrow> cfg_value \<Rightarrow> config \<Rightarrow> config" where
  "cfg_set key v c = c\<lparr>cfg_values := (cfg_values c)(key \<mapsto> v)\<rparr>"

definition cfg_exists :: "string \<Rightarrow> config \<Rightarrow> bool" where
  "cfg_exists key c \<longleftrightarrow> cfg_values c key \<noteq> None"

definition cfg_remove :: "string \<Rightarrow> config \<Rightarrow> config" where
  "cfg_remove key c = c\<lparr>cfg_values := (cfg_values c)(key := None)\<rparr>"

definition cfg_clear :: "config \<Rightarrow> config" where
  "cfg_clear c = c\<lparr>cfg_values := Map.empty\<rparr>"

text \<open>\<open>es\<close> is the order in which the hash map is visited.\<close>

definition getAllKeys :: "(string \<times> cfg_value) list \<Rightarrow> config \<Rightarrow> string list option" where
  "getAllKeys es c = with_lock c (\<lambda>_. map fst es)"

definition default_settings :: "(string \<times> cfg_value) list" where
  "default_settings =
     [(''enable_api'', CBool False), (''api_port'', CUInt16 8080),
      (''enable_web'', CBool False), (''web_port'', CUInt16 9090),
      (''enable_packet_capture'', CBool False), (''capture_interface'', CStr ''eth0''),
      (''log_level'', CStr ''info''), (''log_file'', CStr ''netsentry.log''),
      (''metric_retention_seconds'', CUInt32 3600), (''alert_cooldown_seconds'', CUInt32 60),
      (''cpu_threshold_warning'', CUInt32 80), (''cpu_threshold_critical'', CUInt32 90),
      (''memory_threshold_warning'', CUInt32 75), (''memory_threshold_critical'', CUInt32 85)]"

definition setDefaultConfig :: "config \<Rightarrow> config" where
  "setDefaultConfig c = foldl (\<lambda>c e. cfg_set (fst e) (snd e) c) c default_settings"

definition ConfigManager :: config where
  "ConfigManager = setDefaultConfig \<lparr>cfg_values = Map.empty, cfg_locked = False\<rparr>"

section \<open>Reading\<close>

text \<open>
  The match of \<^verbatim>\<open>^\s*([^:]+)\s*:\s*(.*)$\<close>: the key group runs to the first colon from the first
  character that is no white space, or is the last white space character when there is
  nothing else before the colon; the dot does not match a carriage return.
\<close>

definition match_key_value :: "string \<Rightarrow> (string \<times> string) option" where
  "match_key_value line =
     (let before = takeWhile (\<lambda>c. c \<noteq> CHR '':'') line;
          rest = dropWhile (\<lambda>c. c \<noteq> CHR '':'') line
      in if before = [] \<or> rest = [] then None
         else
           let key = (let k = dropWhile is_space before in if k = [] then [last before] else k);
               value = dropWhile is_space (tl rest)
           in if cr \<in> set value then None else Some (key, value))"

definition trim_blanks :: "string \<Rightarrow> string" where
  "trim_blanks s = drop_while_back is_blank (drop_while_front is_blank s)"

definition bool_words :: "string list" where
  "bool_words = [''true'', ''false'', ''yes'', ''no'', ''on'', ''off'']"

text \<open>\<^verbatim>\<open>^-?\d+$\<close> and \<^verbatim>\<open>^-?\d+\.\d+$\<close>\<close>

definition unsigned_part :: "string \<Rightarrow> string" where
  "unsigned_part s = (if s \<noteq> [] \<and> hd s = CHR ''-'' then tl s else s)"

definition all_digits :: "string \<Rightarrow> bool" where
  "all_digits s \<longleftrightarrow> s \<noteq> [] \<and> (\<forall>c \<in> set s. is_digit c)"

definition is_int_text :: "string \<Rightarrow> bool" where
  "is_int_text s = all_digits (unsigned_part s)"

definition is_decimal_text :: "string \<Rightarrow> bool" where
  "is_decimal_text s =
     (let u = unsigned_part s; w = takeWhile is_digit u; r = dropWhile is_digit u
      in w \<noteq> [] \<and> r \<noteq> [] \<and> hd r = CHR ''.'' \<and> all_digits (tl r))"

text \<open>
  \<^verbatim>\<open>std::stod\<close> on a text of that form: one rounding of the decimal number; too large, or too
  small to be kept exactly, is out of range.
\<close>

definition decimal_value :: "string \<Rightarrow> rat" where
  "decimal_value s =
     (let u = unsigned_part s; w = takeWhile is_digit u; f = tl (dropWhile is_digit u);
          x = of_nat (digits_val (w @ f)) / 10 ^ length f
      in if unsigned_part s \<noteq> s then - x else x)"

definition stod :: "string \<Rightarrow> conv_error + dbl" where
  "stod s =
     (let x = decimal_value s in
      case rnd x of
        Fin y \<Rightarrow> if y \<noteq> x \<and> \<bar>y\<bar> < 2 powi (- 1022) then Inl OutOfRange else Inr (Fin y)
      | _ \<Rightarrow> Inl OutOfRange)"

text \<open>\<open>parseYamlValue<T>\<close> for the four types it is used with.\<close>

definition parse_bool :: "string \<Rightarrow> cfg_value option" where
  "parse_bool v =
     (if v \<in> set [''true'', ''yes'', ''on'', ''1''] then Some (CBool True)
      else if v \<in> set [''false'', ''no'', ''off'', ''0''] then Some (CBool False) else None)"

definition parse_int64 :: "string \<Rightarrow> cfg_value option" where
  "parse_int64 v = (case stoll v of Inl _ \<Rightarrow> None | Inr i \<Rightarrow> Some (CInt64 i))"

definition parse_double :: "string \<Rightarrow> cfg_value option" where
  "parse_double v = (case stod v of Inl _ \<Rightarrow> None | Inr d \<Rightarrow> Some (CDouble d))"

definition parse_string :: "string \<Rightarrow> cfg_value option" where
  "parse_string v =
     Some (CStr (if length v \<ge> 2 \<and>
                   ((hd v = dquote \<and> last v = dquote) \<or> (hd v = CHR 0x27 \<and> last v = CHR 0x27))
                 then substr v 1 (length v - 2) else v))"

definition parse_value :: "string \<Rightarrow> cfg_value option" where
  "parse_value v =
     (if v \<in> set bool_words then parse_bool v
      else if is_int_text v then parse_int64 v
      else if is_decimal_text v then parse_double v
      else parse_string v)"

text \<open>One line of the file; \<open>None\<close> when it sets nothing.\<close>

definition parse_yaml_line :: "string \<Rightarrow> (string \<times> cfg_value) option" where
  "parse_yaml_line line =
     (if line = [] \<or> hd line = CHR ''#'' then None
      else case match_key_value line of None \<Rightarrow> None
        | Some (key, value) \<Rightarrow> map_option (\<lambda>v. (trim_blanks key, v)) (parse_value (trim_blanks value)))"

definition parseYaml :: "string \<Rightarrow> config \<Rightarrow> config" where
  "parseYaml content c =
     foldl (\<lambda>c line. case parse_yaml_line line of None \<Rightarrow> c | Some (k, v) \<Rightarrow> cfg_set k v c)
       c (split_lines content)"

definition loadFromFile :: "string option \<Rightarrow> config \<Rightarrow> bool \<times> config" where
  "loadFromFile file c = (case file of None \<Rightarrow> (False, c) | Some text \<Rightarrow> (True, parseYaml text c))"

section \<open>Writing\<close>

text \<open>\<^verbatim>\<open><<\<close> of a double: the format \<open>%g\<close>, six significant digits without trailing zeros.\<close>

definition ilog10 :: "rat \<Rightarrow> int" where
  "ilog10 x = (if x \<ge> 1 then int (length (nat_str (nat \<lfloor>x\<rfloor>))) - 1
     else - int (length (nat_str (nat \<lceil>1 / x\<rceil> - 1))))"

definition strip_zeros :: "string \<Rightarrow> string" where
  "strip_zeros s = drop_while_back (\<lambda>c. c = CHR ''.'') (drop_while_back (\<lambda>c. c = CHR ''0'') s)"

definition print_g :: "rat \<Rightarrow> string" where
  "print_g x =
     (if x = 0 then ''0'' else
      let a = \<bar>x\<bar>; e0 = ilog10 a;
          n0 = nat (rne (a / 10 powi (e0 - 5)));
          e = (if n0 = 10 ^ 6 then e0 + 1 else e0);
          n = (if n0 = 10 ^ 6 then 10 ^ 5 else n0);
          body = (if - 4 \<le> e \<and> e < 6
                  then (let k = nat (5 - e) in
                        strip_zeros (nat_str (n div 10 ^ k) @ ''.'' @ pad_zeros k (n mod 10 ^ k)))
                  else strip_zeros (nat_str (n div 10 ^ 5) @ ''.'' @ pad_zeros 5 (n mod 10 ^ 5)) @
                       ''e'' @ (if e < 0 then ''-'' else ''+'') @ pad_zeros 2 (nat \<bar>e\<bar>))
      in (if x < 0 then ''-'' else '''') @ body)"

fun dbl_stream :: "dbl \<Rightarrow> string" where
  "dbl_stream NaN = ''nan''"
| "dbl_stream (Inf s) = (if s then ''-inf'' else ''inf'')"
| "dbl_stream (Fin x) = print_g x"

fun print_value :: "cfg_value \<Rightarrow> string" where
  "print_value (CStr s) = [dquote] @ s @ [dquote]"
| "print_value (CBool b) = (if b then ''true'' else ''false'')"
| "print_value (CInt64 i) = int_str i"
| "print_value (CInt32 i) = int_str i"
| "print_value (CUInt64 w) = nat_str (unat w)"
| "print_value (CUInt32 w) = nat_str (unat w)"
| "print_value (CUInt16 w) = nat_str (unat w)"
| "print_value (CDouble d) = dbl_stream d"
| "print_value (CFloat d) = dbl_stream d"

definition category_of :: "string \<Rightarrow> string" where
  "category_of key = (case str_find key ''_'' 0 of None \<Rightarrow> ''general'' | Some pos \<Rightarrow> substr key 0 pos)"

text \<open>\<^verbatim>\<open>categories[category].push_back(key)\<close> for every key.\<close>

definition add_key :: "(string \<rightharpoonup> string list) \<Rightarrow> string \<Rightarrow> (string \<rightharpoonup> string list)" where
  "add_key cats key =
     (let cat = category_of key in
      cats(cat \<mapsto> (case cats cat of None \<Rightarrow> [] | Some ks \<Rightarrow> ks) @ [key]))"

definition categorize :: "string list \<Rightarrow> (string \<rightharpoonup> string list)" where
  "categorize keys = foldl add_key Map.empty keys"

definition yaml_entry :: "(string \<rightharpoonup> cfg_value) \<Rightarrow> string \<Rightarrow> string" where
  "yaml_entry vals key =
     (case vals key of None \<Rightarrow> [] | Some v \<Rightarrow> key @ '': '' @ print_value v @ [nl])"

definition yaml_category :: "(string \<rightharpoonup> cfg_value) \<Rightarrow> string \<times> string list \<Rightarrow> string" where
  "yaml_category vals e =
     ''# '' @ fst e @ '' settings'' @ [nl] @ concat (map (yaml_entry vals) (snd e)) @ [nl]"

text \<open>The text that is built from the categories in the order \<open>cs\<close> in which they are visited.\<close>

definition yaml_text :: "(string \<times> string list) list \<Rightarrow> (string \<rightharpoonup> cfg_value) \<Rightarrow> string" where
  "yaml_text cs vals = ''# NetSentry Configuration'' @ [nl, nl] @ concat (map (yaml_category vals) cs)"

text \<open>
  \<open>generateYaml\<close> holds the mutex and calls \<open>getAllKeys\<close>; \<open>order\<close> lists the categories.
\<close>

definition generateYaml :: "((string \<rightharpoonup> string list) \<Rightarrow> (string \<times> string list) list) \<Rightarrow>
    (string \<times> cfg_value) list \<Rightarrow> config \<Rightarrow> string option" where
  "generateYaml order es c =
     Option.bind (with_lock c (\<lambda>c1.
       map_option (\<lambda>keys. yaml_text (order (categorize keys)) (cfg_values c1)) (getAllKeys es c1))) id"

text \<open>The result of \<open>saveToFile\<close> and what it wrote; \<open>None\<close> when it does not return.\<close>

definition saveToFile :: "((string \<rightharpoonup> string list) \<Rightarrow> (string \<times> string list) list) \<Rightarrow>
    (string \<times> cfg_value) list \<Rightarrow> bool \<Rightarrow> config \<Rightarrow> (bool \<times> string) option" where
  "saveToFile order es can_open c =
     (if \<not> can_open then Some (False, [])
      else map_option (\<lambda>text. (True, text)) (generateYaml order es c))"

section \<open>Settings: laws\<close>

lemma cfg_values_set [simp]: "cfg_values (cfg_set k v c) = (cfg_values c)(k \<mapsto> v)"
  by (simp add: cfg_set_def)

lemma cfg_locked_set [simp]: "cfg_locked (cfg_set k v c) = cfg_locked c"
  by (simp add: cfg_set_def)

lemma generateYaml_none: "generateYaml order es c = None"
  by (simp add: generateYaml_def with_lock_def getAllKeys_def)

section \<open>Lines\<close>

definition good_key :: "string \<Rightarrow> bool" where
  "good_key k \<longleftrightarrow> k \<noteq> [] \<and> CHR '':'' \<notin> set k \<and> nl \<notin> set k \<and> \<not> is_space (hd k) \<and>
     \<not> is_blank (last k) \<and> hd k \<noteq> CHR ''#''"

lemma blank_space: "is_blank c \<Longrightarrow> is_space c"
  by (auto simp: is_blank_def is_space_def char_code_def)

lemma dropWhile_all: "\<forall>c \<in> set xs. P c \<Longrightarrow> dropWhile P (xs @ ys) = dropWhile P ys"
  by (simp add: dropWhile_append2)

lemma dropWhile_stop: "xs = [] \<or> \<not> P (hd xs) \<Longrightarrow> dropWhile P xs = xs"
  by (cases xs) auto

lemma trim_back_keep:
  assumes "s \<noteq> []" and "\<not> P (last s)" and "\<forall>c \<in> set r. P c"
  shows "drop_while_back P (s @ r) = s"
proof -
  have "dropWhile P (rev r @ rev s) = rev s"
    using assms by (subst dropWhile_all) (auto intro!: dropWhile_stop simp: hd_rev)
  then show ?thesis by (simp add: drop_while_back_def)
qed

lemma trim_blanks_keep:
  assumes "s \<noteq> []" and "\<not> is_blank (hd s)" and "\<not> is_blank (last s)" and "\<forall>c \<in> set r. is_blank c"
  shows "trim_blanks (s @ r) = s"
proof -
  have "drop_while_front is_blank (s @ r) = s @ r"
    unfolding drop_while_front_def using assms by (intro dropWhile_stop) (simp add: hd_append)
  then show ?thesis using trim_back_keep [OF assms(1,3,4)] by (simp add: trim_blanks_def)
qed

lemma trim_blanks_Nil [simp]: "trim_blanks [] = []"
  by (simp add: trim_blanks_def drop_while_back_def drop_while_front_def)

lemma match_key_value_line:
  assumes "good_key k" and "\<forall>c \<in> set sp1. is_blank c" and "\<forall>c \<in> set sp2. is_blank c"
    and "\<forall>c \<in> set sp3. is_space c" and "v = [] \<or> \<not> is_space (hd v)"
  shows "match_key_value (sp1 @ k @ sp2 @ '':'' @ sp3 @ v) =
    (if cr \<in> set v then None else Some (k @ sp2, v))"
proof -
  let ?line = "sp1 @ k @ sp2 @ '':'' @ sp3 @ v"
  have "\<not> is_blank (CHR '':'')" by (simp add: is_blank_def)
  then have nc: "CHR '':'' \<notin> set (sp1 @ k @ sp2)"
    using assms(1-3) by (auto simp: good_key_def)
  have line: "?line = (sp1 @ k @ sp2) @ '':'' @ sp3 @ v" by simp
  have b: "takeWhile (\<lambda>c. c \<noteq> CHR '':'') ?line = sp1 @ k @ sp2"
    unfolding line by (subst takeWhile_append2) (use nc in auto)
  have r: "dropWhile (\<lambda>c. c \<noteq> CHR '':'') ?line = '':'' @ sp3 @ v"
    unfolding line by (subst dropWhile_append2) (use nc in auto)
  have "dropWhile is_space (sp1 @ k @ sp2) = k @ sp2"
    using assms(1,2) blank_space
    by (subst dropWhile_all) (auto intro!: dropWhile_stop simp: good_key_def hd_append)
  moreover have "dropWhile is_space (sp3 @ v) = v"
    using assms(4,5) by (subst dropWhile_all) (auto intro: dropWhile_stop)
  ultimately show ?thesis
    using assms(1) unfolding match_key_value_def Let_def b r by (simp add: good_key_def)
qed

lemma parse_yaml_line_text:
  assumes "good_key k" and "\<forall>c \<in> set sp1. is_blank c" and "\<forall>c \<in> set sp2. is_blank c"
    and "\<forall>c \<in> set sp3. is_space c" and "v = [] \<or> \<not> is_space (hd v)"
  shows "parse_yaml_line (sp1 @ k @ sp2 @ '':'' @ sp3 @ v) =
    (if cr \<in> set v then None else map_option (Pair k) (parse_value (trim_blanks v)))"
proof -
  have "\<not> is_blank (hd k)" using assms(1) blank_space by (auto simp: good_key_def)
  then have "trim_blanks (k @ sp2) = k"
    using assms(1,3) by (intro trim_blanks_keep) (auto simp: good_key_def)
  moreover have "hd (sp1 @ k @ sp2 @ '':'' @ sp3 @ v) \<noteq> CHR ''#''"
    using assms(1,2) by (cases sp1) (auto simp: good_key_def is_blank_def hd_append)
  moreover have "sp1 @ k @ sp2 @ '':'' @ sp3 @ v \<noteq> []" by simp
  ultimately show ?thesis
    unfolding parse_yaml_line_def match_key_value_line [OF assms] by simp
qed

section \<open>Values\<close>

lemma is_int_text_nat: "is_int_text (nat_str n)"
  using nat_str_digits [of n] digit_not_sign [OF hd_nat_str [of n]]
  by (simp add: is_int_text_def unsigned_part_def all_digits_def)

lemma int_text_not_word: "is_int_text s \<Longrightarrow> s \<notin> set bool_words"
  by (auto simp: bool_words_def is_int_text_def unsigned_part_def all_digits_def is_digit_def char_code_def)

lemma is_int_text_int: "is_int_text (int_str i)"
  using is_int_text_nat [of "nat i"] nat_str_digits
  by (auto simp: int_str_def is_int_text_def unsigned_part_def all_digits_def)

lemma stoll_int_str:
  assumes "- (2 ^ 63) \<le> i" and "i < 2 ^ 63"
  shows "stoll (int_str i) = Inr i"
proof (cases "i < 0")
  case True
  have "\<not> is_space (CHR ''-'')" by (simp add: is_space_def char_code_def)
  then have "scan_int (CHR ''-'' # nat_str (nat (- i))) = Some (True, nat (- i))"
    by (simp add: scan_int_def)
  then show ?thesis using True assms by (simp add: stoll_def int_str_def signed_val_def in_range_def)
next
  case False
  then show ?thesis
    using assms scan_int_nat_str [of "[]" "nat i"]
    by (simp add: stoll_def int_str_def signed_val_def in_range_def)
qed

lemma parse_value_int: "- (2 ^ 63) \<le> i \<Longrightarrow> i < 2 ^ 63 \<Longrightarrow> parse_value (int_str i) = Some (CInt64 i)"
  using is_int_text_int [of i] int_text_not_word [OF is_int_text_int [of i]] stoll_int_str [of i]
  by (simp add: parse_value_def parse_int64_def)

lemma nat_str_int: "nat_str n = int_str (int n)"
  by (simp add: int_str_def)

lemma parse_value_bool: "parse_value (if b then ''true'' else ''false'') = Some (CBool b)"
  by (simp add: parse_value_def bool_words_def parse_bool_def)

lemma parse_value_quoted: "parse_value ([dquote] @ s @ [dquote]) = Some (CStr s)"
proof -
  have "[dquote] @ s @ [dquote] \<notin> set bool_words" by (auto simp: bool_words_def)
  moreover have "\<not> is_int_text ([dquote] @ s @ [dquote])" "\<not> is_decimal_text ([dquote] @ s @ [dquote])"
    by (auto simp: is_int_text_def is_decimal_text_def unsigned_part_def all_digits_def is_digit_def
        char_code_def Let_def)
  ultimately show ?thesis by (simp add: parse_value_def parse_string_def substr_def)
qed

text \<open>What a written value is read back as: every integer comes back as \<open>int64_t\<close>.\<close>

fun reloaded :: "cfg_value \<Rightarrow> cfg_value" where
  "reloaded (CInt32 i) = CInt64 i"
| "reloaded (CUInt64 w) = CInt64 (uint w)"
| "reloaded (CUInt32 w) = CInt64 (uint w)"
| "reloaded (CUInt16 w) = CInt64 (uint w)"
| "reloaded v = v"

fun writable :: "cfg_value \<Rightarrow> bool" where
  "writable (CStr s) = (nl \<notin> set s \<and> cr \<notin> set s)"
| "writable (CInt64 i) = (- (2 ^ 63) \<le> i \<and> i < 2 ^ 63)"
| "writable (CInt32 i) = (- (2 ^ 31) \<le> i \<and> i < 2 ^ 31)"
| "writable (CUInt64 w) = (unat w < 2 ^ 63)"
| "writable (CDouble d) = False"
| "writable (CFloat d) = False"
| "writable _ = True"

lemma parse_print_value: "writable v \<Longrightarrow> parse_value (print_value v) = Some (reloaded v)"
proof (cases v)
  case (CUInt32 w)
  have lo: "- (2 ^ 63) \<le> uint w" by (rule order_trans [of _ 0]) simp_all
  have hi: "uint w < 2 ^ 63" using unsigned_less [of w, where 'a = int] by simp
  show ?thesis using CUInt32 parse_value_int [OF lo hi] by (simp add: nat_str_int)
next
  case (CUInt16 w)
  have lo: "- (2 ^ 63) \<le> uint w" by (rule order_trans [of _ 0]) simp_all
  have hi: "uint w < 2 ^ 63" using unsigned_less [of w, where 'a = int] by simp
  show ?thesis using CUInt16 parse_value_int [OF lo hi] by (simp add: nat_str_int)
next
  case (CUInt64 w)
  have lo: "- (2 ^ 63) \<le> uint w" by (rule order_trans [of _ 0]) simp_all
  assume "writable v"
  then have "int (unat w) < int (2 ^ 63)" using CUInt64 by (simp only: writable.simps of_nat_less_iff)
  then have hi: "uint w < 2 ^ 63" by simp
  show ?thesis using CUInt64 parse_value_int [OF lo hi] by (simp add: nat_str_int)
qed (use parse_value_int parse_value_quoted parse_value_bool in auto)

section \<open>Files\<close>

lemma cfg_values_parse:
  "cfg_values (parseYaml text c) =
    cfg_values c ++ map_of (rev (List.map_filter parse_yaml_line (split_lines text)))"
proof -
  have "cfg_values (foldl (\<lambda>c line. case parse_yaml_line line of None \<Rightarrow> c | Some (k, v) \<Rightarrow> cfg_set k v c) c ls) =
      cfg_values c ++ map_of (rev (List.map_filter parse_yaml_line ls))" for ls
    by (induction ls arbitrary: c) (auto simp: List.map_filter_simps split: option.splits)
  then show ?thesis by (simp add: parseYaml_def)
qed

text \<open>The lines of the generated text.\<close>

definition entry_lines :: "(string \<rightharpoonup> cfg_value) \<Rightarrow> string \<Rightarrow> string list" where
  "entry_lines vals k = (case vals k of None \<Rightarrow> [] | Some v \<Rightarrow> [k @ '': '' @ print_value v])"

definition yaml_lines :: "(string \<times> string list) list \<Rightarrow> (string \<rightharpoonup> cfg_value) \<Rightarrow> string list" where
  "yaml_lines cs vals = [''# NetSentry Configuration'', []] @
     concat (map (\<lambda>e. [''# '' @ fst e @ '' settings''] @ concat (map (entry_lines vals) (snd e)) @ [[]]) cs)"

lemma unlines_Cons: "unlines (l # ls) = l @ nl # unlines ls" "unlines [] = []"
  by (simp_all add: unlines_def)

lemma unlines_append: "unlines (xs @ ys) = unlines xs @ unlines ys"
  by (simp add: unlines_def)

lemma unlines_concat: "unlines (concat xss) = concat (map unlines xss)"
  by (induction xss) (simp_all add: unlines_append, simp add: unlines_def)

lemma unlines_entry: "unlines (entry_lines vals k) = yaml_entry vals k"
  by (simp add: entry_lines_def yaml_entry_def unlines_def split: option.splits)

lemma yaml_text_lines: "yaml_text cs vals = unlines (yaml_lines cs vals)"
proof -
  have "unlines ([''# '' @ fst e @ '' settings''] @ concat (map (entry_lines vals) (snd e)) @ [[]]) =
      yaml_category vals e" for e
    by (simp add: unlines_append unlines_concat comp_def unlines_entry yaml_category_def unlines_Cons)
  then show ?thesis
    by (simp add: yaml_text_def yaml_lines_def unlines_append unlines_concat comp_def unlines_Cons)
qed

definition good_settings :: "(string \<rightharpoonup> cfg_value) \<Rightarrow> bool" where
  "good_settings vals \<longleftrightarrow> (\<forall>k v. vals k = Some v \<longrightarrow> good_key k \<and> writable v)"

lemma print_value_no_nl: "writable v \<Longrightarrow> nl \<notin> set (print_value v) \<and> cr \<notin> set (print_value v)"
proof -
  have d: "nl \<notin> set (nat_str n)" "cr \<notin> set (nat_str n)" for n
    using nat_str_digits [of n] by (auto simp: is_digit_def char_code_def)
  then have "nl \<notin> set (int_str i)" "cr \<notin> set (int_str i)" for i by (auto simp: int_str_def)
  with d show "writable v \<Longrightarrow> ?thesis" by (cases v) auto
qed

lemma print_value_front: "writable v \<Longrightarrow> print_value v \<noteq> [] \<and> \<not> is_space (hd (print_value v))"
proof -
  have d: "\<not> is_space (hd (nat_str n))" for n using hd_nat_str digit_not_space by blast
  have "\<not> is_space (CHR ''-'')" by (simp add: is_space_def char_code_def)
  with d have "int_str i \<noteq> [] \<and> \<not> is_space (hd (int_str i))" for i by (simp add: int_str_def)
  with d show "writable v \<Longrightarrow> ?thesis" by (cases v) (auto simp: is_space_def char_code_def)
qed

lemma print_value_back: "writable v \<Longrightarrow> \<not> is_blank (last (print_value v))"
proof -
  have d: "\<not> is_blank (last (nat_str n))" for n
    using nat_str_digits [of n] last_in_set [OF nat_str_not_empty [of n]] digit_not_space blank_space by blast
  then have "\<not> is_blank (last (int_str i))" for i by (simp add: int_str_def)
  with d show "writable v \<Longrightarrow> ?thesis" by (cases v) (auto simp: is_blank_def)
qed

lemma parse_entry_line:
  assumes "good_key k" and "writable v"
  shows "parse_yaml_line (k @ '': '' @ print_value v) = Some (k, reloaded v)"
proof -
  have "\<not> is_blank (hd (print_value v))" using print_value_front [OF assms(2)] blank_space by blast
  then have "trim_blanks (print_value v) = print_value v"
    using trim_blanks_keep [of "print_value v" "[]"] print_value_front [OF assms(2)] print_value_back [OF assms(2)]
    by simp
  moreover have "parse_yaml_line ([] @ k @ [] @ '':'' @ '' '' @ print_value v) =
      (if cr \<in> set (print_value v) then None else map_option (Pair k) (parse_value (trim_blanks (print_value v))))"
    using assms(1) print_value_front [OF assms(2)]
    by (intro parse_yaml_line_text) (simp_all add: is_space_def)
  ultimately show ?thesis using print_value_no_nl [OF assms(2)] parse_print_value [OF assms(2)] by simp
qed

lemma parse_comment: "parse_yaml_line (CHR ''#'' # l) = None" "parse_yaml_line [] = None"
  by (simp_all add: parse_yaml_line_def)

lemma map_filter_append: "List.map_filter f (xs @ ys) = List.map_filter f xs @ List.map_filter f ys"
  by (simp add: List.map_filter_def)

lemma map_filter_concat: "List.map_filter f (concat xss) = concat (map (List.map_filter f) xss)"
  by (induction xss) (simp_all add: map_filter_append List.map_filter_simps)

definition entry_pairs :: "(string \<rightharpoonup> cfg_value) \<Rightarrow> string \<Rightarrow> (string \<times> cfg_value) list" where
  "entry_pairs vals k = (case vals k of None \<Rightarrow> [] | Some v \<Rightarrow> [(k, reloaded v)])"

lemma parse_entry_lines:
  "good_settings vals \<Longrightarrow> List.map_filter parse_yaml_line (entry_lines vals k) = entry_pairs vals k"
  by (auto simp: entry_lines_def entry_pairs_def good_settings_def List.map_filter_simps parse_entry_line [simplified]
      split: option.splits)

lemma parse_yaml_lines:
  assumes "good_settings vals"
  shows "List.map_filter parse_yaml_line (yaml_lines cs vals) =
    concat (map (\<lambda>e. concat (map (entry_pairs vals) (snd e))) cs)"
proof -
  have "List.map_filter parse_yaml_line
      ([''# '' @ fst e @ '' settings''] @ concat (map (entry_lines vals) (snd e)) @ [[]]) =
      concat (map (entry_pairs vals) (snd e))" for e
    unfolding map_filter_append map_filter_concat map_map comp_def
    using assms by (simp add: List.map_filter_simps parse_comment parse_entry_lines)
  then show ?thesis
    unfolding yaml_lines_def map_filter_append map_filter_concat map_map comp_def
    by (simp add: List.map_filter_simps parse_comment)
qed

text \<open>Every key is in exactly its category.\<close>

lemma categorize_keys:
  "(\<exists>cat ks. categorize keys cat = Some ks \<and> k \<in> set ks) \<longleftrightarrow> k \<in> set keys"
proof (induction keys rule: rev_induct)
  case Nil
  then show ?case by (simp add: categorize_def)
next
  case (snoc x keys)
  let ?m = "categorize keys" and ?c = "category_of x"
  have step: "categorize (keys @ [x]) = ?m(?c \<mapsto> (case ?m ?c of None \<Rightarrow> [] | Some ks \<Rightarrow> ks) @ [x])"
    by (simp add: categorize_def add_key_def Let_def)
  show ?case
  proof
    assume "\<exists>cat ks. categorize (keys @ [x]) cat = Some ks \<and> k \<in> set ks"
    then obtain cat ks where "categorize (keys @ [x]) cat = Some ks" "k \<in> set ks" by blast
    then show "k \<in> set (keys @ [x])"
      using snoc unfolding step by (cases "cat = ?c"; cases "?m ?c") auto
  next
    assume "k \<in> set (keys @ [x])"
    then consider "k = x" | cat ks where "?m cat = Some ks" "k \<in> set ks" using snoc by auto
    then show "\<exists>cat ks. categorize (keys @ [x]) cat = Some ks \<and> k \<in> set ks"
    proof cases
      case 1
      then show ?thesis unfolding step by (intro exI [of _ ?c]) simp
    next
      case 2
      then show ?thesis unfolding step by (cases "cat = ?c") (auto intro!: exI [of _ cat])
    qed
  qed
qed

lemma category_cut: "set (category_of key) \<subseteq> set key \<union> set ''general''"
  by (auto simp: category_of_def substr_def split: option.splits dest!: in_set_takeD)

lemma categorize_name:
  "categorize keys cat = Some ks \<Longrightarrow> \<exists>k \<in> set keys. cat = category_of k"
proof (induction keys arbitrary: ks rule: rev_induct)
  case (snoc x keys)
  then show ?case
    by (cases "cat = category_of x") (auto simp: categorize_def add_key_def Let_def)
qed (simp add: categorize_def)

lemma entry_lines_no_nl: "good_settings vals \<Longrightarrow> l \<in> set (entry_lines vals k) \<Longrightarrow> nl \<notin> set l"
  using print_value_no_nl by (cases "vals k") (auto simp: entry_lines_def good_settings_def good_key_def)

lemma yaml_lines_no_nl:
  assumes "good_settings vals" and "\<forall>e \<in> set cs. nl \<notin> set (fst e)"
  shows "\<forall>l \<in> set (yaml_lines cs vals). nl \<notin> set l"
  using assms entry_lines_no_nl [OF assms(1)] by (auto simp: yaml_lines_def)

lemma entry_pairs_mem:
  "(k', v) \<in> set (entry_pairs vals k) \<longleftrightarrow> k' = k \<and> map_option reloaded (vals k) = Some v"
  by (cases "vals k") (auto simp: entry_pairs_def)

lemma reload_map:
  assumes "good_settings vals" and "listing vals es" and "listing (categorize (map fst es)) cs"
  shows "map_of (rev (List.map_filter parse_yaml_line (yaml_lines cs vals))) = (\<lambda>k. map_option reloaded (vals k))"
proof (rule map_of_consistent)
  fix k v
  have mem: "(\<exists>e \<in> set cs. k \<in> set (snd e)) \<longleftrightarrow> vals k \<noteq> None"
  proof -
    have "(\<exists>e \<in> set cs. k \<in> set (snd e)) \<longleftrightarrow> k \<in> set (map fst es)"
      using categorize_keys [of "map fst es" k] listing_mem [OF assms(3)] by (force simp del: set_map)
    then show ?thesis using listing_keys [OF assms(2)] by auto
  qed
  show "(k, v) \<in> set (rev (List.map_filter parse_yaml_line (yaml_lines cs vals))) \<longleftrightarrow>
      map_option reloaded (vals k) = Some v"
    using mem unfolding parse_yaml_lines [OF assms(1)]
    by (auto simp: entry_pairs_mem)
qed

section \<open>Properties\<close>

text \<open>
  C24: What the generator would write is read back: for settings whose keys are plain and whose
  values are not floating point, the text made from them, in whatever order the hash maps
  are visited, parses into exactly those settings over any configuration, except that every
  integer comes back as a 64-bit signed one.
\<close>

theorem yaml_roundtrip:
  assumes "good_settings vals" and "listing vals es" and "listing (categorize (map fst es)) cs"
  shows "cfg_values (parseYaml (yaml_text cs vals) c) =
    (\<lambda>k. case vals k of None \<Rightarrow> cfg_values c k | Some v \<Rightarrow> Some (reloaded v))"
proof -
  have "nl \<notin> set (fst e)" if e: "e \<in> set cs" for e
  proof -
    obtain k where "k \<in> set (map fst es)" "fst e = category_of k"
      using categorize_name listing_mem [OF assms(3)] e by (metis prod.collapse)
    moreover from this have "nl \<notin> set k"
      using listing_keys [OF assms(2)] assms(1) by (fastforce simp: good_settings_def good_key_def)
    ultimately show ?thesis using category_cut [of k] by auto
  qed
  then have "split_lines (unlines (yaml_lines cs vals) @ []) = yaml_lines cs vals @ split_lines []"
    using yaml_lines_no_nl [OF assms(1), of cs] by (intro split_lines_unlines) auto
  then have "split_lines (yaml_text cs vals) = yaml_lines cs vals" by (simp add: yaml_text_lines)
  then have "cfg_values (parseYaml (yaml_text cs vals) c) =
      cfg_values c ++ (\<lambda>k. map_option reloaded (vals k))"
    unfolding cfg_values_parse using reload_map [OF assms] by simp
  then show ?thesis by (auto simp: map_add_def fun_eq_iff split: option.splits)
qed

theorem yaml_roundtrip_witness:
  "let vals = [''api_port'' \<mapsto> CUInt16 8080, ''log'' \<mapsto> CStr ''a b''];
       cs = [(''api'', [''api_port'']), (''general'', [''log''])] in
   cfg_values (parseYaml (yaml_text cs vals) ConfigManager) =
    (\<lambda>k. case vals k of None \<Rightarrow> cfg_values ConfigManager k | Some v \<Rightarrow> Some (reloaded v))"
  unfolding Let_def
proof (rule yaml_roundtrip [where es = "[(''api_port'', CUInt16 8080), (''log'', CStr ''a b'')]"])
  show "good_settings [''api_port'' \<mapsto> CUInt16 8080, ''log'' \<mapsto> CStr ''a b'']"
    by (auto simp: good_settings_def good_key_def is_space_def is_blank_def char_code_def)
  show "listing [''api_port'' \<mapsto> CUInt16 8080, ''log'' \<mapsto> CStr ''a b'']
      [(''api_port'', CUInt16 8080), (''log'', CStr ''a b'')]"
    by (auto simp: listing_def fun_eq_iff)
  show "listing (categorize (map fst [(''api_port'', CUInt16 8080), (''log'', CStr ''a b'')]))
      [(''api'', [''api_port'']), (''general'', [''log''])]"
    by (auto simp: listing_def categorize_def add_key_def category_of_def substr_def fun_eq_iff)
qed

lemma cfg_get_file:
  assumes "T \<notin> {TBool, TInt64, TDouble, TStr}"
  shows "cfg_get T key (parseYaml text c) =
    (if key \<in> fst ` set (List.map_filter parse_yaml_line (split_lines text)) then None
     else cfg_get T key c)"
proof -
  let ?es = "List.map_filter parse_yaml_line (split_lines text)"
  have ty: "type_of v \<in> {TBool, TInt64, TDouble, TStr}" if "parse_yaml_line l = Some (k, v)" for l k v
    using that
    by (auto simp: parse_yaml_line_def parse_value_def parse_bool_def parse_int64_def parse_double_def
        parse_string_def split: if_splits option.splits sum.splits)
  show ?thesis
  proof (cases "key \<in> fst ` set ?es")
    case True
    then obtain v where v: "map_of (rev ?es) key = Some v"
      by (cases "map_of (rev ?es) key") (auto simp: map_of_eq_None_iff)
    then have "(key, v) \<in> set ?es" using map_of_SomeD by fastforce
    then obtain l where "parse_yaml_line l = Some (key, v)" by (auto simp: List.map_filter_def)
    then have "type_of v \<noteq> T" using ty assms by metis
    then show ?thesis using True v by (auto simp: cfg_get_def cfg_values_parse map_add_def)
  next
    case False
    then have "map_of (rev ?es) key = None" by (simp add: map_of_eq_None_iff)
    then show ?thesis using False by (simp add: cfg_get_def cfg_values_parse map_add_def)
  qed
qed

text \<open>
  C31: A configuration file cannot provide a setting of any type but \<open>bool\<close>, \<open>int64_t\<close>,
  \<open>double\<close> and \<open>std::string\<close>: reading one of the unsigned types that the defaults and the
  callers use gives, after any file, nothing if the file sets the key and what was there
  before if it does not.
\<close>

theorem config_file_types:
  assumes "T \<notin> {TBool, TInt64, TDouble, TStr}"
  shows "cfg_get T key (parseYaml text c) =
    (if key \<in> fst ` set (List.map_filter parse_yaml_line (split_lines text)) then None
     else cfg_get T key c)"
  by (rule cfg_get_file [OF assms])

theorem config_file_types_witness:
  "cfg_get TUInt16 ''api_port'' (parseYaml ''api_port: 9000'' ConfigManager) =
    (if ''api_port'' \<in> fst ` set (List.map_filter parse_yaml_line (split_lines ''api_port: 9000'')) then None
     else cfg_get TUInt16 ''api_port'' ConfigManager)"
  by (rule config_file_types) simp

text \<open>
  A file with CR LF line ends sets nothing: whatever lines it has, as long as those with a
  colon have a value after it, the configuration is what it was, because the dot of the
  line pattern does not match the carriage return.
\<close>

theorem crlf_file_ignored:
  assumes "\<forall>l \<in> set ls. nl \<notin> set l \<and>
    (CHR '':'' \<in> set l \<longrightarrow> (\<exists>x \<in> set (tl (dropWhile (\<lambda>x. x \<noteq> CHR '':'') l)). \<not> is_space x))"
  shows "parseYaml (unlines (map (\<lambda>l. l @ [cr]) ls)) c = c"
proof -
  have none: "match_key_value (l @ [cr]) = None"
    if l: "CHR '':'' \<in> set l \<longrightarrow> (\<exists>x \<in> set (tl (dropWhile (\<lambda>x. x \<noteq> CHR '':'') l)). \<not> is_space x)" for l
  proof (cases "CHR '':'' \<in> set l")
    case True
    then obtain pre post where pp: "l = pre @ CHR '':'' # post" "CHR '':'' \<notin> set pre"
      by (meson split_list_first)
    have "dropWhile (\<lambda>x. x \<noteq> CHR '':'') l = CHR '':'' # post"
      unfolding pp(1) by (subst dropWhile_append2) (use pp(2) in auto)
    with l True have "\<exists>x \<in> set post. \<not> is_space x" by simp
    then have "cr \<in> set (dropWhile is_space (post @ [cr]))"
      by (auto simp: dropWhile_append)
    moreover have "dropWhile (\<lambda>x. x \<noteq> CHR '':'') (l @ [cr]) = CHR '':'' # post @ [cr]"
    proof -
      have "l @ [cr] = pre @ CHR '':'' # post @ [cr]" by (simp add: pp(1))
      then show ?thesis by (simp only:) (subst dropWhile_append2, use pp(2) in auto)
    qed
    ultimately show ?thesis by (simp add: match_key_value_def Let_def)
  next
    case False
    then have "dropWhile (\<lambda>x. x \<noteq> CHR '':'') (l @ [cr]) = []" by (auto simp: dropWhile_eq_Nil_conv)
    then show ?thesis by (simp add: match_key_value_def Let_def)
  qed
  have "split_lines (unlines (map (\<lambda>l. l @ [cr]) ls) @ []) = map (\<lambda>l. l @ [cr]) ls @ split_lines []"
    using assms by (intro split_lines_unlines) auto
  moreover have "parse_yaml_line (l @ [cr]) = None" if "l \<in> set ls" for l
    using none [of l] assms that by (simp add: parse_yaml_line_def)
  then have "foldl (\<lambda>c line. case parse_yaml_line line of None \<Rightarrow> c | Some (k, v) \<Rightarrow> cfg_set k v c)
      c (map (\<lambda>l. l @ [cr]) ls) = c"
    by (induction ls) simp_all
  ultimately show ?thesis by (simp add: parseYaml_def)
qed

theorem crlf_file_ignored_witness:
  "parseYaml (unlines (map (\<lambda>l. l @ [cr]) [''enable_api: true'', '''', ''# note''])) ConfigManager = ConfigManager"
  by (rule crlf_file_ignored) (auto simp: is_space_def char_code_def)

text \<open>
  Saving never returns: \<open>generateYaml\<close> holds the object mutex when it calls \<open>getAllKeys\<close>,
  which takes it again, so \<open>saveToFile\<close> on a file that can be opened blocks for ever,
  whatever the settings.
\<close>

theorem save_blocks:
  "saveToFile order es True c = None \<and> saveToFile order es False c = Some (False, [])"
  by (simp add: saveToFile_def generateYaml_none)

text \<open>
  Settings are typed: a setting is read back only with the exact type it was stored with,
  other keys are untouched, a removed or cleared key gives the caller's default, and a new
  configuration has the documented defaults.
\<close>

theorem settings_typed:
  "cfg_get T k (cfg_set k v c) = (if T = type_of v then Some v else None) \<and>
   (k' \<noteq> k \<longrightarrow> cfg_get T k' (cfg_set k v c) = cfg_get T k' c \<and>
      cfg_get T k' (cfg_remove k c) = cfg_get T k' c) \<and>
   cfg_getOrDefault T k d (cfg_remove k c) = d \<and> cfg_getOrDefault T k d (cfg_clear c) = d \<and>
   (cfg_exists k c \<longleftrightarrow> (\<exists>T v. cfg_get T k c = Some v)) \<and>
   cfg_values ConfigManager = map_of default_settings"
proof -
  have d: "cfg_values ConfigManager = map_of default_settings"
    by (auto simp: ConfigManager_def setDefaultConfig_def default_settings_def fun_eq_iff)
  have e: "cfg_exists k c \<longleftrightarrow> (\<exists>T v. cfg_get T k c = Some v)"
    by (cases "cfg_values c k") (auto simp: cfg_exists_def cfg_get_def)
  show ?thesis
    unfolding d e by (simp add: cfg_get_def cfg_getOrDefault_def cfg_remove_def cfg_clear_def)
qed

theorem settings_typed_witness:
  "let c = ConfigManager; k = ''web_port''; k' = ''api_port''; v = CUInt16 1; T = TUInt16; d = CUInt16 2 in
   cfg_get T k (cfg_set k v c) = (if T = type_of v then Some v else None) \<and>
   (k' \<noteq> k \<longrightarrow> cfg_get T k' (cfg_set k v c) = cfg_get T k' c \<and>
      cfg_get T k' (cfg_remove k c) = cfg_get T k' c) \<and>
   cfg_getOrDefault T k d (cfg_remove k c) = d \<and> cfg_getOrDefault T k d (cfg_clear c) = d \<and>
   (cfg_exists k c \<longleftrightarrow> (\<exists>T v. cfg_get T k c = Some v)) \<and>
   cfg_values ConfigManager = map_of default_settings"
  unfolding Let_def by (rule settings_typed)

end
