(* ===== verification/Logger.thy ===== *)
theory Logger
  imports Cpp_String
begin

text \<open>
  \<^verbatim>\<open>core/utils/logger\<close>: the levels, the shared instance, the filter and the formatting buffer.
  What \<^verbatim>\<open>snprintf\<close> would print is an argument, \<open>None\<close> for an encoding error. The function
  that should write the finished line is not in the sources.
\<close>

section \<open>Levels\<close>

text \<open>The enumerators, with a letter in front that keeps them apart from the alert severities.\<close>

datatype log_level = L_TRACE | L_DEBUG | L_INFO | L_WARNING | L_ERROR | L_CRITICAL

fun level_code :: "log_level \<Rightarrow> nat" where
  "level_code L_TRACE = 0"
| "level_code L_DEBUG = 1"
| "level_code L_INFO = 2"
| "level_code L_WARNING = 3"
| "level_code L_ERROR = 4"
| "level_code L_CRITICAL = 5"

lemma level_code_inj: "level_code a = level_code b \<Longrightarrow> a = b"
  by (cases a; cases b) simp_all

text \<open>The built-in comparison of enumerators.\<close>

instantiation log_level :: linorder
begin

definition less_eq_log_level :: "log_level \<Rightarrow> log_level \<Rightarrow> bool" where
  "less_eq_log_level a b \<longleftrightarrow> level_code a \<le> level_code b"

definition less_log_level :: "log_level \<Rightarrow> log_level \<Rightarrow> bool" where
  "less_log_level a b \<longleftrightarrow> level_code a < level_code b"

instance
  by standard (auto simp: less_eq_log_level_def less_log_level_def intro: level_code_inj)

end

fun logLevelToString :: "log_level \<Rightarrow> string" where
  "logLevelToString L_TRACE = ''TRACE''"
| "logLevelToString L_DEBUG = ''DEBUG''"
| "logLevelToString L_INFO = ''INFO''"
| "logLevelToString L_WARNING = ''WARNING''"
| "logLevelToString L_ERROR = ''ERROR''"
| "logLevelToString L_CRITICAL = ''CRITICAL''"

section \<open>The shared instance\<close>

record logger =
  log_filename :: string
  current_level :: log_level

text \<open>\<open>None\<close> for \<open>instance_\<close> is the null pointer.\<close>

definition logger_initialize :: "string \<Rightarrow> log_level \<Rightarrow> logger option \<Rightarrow> logger option" where
  "logger_initialize filename level inst =
     (if inst = None then Some \<lparr>log_filename = filename, current_level = level\<rparr> else inst)"

definition logger_getInstance :: "logger option \<Rightarrow> logger \<times> logger option" where
  "logger_getInstance inst =
     (let inst' = (if inst = None then Some \<lparr>log_filename = ''netsentry.log'', current_level = L_INFO\<rparr> else inst)
      in (the inst', inst'))"

definition setLogLevel :: "log_level \<Rightarrow> logger \<Rightarrow> logger" where
  "setLogLevel level l = l\<lparr>current_level := level\<rparr>"

definition getLogLevel :: "logger \<Rightarrow> log_level" where
  "getLogLevel l = current_level l"

section \<open>Formatting\<close>

abbreviation nul :: char where "nul \<equiv> CHR 0x00"

text \<open>\<^verbatim>\<open>result.resize(n)\<close>\<close>

definition str_resize :: "nat \<Rightarrow> string \<Rightarrow> string" where
  "str_resize n s = take n s @ replicate (n - length s) nul"

text \<open>A buffer of \<open>size\<close> bytes after \<^verbatim>\<open>snprintf\<close>: the text, cut, and a terminating NUL.\<close>

definition snprintf_buffer :: "string \<Rightarrow> string \<Rightarrow> string" where
  "snprintf_buffer buf printed =
     (let t = take (length buf - 1) printed @ [nul] in t @ drop (length t) buf)"

definition formatString :: "string option \<Rightarrow> string" where
  "formatString printed =
     (let buf_size = 1024; result = str_resize buf_size [] in
      case printed of
        None \<Rightarrow> ''Error formatting string''
      | Some t \<Rightarrow> str_resize (length t) (snprintf_buffer result t))"

text \<open>\<open>log\<close> up to the call that writes the message; \<open>None\<close> when the level is filtered.\<close>

definition log_message :: "log_level \<Rightarrow> string option \<Rightarrow> logger \<Rightarrow> string option" where
  "log_message level printed l = (if level < current_level l then None else Some (formatString printed))"

section \<open>Properties\<close>

lemma formatString_some:
  "formatString (Some t) = take 1023 t @ replicate (length t - 1023) nul"
proof (cases "length t \<le> 1023")
  case True
  then show ?thesis by (simp add: formatString_def str_resize_def snprintf_buffer_def Let_def)
next
  case False
  then obtain k where k: "length t = 1024 + k" using le_iff_add [of 1024 "length t"] by auto
  have "replicate (Suc k) nul = nul # replicate k nul" by simp
  with k show ?thesis
    by (simp add: formatString_def str_resize_def snprintf_buffer_def Let_def)
qed

text \<open>
  What is logged. The first \<open>initialize\<close> decides file and level and later ones change nothing; a
  message passes exactly when its level is not below the current one; it is then the formatted
  text itself up to 1023 characters, and beyond that the first 1023 characters followed by NUL
  characters up to the full length.
\<close>

theorem log_filter_and_format:
  "log_message level (Some t) l =
     (if level_code (current_level l) \<le> level_code level
      then Some (take 1023 t @ replicate (length t - 1023) nul) else None)
   \<and> logger_initialize f2 l2 (logger_initialize f1 l1 None) = logger_initialize f1 l1 None
   \<and> fst (logger_getInstance (logger_initialize f1 l1 None)) = \<lparr>log_filename = f1, current_level = l1\<rparr>"
  by (auto simp: log_message_def formatString_some less_log_level_def logger_initialize_def
      logger_getInstance_def Let_def)

end
