(* ===== verification/Database.thy ===== *)
theory Database
  imports Cpp_Double
begin

text \<open>
  \<^verbatim>\<open>db/database.hpp\<close>: the records and the interface. Its implementations are not in the
  sources, so the database is the list of the calls made on it, in order.
\<close>

datatype database_type = SQLITE | MEMORY

record metric_data_point =
  dp_metric_name :: string
  dp_value :: dbl
  dp_timestamp :: int

text \<open>Time stamps are \<^verbatim>\<open>int64_t\<close>, within the range of that type.\<close>

record connection_record =
  cr_source_ip :: string
  cr_source_port :: u16
  cr_dest_ip :: string
  cr_dest_port :: u16
  cr_protocol :: u8
  cr_bytes_sent :: u64
  cr_bytes_received :: u64
  cr_packets_sent :: u64
  cr_packets_received :: u64
  cr_first_seen :: int
  cr_last_seen :: int

record alert_record =
  ar_name :: string
  ar_description :: string
  ar_severity :: int
  ar_timestamp :: int
  ar_acknowledged :: bool

datatype db_call = InsertMetrics "metric_data_point list" | UpdateConnection connection_record
  | InsertAlert alert_record | PruneMetricsBefore int | PruneConnectionsBefore int | PruneAlertsBefore int

end
