(* ===== verification/Settings.thy ===== *)
theory Settings
  imports Config_Manager Logger Database
begin

text \<open>
  How \<^verbatim>\<open>main.cpp\<close> reads its settings: \<^verbatim>\<open>getOrDefault\<close> at the types it uses, the database it
  chooses, and the log level.
\<close>

text \<open>\<^verbatim>\<open>getOrDefault\<close> at the types the program uses.\<close>

definition cfg_string :: "string \<Rightarrow> string \<Rightarrow> config \<Rightarrow> string" where
  "cfg_string key dflt c = (case cfg_getOrDefault TStr key (CStr dflt) c of CStr s \<Rightarrow> s | _ \<Rightarrow> dflt)"

definition cfg_bool :: "string \<Rightarrow> bool \<Rightarrow> config \<Rightarrow> bool" where
  "cfg_bool key dflt c = (case cfg_getOrDefault TBool key (CBool dflt) c of CBool b \<Rightarrow> b | _ \<Rightarrow> dflt)"

definition cfg_u16 :: "string \<Rightarrow> u16 \<Rightarrow> config \<Rightarrow> u16" where
  "cfg_u16 key dflt c = (case cfg_getOrDefault TUInt16 key (CUInt16 dflt) c of CUInt16 w \<Rightarrow> w | _ \<Rightarrow> dflt)"

definition cfg_u32 :: "string \<Rightarrow> u32 \<Rightarrow> config \<Rightarrow> u32" where
  "cfg_u32 key dflt c = (case cfg_getOrDefault TUInt32 key (CUInt32 dflt) c of CUInt32 w \<Rightarrow> w | _ \<Rightarrow> dflt)"

lemma cfg_get_type: "cfg_get T key c = Some v \<Longrightarrow> type_of v = T"
  by (auto simp: cfg_get_def split: option.splits if_splits)

lemma cfg_u32_get: "cfg_u32 key dflt c = (case cfg_get TUInt32 key c of Some (CUInt32 w) \<Rightarrow> w | _ \<Rightarrow> dflt)"
  by (auto simp: cfg_u32_def cfg_getOrDefault_def split: option.splits)

lemma cfg_u16_get: "cfg_u16 key dflt c = (case cfg_get TUInt16 key c of Some (CUInt16 w) \<Rightarrow> w | _ \<Rightarrow> dflt)"
  by (auto simp: cfg_u16_def cfg_getOrDefault_def split: option.splits)

text \<open>The database of \<^verbatim>\<open>main\<close>: its type and the path it is made with.\<close>

definition database_setting :: "config \<Rightarrow> database_type \<times> string" where
  "database_setting c =
     (if cfg_string ''database_type'' ''memory'' c = ''sqlite'' then SQLITE else MEMORY,
      cfg_string ''database_path'' ''data/netsentry.db'' c)"

section \<open>The log level\<close>

definition level_of_setting :: "string \<Rightarrow> log_level" where
  "level_of_setting s =
     (if s = ''trace'' then L_TRACE
      else if s = ''debug'' then L_DEBUG
      else if s = ''info'' then L_INFO
      else if s = ''warning'' then L_WARNING
      else if s = ''error'' then L_ERROR
      else if s = ''critical'' then L_CRITICAL
      else L_INFO)"

end
