(* ===== verification/Alert_Setup.thy ===== *)
theory Alert_Setup
  imports Alerts Settings
begin

text \<open>
  \<^verbatim>\<open>main.cpp\<close>, lines 190 to 243, and the alert task of the main loop: the callback that tells
  the database, the four threshold alerts, and one check with its effect on the database.
\<close>

section \<open>Operations\<close>

definition threshold_alert :: "string \<Rightarrow> nat \<Rightarrow> u32 \<Rightarrow> severity \<Rightarrow> manager \<Rightarrow> manager" where
  "threshold_alert name metric threshold sev m =
     createAlert name (MetricThresholdCondition (Some metric) GREATER_THAN (dbl_of_u32 threshold)) sev m"

definition setup_cpu_alerts :: "config \<Rightarrow> nat option \<Rightarrow> manager \<Rightarrow> manager" where
  "setup_cpu_alerts c cpu_metric m =
     (case cpu_metric of None \<Rightarrow> m
      | Some p \<Rightarrow>
          let cpu_warning = cfg_u32 ''cpu_threshold_warning'' 75 c;
              cpu_critical = cfg_u32 ''cpu_threshold_critical'' 90 c
          in threshold_alert ''High CPU Usage (Critical)'' p cpu_critical CRITICAL
               (threshold_alert ''High CPU Usage (Warning)'' p cpu_warning WARNING m))"

definition setup_memory_alerts :: "config \<Rightarrow> nat option \<Rightarrow> manager \<Rightarrow> manager" where
  "setup_memory_alerts c memory_metric m =
     (case memory_metric of None \<Rightarrow> m
      | Some p \<Rightarrow>
          let mem_warning = cfg_u32 ''memory_threshold_warning'' 70 c;
              mem_critical = cfg_u32 ''memory_threshold_critical'' 85 c
          in threshold_alert ''High Memory Usage (Critical)'' p mem_critical CRITICAL
               (threshold_alert ''High Memory Usage (Warning)'' p mem_warning WARNING m))"

text \<open>The manager of \<^verbatim>\<open>main\<close>; callback 0 is the one that writes the alert to the database.\<close>

definition alert_setup :: "config \<Rightarrow> nat option \<Rightarrow> nat option \<Rightarrow> manager" where
  "alert_setup c cpu_metric memory_metric =
     setup_memory_alerts c memory_metric (setup_cpu_alerts c cpu_metric (registerCallback 0 AlertManager))"

fun severity_code :: "severity \<Rightarrow> int" where
  "severity_code INFO = 0"
| "severity_code WARNING = 1"
| "severity_code ERROR = 2"
| "severity_code CRITICAL = 3"

definition alert_callback :: "mstore \<Rightarrow> int \<Rightarrow> alert \<Rightarrow> db_call" where
  "alert_callback h now a = InsertAlert
     \<lparr>ar_name = al_name a, ar_description = getDescription h (al_condition a),
      ar_severity = severity_code (al_severity a), ar_timestamp = now, ar_acknowledged = False\<rparr>"

text \<open>The task: \<open>now\<close> is the wall clock in seconds, which every call of the callback reads.\<close>

definition check_task :: "(nat \<Rightarrow> int) \<Rightarrow> mstore \<Rightarrow> moment list \<Rightarrow> manager \<Rightarrow> db_call list \<Rightarrow> manager \<times> db_call list" where
  "check_task now h moments m db =
     (let (m', fired, calls) = checkAlerts moments m
      in (m', db @ map (\<lambda>k. alert_callback h (now k) (snd (calls ! k))) [0..<length calls]))"

section \<open>Lemmas\<close>

lemma dbl_of_small_u32: "unat w \<le> 2 ^ 53 \<Longrightarrow> dbl_of_u32 w = Fin (of_nat (unat w))"
  unfolding dbl_of_u32_def by (rule rnd_of_nat)

lemma dbl_of_u32_exact: "dbl_of_u32 w = Fin (of_nat (unat w))"
proof (rule dbl_of_small_u32)
  have "unat w < 2 ^ 32" using unsigned_less [of w] by simp
  then show "unat w \<le> 2 ^ 53" by simp
qed

text \<open>A 32-bit setting after a file: the file can only take it away.\<close>

definition file_keys :: "string \<Rightarrow> string set" where
  "file_keys body = fst ` set (List.map_filter parse_yaml_line (split_lines body))"

lemma cfg_u32_file:
  "cfg_u32 key dflt (parseYaml body c) = (if key \<in> file_keys body then dflt else cfg_u32 key dflt c)"
  by (simp add: cfg_u32_get cfg_get_file file_keys_def)

lemma default_thresholds:
  "cfg_u32 ''cpu_threshold_warning'' d ConfigManager = 80" "cfg_u32 ''cpu_threshold_critical'' d ConfigManager = 90"
  "cfg_u32 ''memory_threshold_warning'' d ConfigManager = 75" "cfg_u32 ''memory_threshold_critical'' d ConfigManager = 85"
  by (simp_all add: cfg_u32_get cfg_get_def ConfigManager_def setDefaultConfig_def default_settings_def)

lemma alerts_of_setup:
  "mgr_alerts (alert_setup c (Some p) (Some q)) =
    map (\<lambda>(n, r, w, sev). \<lparr>al_name = n, al_condition = MetricThresholdCondition (Some r) GREATER_THAN (dbl_of_u32 w),
          al_severity = sev\<rparr>)
      [(''High CPU Usage (Warning)'', p, cfg_u32 ''cpu_threshold_warning'' 75 c, WARNING),
       (''High CPU Usage (Critical)'', p, cfg_u32 ''cpu_threshold_critical'' 90 c, CRITICAL),
       (''High Memory Usage (Warning)'', q, cfg_u32 ''memory_threshold_warning'' 70 c, WARNING),
       (''High Memory Usage (Critical)'', q, cfg_u32 ''memory_threshold_critical'' 85 c, CRITICAL)]"
  by (simp add: alert_setup_def setup_cpu_alerts_def setup_memory_alerts_def threshold_alert_def
      createAlert_def registerCallback_def AlertManager_def)

lemma alert_setup_rest:
  "mgr_callbacks (alert_setup c (Some p) (Some q)) = [0]"
  "mgr_cooldown (alert_setup c (Some p) (Some q)) = CooldownPolicy (60 * 10 ^ 9)"
  by (simp_all add: alert_setup_def setup_cpu_alerts_def setup_memory_alerts_def threshold_alert_def
      createAlert_def registerCallback_def AlertManager_def)

text \<open>A check on a manager that has not fired yet, all alerts seeing the same metrics.\<close>

lemma first_check_calls:
  assumes "mgr_cooldown m = CooldownPolicy d" and "mgr_callbacks m = [cb]"
    and "distinct (map al_name (mgr_alerts m))" and "length moments = length (mgr_alerts m)"
    and "\<forall>x \<in> set moments. fst x = h"
  shows "snd (snd (checkAlerts moments m)) = map (\<lambda>a. (cb, a)) (filter (alert_check h) (mgr_alerts m))"
proof -
  let ?zs = "zip (mgr_alerts m) moments" and ?cd = "CooldownPolicy d"
  have "map (al_name \<circ> fst) ?zs = map al_name (mgr_alerts m)" using assms(4) by (simp flip: map_map)
  then have dist: "distinct (map (al_name \<circ> fst) ?zs)" using assms(3) by simp
  obtain cd f c where r: "check_loop [cb] ?zs ?cd = (cd, f, c)" by (metis prod_cases3)
  have "f = map firing (filter (fires ?cd) ?zs)"
    using check_loop_fired [OF _ dist, of ?cd "[cb]"] r by (simp add: CooldownPolicy_def)
  then have c: "c = map (\<lambda>p. (cb, fst p)) (map firing (filter (fires ?cd) ?zs))"
    using check_loop_calls [OF r] by (simp only: list.map concat_map_singleton)
  have "map fst (map firing (filter (fires ?cd) (zip as ms))) = filter (alert_check h) as"
    if "length ms = length as" "\<forall>x \<in> set ms. fst x = h" for as ms
    using that
  proof (induction as ms rule: list_induct2')
    case (4 a as x ms)
    then show ?case
      by (cases x) (auto simp: fires_def firing_def shouldSuppressAlert_def CooldownPolicy_def)
  qed auto
  note this [OF assms(4,5)]
  moreover have "c = map (Pair cb) (map fst (map firing (filter (fires ?cd) ?zs)))"
    unfolding c by (simp add: comp_def)
  ultimately have "c = map (Pair cb) (filter (alert_check h) (mgr_alerts m))" by (simp only:)
  then show ?thesis using r assms(1,2) by (simp add: checkAlerts_def)
qed

lemma check_task_calls:
  "checkAlerts moments m = (m', fired, map (Pair cb) as) \<Longrightarrow>
    snd (check_task now h moments m db) = db @ map (\<lambda>k. alert_callback h (now k) (as ! k)) [0..<length as]"
  by (auto simp: check_task_def)

lemma indexed_maps:
  assumes "map f xs = map g ys"
  shows "map (\<lambda>k. f (xs ! k) (now k)) [0..<length xs] = map (\<lambda>k. g (ys ! k) (now k)) [0..<length ys]"
proof (rule nth_equalityI)
  show "length (map (\<lambda>k. f (xs ! k) (now k)) [0..<length xs]) = length (map (\<lambda>k. g (ys ! k) (now k)) [0..<length ys])"
    using map_eq_imp_length_eq [OF assms] by simp
next
  fix i
  assume "i < length (map (\<lambda>k. f (xs ! k) (now k)) [0..<length xs])"
  then have "i < length xs" "i < length ys" using map_eq_imp_length_eq [OF assms] by simp_all
  then show "map (\<lambda>k. f (xs ! k) (now k)) [0..<length xs] ! i = map (\<lambda>k. g (ys ! k) (now k)) [0..<length ys] ! i"
    using arg_cong [OF assms, of "\<lambda>l. l ! i"] by simp
qed

text \<open>The first check, from metric values to the calls on the database.\<close>

lemma first_alert_records:
  assumes "length moments = 4" and "\<forall>x \<in> set moments. fst x = h"
    and "getCurrentValue (h ! p) = Fin x" and "getCurrentValue (h ! q) = Fin y"
  defines "due \<equiv> (if 80 < x then [(''High CPU Usage (Warning)'', p, 80, 1)] else []) @
    (if 90 < x then [(''High CPU Usage (Critical)'', p, 90, 3)] else []) @
    (if 75 < y then [(''High Memory Usage (Warning)'', q, 75, 1)] else []) @
    (if 85 < y then [(''High Memory Usage (Critical)'', q, 85, 3)] else [])"
  shows "snd (check_task now h moments (alert_setup ConfigManager (Some p) (Some q)) db) =
    db @ map (\<lambda>k. case due ! k of (n, r, t, sev) \<Rightarrow> InsertAlert \<lparr>ar_name = n,
        ar_description = m_name (h ! r) @ '' > '' @ dbl_to_string (Fin t), ar_severity = sev,
        ar_timestamp = now k, ar_acknowledged = False\<rparr>) [0..<length due]"
proof -
  let ?m = "alert_setup ConfigManager (Some p) (Some q)"
  have d: "distinct (map al_name (mgr_alerts ?m))" "length moments = length (mgr_alerts ?m)"
    using assms(1) by (simp_all add: alerts_of_setup)
  have "snd (snd (checkAlerts moments ?m)) = map (\<lambda>a. (0, a)) (filter (alert_check h) (mgr_alerts ?m))"
    by (rule first_check_calls [OF alert_setup_rest(2,1) d assms(2)])
  then obtain m' fired where c: "checkAlerts moments ?m =
      (m', fired, map (\<lambda>a. (0, a)) (filter (alert_check h) (mgr_alerts ?m)))"
    by (metis prod.collapse)
  let ?rec = "\<lambda>(n, r, t, sev) u. InsertAlert \<lparr>ar_name = n, ar_description = m_name (h ! r) @ '' > '' @ dbl_to_string (Fin t),
      ar_severity = sev, ar_timestamp = u, ar_acknowledged = False\<rparr>"
  have "map (\<lambda>a u. alert_callback h u a) (filter (alert_check h) (mgr_alerts ?m)) = map ?rec due"
    using assms(3,4)
    by (simp add: alerts_of_setup default_thresholds dbl_of_u32_exact alert_check_def evaluate_def
        MetricThresholdCondition_def getDescription_def due_def alert_callback_def)
  from indexed_maps [OF this, of now] show ?thesis
    unfolding check_task_calls [OF c] by (simp only: case_prod_beta)
qed

section \<open>Properties\<close>

text \<open>
  Thresholds in a configuration file have no effect but to replace the defaults: whatever
  value the file gives for a threshold, the alert is built with the literal of the call, 75
  and 70 for the warnings, and without it with the manager's default, 80 and 75; the critical
  thresholds are 90 and 85 in either case.
\<close>

theorem file_thresholds_ignored:
  "map (\<lambda>a. (al_name a, cond_metric (al_condition a), cond_threshold (al_condition a)))
      (mgr_alerts (alert_setup (parseYaml body ConfigManager) (Some p) (Some q))) =
    [(''High CPU Usage (Warning)'', Some p, Fin (if ''cpu_threshold_warning'' \<in> file_keys body then 75 else 80)),
     (''High CPU Usage (Critical)'', Some p, Fin 90),
     (''High Memory Usage (Warning)'', Some q, Fin (if ''memory_threshold_warning'' \<in> file_keys body then 70 else 75)),
     (''High Memory Usage (Critical)'', Some q, Fin 85)]"
  by (simp add: alerts_of_setup cfg_u32_file default_thresholds dbl_of_u32_exact MetricThresholdCondition_def)

text \<open>
  From metric values to the database: the first check of the alerts of the default settings
  inserts one record for each threshold that the current value of its metric exceeds, in the
  order of creation, with the severity of the alert, its description and the time.
\<close>

theorem default_alert_records:
  assumes "length moments = 4" and "\<forall>x \<in> set moments. fst x = h"
    and "getCurrentValue (h ! p) = Fin x" and "getCurrentValue (h ! q) = Fin y"
  defines "due \<equiv> (if 80 < x then [(''High CPU Usage (Warning)'', p, 80, 1)] else []) @
    (if 90 < x then [(''High CPU Usage (Critical)'', p, 90, 3)] else []) @
    (if 75 < y then [(''High Memory Usage (Warning)'', q, 75, 1)] else []) @
    (if 85 < y then [(''High Memory Usage (Critical)'', q, 85, 3)] else [])"
  shows "snd (check_task now h moments (alert_setup ConfigManager (Some p) (Some q)) db) =
    db @ map (\<lambda>k. case due ! k of (n, r, t, sev) \<Rightarrow> InsertAlert \<lparr>ar_name = n,
        ar_description = m_name (h ! r) @ '' > '' @ dbl_to_string (Fin t), ar_severity = sev,
        ar_timestamp = now k, ar_acknowledged = False\<rparr>) [0..<length due]"
  unfolding due_def by (rule first_alert_records [OF assms(1-4)])

theorem default_alert_records_witness:
  "snd (check_task (\<lambda>k. 7) [(GaugeMetric ''cpu.usage'' 0)\<lparr>current_value := Fin 85\<rparr>, GaugeMetric ''memory.usage_percent'' 0]
      (replicate 4 ([(GaugeMetric ''cpu.usage'' 0)\<lparr>current_value := Fin 85\<rparr>, GaugeMetric ''memory.usage_percent'' 0], 5, 6))
      (alert_setup ConfigManager (Some 0) (Some 1)) []) =
    [InsertAlert \<lparr>ar_name = ''High CPU Usage (Warning)'', ar_description = ''cpu.usage > '' @ dbl_to_string (Fin 80),
       ar_severity = 1, ar_timestamp = 7, ar_acknowledged = False\<rparr>]"
proof -
  let ?h = "[(GaugeMetric ''cpu.usage'' 0)\<lparr>current_value := Fin 85\<rparr>, GaugeMetric ''memory.usage_percent'' 0]"
  have v: "getCurrentValue (?h ! 0) = Fin 85" "getCurrentValue (?h ! 1) = Fin 0"
    by (simp_all add: getCurrentValue_def counter_getCurrentValue_def gauge_getCurrentValue_def
        GaugeMetric_def new_metric_def)
  have n: "m_name (?h ! 0) = ''cpu.usage''" by (simp add: GaugeMetric_def new_metric_def)
  have l: "length (replicate 4 (?h, 5, 6)) = 4" "\<forall>x \<in> set (replicate 4 (?h, 5, 6)). fst x = ?h" by simp_all
  show ?thesis
    using default_alert_records [OF l v, of "\<lambda>k. 7" "[]"] n by simp
qed

end
