(* ===== verification/Packet.thy ===== *)
theory Packet
  imports Cpp_String
begin

text \<open>
  The data that flows from capture to analysis: \<^verbatim>\<open>PacketInfo\<close>
  (\<^verbatim>\<open>src/network/packet_capture.hpp\<close>), the protocol data and the parser classes of
  \<^verbatim>\<open>src/network/protocol_handlers/protocol_parser.hpp\<close>, and the reads of a byte vector.
\<close>

section \<open>Packets\<close>

record packet_info =
  pk_data :: "u8 list"
  pk_size :: u64
  pk_source_ip :: string
  pk_dest_ip :: string
  pk_source_port :: u16
  pk_dest_port :: u16
  pk_protocol :: u8
  pk_timestamp :: u64

abbreviation IPPROTO_TCP :: u8 where "IPPROTO_TCP \<equiv> 6"
abbreviation IPPROTO_UDP :: u8 where "IPPROTO_UDP \<equiv> 17"

section \<open>Protocol data\<close>

datatype protocol_type = UNKNOWN | TCP | UDP | ICMP | HTTP | DNS | TLS | SMTP

record http_data =
  http_type :: protocol_type
  http_method :: string
  http_uri :: string
  http_version :: string
  http_headers :: "string \<rightharpoonup> string"
  http_is_request :: bool
  http_status_code :: int

record dns_data =
  dns_type :: protocol_type
  dns_transaction_id :: u16
  dns_is_query :: bool
  dns_questions :: "string list"
  dns_answers :: "string list"

record tls_data =
  tls_type :: protocol_type
  tls_content_type :: u8
  tls_version :: u16
  tls_is_handshake :: bool
  tls_is_client_hello :: bool
  tls_is_server_hello :: bool
  tls_server_name :: "string option"

text \<open>What the default member initialisers give.\<close>

definition new_http_data :: http_data where
  "new_http_data = \<lparr>http_type = UNKNOWN, http_method = [], http_uri = [], http_version = [],
     http_headers = Map.empty, http_is_request = True, http_status_code = 0\<rparr>"

definition new_dns_data :: dns_data where
  "new_dns_data = \<lparr>dns_type = UNKNOWN, dns_transaction_id = 0, dns_is_query = True,
     dns_questions = [], dns_answers = []\<rparr>"

definition new_tls_data :: tls_data where
  "new_tls_data = \<lparr>tls_type = UNKNOWN, tls_content_type = 0, tls_version = 0,
     tls_is_handshake = False, tls_is_client_hello = False, tls_is_server_hello = False,
     tls_server_name = None\<rparr>"

text \<open>The subclasses of \<^verbatim>\<open>ProtocolData\<close>, and the base-class field \<open>type\<close> of each.\<close>

datatype protocol_data = HttpData http_data | DnsData dns_data | TlsData tls_data

fun pd_type :: "protocol_data \<Rightarrow> protocol_type" where
  "pd_type (HttpData d) = http_type d"
| "pd_type (DnsData d) = dns_type d"
| "pd_type (TlsData d) = tls_type d"

section \<open>Reading a vector of bytes\<close>

text \<open>
  \<^verbatim>\<open>data[i]\<close> of a \<^verbatim>\<open>std::vector\<close> is not checked: a read past the end is undefined
  behaviour. \<open>None\<close> is that outcome, and it is never caught.
\<close>

definition rd8 :: "u8 list \<Rightarrow> nat \<Rightarrow> u8 option" where
  "rd8 data i = (if i < length data then Some (data ! i) else None)"

text \<open>\<^verbatim>\<open>(data[i] << 8) | data[i + 1]\<close>, stored in a \<open>uint16_t\<close>\<close>

definition be16 :: "u8 \<Rightarrow> u8 \<Rightarrow> u16" where
  "be16 hi lo = push_bit 8 (ucast hi) OR ucast lo"

definition rd16 :: "u8 list \<Rightarrow> nat \<Rightarrow> u16 option" where
  "rd16 data i = (if i + 1 < length data then Some (be16 (data ! i) (data ! (i + 1))) else None)"

text \<open>\<^verbatim>\<open>std::string(data.begin() + i, data.begin() + i + n)\<close>\<close>

definition rd_str :: "u8 list \<Rightarrow> nat \<Rightarrow> nat \<Rightarrow> string option" where
  "rd_str data i n =
     (if i + n \<le> length data then Some (str_of_bytes (take n (drop i data))) else None)"

text \<open>Network byte order of a 16-bit value.\<close>

definition bytes16 :: "u16 \<Rightarrow> u8 list" where
  "bytes16 w = [ucast (drop_bit 8 w), ucast w]"

lemma length_bytes16 [simp]: "length (bytes16 w) = 2"
  by (simp add: bytes16_def)

lemma be16_bytes16 [simp]: "be16 (ucast (drop_bit 8 w)) (ucast w) = w"
  unfolding be16_def
  by (rule bit_eqI) (auto simp: bit_simps)

lemma unat_ucast_8_16 [simp]: "unat (ucast (b :: u8) :: u16) = unat b"
  using unsigned_less [of b, where 'a = nat]
  by (simp add: unsigned_ucast_eq take_bit_nat_eq_self)

lemma unat_push_8 [simp]: "unat (push_bit 8 (ucast (b :: u8) :: u16)) = 256 * unat b"
  using unsigned_less [of b, where 'a = nat]
  by (subst unsigned_push_bit_eq) (simp add: push_bit_eq_mult take_bit_nat_eq_self)

lemma unat_be16: "unat (be16 hi lo) = 256 * unat hi + unat lo"
proof -
  have "push_bit 8 (ucast hi :: u16) AND ucast lo = 0"
    by (rule bit_eqI) (auto simp: bit_simps dest: bit_imp_le_length)
  then have "be16 hi lo = push_bit 8 (ucast hi) + ucast lo"
    unfolding be16_def by (simp add: disjunctive_add_eq_or)
  then have "unat (be16 hi lo)
      = (unat (push_bit 8 (ucast hi :: u16)) + unat (ucast lo :: u16)) mod 2 ^ 16"
    by (simp add: unat_word_ariths)
  then show ?thesis
    using unsigned_less [of hi, where 'a = nat] unsigned_less [of lo, where 'a = nat] by simp
qed

lemma rd8_append [simp]: "rd8 (xs @ ys) (length xs) = rd8 ys 0"
  by (simp add: rd8_def nth_append)

lemma rd16_at: "rd16 (xs @ bytes16 w @ ys) (length xs) = Some w"
  by (simp add: rd16_def nth_append bytes16_def)

lemma be16_at:
  "n = length xs \<Longrightarrow> be16 ((xs @ bytes16 w @ ys) ! n) ((xs @ bytes16 w @ ys) ! (n + 1)) = w"
  by (simp add: nth_append bytes16_def)

lemma rd8_at: "rd8 (xs @ b # ys) (length xs) = Some b"
  by (simp add: rd8_def)

lemma rd_str_at: "rd_str (xs @ bs @ ys) (length xs) (length bs) = Some (str_of_bytes bs)"
  by (simp add: rd_str_def)

section \<open>Printing an IPv4 address\<close>

text \<open>\<open>inet_ntoa\<close> and \<open>inet_ntop (AF_INET, \<dots>)\<close>: four decimal numbers and dots.\<close>

definition ipv4_str :: "u8 \<Rightarrow> u8 \<Rightarrow> u8 \<Rightarrow> u8 \<Rightarrow> string" where
  "ipv4_str a b c d = nat_str (unat a) @ ''.'' @ nat_str (unat b) @ ''.'' @ nat_str (unat c)
     @ ''.'' @ nat_str (unat d)"

end
