(* ===== verification/Circular_Buffer.thy ===== *)
theory Circular_Buffer
  imports Queue_Interface
begin

text \<open>
  \<^verbatim>\<open>src/core/data/circular_buffer.hpp\<close>: the bounded ring of \<open>Capacity\<close> slots. The template
  argument is the parameter \<open>Capacity\<close> of every operation, the default-constructed and the
  moved-from value of the element type are the parameters \<open>d\<close> and \<open>mv\<close>. Every
  operation runs under the object's mutex, so it is one atomic step.
\<close>

section \<open>State and operations\<close>

record 'a circular_buffer =
  cb_buf :: "'a list"
  cb_head :: nat
  cb_tail :: nat
  cb_count :: nat

definition cb_init :: "nat \<Rightarrow> 'a \<Rightarrow> 'a circular_buffer" where
  "cb_init Capacity d = \<lparr>cb_buf = replicate Capacity d, cb_head = 0, cb_tail = 0, cb_count = 0\<rparr>"

definition cb_push :: "nat \<Rightarrow> 'a \<Rightarrow> 'a circular_buffer \<Rightarrow> bool \<times> 'a circular_buffer" where
  "cb_push Capacity item b =
     (if cb_count b = Capacity then (False, b)
      else (True, b\<lparr>cb_buf := (cb_buf b)[cb_tail b := item],
                     cb_tail := size_add (cb_tail b) 1 mod Capacity,
                     cb_count := size_add (cb_count b) 1\<rparr>))"

text \<open>
  The overload for rvalues also returns the caller's object: moved from when the item was
  stored, untouched when the ring was full.
\<close>

definition cb_push_move ::
    "('a \<Rightarrow> 'a) \<Rightarrow> nat \<Rightarrow> 'a \<Rightarrow> 'a circular_buffer \<Rightarrow> bool \<times> 'a \<times> 'a circular_buffer" where
  "cb_push_move mv Capacity item b =
     (if cb_count b = Capacity then (False, item, b)
      else (True, mv item, b\<lparr>cb_buf := (cb_buf b)[cb_tail b := item],
                              cb_tail := size_add (cb_tail b) 1 mod Capacity,
                              cb_count := size_add (cb_count b) 1\<rparr>))"

definition cb_pop ::
    "('a \<Rightarrow> 'a) \<Rightarrow> nat \<Rightarrow> 'a circular_buffer \<Rightarrow> 'a option \<times> 'a circular_buffer" where
  "cb_pop mv Capacity b =
     (if cb_count b = 0 then (None, b)
      else let item = cb_buf b ! cb_head b
           in (Some item, b\<lparr>cb_buf := (cb_buf b)[cb_head b := mv item],
                            cb_head := size_add (cb_head b) 1 mod Capacity,
                            cb_count := cb_count b - 1\<rparr>))"

text \<open>
  \<open>peek\<close> returns a reference into the ring: the index of the slot. What the caller reads
  through it (\<open>cb_deref\<close>) is whatever the slot holds at that later moment, because the
  mutex is released when \<open>peek\<close> returns.
\<close>

definition cb_peek :: "'a circular_buffer \<Rightarrow> nat option" where
  "cb_peek b = (if cb_count b = 0 then None else Some (cb_head b))"

definition cb_deref :: "'a circular_buffer \<Rightarrow> nat \<Rightarrow> 'a" where
  "cb_deref b i = cb_buf b ! i"

definition cb_size :: "'a circular_buffer \<Rightarrow> nat" where
  "cb_size b = cb_count b"

definition cb_empty :: "'a circular_buffer \<Rightarrow> bool" where
  "cb_empty b \<longleftrightarrow> cb_size b = 0"

definition cb_full :: "nat \<Rightarrow> 'a circular_buffer \<Rightarrow> bool" where
  "cb_full Capacity b \<longleftrightarrow> cb_size b = Capacity"

section \<open>Invariant and abstraction\<close>

text \<open>\<open>Capacity\<close> is a \<open>size_t\<close> template argument, hence below \<open>2 ^ 64\<close>.\<close>

definition cb_inv :: "nat \<Rightarrow> 'a circular_buffer \<Rightarrow> bool" where
  "cb_inv Capacity b \<longleftrightarrow>
     Capacity < 2 ^ 64 \<and> length (cb_buf b) = Capacity \<and> cb_count b \<le> Capacity \<and>
     (if Capacity = 0 then cb_head b = 0 \<and> cb_tail b = 0
      else cb_head b < Capacity \<and> cb_tail b = (cb_head b + cb_count b) mod Capacity)"

definition cb_contents :: "nat \<Rightarrow> 'a circular_buffer \<Rightarrow> 'a list" where
  "cb_contents Capacity b = map (\<lambda>i. cb_buf b ! ((cb_head b + i) mod Capacity)) [0..<cb_count b]"

lemma length_cb_contents [simp]: "length (cb_contents Capacity b) = cb_count b"
  by (simp add: cb_contents_def)

lemma cb_inv_init: "Capacity < 2 ^ 64 \<Longrightarrow> cb_inv Capacity (cb_init Capacity d)"
  by (simp add: cb_inv_def cb_init_def)

lemma cb_contents_init: "cb_contents Capacity (cb_init Capacity d) = []"
  by (simp add: cb_contents_def cb_init_def)

text \<open>Two slots at different distances from the head, both below the capacity, differ.\<close>

lemma ring_index_inj:
  assumes "i < n" and "j < n" and "(h + i) mod n = (h + j) mod (n::nat)"
  shows "i = j"
  using assms
proof (induction i j rule: linorder_wlog)
  case (le i j)
  then have "n dvd (h + j) - (h + i)" by (metis mod_eq_dvd_iff_nat add_le_cancel_left)
  then have "n dvd j - i" by simp
  with le show ?case by (metis dvd_imp_le le_antisym less_imp_diff_less not_le zero_less_diff)
next
  case (sym i j)
  then show ?case by simp
qed

text \<open>The fields of a nonempty ring, with the wrap-around of \<open>size_t\<close> gone.\<close>

lemma cb_invD:
  assumes "cb_inv Capacity b" and "0 < Capacity"
  shows "cb_head b < Capacity" and "cb_tail b = (cb_head b + cb_count b) mod Capacity"
    and "length (cb_buf b) = Capacity" and "cb_count b \<le> Capacity"
    and "size_add (cb_head b) 1 = Suc (cb_head b)"
    and "size_add (cb_tail b) 1 mod Capacity = (cb_head b + Suc (cb_count b)) mod Capacity"
    and "cb_count b \<noteq> Capacity \<Longrightarrow> size_add (cb_count b) 1 = Suc (cb_count b)"
proof -
  have h: "cb_head b < Capacity" and t: "cb_tail b = (cb_head b + cb_count b) mod Capacity"
    and cap: "Capacity < 2 ^ 64"
    using assms by (auto simp: cb_inv_def)
  have "cb_tail b < Capacity" using t assms(2) by simp
  then have "size_add (cb_tail b) 1 mod Capacity = Suc (cb_tail b) mod Capacity"
    using cap size_add_Suc by presburger
  also have "\<dots> = (cb_head b + Suc (cb_count b)) mod Capacity"
    unfolding t by (simp add: mod_Suc_eq)
  finally show "size_add (cb_tail b) 1 mod Capacity = (cb_head b + Suc (cb_count b)) mod Capacity" .
  show "size_add (cb_head b) 1 = Suc (cb_head b)" using h cap by (rule size_add_Suc)
qed (use assms in \<open>auto simp: cb_inv_def\<close>)

lemma cb_nonempty_pos: "cb_inv Capacity b \<Longrightarrow> cb_count b \<noteq> 0 \<Longrightarrow> 0 < Capacity"
  by (auto simp: cb_inv_def)

lemma cb_push_inv [fifo_intros]:
  assumes "cb_inv Capacity b"
  shows "cb_inv Capacity (snd (cb_push Capacity x b))"
proof (cases "cb_count b = Capacity")
  case False
  then have pos: "0 < Capacity" using assms by (auto simp: cb_inv_def)
  show ?thesis
    using False cb_invD [OF assms pos] assms pos unfolding cb_push_def cb_inv_def by simp
qed (use assms in \<open>simp add: cb_push_def\<close>)

lemma cb_pop_inv [fifo_intros]:
  assumes "cb_inv Capacity b"
  shows "cb_inv Capacity (snd (cb_pop mv Capacity b))"
proof (cases "cb_count b = 0")
  case False
  then have pos: "0 < Capacity" using assms by (auto simp: cb_inv_def)
  have "(Suc (cb_head b) mod Capacity + (cb_count b - 1)) mod Capacity
      = (cb_head b + cb_count b) mod Capacity"
    by (subst mod_add_left_eq) (use False in simp)
  then show ?thesis
    using False cb_invD [OF assms pos] assms pos unfolding cb_pop_def cb_inv_def Let_def by auto
qed (use assms in \<open>simp add: cb_pop_def\<close>)

lemma cb_push_contents:
  assumes "cb_inv Capacity b" and "cb_count b \<noteq> Capacity"
  shows "cb_contents Capacity (snd (cb_push Capacity x b)) = cb_contents Capacity b @ [x]"
proof -
  have lt: "cb_count b < Capacity" using assms by (auto simp: cb_inv_def)
  then have pos: "0 < Capacity" by simp
  note t = cb_invD [OF assms(1) pos]
  have "(cb_buf b)[cb_tail b := x] ! ((cb_head b + i) mod Capacity)
      = cb_buf b ! ((cb_head b + i) mod Capacity)" if "i < cb_count b" for i
    using ring_index_inj [of i Capacity "cb_count b" "cb_head b"] that lt t(2)
    by (metis nth_list_update_neq less_trans nat_neq_iff)
  then show ?thesis
    using assms(2) t pos by (simp add: cb_contents_def cb_push_def)
qed

lemma cb_pop_contents:
  assumes "cb_inv Capacity b" and "cb_count b \<noteq> 0"
  shows "cb_contents Capacity b
    = the (fst (cb_pop mv Capacity b)) # cb_contents Capacity (snd (cb_pop mv Capacity b))"
proof -
  have pos: "0 < Capacity" by (rule cb_nonempty_pos [OF assms])
  note t = cb_invD [OF assms(1) pos]
  have ne: "cb_head b \<noteq> (cb_head b + Suc i) mod Capacity" if "Suc i < cb_count b" for i
    using ring_index_inj [of 0 Capacity "Suc i" "cb_head b"] that t(1,4) pos by auto
  have idx: "((cb_head b + 1) mod Capacity + i) mod Capacity = (cb_head b + Suc i) mod Capacity" for i
    by (simp add: mod_simps)
  have "[0..<cb_count b] = 0 # map Suc [0..<cb_count b - 1]"
    using assms(2) by (cases "cb_count b") (auto simp: upt_conv_Cons map_Suc_upt simp del: upt_Suc)
  then have "cb_contents Capacity b = cb_buf b ! cb_head b
      # map (\<lambda>i. cb_buf b ! ((cb_head b + Suc i) mod Capacity)) [0..<cb_count b - 1]"
    using t(1) by (simp add: cb_contents_def comp_def)
  moreover have "cb_contents Capacity (snd (cb_pop mv Capacity b))
      = map (\<lambda>i. cb_buf b ! ((cb_head b + Suc i) mod Capacity)) [0..<cb_count b - 1]"
    using assms(2) t ne idx
    by (auto simp: cb_contents_def cb_pop_def Let_def nth_list_update)
  ultimately show ?thesis using assms(2) by (simp add: cb_pop_def Let_def)
qed

section \<open>The ring implements the bounded queue contract\<close>

interpretation ring: bounded_fifo "cb_push Capacity" "cb_pop mv Capacity"
    "cb_contents Capacity" "cb_inv Capacity" Capacity
  for Capacity :: nat and mv :: "'a \<Rightarrow> 'a"
proof (unfold_locales, goal_cases)
  case (1 q x)
  then show ?case by (rule cb_push_inv)
next
  case (2 q x)
  then show ?case using cb_push_contents [of Capacity q x] by (auto simp: cb_push_def split: if_splits)
next
  case (3 q x)
  then show ?case by (auto simp: cb_push_def split: if_splits)
next
  case (4 q)
  then show ?case by (rule cb_pop_inv)
next
  case (5 q)
  then show ?case by (auto simp: cb_contents_def cb_pop_def)
next
  case (6 q x xs)
  then have "cb_count q \<noteq> 0" by (metis length_cb_contents length_0_conv list.distinct(1))
  then show ?case using cb_pop_contents [OF 6(1), of mv] 6(2) by (auto simp: cb_pop_def Let_def)
next
  case (7 q x)
  then show ?case by (auto simp: cb_push_def cb_inv_def split: if_splits)
next
  case (8 q)
  then show ?case by (simp add: cb_inv_def)
qed

lemma replicate_2 [simp]: "replicate 2 x = [x, x]"
  by (simp add: numeral_2_eq_2)

lemmas cb_eval = cb_init_def cb_push_def cb_pop_def Let_def

section \<open>Properties\<close>

text \<open>
  C21: The circular buffer is a linearizable FIFO queue. For every capacity and every
  interleaving of pushes and pops of any threads, starting from the constructor: the ring
  invariant holds at the end, and the sequence of popped items followed by what the ring
  still holds is exactly the sequence of accepted items, in order. Nothing is lost,
  duplicated or reordered, across any number of wrap-arounds of the indices.
\<close>

theorem circular_buffer_fifo:
  assumes "Capacity < 2 ^ 64"
    and "queue_run (cb_push Capacity) (cb_pop mv Capacity) ops (cb_init Capacity d) = (acc, out, b)"
  shows "cb_inv Capacity b \<and> out @ cb_contents Capacity b = acc
    \<and> cb_size b = length acc - length out \<and> length out \<le> length acc"
proof -
  note run = ring.run_conserves [OF cb_inv_init [OF assms(1)] assms(2)]
  have eq: "out @ cb_contents Capacity b = acc" using run by (simp add: cb_contents_init)
  then have "length out + cb_size b = length acc"
    by (metis length_append length_cb_contents cb_size_def)
  then show ?thesis using run eq by simp
qed

theorem circular_buffer_fifo_witness:
  "cb_inv 2 \<lparr>cb_buf = [4, 0 :: nat], cb_head = 0, cb_tail = 1, cb_count = 1\<rparr>
   \<and> [1, 2] @ cb_contents 2 \<lparr>cb_buf = [4, 0], cb_head = 0, cb_tail = 1, cb_count = 1\<rparr> = [1, 2, 4 :: nat]"
proof -
  have r: "queue_run (cb_push 2) (cb_pop (\<lambda>_. 0) 2)
       [PushOp 1, PushOp 2, PushOp 3, PopOp, PushOp 4, PopOp] (cb_init 2 (0::nat))
     = ([1, 2, 4], [1, 2], \<lparr>cb_buf = [4, 0], cb_head = 0, cb_tail = 1, cb_count = 1\<rparr>)"
    by (simp add: cb_eval)
  show ?thesis using circular_buffer_fifo [OF _ r] by simp
qed

lemma cb_push_keeps_front:
  assumes "cb_inv Capacity b" and "cb_count b \<noteq> 0"
  shows "cb_head (snd (cb_push Capacity x b)) = cb_head b"
    and "cb_buf (snd (cb_push Capacity x b)) ! cb_head b = cb_buf b ! cb_head b"
    and "cb_count (snd (cb_push Capacity x b)) \<noteq> 0"
proof -
  note t = cb_invD [OF assms(1) cb_nonempty_pos [OF assms]]
  have "cb_tail b \<noteq> cb_head b" if "cb_count b \<noteq> Capacity"
    using ring_index_inj [of 0 Capacity "cb_count b" "cb_head b"] that t(1,2,4) assms(2) by auto
  then show "cb_buf (snd (cb_push Capacity x b)) ! cb_head b = cb_buf b ! cb_head b"
    by (simp add: cb_push_def)
qed (use assms cb_invD(7) [OF assms(1) cb_nonempty_pos [OF assms]] in \<open>auto simp: cb_push_def\<close>)

lemma push_all_keeps_front:
  assumes "cb_inv Capacity b" and "cb_count b \<noteq> 0"
  shows "cb_buf (push_all (cb_push Capacity) xs b) ! cb_head b = cb_buf b ! cb_head b"
  using assms
proof (induction xs arbitrary: b)
  case (Cons x xs)
  show ?case
    using Cons.IH [OF cb_push_inv [OF Cons.prems(1)] cb_push_keeps_front(3) [OF Cons.prems]]
      cb_push_keeps_front(1,2) [OF Cons.prems] by simp
qed simp

text \<open>
  What a reference returned by \<open>peek\<close> means. At the moment of the call it reads the
  item the next \<open>pop\<close> returns, and no later push changes what it reads, however many items
  are pushed. But the slot is emptied by \<open>pop\<close>: from then on the reference reads the
  moved-from object. It is usable only while the caller is the only consumer, because the
  mutex is released before the reference is used.
\<close>

theorem circular_buffer_peek_reference:
  assumes "cb_inv Capacity b" and "cb_peek b = Some r"
  shows "fst (cb_pop mv Capacity b) = Some (cb_deref b r)
    \<and> cb_deref (push_all (cb_push Capacity) xs b) r = cb_deref b r
    \<and> cb_deref (snd (cb_pop mv Capacity b)) r = mv (cb_deref b r)"
proof -
  have ne: "cb_count b \<noteq> 0" and r: "r = cb_head b"
    using assms(2) by (auto simp: cb_peek_def split: if_splits)
  note t = cb_invD [OF assms(1) cb_nonempty_pos [OF assms(1) ne]]
  show ?thesis
    using push_all_keeps_front [OF assms(1) ne, of xs] t(1,3) ne
    by (simp add: cb_deref_def cb_pop_def Let_def r)
qed

theorem circular_buffer_peek_reference_witness:
  "let b = snd (cb_push 2 (7::nat) (cb_init 2 0))
   in cb_peek b = Some 0 \<and> fst (cb_pop (\<lambda>_. 0) 2 b) = Some 7
      \<and> cb_deref (push_all (cb_push 2) [8, 9] b) 0 = 7
      \<and> cb_deref (snd (cb_pop (\<lambda>_. 0) 2 b)) 0 = 0"
proof -
  let ?b = "snd (cb_push 2 (7::nat) (cb_init 2 0))"
  have i: "cb_inv 2 ?b" by (intro cb_push_inv cb_inv_init) simp
  have p: "cb_peek ?b = Some 0" and v: "cb_deref ?b 0 = 7"
    by (simp_all add: cb_eval cb_peek_def cb_deref_def)
  show ?thesis
    using circular_buffer_peek_reference [OF i p, of "\<lambda>_. 0" "[8, 9]"] p v by (simp add: Let_def)
qed

end
