(* ===== verification/Packet_Capture.thy ===== *)
theory Packet_Capture
  imports Packet Circular_Buffer "HOL-Library.Monad_Syntax"
begin

text \<open>
  \<^verbatim>\<open>src/network/packet_capture.cpp\<close>: decoding a captured Ethernet frame into a
  \<^verbatim>\<open>PacketInfo\<close>, and the capture object with its thread, counters, handlers and ring. libpcap
  is not part of the repository: what it returns (an open handle or an error text, the
  result code, the header and the bytes of a frame) are arguments.
\<close>

section \<open>Decoding a frame\<close>

text \<open>
  \<^verbatim>\<open>PacketInfo packet;\<close> default-initialises its members: the vector and the strings are
  empty, the integers are indeterminate. \<open>junk\<close> is what they happen to hold.
\<close>

definition fresh_packet :: "packet_info \<Rightarrow> packet_info" where
  "fresh_packet junk = junk\<lparr>pk_data := [], pk_source_ip := [], pk_dest_ip := []\<rparr>"

definition rd_ipv4 :: "u8 list \<Rightarrow> nat \<Rightarrow> string option" where
  "rd_ipv4 data i = do {
     a \<leftarrow> rd8 data i; b \<leftarrow> rd8 data (i + 1); c \<leftarrow> rd8 data (i + 2); d \<leftarrow> rd8 data (i + 3);
     Some (ipv4_str a b c d) }"

definition ip_header_len :: "u8 \<Rightarrow> nat" where
  "ip_header_len b = unat (b AND 0x0F) * 4"

text \<open>\<^verbatim>\<open>Impl::parsePacket\<close>; \<open>None\<close> is a read past the \<open>caplen\<close> bytes of the frame.\<close>

definition parsePacket :: "packet_info \<Rightarrow> u8 list \<Rightarrow> packet_info option" where
  "parsePacket packet packet_data =
     (let len = length packet_data in
      if len < 14 then Some packet
      else do {
        b0 \<leftarrow> rd8 packet_data 14;
        let ihl = ip_header_len b0;
        if len < 14 + ihl then Some packet
        else do {
          protocol \<leftarrow> rd8 packet_data (14 + 9);
          src \<leftarrow> rd_ipv4 packet_data (14 + 12);
          dst \<leftarrow> rd_ipv4 packet_data (14 + 16);
          let packet = packet\<lparr>pk_protocol := protocol, pk_source_ip := src, pk_dest_ip := dst\<rparr>;
          let transport = 14 + ihl;
          if (protocol = IPPROTO_TCP \<and> len \<ge> 14 + ihl + 20) \<or> (protocol = IPPROTO_UDP \<and> len \<ge> 14 + ihl + 8)
          then do {
            sport \<leftarrow> rd16 packet_data transport;
            dport \<leftarrow> rd16 packet_data (transport + 2);
            Some (packet\<lparr>pk_source_port := sport, pk_dest_port := dport\<rparr>) }
          else Some (packet\<lparr>pk_source_port := 0, pk_dest_port := 0\<rparr>) } })"

record pcap_frame =
  ts_sec :: u64
  ts_usec :: u64
  frame_len :: u32
  frame_bytes :: "u8 list"

text \<open>
  \<^verbatim>\<open>Impl::capturePacket\<close>: \<open>res\<close> and \<open>fr\<close> are what \<^verbatim>\<open>pcap_next_ex\<close> returns; the frame's
  \<open>caplen\<close> is the number of its bytes.
\<close>

definition capturePacket :: "packet_info \<Rightarrow> int \<Rightarrow> pcap_frame \<Rightarrow> packet_info option" where
  "capturePacket junk res fr =
     (let packet = fresh_packet junk in
      if res \<le> 0 then Some packet
      else parsePacket (packet\<lparr>pk_timestamp := ts_sec fr * 1000000 + ts_usec fr,
                               pk_size := ucast (frame_len fr),
                               pk_data := frame_bytes fr\<rparr>) (frame_bytes fr))"

section \<open>The capture object\<close>

datatype capture_error = NONE | PERMISSION_DENIED | INTERFACE_NOT_FOUND | ALREADY_RUNNING | SYSTEM_ERROR

text \<open>How a step can end the program: a thrown-away joinable thread, a null pointer.\<close>

datatype crash = StdTerminate | NullPointer | OutOfBounds

type_synonym 'w packet_handler = "packet_info \<Rightarrow> 'w \<Rightarrow> 'w"

text \<open>
  The pimpl holds the pcap handle (\<open>None\<close> is the null handle); the pimpl itself is null
  after it has been moved from. \<open>capture_thread\<close> says whether the thread is joinable.
  A handler acts on the rest of the program, the world \<open>'w\<close>.
\<close>

record ('h, 'w) capture =
  pimpl :: "'h option option"
  is_capturing :: bool
  packets_captured :: u64
  bytes_captured :: u64
  capture_thread :: bool
  packet_buffer :: "packet_info circular_buffer"
  handlers :: "'w packet_handler list"

definition capture_init :: "packet_info \<Rightarrow> ('h, 'w) capture" where
  "capture_init d = \<lparr>pimpl = Some None, is_capturing = False, packets_captured = 0,
     bytes_captured = 0, capture_thread = False, packet_buffer = cb_init 1024 d, handlers = []\<rparr>"

text \<open>\<^verbatim>\<open>Impl::openInterface\<close>: the error text is searched in this order.\<close>

definition openInterface :: "string + 'h \<Rightarrow> capture_error \<times> 'h option" where
  "openInterface opened =
     (case opened of
        Inl errbuf \<Rightarrow>
          (if find_sub ''permission'' errbuf \<noteq> None then PERMISSION_DENIED
           else if find_sub ''exist'' errbuf \<noteq> None \<or> find_sub ''found'' errbuf \<noteq> None
                then INTERFACE_NOT_FOUND
           else SYSTEM_ERROR, None)
      | Inr h \<Rightarrow> (NONE, Some h))"

definition startCapture ::
    "string + 'h \<Rightarrow> ('h, 'w) capture \<Rightarrow> crash + capture_error \<times> ('h, 'w) capture" where
  "startCapture opened c =
     (if is_capturing c then Inr (ALREADY_RUNNING, c)
      else case pimpl c of
        None \<Rightarrow> Inl NullPointer
      | Some _ \<Rightarrow>
          (case openInterface opened of (err, h) \<Rightarrow>
             if err \<noteq> NONE then Inr (err, c\<lparr>pimpl := Some h\<rparr>)
             else if capture_thread c then Inl StdTerminate
             else Inr (NONE, c\<lparr>pimpl := Some h, is_capturing := True, packets_captured := 0,
                              bytes_captured := 0, capture_thread := True\<rparr>)))"

definition stopCapture :: "('h, 'w) capture \<Rightarrow> crash + ('h, 'w) capture" where
  "stopCapture c =
     (if \<not> is_capturing c then Inr c
      else let c = c\<lparr>is_capturing := False, capture_thread := False\<rparr>
           in case pimpl c of None \<Rightarrow> Inl NullPointer | Some _ \<Rightarrow> Inr (c\<lparr>pimpl := Some None\<rparr>))"

definition registerHandler :: "'w packet_handler \<Rightarrow> ('h, 'w) capture \<Rightarrow> ('h, 'w) capture" where
  "registerHandler handler c = c\<lparr>handlers := handlers c @ [handler]\<rparr>"

text \<open>\<^verbatim>\<open>processPacket\<close>: count, call every handler in order, offer the packet to the ring.\<close>

definition capture_process ::
    "(packet_info \<Rightarrow> packet_info) \<Rightarrow> packet_info \<Rightarrow> ('h, 'w) capture \<Rightarrow> 'w \<Rightarrow> ('h, 'w) capture \<times> 'w" where
  "capture_process mv packet c w =
     (let c = c\<lparr>packets_captured := packets_captured c + 1,
                bytes_captured := bytes_captured c + pk_size packet\<rparr>;
          w = foldl (\<lambda>w handler. handler packet w) w (handlers c);
          (_, _, b) = cb_push_move mv 1024 packet (packet_buffer c)
      in (c\<lparr>packet_buffer := b\<rparr>, w))"

text \<open>One round of \<^verbatim>\<open>captureThreadFunc\<close>; \<open>None\<close> is an out-of-bounds read.\<close>

definition capture_round ::
    "(packet_info \<Rightarrow> packet_info) \<Rightarrow> packet_info \<Rightarrow> int \<Rightarrow> pcap_frame \<Rightarrow> ('h, 'w) capture \<Rightarrow> 'w
      \<Rightarrow> (('h, 'w) capture \<times> 'w) option" where
  "capture_round mv junk res fr c w =
     (if is_capturing c then
        do { packet \<leftarrow> capturePacket junk res fr;
             Some (if pk_size packet > 0 then capture_process mv packet c w else (c, w)) }
      else Some (c, w))"

text \<open>The move constructor: the new object first, the moved-from object second.\<close>

definition capture_move ::
    "packet_info \<Rightarrow> ('h, 'w) capture \<Rightarrow> ('h, 'w) capture \<times> ('h, 'w) capture" where
  "capture_move d other =
     (\<lparr>pimpl = pimpl other, is_capturing = is_capturing other,
       packets_captured = packets_captured other, bytes_captured = bytes_captured other,
       capture_thread = False, packet_buffer = cb_init 1024 d, handlers = handlers other\<rparr>,
      other\<lparr>pimpl := None, is_capturing := False, packets_captured := 0, bytes_captured := 0,
            handlers := []\<rparr>)"

text \<open>\<^verbatim>\<open>operator=(PacketCapture&&)\<close> for two different objects.\<close>

definition capture_assign ::
    "('h, 'w) capture \<Rightarrow> ('h, 'w) capture \<Rightarrow> crash + ('h, 'w) capture \<times> ('h, 'w) capture" where
  "capture_assign self other =
     (case stopCapture self of
        Inl e \<Rightarrow> Inl e
      | Inr self \<Rightarrow>
          Inr (self\<lparr>pimpl := pimpl other, is_capturing := is_capturing other,
                    packets_captured := packets_captured other, bytes_captured := bytes_captured other,
                    handlers := handlers other\<rparr>,
               other\<lparr>pimpl := None, is_capturing := False, packets_captured := 0,
                     bytes_captured := 0, handlers := []\<rparr>))"

text \<open>The destructor: \<open>stopCapture\<close>, then the members; a joinable thread terminates.\<close>

definition capture_destroy :: "('h, 'w) capture \<Rightarrow> crash + unit" where
  "capture_destroy c =
     (case stopCapture c of
        Inl e \<Rightarrow> Inl e
      | Inr c \<Rightarrow> if capture_thread c then Inl StdTerminate else Inr ())"

section \<open>Lemmas on decoding\<close>

lemma rd8_some: "i < length data \<Longrightarrow> rd8 data i = Some (data ! i)"
  by (simp add: rd8_def)

lemma rd_ipv4_some:
  "i + 3 < length data \<Longrightarrow>
   rd_ipv4 data i = Some (ipv4_str (data ! i) (data ! (i + 1)) (data ! (i + 2)) (data ! (i + 3)))"
  by (simp add: rd_ipv4_def rd8_some)

lemma rd_ipv4_none: "length data \<le> i + 3 \<Longrightarrow> rd_ipv4 data i = None"
  by (auto simp: rd_ipv4_def rd8_def Let_def split: Option.bind_splits if_splits)

lemma rd16_some: "i + 1 < length data \<Longrightarrow> rd16 data i = Some (be16 (data ! i) (data ! (i + 1)))"
  by (simp add: rd16_def)

lemma parsePacket_short: "length data < 14 \<Longrightarrow> parsePacket p data = Some p"
  by (simp add: parsePacket_def Let_def)

lemma parsePacket_no_ip:
  "14 < length data \<Longrightarrow> length data < 14 + ip_header_len (data ! 14) \<Longrightarrow> parsePacket p data = Some p"
  by (simp add: parsePacket_def Let_def rd8_some)

text \<open>The general case: the IPv4 header is inside the frame.\<close>

lemma parsePacket_ip:
  assumes "34 \<le> length data" and "14 + ip_header_len (data ! 14) \<le> length data"
  shows "parsePacket p data =
    (let ihl = ip_header_len (data ! 14); len = length data; proto = data ! 23;
         q = p\<lparr>pk_protocol := proto,
               pk_source_ip := ipv4_str (data ! 26) (data ! 27) (data ! 28) (data ! 29),
               pk_dest_ip := ipv4_str (data ! 30) (data ! 31) (data ! 32) (data ! 33)\<rparr>
     in if (proto = IPPROTO_TCP \<and> len \<ge> 14 + ihl + 20) \<or> (proto = IPPROTO_UDP \<and> len \<ge> 14 + ihl + 8)
        then Some (q\<lparr>pk_source_port := be16 (data ! (14 + ihl)) (data ! (14 + ihl + 1)),
                     pk_dest_port := be16 (data ! (14 + ihl + 2)) (data ! (14 + ihl + 3))\<rparr>)
        else Some (q\<lparr>pk_source_port := 0, pk_dest_port := 0\<rparr>))"
proof -
  let ?ihl = "ip_header_len (data ! 14)"
  have r: "rd8 data 14 = Some (data ! 14)" "rd8 data (14 + 9) = Some (data ! 23)"
    "rd_ipv4 data (14 + 12) = Some (ipv4_str (data ! 26) (data ! 27) (data ! 28) (data ! 29))"
    "rd_ipv4 data (14 + 16) = Some (ipv4_str (data ! 30) (data ! 31) (data ! 32) (data ! 33))"
    using assms(1) by (simp_all add: rd8_some rd_ipv4_some)
  have t: "14 + ?ihl + 8 \<le> length data \<Longrightarrow>
      rd16 data (14 + ?ihl) = Some (be16 (data ! (14 + ?ihl)) (data ! (14 + ?ihl + 1)))
    \<and> rd16 data (14 + ?ihl + 2) = Some (be16 (data ! (14 + ?ihl + 2)) (data ! (14 + ?ihl + 3)))"
    by (simp add: rd16_some numeral_eq_Suc)
  show ?thesis
  proof (cases "(data ! 23 = IPPROTO_TCP \<and> length data \<ge> 14 + ?ihl + 20)
      \<or> (data ! 23 = IPPROTO_UDP \<and> length data \<ge> 14 + ?ihl + 8)")
    case True
    then have "14 + ?ihl + 8 \<le> length data" by auto
    with True t r assms show ?thesis unfolding parsePacket_def Let_def by simp
  next
    case False
    with r assms show ?thesis unfolding parsePacket_def Let_def by auto
  qed
qed

lemma parsePacket_none_iff:
  "parsePacket p data = None \<longleftrightarrow>
     length data = 14 \<or> (14 < length data \<and> length data < 34 \<and> 14 + ip_header_len (data ! 14) \<le> length data)"
proof -
  consider "length data < 14" | "length data = 14"
    | "14 < length data" "length data < 14 + ip_header_len (data ! 14)"
    | "14 < length data" "14 + ip_header_len (data ! 14) \<le> length data" "length data < 34"
    | "34 \<le> length data" "14 + ip_header_len (data ! 14) \<le> length data" by linarith
  then show ?thesis
  proof cases
    case 2
    then show ?thesis by (simp add: parsePacket_def Let_def rd8_def)
  next
    case 4
    then have "rd_ipv4 data (14 + 16) = None" by (intro rd_ipv4_none) simp
    then show ?thesis
      using 4 by (auto simp: parsePacket_def Let_def rd8_some split: Option.bind_splits if_splits)
  next
    case 5
    then show ?thesis by (auto simp: parsePacket_ip Let_def)
  qed (auto simp: parsePacket_short parsePacket_no_ip)
qed

lemma capturePacket_data:
  "0 < res \<Longrightarrow> capturePacket junk res fr = Some p \<Longrightarrow> pk_data p = frame_bytes fr"
  by (auto simp: capturePacket_def parsePacket_def Let_def split: if_splits Option.bind_splits)

lemma capturePacket_timeout: "res \<le> 0 \<Longrightarrow> capturePacket junk res fr = Some p \<Longrightarrow> pk_data p = []"
  by (auto simp: capturePacket_def fresh_packet_def Let_def)

section \<open>Runs of the capture thread\<close>

fun capture_rounds ::
    "(packet_info \<Rightarrow> packet_info) \<Rightarrow> (packet_info \<times> int \<times> pcap_frame) list \<Rightarrow> ('h, 'w) capture \<Rightarrow> 'w
      \<Rightarrow> (('h, 'w) capture \<times> 'w) option" where
  "capture_rounds mv [] c w = Some (c, w)"
| "capture_rounds mv ((junk, res, fr) # ins) c w =
     (case capture_round mv junk res fr c w of
        None \<Rightarrow> None | Some (c', w') \<Rightarrow> capture_rounds mv ins c' w')"

lemma snd_snd_push_move: "snd (snd (cb_push_move mv n x b)) = snd (cb_push n x b)"
  by (simp add: cb_push_move_def cb_push_def)

lemma capture_process_simps:
  "fst (capture_process mv p c w) = c\<lparr>packets_captured := packets_captured c + 1,
     bytes_captured := bytes_captured c + pk_size p, packet_buffer := snd (cb_push 1024 p (packet_buffer c))\<rparr>"
  "snd (capture_process mv p c w) = foldl (\<lambda>w h. h p w) w (handlers c)"
  by (simp_all add: capture_process_def Let_def case_prod_beta snd_snd_push_move)

text \<open>What a run does, given the packets the frames decode to.\<close>

lemma capture_rounds_effect:
  assumes "is_capturing c" and "map (\<lambda>(junk, res, fr). capturePacket junk res fr) ins = map Some ps"
  shows "capture_rounds mv ins c w =
    (let qs = filter (\<lambda>p. 0 < pk_size p) ps in
     Some (c\<lparr>packets_captured := packets_captured c + of_nat (length qs),
             bytes_captured := bytes_captured c + (\<Sum>p \<leftarrow> qs. pk_size p),
             packet_buffer := push_all (cb_push 1024) qs (packet_buffer c)\<rparr>,
           foldl (\<lambda>w p. foldl (\<lambda>w h. h p w) w (handlers c)) w qs))"
  using assms
proof (induction ins arbitrary: c w ps)
  case (Cons x ins)
  obtain junk res fr where x: "x = (junk, res, fr)" by (metis prod_cases3)
  from Cons.prems(2) obtain p ps' where ps: "ps = p # ps'" "capturePacket junk res fr = Some p"
    "map (\<lambda>(junk, res, fr). capturePacket junk res fr) ins = map Some ps'"
    by (auto simp: x)
  show ?case
  proof (cases "0 < pk_size p")
    case True
    obtain c1 w1 where p1: "capture_process mv p c w = (c1, w1)" by fastforce
    then have c1: "c1 = c\<lparr>packets_captured := packets_captured c + 1,
       bytes_captured := bytes_captured c + pk_size p,
       packet_buffer := snd (cb_push 1024 p (packet_buffer c))\<rparr>"
      and w1: "w1 = foldl (\<lambda>w h. h p w) w (handlers c)"
      using capture_process_simps [of mv p c w] by simp_all
    have "capture_rounds mv (x # ins) c w = capture_rounds mv ins c1 w1"
      using True Cons.prems(1) ps(2) by (simp add: x capture_round_def p1)
    then show ?thesis
      using Cons.IH [of c1 ps' w1] Cons.prems(1) ps(3) True
      by (simp add: c1 w1 ps(1) Let_def add.assoc)
  next
    case False
    then show ?thesis
      using Cons.IH [of c ps' w] Cons.prems(1) ps by (simp add: x capture_round_def Let_def)
  qed
qed (simp add: Let_def)

section \<open>The life cycle\<close>

datatype ('h, 'w) capture_op =
  StartOp "string + 'h" | StopOp | RegisterOp "'w packet_handler" | PacketOp packet_info

fun capture_step ::
    "(packet_info \<Rightarrow> packet_info) \<Rightarrow> ('h, 'w) capture_op \<Rightarrow> ('h, 'w) capture \<times> 'w
      \<Rightarrow> crash + ('h, 'w) capture \<times> 'w" where
  "capture_step mv (StartOp opened) (c, w) =
     (case startCapture opened c of Inl e \<Rightarrow> Inl e | Inr (_, c') \<Rightarrow> Inr (c', w))"
| "capture_step mv StopOp (c, w) = (case stopCapture c of Inl e \<Rightarrow> Inl e | Inr c' \<Rightarrow> Inr (c', w))"
| "capture_step mv (RegisterOp h) (c, w) = Inr (registerHandler h c, w)"
| "capture_step mv (PacketOp p) (c, w) =
     Inr (if is_capturing c \<and> 0 < pk_size p then capture_process mv p c w else (c, w))"

fun capture_ops ::
    "(packet_info \<Rightarrow> packet_info) \<Rightarrow> ('h, 'w) capture_op list \<Rightarrow> ('h, 'w) capture \<times> 'w
      \<Rightarrow> crash + ('h, 'w) capture \<times> 'w" where
  "capture_ops mv [] s = Inr s"
| "capture_ops mv (x # xs) s = (case capture_step mv x s of Inl e \<Rightarrow> Inl e | Inr s' \<Rightarrow> capture_ops mv xs s')"

text \<open>Capturing, having a thread and having an open handle are one and the same.\<close>

definition capture_inv :: "('h, 'w) capture \<Rightarrow> bool" where
  "capture_inv c \<longleftrightarrow> pimpl c \<noteq> None \<and> capture_thread c = is_capturing c
     \<and> (is_capturing c \<longleftrightarrow> (\<exists>h. pimpl c = Some (Some h)))
     \<and> cb_inv 1024 (packet_buffer c)"

lemma capture_inv_init: "capture_inv (capture_init d)"
  by (simp add: capture_inv_def capture_init_def cb_inv_init)

lemma capture_step_inv:
  assumes "capture_inv c"
  shows "\<exists>c' w'. capture_step mv x (c, w) = Inr (c', w') \<and> capture_inv c'"
proof (cases x)
  case (StartOp opened)
  then show ?thesis
    using assms
    by (auto simp: capture_inv_def startCapture_def openInterface_def split: option.splits sum.splits)
next
  case StopOp
  then show ?thesis
    using assms by (auto simp: capture_inv_def stopCapture_def Let_def split: option.splits)
next
  case (RegisterOp h)
  then show ?thesis using assms by (simp add: capture_inv_def registerHandler_def)
next
  case (PacketOp p)
  have "capture_inv (fst (capture_process mv p c w))"
    using assms by (simp add: capture_inv_def capture_process_simps cb_push_inv)
  then show ?thesis
    using assms by (cases "capture_process mv p c w") (auto simp: PacketOp)
qed

lemma capture_ops_inv:
  "capture_inv c \<Longrightarrow> \<exists>c' w'. capture_ops mv xs (c, w) = Inr (c', w') \<and> capture_inv c'"
proof (induction xs arbitrary: c w)
  case (Cons x xs)
  obtain c1 w1 where "capture_step mv x (c, w) = Inr (c1, w1)" "capture_inv c1"
    using capture_step_inv [OF Cons.prems] by blast
  with Cons.IH [of c1 w1] show ?case by simp
qed simp

section \<open>Properties\<close>

lemma nth_frame:
  assumes "length eth = 14" and "i < length iph"
  shows "(eth @ iph @ r) ! (14 + i) = iph ! i"
  using assms by (simp add: nth_append)

lemma parse_frame:
  assumes "length eth = 14" "length iph = ip_header_len (iph ! 0)" "20 \<le> length iph"
    and "(iph ! 9 = IPPROTO_TCP \<and> 16 \<le> length rest) \<or> (iph ! 9 = IPPROTO_UDP \<and> 4 \<le> length rest)"
  shows "parsePacket p (eth @ iph @ bytes16 sport @ bytes16 dport @ rest)
    = Some (p\<lparr>pk_protocol := iph ! 9,
        pk_source_ip := ipv4_str (iph ! 12) (iph ! 13) (iph ! 14) (iph ! 15),
        pk_dest_ip := ipv4_str (iph ! 16) (iph ! 17) (iph ! 18) (iph ! 19),
        pk_source_port := sport, pk_dest_port := dport\<rparr>)"
proof -
  let ?d = "eth @ iph @ bytes16 sport @ bytes16 dport @ rest"
  have n: "?d ! (14 + i) = iph ! i" if "i < 20" for i
    using nth_frame [OF assms(1), of i iph] that assms(3) by simp
  have h: "?d ! 14 = iph ! 0" "?d ! 23 = iph ! 9" "?d ! 26 = iph ! 12" "?d ! 27 = iph ! 13"
    "?d ! 28 = iph ! 14" "?d ! 29 = iph ! 15" "?d ! 30 = iph ! 16" "?d ! 31 = iph ! 17"
    "?d ! 32 = iph ! 18" "?d ! 33 = iph ! 19"
    using n [of 0] n [of 9] n [of 12] n [of 13] n [of 14] n [of 15] n [of 16] n [of 17] n [of 18]
      n [of 19] by (simp_all only: numeral_plus_numeral add_num_simps)
      simp_all
  have len: "length ?d = 14 + ip_header_len (iph ! 0) + 4 + length rest"
    using assms(1,2) by simp
  let ?t = "14 + ip_header_len (iph ! 0)"
  have pre: "?t = length (eth @ iph)" using assms(1,2) by simp
  have s: "be16 (?d ! ?t) (?d ! (?t + 1)) = sport"
    using be16_at [OF pre, of sport "bytes16 dport @ rest"] by simp
  have "?t + 2 = length (eth @ iph @ bytes16 sport)" using pre by simp
  from be16_at [OF this, of dport rest] have t: "be16 (?d ! (?t + 2)) (?d ! (?t + 3)) = dport"
    by (simp add: numeral_3_eq_3 numeral_2_eq_2)
  have g: "34 \<le> length ?d" "14 + ip_header_len (?d ! 14) \<le> length ?d"
    using assms(2,3) len h(1) by simp_all
  show ?thesis
    unfolding parsePacket_ip [OF g] h Let_def s t len using assms(4) by auto
qed

text \<open>
  C15: Frames are decoded correctly. For every Ethernet frame whose IPv4 header has any legal
  length (with options) and carries TCP or UDP, the captured packet has the protocol, the
  dotted addresses, and the big-endian ports of the headers, together with the time stamp in
  microseconds, the wire length and the whole frame as data. The fourteen bytes of the link
  header do not influence the result: the EtherType is never examined, so a frame of any
  other type (ARP, IPv6) is decoded as if it were IPv4.
\<close>

theorem capture_decodes_frame:
  assumes "0 < res" "frame_bytes fr = eth @ iph @ bytes16 sport @ bytes16 dport @ rest"
    and "length eth = 14" "length iph = ip_header_len (iph ! 0)" "20 \<le> length iph"
    and "(iph ! 9 = IPPROTO_TCP \<and> 16 \<le> length rest) \<or> (iph ! 9 = IPPROTO_UDP \<and> 4 \<le> length rest)"
  shows "capturePacket junk res fr = Some \<lparr>pk_data = frame_bytes fr, pk_size = ucast (frame_len fr),
      pk_source_ip = ipv4_str (iph ! 12) (iph ! 13) (iph ! 14) (iph ! 15),
      pk_dest_ip = ipv4_str (iph ! 16) (iph ! 17) (iph ! 18) (iph ! 19),
      pk_source_port = sport, pk_dest_port = dport, pk_protocol = iph ! 9,
      pk_timestamp = ts_sec fr * 1000000 + ts_usec fr\<rparr>"
  using assms(1) parse_frame [OF assms(3-6), of _ sport dport]
  by (cases junk) (simp add: capturePacket_def assms(2) fresh_packet_def)

definition sample_frame :: pcap_frame where
  "sample_frame = \<lparr>ts_sec = 2, ts_usec = 5, frame_len = 54, frame_bytes =
     replicate 14 1 @ [0x45, 0, 0, 40, 0, 0, 0, 0, 64, 6, 0, 0, 10, 0, 0, 1, 10, 0, 0, 2]
       @ bytes16 40000 @ bytes16 80 @ replicate 16 0\<rparr>"

definition junk_packet :: packet_info where
  "junk_packet = \<lparr>pk_data = [], pk_size = 7, pk_source_ip = [], pk_dest_ip = [], pk_source_port = 1,
     pk_dest_port = 2, pk_protocol = 3, pk_timestamp = 4\<rparr>"

theorem capture_decodes_frame_witness:
  "capturePacket junk_packet 1 sample_frame = Some \<lparr>pk_data = frame_bytes sample_frame, pk_size = 54,
      pk_source_ip = ipv4_str 10 0 0 1, pk_dest_ip = ipv4_str 10 0 0 2,
      pk_source_port = 40000, pk_dest_port = 80, pk_protocol = 6, pk_timestamp = 2000005\<rparr>"
  by (subst capture_decodes_frame [where eth = "replicate 14 1"
        and iph = "[0x45, 0, 0, 40, 0, 0, 0, 0, 64, 6, 0, 0, 10, 0, 0, 1, 10, 0, 0, 2]"
        and sport = 40000 and dport = 80 and rest = "replicate 16 0"])
    (simp_all add: sample_frame_def ip_header_len_def)

text \<open>
  C38: Exactly which frames are read out of bounds. Decoding stays inside the captured bytes
  except for two shapes of frame: one of exactly fourteen bytes, whose IPv4 length byte is
  read although no byte is left, and one shorter than 34 bytes whose header length field
  (which the code does not require to be at least five words) claims no more than what is
  there. Both can be put on the wire by anyone.
\<close>

theorem capture_overread_exactly:
  "capturePacket junk res fr = None \<longleftrightarrow>
     0 < res \<and> (let n = length (frame_bytes fr) in
       n = 14 \<or> (14 < n \<and> n < 34 \<and> 14 + ip_header_len (frame_bytes fr ! 14) \<le> n))"
  by (simp add: capturePacket_def Let_def parsePacket_none_iff not_le)

text \<open>
  A read timeout can count a packet that does not exist. When libpcap returns no packet,
  \<open>capturePacket\<close> returns a packet whose size was never written; if that memory happens to
  hold a nonzero value, the round counts one packet of that many bytes and calls every
  handler with an empty packet.
\<close>

theorem capture_timeout_phantom:
  assumes "is_capturing c" "res \<le> 0" "0 < pk_size junk"
  shows "\<exists>c' w'. capture_round mv junk res fr c w = Some (c', w')
    \<and> packets_captured c' = packets_captured c + 1
    \<and> bytes_captured c' = bytes_captured c + pk_size junk
    \<and> w' = foldl (\<lambda>w h. h (fresh_packet junk) w) w (handlers c)
    \<and> pk_data (fresh_packet junk) = []"
proof -
  obtain c' w' where "capture_process mv (fresh_packet junk) c w = (c', w')" by fastforce
  then show ?thesis
    using assms capture_process_simps [of mv "fresh_packet junk" c w]
    by (auto simp: capture_round_def capturePacket_def fresh_packet_def)
qed

definition open_capture :: "(nat, nat) capture" where
  "open_capture = (capture_init junk_packet)\<lparr>pimpl := Some (Some 1), is_capturing := True,
     capture_thread := True, handlers := [\<lambda>_ w. w + 1]\<rparr>"

theorem capture_timeout_phantom_witness:
  "\<exists>c' w'. capture_round id junk_packet 0 sample_frame open_capture 0 = Some (c', w')
     \<and> packets_captured c' = 1 \<and> w' = (1 :: nat)"
  using capture_timeout_phantom [of open_capture 0 junk_packet id sample_frame 0]
  by (auto simp: open_capture_def capture_init_def junk_packet_def)

text \<open>
  What a capture session records. After a successful start, for any sequence of results
  of libpcap whose frames decode to packets \<open>ps\<close>: the thread processes exactly the packets
  with a nonzero size, in order; the counters restart from zero and end at their number and
  total size modulo 2^64; every handler has been called once per packet, in registration
  order; and the ring holds the oldest 1024 packets ever pushed (also those of earlier
  sessions), because nothing pops it and a full ring drops the new packet.
\<close>

theorem capture_session:
  assumes "capture_inv c" "startCapture (Inr h) c = Inr (NONE, c0)"
    and "map (\<lambda>(junk, res, fr). capturePacket junk res fr) ins = map Some ps"
  shows "\<exists>c' w'. capture_rounds mv ins c0 w = Some (c', w')
    \<and> (let qs = filter (\<lambda>p. 0 < pk_size p) ps in
         packets_captured c' = of_nat (length qs)
       \<and> bytes_captured c' = (\<Sum>p \<leftarrow> qs. pk_size p)
       \<and> w' = foldl (\<lambda>w p. foldl (\<lambda>w h. h p w) w (handlers c)) w qs
       \<and> cb_contents 1024 (packet_buffer c') = take 1024 (cb_contents 1024 (packet_buffer c) @ qs))"
proof -
  have c0: "c0 = c\<lparr>pimpl := Some (Some h), is_capturing := True, packets_captured := 0,
      bytes_captured := 0, capture_thread := True\<rparr>"
    using assms(2) by (auto simp: startCapture_def openInterface_def split: if_splits option.splits)
  have "cb_inv 1024 (packet_buffer c)" using assms(1) by (simp add: capture_inv_def)
  then show ?thesis
    using capture_rounds_effect [OF _ assms(3), of c0 mv w]
      ring.push_all_contents [of 1024 "packet_buffer c"]
    by (simp add: c0 Let_def)
qed

lemma sample_frame_decodes:
  "\<exists>p. capturePacket j 1 sample_frame = Some p \<and> pk_size p = 54"
  using parse_frame [of "replicate 14 1" "[0x45, 0, 0, 40, 0, 0, 0, 0, 64, 6, 0, 0, 10, 0, 0, 1, 10, 0, 0, 2]"
      "replicate 16 0" _ 40000 80]
  by (simp add: capturePacket_def sample_frame_def ip_header_len_def fresh_packet_def)

theorem capture_session_witness:
  "\<exists>c' w'. capture_rounds id [(junk_packet, 1, sample_frame)]
       ((capture_init junk_packet :: (nat, nat) capture)\<lparr>pimpl := Some (Some 1), is_capturing := True,
          capture_thread := True\<rparr>) 0 = Some (c', w') \<and> packets_captured c' = 1 \<and> bytes_captured c' = 54"
proof -
  obtain p where p: "capturePacket junk_packet 1 sample_frame = Some p" "pk_size p = 54"
    using sample_frame_decodes by blast
  have s: "startCapture (Inr 1) (capture_init junk_packet :: (nat, nat) capture)
      = Inr (NONE, (capture_init junk_packet)\<lparr>pimpl := Some (Some 1), is_capturing := True,
          capture_thread := True\<rparr>)"
    by (simp add: startCapture_def openInterface_def capture_init_def)
  show ?thesis
    using capture_session [OF capture_inv_init s, of "[(junk_packet, 1, sample_frame)]" "[p]" id 0] p
    by auto
qed

text \<open>
  The life cycle of a capture object that is never moved. Whatever sequence of starts
  (successful or not), stops, registrations and packets it goes through, no call crashes,
  capturing, having a thread and having an open handle always coincide, and the destructor
  finds no running thread.
\<close>

theorem capture_lifecycle_safe:
  "\<exists>c w'. capture_ops mv xs (capture_init d, w) = Inr (c, w') \<and> capture_inv c
     \<and> capture_destroy c = Inr ()"
proof -
  obtain c w' where c: "capture_ops mv xs (capture_init d, w) = Inr (c, w')" "capture_inv c"
    using capture_ops_inv [OF capture_inv_init [of d], of mv xs w] by blast
  then have "capture_destroy c = Inr ()"
    by (auto simp: capture_destroy_def stopCapture_def capture_inv_def Let_def)
  with c show ?thesis by blast
qed

text \<open>
  Moving a running capture breaks both objects. The move constructor and the move
  assignment transfer every member except the thread. After a move from a capturing object
  the new one says it is capturing and keeps the old counters, but has no thread, so it will
  never see a packet; the old one still owns the joinable thread, so its destructor ends the
  process by \<^verbatim>\<open>std::terminate\<close>, and starting it again dereferences its null pimpl.
\<close>

theorem capture_move_breaks:
  assumes "capture_inv c" "is_capturing c" "capture_move d c = (new, old)"
  shows "is_capturing new \<and> \<not> capture_thread new \<and> packets_captured new = packets_captured c
    \<and> capture_destroy old = Inl StdTerminate \<and> startCapture opened old = Inl NullPointer"
  using assms
  by (auto simp: capture_move_def capture_inv_def capture_destroy_def stopCapture_def startCapture_def)

theorem capture_move_breaks_witness:
  "capture_destroy (snd (capture_move junk_packet open_capture)) = Inl StdTerminate"
proof -
  have "capture_inv open_capture" "is_capturing open_capture"
    using capture_inv_init [of junk_packet]
    by (auto simp: open_capture_def capture_inv_def capture_init_def)
  then show ?thesis
    using capture_move_breaks [of open_capture junk_packet] by (metis prod.collapse)
qed

end
