(* ===== verification/Http_Parser.thy ===== *)
theory Http_Parser
  imports Packet
begin

text \<open>
  \<^verbatim>\<open>HttpParser\<close> of \<^verbatim>\<open>src/network/protocol_handlers/protocol_parser.cpp\<close>: detection of HTTP
  by the first bytes of the data, and the parsers of requests and responses. Searching for
  a delimiter that is absent is a branch of every definition, as in the code.
\<close>

section \<open>Detection\<close>

definition http_methods :: "string list" where
  "http_methods = [''GET'', ''POST'', ''PUT'', ''DELETE'', ''HEAD'', ''OPTIONS'', ''PATCH'',
     ''CONNECT'', ''TRACE'']"

definition isHttpPacket :: "packet_info \<Rightarrow> bool" where
  "isHttpPacket packet =
     (if pk_protocol packet \<noteq> IPPROTO_TCP then False
      else if length (pk_data packet) < 16 then False
      else let start = str_of_bytes (take (min 8 (length (pk_data packet))) (pk_data packet))
           in (\<exists>meth \<in> set http_methods.
                 str_find start meth 0 = Some 0 \<and> str_find start '' '' 0 = Some (length meth))
              \<or> str_find start ''HTTP/'' 0 = Some 0)"

section \<open>Header fields\<close>

text \<open>
  The loop over the header lines, from position \<open>header_start\<close>. A line without a colon is
  skipped; a repeated key overwrites the earlier value.
\<close>

definition parse_header_line :: "string \<Rightarrow> (string \<rightharpoonup> string) \<Rightarrow> (string \<rightharpoonup> string)" where
  "parse_header_line header_line acc =
     (case str_find header_line '':'' 0 of
        None \<Rightarrow> acc
      | Some colon_pos \<Rightarrow>
          let key = substr header_line 0 colon_pos;
              val = substr_from header_line (colon_pos + 1)
          in acc(key \<mapsto> drop_while_front is_blank val))"

function parse_headers :: "string \<Rightarrow> nat \<Rightarrow> (string \<rightharpoonup> string) \<Rightarrow> (string \<rightharpoonup> string)" where
  "parse_headers headers header_start acc =
     (if header_start < length headers then
        let header_end = (case str_find headers crlf header_start of
                            None \<Rightarrow> length headers | Some e \<Rightarrow> e);
            header_line = substr headers header_start (header_end - header_start)
        in parse_headers headers (header_end + 2) (parse_header_line header_line acc)
      else acc)"
  by pat_completeness auto
termination
proof (relation "measure (\<lambda>(headers, start, _). length headers - start)", goal_cases)
  case (2 headers header_start acc e l)
  then show ?case by (auto split: option.splits dest!: str_find_bound)
qed simp

declare parse_headers.simps [simp del]

section \<open>Requests and responses\<close>

text \<open>The part of the data before the blank line.\<close>

definition header_section :: "string \<Rightarrow> string" where
  "header_section raw_data =
     (let end_of_headers = (case str_find raw_data (crlf @ crlf) 0 of
                              None \<Rightarrow> length raw_data | Some e \<Rightarrow> e)
      in substr raw_data 0 end_of_headers)"

definition parseHttpRequest :: "u8 list \<Rightarrow> http_data" where
  "parseHttpRequest data =
     (let d0 = new_http_data\<lparr>http_type := HTTP, http_is_request := True\<rparr>;
          raw_data = str_of_bytes data;
          headers = header_section raw_data
      in case str_find headers crlf 0 of
           None \<Rightarrow> d0
         | Some line_end \<Rightarrow>
             let request_line = substr headers 0 line_end
             in case str_find request_line '' '' 0 of
                  None \<Rightarrow> d0
                | Some method_end \<Rightarrow>
                    let d1 = d0\<lparr>http_method := substr request_line 0 method_end\<rparr>
                    in case str_find request_line '' '' (method_end + 1) of
                         None \<Rightarrow> d1
                       | Some uri_end \<Rightarrow>
                           d1\<lparr>http_uri := substr request_line (method_end + 1) (uri_end - method_end - 1),
                              http_version := substr_from request_line (uri_end + 1),
                              http_headers := parse_headers headers (line_end + 2) Map.empty\<rparr>)"

definition parseHttpResponse :: "u8 list \<Rightarrow> http_data" where
  "parseHttpResponse data =
     (let d0 = new_http_data\<lparr>http_type := HTTP, http_is_request := False\<rparr>;
          raw_data = str_of_bytes data;
          headers = header_section raw_data
      in case str_find headers crlf 0 of
           None \<Rightarrow> d0
         | Some line_end \<Rightarrow>
             let status_line = substr headers 0 line_end
             in case str_find status_line '' '' 0 of
                  None \<Rightarrow> d0
                | Some http_version_end \<Rightarrow>
                    let status_code_end = (case str_find status_line '' '' (http_version_end + 1) of
                                             None \<Rightarrow> length status_line | Some e \<Rightarrow> e);
                        status_code_str = substr status_line (http_version_end + 1)
                                            (status_code_end - http_version_end - 1)
                    in d0\<lparr>http_version := substr status_line 0 http_version_end,
                          http_status_code := (case stoi status_code_str of Inl _ \<Rightarrow> 0 | Inr v \<Rightarrow> v),
                          http_headers := parse_headers headers (line_end + 2) Map.empty\<rparr>)"

text \<open>\<^verbatim>\<open>HttpParser::parse\<close>: a null result is \<open>None\<close>.\<close>

definition http_parse :: "packet_info \<Rightarrow> http_data option" where
  "http_parse packet =
     (if \<not> isHttpPacket packet then None
      else if pk_source_port packet = 80 \<or> pk_source_port packet = 8080 then
        Some (parseHttpResponse (pk_data packet))
      else if pk_dest_port packet = 80 \<or> pk_dest_port packet = 8080 then
        Some (parseHttpRequest (pk_data packet))
      else None)"

section \<open>Rendering, for the round trip\<close>

text \<open>
  The wire form of a list of header fields, of a request and of a response, in the shape
  that HTTP/1.1 prescribes: one blank after the colon, CR LF after each line, an empty line
  before the body.
\<close>

definition render_field :: "string \<times> string \<Rightarrow> string" where
  "render_field f = fst f @ '': '' @ snd f"

fun render_fields :: "(string \<times> string) list \<Rightarrow> string" where
  "render_fields [] = []"
| "render_fields [f] = render_field f"
| "render_fields (f # fs) = render_field f @ crlf @ render_fields fs"

definition render_request :: "string \<Rightarrow> string \<Rightarrow> string \<Rightarrow> (string \<times> string) list \<Rightarrow> string \<Rightarrow> string" where
  "render_request meth uri ver fs body =
     (meth @ '' '' @ uri @ '' '' @ ver @ crlf) @ render_fields fs @ crlf @ crlf @ body"

definition render_response :: "string \<Rightarrow> nat \<Rightarrow> string \<Rightarrow> (string \<times> string) list \<Rightarrow> string \<Rightarrow> string" where
  "render_response ver code reason fs body =
     (ver @ '' '' @ nat_str code @ '' '' @ reason @ crlf) @ render_fields fs @ crlf @ crlf @ body"

text \<open>A field the syntax allows: no CR, no colon in the name, no leading blank in the value.\<close>

definition field_ok :: "string \<times> string \<Rightarrow> bool" where
  "field_ok f \<longleftrightarrow> cr \<notin> set (fst f) \<and> CHR '':'' \<notin> set (fst f) \<and> cr \<notin> set (snd f) \<and>
     (snd f = [] \<or> \<not> is_blank (hd (snd f)))"

definition fields_map :: "(string \<times> string) list \<Rightarrow> (string \<rightharpoonup> string)" where
  "fields_map fs = foldl (\<lambda>m f. m(fst f \<mapsto> snd f)) Map.empty fs"

lemma render_field_chars:
  assumes "field_ok f"
  shows "cr \<notin> set (render_field f)" and "render_field f \<noteq> []"
  using assms by (auto simp: field_ok_def render_field_def)

lemma parse_header_line_render:
  assumes "field_ok f"
  shows "parse_header_line (render_field f) acc = acc(fst f \<mapsto> snd f)"
proof -
  have "find_sub '':'' (fst f @ CHR '':'' # '' '' @ snd f) = Some (length (fst f))"
    using assms by (intro find_char_append) (simp add: field_ok_def)
  moreover have "dropWhile is_blank (snd f) = snd f"
    using assms by (cases "snd f") (auto simp: field_ok_def)
  ultimately show ?thesis
    by (simp add: parse_header_line_def render_field_def substr_from_def drop_while_front_def
        is_blank_def substr_def)
qed

lemma parse_headers_render:
  "list_all field_ok fs \<Longrightarrow> fs \<noteq> [] \<Longrightarrow>
   parse_headers (pre @ render_fields fs) (length pre) acc = foldl (\<lambda>m f. m(fst f \<mapsto> snd f)) acc fs"
proof (induction fs arbitrary: pre acc rule: render_fields.induct)
  case (2 f)
  then have f: "field_ok f" by simp
  have "find_sub crlf (render_field f) = None"
    using render_field_chars [OF f] by (intro find_crlf_none)
  then show ?case
    using render_field_chars [OF f] parse_header_line_render [OF f]
    by (subst parse_headers.simps)
      (simp add: str_find_append substr_def, subst parse_headers.simps, simp)
next
  case (3 f g fs)
  then have f: "field_ok f" by simp
  let ?rest = "render_fields (g # fs)"
  have find: "find_sub crlf (render_field f @ crlf @ ?rest) = Some (length (render_field f))"
    using render_field_chars [OF f] by (intro find_crlf_append)
  have "parse_headers (pre @ render_fields (f # g # fs)) (length pre) acc
      = parse_headers (pre @ render_field f @ crlf @ ?rest) (length pre + length (render_field f) + 2)
          (acc(fst f \<mapsto> snd f))"
    using parse_header_line_render [OF f]
    by (subst parse_headers.simps) (use find in \<open>simp add: str_find_append substr_def\<close>)
  also have "\<dots> = parse_headers ((pre @ render_field f @ crlf) @ ?rest)
      (length (pre @ render_field f @ crlf)) (acc(fst f \<mapsto> snd f))"
    by simp
  also have "\<dots> = foldl (\<lambda>m f. m(fst f \<mapsto> snd f)) acc (f # g # fs)"
    using 3 by (subst "3.IH") simp_all
  finally show ?case .
qed simp

text \<open>The blank line is found at the end of the fields and nowhere before.\<close>

lemma find_blank_line:
  assumes "cr \<notin> set x" and "x \<noteq> []"
  shows "find_sub (crlf @ crlf) (crlf @ x @ ys) = map_option (\<lambda>i. i + 2) (find_sub (crlf @ crlf) (x @ ys))"
  using assms by (cases x) (auto simp: option.map_comp comp_def)

lemma find_blank_fields:
  "list_all field_ok fs \<Longrightarrow> fs \<noteq> [] \<Longrightarrow>
   find_sub (crlf @ crlf) (render_fields fs @ crlf @ crlf @ body) = Some (length (render_fields fs))"
proof (induction fs rule: render_fields.induct)
  case (2 f)
  then show ?case using render_field_chars [of f] by (simp add: find_sub_skip)
next
  case (3 f g fs)
  have head: "\<exists>x ys. render_fields (g # fs) = x @ ys \<and> cr \<notin> set x \<and> x \<noteq> []"
    using "3.prems" render_field_chars [of g] by (cases fs) auto
  then obtain x ys where x: "render_fields (g # fs) = x @ ys" "cr \<notin> set x" "x \<noteq> []" by blast
  have "find_sub (crlf @ crlf) (crlf @ render_fields (g # fs) @ crlf @ crlf @ body)
      = Some (length (render_fields (g # fs)) + 2)"
    using "3.IH" "3.prems" find_blank_line [OF x(2,3), of "ys @ crlf @ crlf @ body"] x(1) by simp
  then show ?case
    using "3.prems" render_field_chars [of f] by (simp add: find_sub_skip)
qed simp

lemma header_section_render:
  assumes "cr \<notin> set line" and "list_all field_ok fs" and "fs \<noteq> []"
  shows "header_section ((line @ crlf) @ render_fields fs @ crlf @ crlf @ body)
    = line @ crlf @ render_fields fs"
proof -
  obtain f fs' where fs: "fs = f # fs'" using assms(3) by (cases fs) auto
  obtain ys where x: "render_fields fs = render_field f @ ys"
    using fs by (cases fs') auto
  have "find_sub (crlf @ crlf) (crlf @ render_fields fs @ crlf @ crlf @ body)
      = Some (length (render_fields fs) + 2)"
    using find_blank_line [OF render_field_chars, of f "ys @ crlf @ crlf @ body"] x assms fs
      find_blank_fields [OF assms(2,3), of body] by simp
  then have "find_sub (crlf @ crlf) ((line @ crlf) @ render_fields fs @ crlf @ crlf @ body)
      = Some (length (line @ crlf @ render_fields fs))"
    using assms(1) by (simp add: find_sub_skip)
  then show ?thesis by (simp add: header_section_def substr_def)
qed

section \<open>Parsing what was rendered\<close>

lemma parse_request_render:
  assumes "CHR '' '' \<notin> set meth" "cr \<notin> set meth" "CHR '' '' \<notin> set uri" "cr \<notin> set uri"
    and "cr \<notin> set ver" and "list_all field_ok fs" and "fs \<noteq> []"
  shows "parseHttpRequest (bytes_of_str (render_request meth uri ver fs body))
    = \<lparr>http_type = HTTP, http_method = meth, http_uri = uri, http_version = ver,
       http_headers = fields_map fs, http_is_request = True, http_status_code = 0\<rparr>"
proof -
  let ?line = "meth @ '' '' @ uri @ '' '' @ ver"
  have line: "cr \<notin> set ?line" using assms by auto
  have hs: "header_section (render_request meth uri ver fs body) = ?line @ crlf @ render_fields fs"
    using header_section_render [OF line assms(6,7)] by (simp add: render_request_def)
  have f1: "find_sub crlf (?line @ crlf @ render_fields fs) = Some (length ?line)"
    using line by (rule find_crlf_append)
  have f2: "find_sub '' '' ?line = Some (length meth)"
    using find_char_append [OF assms(1), of "uri @ '' '' @ ver"] by simp
  have "find_sub '' '' (uri @ '' '' @ ver) = Some (length uri)"
    using find_char_append [OF assms(3), of ver] by simp
  then have f3: "str_find ?line '' '' (length meth + 1) = Some (length meth + 1 + length uri)"
    using str_find_append [of "meth @ '' ''" "uri @ '' '' @ ver" "'' ''"] by simp
  have p: "parse_headers (?line @ crlf @ render_fields fs) (length ?line + 2) Map.empty = fields_map fs"
    using parse_headers_render [OF assms(6,7), of "?line @ crlf" Map.empty]
    by (simp add: fields_map_def)
  show ?thesis
    unfolding parseHttpRequest_def Let_def str_of_bytes_of_str hs
    using f1 f2 f3 p by (simp add: new_http_data_def substr_def substr_from_def)
qed

lemma stoi_status:
  "code < 2 ^ 31 \<Longrightarrow> stoi (nat_str code) = Inr (int code)"
  using scan_int_nat_str [of "[]" code] by (simp add: stoi_def in_range_def signed_val_def)

lemma no_space_digits: "CHR '' '' \<notin> set (nat_str n) \<and> cr \<notin> set (nat_str n)"
  using nat_str_digits [of n] by (auto simp: is_digit_def char_code_def)

lemma parse_response_render:
  assumes "CHR '' '' \<notin> set ver" "cr \<notin> set ver" "cr \<notin> set reason" "code < 2 ^ 31"
    and "list_all field_ok fs" and "fs \<noteq> []"
  shows "parseHttpResponse (bytes_of_str (render_response ver code reason fs body))
    = \<lparr>http_type = HTTP, http_method = [], http_uri = [], http_version = ver,
       http_headers = fields_map fs, http_is_request = False, http_status_code = int code\<rparr>"
proof -
  let ?line = "ver @ '' '' @ nat_str code @ '' '' @ reason"
  have line: "cr \<notin> set ?line" using assms no_space_digits by auto
  have hs: "header_section (render_response ver code reason fs body) = ?line @ crlf @ render_fields fs"
    using header_section_render [OF line assms(5,6)] by (simp add: render_response_def)
  have f1: "find_sub crlf (?line @ crlf @ render_fields fs) = Some (length ?line)"
    using line by (rule find_crlf_append)
  have f2: "find_sub '' '' ?line = Some (length ver)"
    using find_char_append [OF assms(1), of "nat_str code @ '' '' @ reason"] by simp
  have "find_sub '' '' (nat_str code @ '' '' @ reason) = Some (length (nat_str code))"
    using find_char_append [OF conjunct1 [OF no_space_digits], of code reason] by simp
  then have f3: "str_find ?line '' '' (length ver + 1) = Some (length ver + 1 + length (nat_str code))"
    using str_find_append [of "ver @ '' ''" "nat_str code @ '' '' @ reason" "'' ''"] by simp
  have p: "parse_headers (?line @ crlf @ render_fields fs) (length ?line + 2) Map.empty = fields_map fs"
    using parse_headers_render [OF assms(5,6), of "?line @ crlf" Map.empty]
    by (simp add: fields_map_def)
  show ?thesis
    unfolding parseHttpResponse_def Let_def str_of_bytes_of_str hs
    using f1 f2 f3 p stoi_status [OF assms(4)]
    by (simp add: new_http_data_def substr_def substr_from_def)
qed

section \<open>Properties\<close>

lemma method_chars:
  assumes "meth \<in> set http_methods"
  shows "CHR '' '' \<notin> set meth" and "cr \<notin> set meth" and "length meth \<le> 7"
  using assms by (auto simp: http_methods_def)

lemma isHttp_method:
  assumes "meth \<in> set http_methods" and "pk_protocol p = IPPROTO_TCP"
    and "pk_data p = bytes_of_str (meth @ '' '' @ rest)" and "16 \<le> length (pk_data p)"
  shows "isHttpPacket p"
proof -
  let ?start = "take 8 (meth @ '' '' @ rest)"
  have start: "?start = meth @ CHR '' '' # take (7 - length meth) rest"
    using method_chars(3) [OF assms(1)] by (simp add: take_Cons')
  have "find_sub meth ?start = Some 0"
    unfolding start by (rule find_sub_prefix) simp
  moreover have "find_sub '' '' ?start = Some (length meth)"
    unfolding start by (rule find_char_append [OF method_chars(1) [OF assms(1)]])
  moreover have "str_of_bytes (take (min 8 (length (pk_data p))) (pk_data p)) = ?start"
    using assms(3,4) by (simp add: str_of_bytes_take min_def del: take_append)
  ultimately show ?thesis
    using assms(1,2,4) by (auto simp: isHttpPacket_def Let_def)
qed

text \<open>
  C12: HTTP requests are recovered from the wire. For every request line whose method is one
  of the nine the detector knows, with a target and a version that contain no delimiter,
  every nonempty list of well-formed header fields and every body, a TCP packet to port 80
  or 8080 that carries the rendered request is recognised as HTTP and parsed to exactly the
  method, target, version and header map that were rendered (a repeated field keeps its last
  value). This covers the request line scanner, the search for the blank line and the loop
  over the header lines on inputs of any length.
\<close>

theorem http_request_roundtrip:
  assumes "pk_protocol p = IPPROTO_TCP" "pk_dest_port p \<in> {80, 8080}" "pk_source_port p \<notin> {80, 8080}"
    and "pk_data p = bytes_of_str (render_request meth uri ver fs body)" "16 \<le> length (pk_data p)"
    and "meth \<in> set http_methods" "CHR '' '' \<notin> set uri" "cr \<notin> set uri" "cr \<notin> set ver"
    and "list_all field_ok fs" "fs \<noteq> []"
  shows "http_parse p = Some \<lparr>http_type = HTTP, http_method = meth, http_uri = uri,
    http_version = ver, http_headers = fields_map fs, http_is_request = True, http_status_code = 0\<rparr>"
proof -
  have "isHttpPacket p"
    using isHttp_method [OF assms(6,1), of "uri @ '' '' @ ver @ crlf @ render_fields fs @ crlf @ crlf @ body"]
      assms(4,5) by (simp add: render_request_def)
  then show ?thesis
    using assms(2,3,4) parse_request_render [OF method_chars(1,2) [OF assms(6)] assms(7-11)]
    by (auto simp: http_parse_def)
qed

definition sample_http_packet :: "string \<Rightarrow> u16 \<Rightarrow> u16 \<Rightarrow> packet_info" where
  "sample_http_packet s sport dport = \<lparr>pk_data = bytes_of_str s, pk_size = 60,
     pk_source_ip = ''10.0.0.1'', pk_dest_ip = ''10.0.0.2'', pk_source_port = sport,
     pk_dest_port = dport, pk_protocol = IPPROTO_TCP, pk_timestamp = 0\<rparr>"

theorem http_request_roundtrip_witness:
  "http_parse (sample_http_packet
      (render_request ''GET'' ''/a'' ''HTTP/1.1'' [(''Host'', ''x''), (''A'', ''b: c'')] ''body'') 40000 80)
   = Some \<lparr>http_type = HTTP, http_method = ''GET'', http_uri = ''/a'', http_version = ''HTTP/1.1'',
       http_headers = [''Host'' \<mapsto> ''x'', ''A'' \<mapsto> ''b: c''], http_is_request = True,
       http_status_code = 0\<rparr>"
  by (subst http_request_roundtrip [where fs = "[(''Host'', ''x''), (''A'', ''b: c'')]" and body = "''body''"
        and meth = "''GET''" and uri = "''/a''" and ver = "''HTTP/1.1''"])
    (simp_all add: sample_http_packet_def http_methods_def field_ok_def is_blank_def fields_map_def
      render_request_def render_field_def bytes_of_str_def)

text \<open>
  HTTP responses are recovered from the wire. A TCP packet from port 80 or 8080 whose
  data is a rendered response (a version that starts with HTTP/, any status code that fits
  an int, a reason phrase, a nonempty list of well-formed fields and any body) is parsed to
  exactly that version, numeric status and header map, with \<open>is_request\<close> false.
\<close>

theorem http_response_roundtrip:
  assumes "pk_protocol p = IPPROTO_TCP" "pk_source_port p \<in> {80, 8080}"
    and "pk_data p = bytes_of_str (render_response ver code reason fs body)" "16 \<le> length (pk_data p)"
    and "take 5 ver = ''HTTP/''" "CHR '' '' \<notin> set ver" "cr \<notin> set ver" "cr \<notin> set reason"
    and "code < 2 ^ 31" "list_all field_ok fs" "fs \<noteq> []"
  shows "http_parse p = Some \<lparr>http_type = HTTP, http_method = [], http_uri = [],
    http_version = ver, http_headers = fields_map fs, http_is_request = False,
    http_status_code = int code\<rparr>"
proof -
  let ?s = "render_response ver code reason fs body"
  have v: "ver = ''HTTP/'' @ drop 5 ver"
    using append_take_drop_id [of 5 ver] assms(5) by simp
  have "take 5 (take 8 ?s) = ''HTTP/''"
    unfolding render_response_def by (subst v) simp
  then have "find_sub ''HTTP/'' (take 8 ?s) = Some 0"
    by (intro find_sub_prefix) (simp add: numeral_eq_Suc)
  moreover have "str_of_bytes (take (min 8 (length (pk_data p))) (pk_data p)) = take 8 ?s"
    using assms(3,4) by (simp add: str_of_bytes_take min_def del: take_append)
  ultimately have "isHttpPacket p"
    using assms(1,4) by (simp add: isHttpPacket_def Let_def)
  then show ?thesis
    using assms(2,3) parse_response_render [OF assms(6-11)] by (auto simp: http_parse_def)
qed

theorem http_response_roundtrip_witness:
  "http_parse (sample_http_packet
      (render_response ''HTTP/1.1'' 404 ''Not Found'' [(''Server'', ''x'')] []) 80 40000)
   = Some \<lparr>http_type = HTTP, http_method = [], http_uri = [], http_version = ''HTTP/1.1'',
       http_headers = [''Server'' \<mapsto> ''x''], http_is_request = False, http_status_code = 404\<rparr>"
  by (subst http_response_roundtrip [where fs = "[(''Server'', ''x'')]" and body = "[]"
        and ver = "''HTTP/1.1''" and code = 404 and reason = "''Not Found''"])
    (simp_all add: sample_http_packet_def field_ok_def is_blank_def fields_map_def
      render_response_def render_field_def bytes_of_str_def)

text \<open>
  A message without header fields is not parsed. When the blank line follows the first
  line at once, the section before it holds no CR LF, and the parsers return before reading
  the request line: method, target and version stay empty, and the status code stays 0,
  whatever the first line says. An HTTP/1.0 request such as GET / HTTP/1.0 is recorded as
  HTTP without any content.
\<close>

theorem http_no_fields_not_parsed:
  assumes "cr \<notin> set line"
  shows "parseHttpRequest (bytes_of_str (line @ crlf @ crlf @ body))
      = new_http_data\<lparr>http_type := HTTP, http_is_request := True\<rparr>
    \<and> parseHttpResponse (bytes_of_str (line @ crlf @ crlf @ body))
      = new_http_data\<lparr>http_type := HTTP, http_is_request := False\<rparr>"
proof -
  have "find_sub (crlf @ crlf) (line @ crlf @ crlf @ body) = Some (length line)"
    using assms by (simp add: find_sub_skip)
  then have h: "header_section (line @ crlf @ crlf @ body) = line"
    by (simp add: header_section_def)
  show ?thesis
    unfolding parseHttpRequest_def parseHttpResponse_def Let_def str_of_bytes_of_str h
    using find_crlf_none [OF assms] by simp
qed

theorem http_no_fields_not_parsed_witness:
  "http_method (parseHttpRequest (bytes_of_str (''GET / HTTP/1.0'' @ crlf @ crlf))) = []"
  using http_no_fields_not_parsed [of "''GET / HTTP/1.0''" "[]"] by (simp add: new_http_data_def)

end
