(* ===== verification/Tls_Parser.thy ===== *)
theory Tls_Parser
  imports Packet "HOL-Library.Monad_Syntax"
begin

text \<open>
  \<^verbatim>\<open>TlsParser\<close> of \<^verbatim>\<open>src/network/protocol_handlers/protocol_parser.cpp\<close>: detection of TLS
  records and the walk through a ClientHello to the server name. \<^verbatim>\<open>operator[]\<close> of a vector does not
  check its index, so every read of the model is one that can fail, and the results are options:
  \<open>None\<close> is a read past the end of the data (undefined behaviour), \<open>Some\<close> is a normal return.
\<close>

section \<open>Detection\<close>

definition isTlsPacket :: "packet_info \<Rightarrow> bool option" where
  "isTlsPacket packet =
     (if pk_protocol packet \<noteq> IPPROTO_TCP then Some False
      else if length (pk_data packet) < 5 then Some False
      else do {
        content_type \<leftarrow> rd8 (pk_data packet) 0;
        version \<leftarrow> rd16 (pk_data packet) 1;
        Some ((20 \<le> content_type \<and> content_type \<le> 23) \<and>
              ((0x0300 \<le> version \<and> version \<le> 0x0304) \<or> version = 0x0100))
      })"

section \<open>The extension list\<close>

text \<open>
  One extension, after its type and length have been read: \<open>Inl name\<close> returns the server
  name, \<open>Inr pos\<close> continues from \<open>pos\<close>, which has moved past the fields that were looked at.
\<close>

definition sni_entry :: "u8 list \<Rightarrow> nat \<Rightarrow> nat \<Rightarrow> u16 \<Rightarrow> u16 \<Rightarrow> (string + nat) option" where
  "sni_entry data end_offset pos extension_type extension_length =
     (if extension_type = 0 \<and> pos + unat extension_length \<le> end_offset \<and> extension_length > 2 then
        do {
          list_length \<leftarrow> rd16 data pos;
          let pos = pos + 2;
          if list_length > 3 \<and> pos + unat list_length \<le> end_offset then
            do {
              name_type \<leftarrow> rd8 data pos;
              name_length \<leftarrow> rd16 data (pos + 1);
              let pos = pos + 3;
              if name_type = 0 \<and> pos + unat name_length \<le> end_offset then
                do { name \<leftarrow> rd_str data pos (unat name_length); Some (Inl name) }
              else Some (Inr pos)
            }
          else Some (Inr pos)
        }
      else Some (Inr pos))"

lemma sni_entry_advances: "sni_entry data e pos ty len = Some (Inr pos') \<Longrightarrow> pos \<le> pos'"
  by (auto simp: sni_entry_def Let_def split: if_splits Option.bind_splits)

function sni_loop :: "u8 list \<Rightarrow> nat \<Rightarrow> nat \<Rightarrow> string option option" where
  "sni_loop data end_offset pos =
     (if pos + 4 \<le> end_offset then
        case (rd16 data pos, rd16 data (pos + 2)) of
          (Some extension_type, Some extension_length) \<Rightarrow>
            (case sni_entry data end_offset (pos + 4) extension_type extension_length of
               None \<Rightarrow> None
             | Some (Inl name) \<Rightarrow> Some (Some name)
             | Some (Inr pos') \<Rightarrow> sni_loop data end_offset (pos' + unat extension_length))
        | _ \<Rightarrow> None
      else Some None)"
  by pat_completeness auto
termination
  by (relation "measure (\<lambda>(data, e, pos). e - pos)") (auto dest!: sni_entry_advances)

declare sni_loop.simps [simp del]

definition extractServerName :: "u8 list \<Rightarrow> nat \<Rightarrow> nat \<Rightarrow> string option option" where
  "extractServerName data offset len = sni_loop data (offset + len) offset"

section \<open>The record\<close>

text \<open>The part of \<^verbatim>\<open>parseTlsPacket\<close> that walks a ClientHello (lines 254 to 274).\<close>

definition client_hello_name :: "u8 list \<Rightarrow> string option option" where
  "client_hello_name data =
     do {
       session_id_length \<leftarrow> rd8 data 43;
       let off1 = 44 + unat session_id_length;
       if length data > off1 + 2 then
         do {
           cipher_suites_length \<leftarrow> rd16 data off1;
           let off2 = off1 + (2 + unat cipher_suites_length);
           if length data > off2 + 1 then
             do {
               compression_methods_length \<leftarrow> rd8 data off2;
               let off3 = off2 + (1 + unat compression_methods_length);
               if length data > off3 + 2 then
                 do {
                   extensions_length \<leftarrow> rd16 data off3;
                   extractServerName data (off3 + 2) (unat extensions_length)
                 }
               else Some None
             }
           else Some None
         }
       else Some None
     }"

definition parseTlsPacket :: "u8 list \<Rightarrow> tls_data option" where
  "parseTlsPacket data =
     (let d0 = new_tls_data\<lparr>tls_type := TLS\<rparr>
      in if length data < 5 then Some d0
         else do {
           content_type \<leftarrow> rd8 data 0;
           version \<leftarrow> rd16 data 1;
           let d1 = d0\<lparr>tls_content_type := content_type, tls_version := version,
                       tls_is_handshake := (content_type = 22)\<rparr>;
           if tls_is_handshake d1 \<and> length data \<ge> 6 then
             do {
               handshake_type \<leftarrow> rd8 data 5;
               let d2 = d1\<lparr>tls_is_client_hello := (handshake_type = 1), tls_is_server_hello := (handshake_type = 2)\<rparr>;
               if tls_is_client_hello d2 \<and> length data > 43 then
                 do { name \<leftarrow> client_hello_name data; Some (d2\<lparr>tls_server_name := name\<rparr>) }
               else Some d2
             }
           else Some d1
         })"

definition tls_parse :: "packet_info \<Rightarrow> tls_data option option" where
  "tls_parse packet =
     do {
       tls \<leftarrow> isTlsPacket packet;
       if \<not> tls then Some None
       else do { d \<leftarrow> parseTlsPacket (pk_data packet); Some (Some d) }
     }"

section \<open>When the reads stay inside the data\<close>

text \<open>The guards of the code protect the reads at fixed places and those of the lengths.\<close>

lemma rd_within: "i < length data \<Longrightarrow> rd8 data i = Some (data ! i)"
  "i + 1 < length data \<Longrightarrow> rd16 data i = Some (be16 (data ! i) (data ! (i + 1)))"
  by (simp_all add: rd8_def rd16_def)

lemma rd_header:
  assumes "\<not> length data < 5"
  shows "rd8 data 0 = Some (data ! 0)" "rd16 data 1 = Some (be16 (data ! 1) (data ! 2))"
proof -
  have "0 < length data" "1 + 1 < length data" using assms by linarith+
  then show "rd8 data 0 = Some (data ! 0)" "rd16 data 1 = Some (be16 (data ! 1) (data ! 2))"
    unfolding rd8_def rd16_def one_add_one by simp_all
qed

lemma isTlsPacket_reads:
  "isTlsPacket packet = Some (pk_protocol packet = IPPROTO_TCP \<and> 5 \<le> length (pk_data packet) \<and>
     20 \<le> pk_data packet ! 0 \<and> pk_data packet ! 0 \<le> 23 \<and>
     (let version = be16 (pk_data packet ! 1) (pk_data packet ! 2)
      in 0x0300 \<le> version \<and> version \<le> 0x0304 \<or> version = 0x0100))"
proof (cases "length (pk_data packet) < 5")
  case False
  then show ?thesis unfolding isTlsPacket_def rd_header [OF False] by (auto simp: Let_def)
qed (auto simp: isTlsPacket_def)

lemma client_hello_name_reads:
  assumes "43 < length data"
  shows "client_hello_name data =
     (let off1 = 44 + unat (data ! 43)
      in if length data > off1 + 2 then
           let off2 = off1 + (2 + unat (be16 (data ! off1) (data ! (off1 + 1))))
           in if length data > off2 + 1 then
                let off3 = off2 + (1 + unat (data ! off2))
                in if length data > off3 + 2 then
                     extractServerName data (off3 + 2) (unat (be16 (data ! off3) (data ! (off3 + 1))))
                   else Some None
              else Some None
         else Some None)"
proof -
  have "off + 2 < length data \<Longrightarrow> rd16 data off = Some (be16 (data ! off) (data ! (off + 1)))"
    "off + 1 < length data \<Longrightarrow> rd8 data off = Some (data ! off)" for off
    by (rule rd_within, simp)+
  then show ?thesis unfolding client_hello_name_def rd_within(1) [OF assms] by (simp add: Let_def)
qed

lemma parseTlsPacket_reads:
  "parseTlsPacket data =
     (let d0 = new_tls_data\<lparr>tls_type := TLS\<rparr>
      in if length data < 5 then Some d0
         else
           let d1 = d0\<lparr>tls_content_type := data ! 0, tls_version := be16 (data ! 1) (data ! 2),
                       tls_is_handshake := (data ! 0 = 22)\<rparr>
           in if tls_is_handshake d1 \<and> length data \<ge> 6 then
                let d2 = d1\<lparr>tls_is_client_hello := (data ! 5 = 1), tls_is_server_hello := (data ! 5 = 2)\<rparr>
                in if tls_is_client_hello d2 \<and> length data > 43 then
                     map_option (\<lambda>name. d2\<lparr>tls_server_name := name\<rparr>) (client_hello_name data)
                   else Some d2
              else Some d1)"
proof (cases "length data < 5")
  case False
  have "6 \<le> length data \<Longrightarrow> rd8 data 5 = Some (data ! 5)" by (rule rd_within) simp
  then show ?thesis unfolding parseTlsPacket_def rd_header [OF False] using False
    by (cases "client_hello_name data") (auto simp: Let_def)
qed (simp add: parseTlsPacket_def)

lemma sni_entry_safe:
  "end_offset \<le> length data \<Longrightarrow> sni_entry data end_offset pos ty len \<noteq> None"
  by (auto simp: sni_entry_def Let_def rd16_def rd8_def rd_str_def word_less_nat_alt
      split: if_splits Option.bind_splits)

lemma sni_loop_safe: "end_offset \<le> length data \<Longrightarrow> sni_loop data end_offset pos \<noteq> None"
proof (induction data end_offset pos rule: sni_loop.induct)
  case (1 data e pos)
  show ?case
  proof (cases "pos + 4 \<le> e")
    case True
    with "1.prems" have r: "rd16 data pos \<noteq> None" "rd16 data (pos + 2) \<noteq> None"
      by (simp_all add: rd16_def)
    then obtain ty len where t: "rd16 data pos = Some ty" "rd16 data (pos + 2) = Some len" by blast
    obtain x where x: "sni_entry data e (pos + 4) ty len = Some x"
      using sni_entry_safe [OF "1.prems"] by blast
    show ?thesis
    proof (cases x)
      case (Inl name)
      with True t x show ?thesis by (subst sni_loop.simps) simp
    next
      case (Inr pos')
      with "1.IH" [OF True refl t x _ "1.prems"] True t x show ?thesis
        by (subst sni_loop.simps) simp
    qed
  next
    case False
    then show ?thesis by (subst sni_loop.simps) simp
  qed
qed

section \<open>Encoding a ClientHello\<close>

text \<open>
  The wire form of an extension, of the server name extension (RFC 6066) and of a ClientHello
  whose first 43 bytes are \<open>hdr\<close>.
\<close>

definition ext_bytes :: "u16 \<times> u8 list \<Rightarrow> u8 list" where
  "ext_bytes x = bytes16 (fst x) @ bytes16 (of_nat (length (snd x))) @ snd x"

definition exts_bytes :: "(u16 \<times> u8 list) list \<Rightarrow> u8 list" where
  "exts_bytes xs = concat (map ext_bytes xs)"

definition sni_body :: "u8 list \<Rightarrow> u8 list" where
  "sni_body name = bytes16 (of_nat (length name + 3)) @ [0] @ bytes16 (of_nat (length name)) @ name"

definition hello_prefix :: "u8 list \<Rightarrow> u8 list \<Rightarrow> u8 list \<Rightarrow> u8 list \<Rightarrow> u16 \<Rightarrow> u8 list" where
  "hello_prefix hdr sid ciphers comps ext_len =
     hdr @ [of_nat (length sid)] @ sid @ bytes16 (of_nat (length ciphers)) @ ciphers
       @ [of_nat (length comps)] @ comps @ bytes16 ext_len"

definition client_hello ::
    "u8 list \<Rightarrow> u8 list \<Rightarrow> u8 list \<Rightarrow> u8 list \<Rightarrow> u16 \<Rightarrow> u8 list \<Rightarrow> u8 list" where
  "client_hello hdr sid ciphers comps ext_len exts = hello_prefix hdr sid ciphers comps ext_len @ exts"

definition other_ext :: "u16 \<times> u8 list \<Rightarrow> bool" where
  "other_ext x \<longleftrightarrow> fst x \<noteq> 0 \<and> length (snd x) < 2 ^ 16"

lemma unat_of_nat16: "n < 2 ^ 16 \<Longrightarrow> unat (of_nat n :: u16) = n"
  by (simp add: unat_of_nat)

lemma unat_of_nat8: "n < 2 ^ 8 \<Longrightarrow> unat (of_nat n :: u8) = n"
  by (simp add: unat_of_nat)

lemma length_ext_bytes: "length (ext_bytes x) = 4 + length (snd x)"
  by (simp add: ext_bytes_def)

lemma rd16_ext:
  "rd16 (xs @ ext_bytes x @ ys) (length xs) = Some (fst x)"
  "rd16 (xs @ ext_bytes x @ ys) (length xs + 2) = Some (of_nat (length (snd x)))"
  using rd16_at [of xs "fst x" "bytes16 (of_nat (length (snd x))) @ snd x @ ys"]
    rd16_at [of "xs @ bytes16 (fst x)" "of_nat (length (snd x))" "snd x @ ys"]
  by (simp_all add: ext_bytes_def)

text \<open>Extensions of another type are skipped one by one.\<close>

lemma sni_loop_skip:
  "list_all other_ext xs \<Longrightarrow> length pre + length (exts_bytes xs) \<le> e \<Longrightarrow>
   sni_loop (pre @ exts_bytes xs @ post) e (length pre)
     = sni_loop (pre @ exts_bytes xs @ post) e (length pre + length (exts_bytes xs))"
proof (induction xs arbitrary: pre)
  case (Cons x xs)
  let ?data = "pre @ ext_bytes x @ exts_bytes xs @ post"
  have x: "fst x \<noteq> 0" "unat (of_nat (length (snd x)) :: u16) = length (snd x)"
    using Cons.prems(1) by (simp_all add: other_ext_def unat_of_nat)
  have len: "length pre + 4 \<le> e"
    using Cons.prems(2) by (simp add: exts_bytes_def length_ext_bytes)
  have "sni_loop ?data e (length pre) = sni_loop ?data e (length (pre @ ext_bytes x))"
    using x len rd16_ext [of pre x "exts_bytes xs @ post"]
    by (subst sni_loop.simps) (simp add: sni_entry_def length_ext_bytes add.assoc)
  also have "\<dots> = sni_loop ?data e (length (pre @ ext_bytes x) + length (exts_bytes xs))"
    using Cons.IH [of "pre @ ext_bytes x"] Cons.prems by (simp add: exts_bytes_def add.assoc)
  finally show ?case by (simp add: exts_bytes_def add.assoc)
qed (simp add: exts_bytes_def)

lemma sni_entry_found:
  assumes "0 < length name" and "length name + 5 < 2 ^ 16"
    and "length pre + length (sni_body name) \<le> e"
  shows "sni_entry (pre @ sni_body name @ post) e (length pre) 0 (of_nat (length (sni_body name)))
    = Some (Inl (str_of_bytes name))"
proof -
  let ?data = "pre @ sni_body name @ post"
  have len: "length (sni_body name) = length name + 5" by (simp add: sni_body_def)
  have r1: "rd16 ?data (length pre) = Some (of_nat (length name + 3))"
    using rd16_at [of pre "of_nat (length name + 3)"] by (simp add: sni_body_def)
  have r2: "rd8 ?data (length pre + 2) = Some 0"
    using rd8_at [of "pre @ bytes16 (of_nat (length name + 3))"] by (simp add: sni_body_def)
  have r3: "rd16 ?data (length pre + 2 + 1) = Some (of_nat (length name))"
    using rd16_at [of "pre @ bytes16 (of_nat (length name + 3)) @ [0]" "of_nat (length name)" "name @ post"]
    by (simp add: sni_body_def numeral_3_eq_3)
  have r4: "rd_str ?data (length pre + 2 + 3) (length name) = Some (str_of_bytes name)"
    using rd_str_at [of "pre @ bytes16 (of_nat (length name + 3)) @ [0] @ bytes16 (of_nat (length name))" name post]
    by (simp add: sni_body_def numeral_eq_Suc)
  have u: "unat (of_nat (length name + 3) :: u16) = length name + 3"
    "unat (of_nat (length name) :: u16) = length name"
    "unat (of_nat (length name + 5) :: u16) = length name + 5"
    by (rule unat_of_nat16, use assms in simp)+
  show ?thesis
    unfolding sni_entry_def len
    using assms r1 r2 r3 r4 u by (simp add: len word_less_nat_alt Let_def del: of_nat_add)
qed

lemma sni_loop_found:
  assumes "list_all other_ext xs" and "0 < length name" and "length name + 5 < 2 ^ 16"
    and "length pre + length (exts_bytes (xs @ [(0, sni_body name)])) \<le> e"
  shows "sni_loop (pre @ exts_bytes (xs @ [(0, sni_body name)]) @ post) e (length pre)
    = Some (Some (str_of_bytes name))"
proof -
  let ?pre = "pre @ exts_bytes xs"
  let ?data = "?pre @ ext_bytes (0, sni_body name) @ post"
  have len: "length ?pre + 4 + length (sni_body name) \<le> e"
    using assms(4) by (simp add: exts_bytes_def length_ext_bytes)
  have "sni_loop ?data e (length pre) = sni_loop ?data e (length ?pre)"
    using sni_loop_skip [OF assms(1), of pre e "ext_bytes (0, sni_body name) @ post"] len by simp
  also have "\<dots> = Some (Some (str_of_bytes name))"
    using sni_entry_found [OF assms(2,3), of "?pre @ bytes16 0 @ bytes16 (of_nat (length (sni_body name)))" e post]
      rd16_ext [of ?pre "(0, sni_body name)" post] len
    by (subst sni_loop.simps) (simp add: ext_bytes_def add.assoc)
  finally show ?thesis by (simp add: exts_bytes_def)
qed

text \<open>The walk to the extension block of an encoded ClientHello.\<close>

lemma client_hello_walk:
  assumes "length hdr = 43" and "length sid < 256" and "length ciphers < 2 ^ 16" and "length comps < 256"
    and "exts \<noteq> []"
  shows "client_hello_name (client_hello hdr sid ciphers comps ext_len exts)
    = extractServerName (client_hello hdr sid ciphers comps ext_len exts)
        (length (hello_prefix hdr sid ciphers comps ext_len)) (unat ext_len)"
proof -
  let ?d = "client_hello hdr sid ciphers comps ext_len exts"
  let ?p1 = "hdr @ [of_nat (length sid)] @ sid"
  let ?p2 = "?p1 @ bytes16 (of_nat (length ciphers)) @ ciphers"
  let ?p3 = "?p2 @ [of_nat (length comps)] @ comps"
  have s: "unat (?d ! 43) = length sid"
    using assms(1,2) unat_of_nat8 [of "length sid"] by (simp add: client_hello_def hello_prefix_def nth_append)
  have c: "unat (be16 (?d ! length ?p1) (?d ! (length ?p1 + 1))) = length ciphers"
    using be16_at [of "length ?p1" ?p1 "of_nat (length ciphers)"] unat_of_nat16 [OF assms(3)]
    by (simp add: client_hello_def hello_prefix_def)
  have m: "unat (?d ! length ?p2) = length comps"
    using nth_append_length [of ?p2 "of_nat (length comps)" "comps @ bytes16 ext_len @ exts"]
      unat_of_nat8 [of "length comps"] assms(4)
    by (simp add: client_hello_def hello_prefix_def)
  have x: "be16 (?d ! length ?p3) (?d ! (length ?p3 + 1)) = ext_len"
    using be16_at [of "length ?p3" ?p3 ext_len exts] by (simp add: client_hello_def hello_prefix_def)
  have off: "44 + length sid = length ?p1" "length ?p1 + (2 + length ciphers) = length ?p2"
    "length ?p2 + (1 + length comps) = length ?p3"
    using assms(1) by simp_all
  have len: "length ?d = length ?p3 + 2 + length exts" by (simp add: client_hello_def hello_prefix_def)
  have long: "43 < length ?d" using assms(1) unfolding len by simp
  have "length ?p1 + 2 < length ?d" "length ?p2 + 1 < length ?d" "length ?p3 + 2 < length ?d"
    using assms(5) unfolding len by auto
  then show ?thesis
    unfolding client_hello_name_reads [OF long] Let_def s off(1) c off(2) m off(3) x len
    by (simp add: hello_prefix_def numeral_eq_Suc)
qed

lemma client_hello_record:
  assumes "length hdr = 43" and "hdr ! 0 = 22" and "hdr ! 5 = 1" and "exts \<noteq> []"
  shows "parseTlsPacket (client_hello hdr sid ciphers comps ext_len exts) =
    map_option (\<lambda>n. \<lparr>tls_type = TLS, tls_content_type = 22, tls_version = be16 (hdr ! 1) (hdr ! 2),
        tls_is_handshake = True, tls_is_client_hello = True, tls_is_server_hello = False,
        tls_server_name = n\<rparr>)
      (client_hello_name (client_hello hdr sid ciphers comps ext_len exts))"
proof -
  let ?d = "client_hello hdr sid ciphers comps ext_len exts"
  have n: "?d ! i = hdr ! i" if "i < 43" for i
    using that assms(1) by (simp add: client_hello_def hello_prefix_def nth_append)
  have len: "43 < length ?d" using assms(1) by (simp add: client_hello_def hello_prefix_def)
  then have "\<not> length ?d < 5" "6 \<le> length ?d" by simp_all
  then show ?thesis
    using len assms(2,3)
    by (cases "client_hello_name ?d") (simp_all add: parseTlsPacket_reads Let_def n new_tls_data_def)
qed

lemma truncated_hello_none:
  assumes "length hdr = 43" "hdr ! 0 = 22" "hdr ! 5 = 1"
    and "length sid < 256" "length ciphers < 2 ^ 16" "length comps < 256"
    and "list_all other_ext xs" "xs \<noteq> []"
    and "length (exts_bytes xs) + 4 \<le> unat ext_len"
  shows "parseTlsPacket (client_hello hdr sid ciphers comps ext_len (exts_bytes xs)) = None"
proof -
  let ?pre = "hello_prefix hdr sid ciphers comps ext_len"
  let ?d = "client_hello hdr sid ciphers comps ext_len (exts_bytes xs)"
  obtain x ys where "xs = x # ys" using assms(8) by (cases xs) auto
  then have ne: "exts_bytes xs \<noteq> []" by (simp add: exts_bytes_def ext_bytes_def bytes16_def)
  have d: "?d = ?pre @ exts_bytes xs @ []" by (simp add: client_hello_def)
  let ?e = "length ?pre + unat ext_len"
  have "client_hello_name ?d = sni_loop ?d ?e (length ?pre)"
    unfolding client_hello_walk [OF assms(1,4-6) ne] extractServerName_def ..
  also have "\<dots> = sni_loop ?d ?e (length ?d)"
    unfolding d using sni_loop_skip [OF assms(7), of ?pre ?e "[]"] assms(9) by simp
  also have "\<dots> = None"
    using assms(9) by (subst sni_loop.simps) (simp add: d rd16_def)
  finally show ?thesis
    unfolding client_hello_record [OF assms(1-3) ne] by simp
qed

section \<open>Properties\<close>

text \<open>
  C10: The server name of a ClientHello is found. For every well-formed ClientHello (any
  session id, cipher suites, compression methods, any number of other extensions before the
  server name extension and any bytes after it), in which the declared extension length
  covers the server name extension, the parser returns a client hello whose server name is
  exactly the bytes of the nonempty host name that was encoded.
\<close>

theorem tls_server_name_extracted:
  assumes "length hdr = 43" "hdr ! 0 = 22" "hdr ! 5 = 1"
    and "length sid < 256" "length ciphers < 2 ^ 16" "length comps < 256"
    and "list_all other_ext before" "0 < length name" "length name + 5 < 2 ^ 16"
    and "length (exts_bytes (before @ [(0, sni_body name)])) \<le> unat ext_len"
  shows "parseTlsPacket (client_hello hdr sid ciphers comps ext_len
      (exts_bytes (before @ [(0, sni_body name)]) @ after))
    = Some \<lparr>tls_type = TLS, tls_content_type = 22, tls_version = be16 (hdr ! 1) (hdr ! 2),
        tls_is_handshake = True, tls_is_client_hello = True, tls_is_server_hello = False,
        tls_server_name = Some (str_of_bytes name)\<rparr>"
proof -
  let ?x = "exts_bytes (before @ [(0, sni_body name)])"
  let ?pre = "hello_prefix hdr sid ciphers comps ext_len"
  let ?d = "client_hello hdr sid ciphers comps ext_len (?x @ after)"
  have ne: "?x @ after \<noteq> []" by (simp add: exts_bytes_def ext_bytes_def bytes16_def)
  have d: "?d = ?pre @ ?x @ after" by (simp add: client_hello_def)
  have "client_hello_name ?d = extractServerName ?d (length ?pre) (unat ext_len)"
    unfolding client_hello_walk [OF assms(1,4-6) ne] ..
  also have "\<dots> = Some (Some (str_of_bytes name))"
    unfolding extractServerName_def d
    by (rule sni_loop_found [OF assms(7-9)]) (use assms(10) in simp)
  finally show ?thesis
    unfolding client_hello_record [OF assms(1-3) ne] by simp
qed

definition sample_hello_hdr :: "u8 list" where
  "sample_hello_hdr = [22, 3, 1, 0, 80, 1] @ replicate 37 0"

theorem tls_server_name_extracted_witness:
  "tls_server_name (the (parseTlsPacket (client_hello sample_hello_hdr [9] [19, 1] [0] 24
     (exts_bytes ([(23, [7, 7])] @ [(0, sni_body (bytes_of_str ''a.io''))]) @ [0, 9])))) = Some ''a.io''"
proof -
  have h: "length sample_hello_hdr = 43" "sample_hello_hdr ! 0 = 22" "sample_hello_hdr ! 5 = 1"
    by (simp_all add: sample_hello_hdr_def)
  have l: "length (exts_bytes ([(23, [7, 7])] @ [(0, sni_body (bytes_of_str ''a.io''))])) \<le> unat (24 :: u16)"
    by (simp add: exts_bytes_def ext_bytes_def sni_body_def)
  show ?thesis
    by (subst tls_server_name_extracted [OF h, where name = "bytes_of_str ''a.io''"])
      (use l in \<open>simp_all add: other_ext_def\<close>)
qed

text \<open>Where the lengths of the fields before it put the length of the extension block.\<close>

definition extensions_at :: "u8 list \<Rightarrow> nat" where
  "extensions_at data =
     (let ciphers_at = 44 + unat (data ! 43);
          compression_at = ciphers_at + 2 + unat (be16 (data ! ciphers_at) (data ! (ciphers_at + 1)))
      in compression_at + 1 + unat (data ! compression_at))"

text \<open>
  C11: The parser reads outside the data only by trusting the extension length. Every other
  index that \<open>parseTlsPacket\<close> and \<open>extractServerName\<close> use, on any input of any length, is
  inside the data: if the parser does read out of bounds, the input is a ClientHello that is long
  enough for all its fields up to the extension block, and the length that it declares for that
  block reaches past the end of the data.
\<close>

theorem tls_overread_only_by_extension_length:
  assumes "parseTlsPacket data = None"
  shows "data ! 0 = 22 \<and> data ! 5 = 1 \<and> 43 < length data \<and>
    extensions_at data + 2 < length data \<and>
    length data < extensions_at data + 2 + unat (be16 (data ! extensions_at data) (data ! (extensions_at data + 1)))"
proof -
  have hello: "data ! 0 = 22" "data ! 5 = 1" "43 < length data" "client_hello_name data = None"
    using assms
    by (auto simp: parseTlsPacket_reads Let_def new_tls_data_def split: if_splits)
  let ?o3 = "extensions_at data"
  have g: "?o3 + 2 < length data"
    "extractServerName data (?o3 + 2) (unat (be16 (data ! ?o3) (data ! (?o3 + 1)))) = None"
    using hello(4) unfolding client_hello_name_reads [OF hello(3)] extensions_at_def Let_def
    by (auto split: if_splits simp: add.assoc)
  then have "length data < ?o3 + 2 + unat (be16 (data ! ?o3) (data ! (?o3 + 1)))"
    unfolding extractServerName_def using sni_loop_safe not_le by blast
  with g(1) hello(1-3) show ?thesis by blast
qed

text \<open>
  A truncated ClientHello makes the parser read past the end of the packet. If the data
  ends after any number of complete extensions of other types while the declared extension
  length promises at least four more bytes (a ClientHello cut by the capture length or by
  TCP segmentation, or a crafted packet), the loop's bound \<open>end_offset\<close> is beyond the vector
  and the next extension header is read out of bounds.
\<close>

theorem tls_truncated_hello_overreads:
  assumes "length hdr = 43" "hdr ! 0 = 22" "hdr ! 5 = 1"
    and "length sid < 256" "length ciphers < 2 ^ 16" "length comps < 256"
    and "list_all other_ext xs" "xs \<noteq> []"
    and "length (exts_bytes xs) + 4 \<le> unat ext_len"
  shows "parseTlsPacket (client_hello hdr sid ciphers comps ext_len (exts_bytes xs)) = None"
  using assms by (rule truncated_hello_none)

theorem tls_truncated_hello_overreads_witness:
  "parseTlsPacket (client_hello sample_hello_hdr [] [19, 1] [0] 200 (exts_bytes [(23, [7])])) = None"
  by (rule tls_truncated_hello_overreads)
    (simp_all add: sample_hello_hdr_def other_ext_def exts_bytes_def ext_bytes_def)

theorem tls_overread_only_by_extension_length_witness:
  "let data = client_hello sample_hello_hdr [] [19, 1] [0] 200 (exts_bytes [(23, [7])])
   in extensions_at data + 2 < length data \<and>
      length data < extensions_at data + 2 + unat (be16 (data ! extensions_at data) (data ! (extensions_at data + 1)))"
proof -
  have "parseTlsPacket (client_hello sample_hello_hdr [] [19, 1] [0] 200 (exts_bytes [(23, [7])])) = None"
    by (rule truncated_hello_none)
      (simp_all add: sample_hello_hdr_def other_ext_def exts_bytes_def ext_bytes_def)
  then show ?thesis
    unfolding Let_def
    by (rule tls_overread_only_by_extension_length [THEN conjunct2, THEN conjunct2, THEN conjunct2])
qed

end
