(* ===== verification/Protocol_Parser.thy ===== *)
theory Protocol_Parser
  imports Http_Parser Tls_Parser
begin

text \<open>
  The DNS parser, the \<^verbatim>\<open>ProtocolParser\<close> interface with its three implementations and the
  factory of \<^verbatim>\<open>src/network/protocol_handlers/protocol_parser.cpp\<close>.
\<close>

section \<open>DNS\<close>

definition isDnsPacket :: "packet_info \<Rightarrow> bool" where
  "isDnsPacket packet \<longleftrightarrow>
     (pk_protocol packet = IPPROTO_UDP \<and> (pk_source_port packet = 53 \<or> pk_dest_port packet = 53)) \<or>
     (pk_protocol packet = IPPROTO_TCP \<and> (pk_source_port packet = 53 \<or> pk_dest_port packet = 53))"

text \<open>The two counts are read and not used.\<close>

definition parseDnsPacket :: "u8 list \<Rightarrow> dns_data option" where
  "parseDnsPacket data =
     (let d0 = new_dns_data\<lparr>dns_type := DNS\<rparr>
      in if length data < 12 then Some d0
         else do {
           transaction_id \<leftarrow> rd16 data 0;
           flags \<leftarrow> rd16 data 2;
           questions \<leftarrow> rd16 data 4;
           answers \<leftarrow> rd16 data 6;
           Some (d0\<lparr>dns_transaction_id := transaction_id, dns_is_query := (flags AND 0x8000 = 0)\<rparr>)
         })"

definition dns_parse :: "packet_info \<Rightarrow> dns_data option option" where
  "dns_parse packet =
     (if \<not> isDnsPacket packet then Some None
      else do { d \<leftarrow> parseDnsPacket (pk_data packet); Some (Some d) })"

lemma parseDnsPacket_reads:
  "parseDnsPacket data = Some
     (if length data < 12 then new_dns_data\<lparr>dns_type := DNS\<rparr>
      else new_dns_data\<lparr>dns_type := DNS, dns_transaction_id := be16 (data ! 0) (data ! 1),
             dns_is_query := (be16 (data ! 2) (data ! 3) AND 0x8000 = 0)\<rparr>)"
proof (cases "length data < 12")
  case False
  then have "rd16 data 0 = Some (be16 (data ! 0) (data ! 1))" "rd16 data 2 = Some (be16 (data ! 2) (data ! 3))"
    "rd16 data 4 = Some (be16 (data ! 4) (data ! 5))" "rd16 data 6 = Some (be16 (data ! 6) (data ! 7))"
    using rd_within(2) [of 0 data] rd_within(2) [of 2 data] rd_within(2) [of 4 data] rd_within(2) [of 6 data] by simp_all
  then show ?thesis using False by (simp add: parseDnsPacket_def)
qed (simp add: parseDnsPacket_def)

lemma dns_parse_reads: "dns_parse packet = Some (if isDnsPacket packet then parseDnsPacket (pk_data packet) else None)"
  by (simp add: dns_parse_def parseDnsPacket_reads)

section \<open>Parsers and the factory\<close>

datatype protocol_parser = HttpParser | DnsParser | TlsParser

fun getProtocolType :: "protocol_parser \<Rightarrow> protocol_type" where
  "getProtocolType HttpParser = HTTP"
| "getProtocolType DnsParser = DNS"
| "getProtocolType TlsParser = TLS"

text \<open>
  The virtual \<open>parse\<close>: the outer \<open>None\<close> is a read out of bounds, the inner one the null
  pointer that says "not this protocol".
\<close>

fun parse :: "protocol_parser \<Rightarrow> packet_info \<Rightarrow> protocol_data option option" where
  "parse HttpParser packet = Some (map_option HttpData (http_parse packet))"
| "parse DnsParser packet = map_option (map_option DnsData) (dns_parse packet)"
| "parse TlsParser packet = map_option (map_option TlsData) (tls_parse packet)"

definition createAllParsers :: "protocol_parser list" where
  "createAllParsers = [HttpParser, DnsParser, TlsParser]"

fun createParser :: "protocol_type \<Rightarrow> protocol_parser option" where
  "createParser HTTP = Some HttpParser"
| "createParser DNS = Some DnsParser"
| "createParser TLS = Some TlsParser"
| "createParser _ = None"

fun_cases parse_http: "parse HttpParser p = Some (Some d)"
fun_cases parse_dns: "parse DnsParser p = Some (Some d)"
fun_cases parse_tls: "parse TlsParser p = Some (Some d)"

lemma http_type_parse:
  "http_type (parseHttpRequest data) = HTTP" "http_type (parseHttpResponse data) = HTTP"
  by (auto simp: parseHttpRequest_def parseHttpResponse_def Let_def new_http_data_def
      split: option.splits)

lemma dns_type_parse: "parseDnsPacket data = Some d \<Longrightarrow> dns_type d = DNS"
  by (auto simp: parseDnsPacket_reads new_dns_data_def)

lemma tls_type_parse: "parseTlsPacket data = Some d \<Longrightarrow> tls_type d = TLS"
  by (auto simp: parseTlsPacket_reads Let_def new_tls_data_def split: if_splits)

lemma parse_type: "parse q p = Some (Some d) \<Longrightarrow> pd_type d = getProtocolType q"
  by (cases q)
    (auto simp: http_parse_def dns_parse_def tls_parse_def http_type_parse
      split: if_splits Option.bind_splits dest: tls_type_parse dns_type_parse)

section \<open>Properties\<close>

text \<open>
  Parsers, their declared types and the factory agree. Whatever a parser returns carries
  the type the parser declares; the factory builds for a type exactly the registered parser
  that declares it, and nothing for the other types.
\<close>

theorem parser_factory_consistent:
  "(\<forall>p d. parse q p = Some (Some d) \<longrightarrow> pd_type d = getProtocolType q)
   \<and> (createParser t = Some q \<longleftrightarrow> q \<in> set createAllParsers \<and> getProtocolType q = t)
   \<and> (createParser t = None \<longleftrightarrow> t \<notin> getProtocolType ` set createAllParsers)"
  by (intro conjI allI impI) (auto dest: parse_type simp: createAllParsers_def; cases t; cases q; simp)+

theorem parser_factory_consistent_witness:
  "pd_type (HttpData (parseHttpRequest (bytes_of_str (''GET / HTTP/1.0'' @ crlf @ crlf))))
   = getProtocolType HttpParser"
proof -
  let ?p = "sample_http_packet (''GET / HTTP/1.0'' @ crlf @ crlf) 40000 80"
  have "isHttpPacket ?p"
    by (rule isHttp_method [of "''GET''" _ "''/ HTTP/1.0'' @ crlf @ crlf"])
      (simp_all add: http_methods_def sample_http_packet_def)
  then have "parse HttpParser ?p
      = Some (Some (HttpData (parseHttpRequest (bytes_of_str (''GET / HTTP/1.0'' @ crlf @ crlf)))))"
    by (simp add: http_parse_def sample_http_packet_def)
  then show ?thesis using parser_factory_consistent [of HttpParser HTTP] by blast
qed

text \<open>
  DNS header fields, and what becomes of them over TCP. For every DNS message that
  starts with the identifier and the flags and has the twelve header bytes, the parser
  returns that identifier and reports a query exactly when the top flag bit is clear. Over
  TCP the message is preceded by its two-byte length (RFC 1035, 4.2.2), which the parser
  does not skip: there the returned identifier is the length, and the query bit is taken
  from the identifier.
\<close>

theorem dns_header_fields:
  assumes "8 \<le> length rest"
  shows "parseDnsPacket (bytes16 ident @ bytes16 flags @ rest)
      = Some (new_dns_data\<lparr>dns_type := DNS, dns_transaction_id := ident, dns_is_query := \<not> bit flags 15\<rparr>)
    \<and> parseDnsPacket (bytes16 len @ bytes16 ident @ bytes16 flags @ rest)
      = Some (new_dns_data\<lparr>dns_type := DNS, dns_transaction_id := len, dns_is_query := \<not> bit ident 15\<rparr>)"
proof -
  have b: "(w AND 0x8000 = 0) = (\<not> bit w 15)" for w :: u16
    using and_exp_eq_0_iff_not_bit [of w 15] by simp
  have be: "be16 (bytes16 w ! 0) (bytes16 w ! 1) = w" for w
    by (simp add: bytes16_def)
  have n: "(bytes16 a @ bytes16 c @ r) ! 0 = bytes16 a ! 0" "(bytes16 a @ bytes16 c @ r) ! 1 = bytes16 a ! 1"
    "(bytes16 a @ bytes16 c @ r) ! 2 = bytes16 c ! 0" "(bytes16 a @ bytes16 c @ r) ! 3 = bytes16 c ! 1"
    for a c r
    by (simp_all add: bytes16_def)
  show ?thesis
    using assms by (simp only: parseDnsPacket_reads n be b) (simp add: new_dns_data_def)
qed

theorem dns_header_fields_witness:
  "map_option dns_transaction_id (parseDnsPacket (bytes16 29 @ bytes16 0x1234 @ bytes16 0x8180 @ replicate 8 0)) = Some 29"
  using dns_header_fields [of "replicate 8 0"] by (simp add: new_dns_data_def)

end
