(* ===== verification/Std_Sort.thy ===== *)
theory Std_Sort
  imports Prelude
begin

text \<open>
  \<^verbatim>\<open>std::sort\<close> with a user comparator. The standard requires the comparator to be a strict
  weak order (the locale); the result is then an ordered permutation. Which of several
  equivalent elements comes first is not specified: the model is a stable insertion sort of
  the input, and since its input is an arbitrary listing of a hash map, every order the
  library could produce is the result for some listing.
\<close>

fun insert_by :: "('a \<Rightarrow> 'a \<Rightarrow> bool) \<Rightarrow> 'a \<Rightarrow> 'a list \<Rightarrow> 'a list" where
  "insert_by cmp x [] = [x]"
| "insert_by cmp x (y # ys) = (if cmp y x then y # insert_by cmp x ys else x # y # ys)"

definition std_sort :: "('a \<Rightarrow> 'a \<Rightarrow> bool) \<Rightarrow> 'a list \<Rightarrow> 'a list" where
  "std_sort cmp xs = foldr (insert_by cmp) xs []"

lemma mset_insert_by [simp]: "mset (insert_by cmp x xs) = add_mset x (mset xs)"
  by (induction xs) auto

lemma mset_std_sort [simp]: "mset (std_sort cmp xs) = mset xs"
  by (induction xs) (simp_all add: std_sort_def)

lemma set_std_sort [simp]: "set (std_sort cmp xs) = set xs"
  by (metis mset_std_sort set_mset_mset)

lemma length_std_sort [simp]: "length (std_sort cmp xs) = length xs"
  by (metis mset_std_sort size_mset)

locale strict_weak_order =
  fixes cmp :: "'a \<Rightarrow> 'a \<Rightarrow> bool"
  assumes asym: "cmp x y \<Longrightarrow> \<not> cmp y x"
    and incomp_trans: "\<not> cmp x y \<Longrightarrow> \<not> cmp y z \<Longrightarrow> \<not> cmp x z"
begin

lemma sorted_insert_by:
  "sorted_wrt (\<lambda>a b. \<not> cmp b a) xs \<Longrightarrow> sorted_wrt (\<lambda>a b. \<not> cmp b a) (insert_by cmp x xs)"
proof (induction xs)
  case (Cons y ys)
  have s: "set (insert_by cmp x ys) = insert x (set ys)"
    by (metis mset_insert_by set_mset_add_mset_insert set_mset_mset)
  show ?case
  proof (cases "cmp y x")
    case True
    with Cons s show ?thesis by (auto dest: asym)
  next
    case False
    with Cons.prems show ?thesis by (auto dest: incomp_trans)
  qed
qed simp

lemma sorted_std_sort: "sorted_wrt (\<lambda>a b. \<not> cmp b a) (std_sort cmp xs)"
  by (induction xs) (simp_all add: std_sort_def sorted_insert_by)

text \<open>The first \<open>n\<close> of the ordered list: nothing left out precedes anything taken.\<close>

lemma take_std_sort_top:
  assumes "a \<in> set (take n (std_sort cmp xs))" and "b \<in> set (drop n (std_sort cmp xs))"
  shows "\<not> cmp b a"
proof -
  have "sorted_wrt (\<lambda>a b. \<not> cmp b a)
      (take n (std_sort cmp xs) @ drop n (std_sort cmp xs))"
    using sorted_std_sort by simp
  with assms show ?thesis unfolding sorted_wrt_append by blast
qed

lemma sorted_take_std_sort: "sorted_wrt (\<lambda>a b. \<not> cmp b a) (take n (std_sort cmp xs))"
  using sorted_std_sort [of xs] by (metis append_take_drop_id sorted_wrt_append)

end

text \<open>The first \<open>n\<close> entries of a map, in the order of the comparator.\<close>

lemma top_entries:
  assumes cmp: "strict_weak_order cmp" and l: "listing m es" and r: "r = take n (std_sort cmp es)"
  shows "length r = min n (card (dom m))" and "distinct (map fst r)"
    and "(k, v) \<in> set r \<Longrightarrow> m k = Some v" and "sorted_wrt (\<lambda>a b. \<not> cmp b a) r"
    and "m k = Some v \<Longrightarrow> (k, v) \<notin> set r \<Longrightarrow> e \<in> set r \<Longrightarrow> \<not> cmp (k, v) e"
proof -
  have d: "distinct (map fst (std_sort cmp es))"
    using l mset_eq_imp_distinct_iff [of "map fst (std_sort cmp es)" "map fst es"]
    by (simp add: listing_def)
  have parts: "set (std_sort cmp es) = set r \<union> set (drop n (std_sort cmp es))"
    unfolding r by (metis append_take_drop_id set_append)
  have mem: "(k, v) \<in> set (std_sort cmp es) \<longleftrightarrow> m k = Some v" for k v
    using listing_mem [OF l] by simp
  show "length r = min n (card (dom m))" using listing_length [OF l] by (simp add: r min_def)
  show "distinct (map fst r)" using d by (simp add: r take_map [symmetric])
  show "(k, v) \<in> set r \<Longrightarrow> m k = Some v" using mem parts by blast
  show "sorted_wrt (\<lambda>a b. \<not> cmp b a) r"
    unfolding r by (rule strict_weak_order.sorted_take_std_sort [OF cmp])
  show "m k = Some v \<Longrightarrow> (k, v) \<notin> set r \<Longrightarrow> e \<in> set r \<Longrightarrow> \<not> cmp (k, v) e"
    using strict_weak_order.take_std_sort_top [OF cmp] mem parts r by blast
qed

end
