(* ===== verification/Packet_Analyzer.thy ===== *)
theory Packet_Analyzer
  imports Protocol_Parser Circular_Buffer Std_Sort
begin

text \<open>
  \<^verbatim>\<open>src/network/packet_analyzer.cpp\<close>: connections keyed by a normalised pair of endpoints,
  traffic per host, and protocol classification. Every public method holds the object's
  mutex. The hash maps are finite maps; a method that iterates takes the order in which the
  map is visited as an argument (a \<open>listing\<close>).
\<close>

section \<open>State\<close>

record connection_key =
  ck_source_ip :: string
  ck_dest_ip :: string
  ck_source_port :: u16
  ck_dest_port :: u16
  ck_protocol :: u8

text \<open>
  \<^verbatim>\<open>operator==\<close> is equality of the records. The hash combines the \<open>std::hash\<close> values of the
  fields, which the standard leaves open.
\<close>

definition ConnectionKeyHash ::
    "(string \<Rightarrow> u64) \<Rightarrow> (u16 \<Rightarrow> u64) \<Rightarrow> (u8 \<Rightarrow> u64) \<Rightarrow> connection_key \<Rightarrow> u64" where
  "ConnectionKeyHash hash_str hash16 hash8 key =
     (let h1 = hash_str (ck_source_ip key); h2 = hash_str (ck_dest_ip key);
          h3 = hash16 (ck_source_port key); h4 = hash16 (ck_dest_port key); h5 = hash8 (ck_protocol key)
      in h1 XOR push_bit 1 h2 XOR push_bit 2 h3 XOR push_bit 3 h4 XOR push_bit 4 h5)"

record connection_stats =
  packets_sent :: u64
  packets_received :: u64
  bytes_sent :: u64
  bytes_received :: u64
  first_seen :: u64
  last_seen :: u64
  protocol_type :: "protocol_type option"
  protocol_data :: "protocol_data option"

definition new_connection_stats :: connection_stats where
  "new_connection_stats = \<lparr>packets_sent = 0, packets_received = 0, bytes_sent = 0,
     bytes_received = 0, first_seen = 0, last_seen = 0, protocol_type = None, protocol_data = None\<rparr>"

record analyzer =
  connections :: "connection_key \<rightharpoonup> connection_stats"
  host_traffic_stats :: "string \<rightharpoonup> u64"
  recent_packets :: "packet_info circular_buffer"
  protocol_parsers :: "protocol_parser list"

definition analyzer_init :: "packet_info \<Rightarrow> analyzer" where
  "analyzer_init d = \<lparr>connections = Map.empty, host_traffic_stats = Map.empty,
     recent_packets = cb_init 1000 d, protocol_parsers = createAllParsers\<rparr>"

section \<open>Operations\<close>

definition createConnectionKey :: "packet_info \<Rightarrow> bool \<Rightarrow> connection_key" where
  "createConnectionKey packet normal =
     (if normal \<and>
         (pk_source_ip packet > pk_dest_ip packet \<or>
          (pk_source_ip packet = pk_dest_ip packet \<and> pk_source_port packet > pk_dest_port packet))
      then \<lparr>ck_source_ip = pk_dest_ip packet, ck_dest_ip = pk_source_ip packet,
            ck_source_port = pk_dest_port packet, ck_dest_port = pk_source_port packet,
            ck_protocol = pk_protocol packet\<rparr>
      else \<lparr>ck_source_ip = pk_source_ip packet, ck_dest_ip = pk_dest_ip packet,
            ck_source_port = pk_source_port packet, ck_dest_port = pk_dest_port packet,
            ck_protocol = pk_protocol packet\<rparr>)"

text \<open>The first parser that recognises the packet; \<open>None\<close> is a read out of bounds.\<close>

fun classify :: "protocol_parser list \<Rightarrow> packet_info \<Rightarrow> protocol_data option option" where
  "classify [] packet = Some None"
| "classify (parser # parsers) packet =
     (case parse parser packet of
        None \<Rightarrow> None
      | Some (Some data) \<Rightarrow> Some (Some data)
      | Some None \<Rightarrow> classify parsers packet)"

definition analyzeProtocol ::
    "protocol_parser list \<Rightarrow> packet_info \<Rightarrow> connection_stats \<Rightarrow> connection_stats option" where
  "analyzeProtocol parsers packet stats =
     map_option (\<lambda>r. case r of
         None \<Rightarrow> stats
       | Some data \<Rightarrow> stats\<lparr>protocol_type := Some (pd_type data), protocol_data := Some data\<rparr>)
       (classify parsers packet)"

text \<open>Is the packet on the side of the key's source?\<close>

definition from_source :: "connection_key \<Rightarrow> packet_info \<Rightarrow> bool" where
  "from_source key packet \<longleftrightarrow>
     pk_source_ip packet = ck_source_ip key \<and> pk_source_port packet = ck_source_port key"

definition new_connection :: "connection_key \<Rightarrow> packet_info \<Rightarrow> connection_stats" where
  "new_connection key packet =
     (let stats = new_connection_stats\<lparr>first_seen := pk_timestamp packet, last_seen := pk_timestamp packet\<rparr>
      in if from_source key packet
         then stats\<lparr>packets_sent := 1, packets_received := 0, bytes_sent := pk_size packet, bytes_received := 0\<rparr>
         else stats\<lparr>packets_sent := 0, packets_received := 1, bytes_sent := 0, bytes_received := pk_size packet\<rparr>)"

definition update_connection :: "connection_key \<Rightarrow> packet_info \<Rightarrow> connection_stats \<Rightarrow> connection_stats" where
  "update_connection key packet stats =
     (let stats = stats\<lparr>last_seen := pk_timestamp packet\<rparr>
      in if from_source key packet
         then stats\<lparr>packets_sent := packets_sent stats + 1, bytes_sent := bytes_sent stats + pk_size packet\<rparr>
         else stats\<lparr>packets_received := packets_received stats + 1,
                    bytes_received := bytes_received stats + pk_size packet\<rparr>)"

text \<open>\<^verbatim>\<open>m[ip] += n\<close> on a map whose default value is zero.\<close>

definition add_traffic :: "string \<Rightarrow> u64 \<Rightarrow> (string \<rightharpoonup> u64) \<Rightarrow> (string \<rightharpoonup> u64)" where
  "add_traffic ip n m = m(ip \<mapsto> (case m ip of None \<Rightarrow> 0 | Some v \<Rightarrow> v) + n)"

text \<open>The entry of \<open>connections_\<close> for the packet's key after the packet (lines 19 to 55).\<close>

definition connection_entry ::
    "protocol_parser list \<Rightarrow> (connection_key \<rightharpoonup> connection_stats) \<Rightarrow> packet_info \<Rightarrow> connection_stats option" where
  "connection_entry parsers conns packet =
     (let key = createConnectionKey packet True in
      case conns key of
        None \<Rightarrow> analyzeProtocol parsers packet (new_connection key packet)
      | Some old \<Rightarrow>
          let stats = update_connection key packet old
          in if protocol_type stats = None then analyzeProtocol parsers packet stats
             else Some stats)"

definition processPacket :: "packet_info \<Rightarrow> analyzer \<Rightarrow> analyzer option" where
  "processPacket packet a =
     (let key = createConnectionKey packet True in
      map_option (\<lambda>stats.
          a\<lparr>recent_packets := snd (cb_push 1000 packet (recent_packets a)),
            connections := (connections a)(key \<mapsto> stats),
            host_traffic_stats := add_traffic (pk_dest_ip packet) (pk_size packet)
              (add_traffic (pk_source_ip packet) (pk_size packet) (host_traffic_stats a))\<rparr>)
        (connection_entry (protocol_parsers a) (connections a) packet))"

definition connection_traffic :: "connection_key \<times> connection_stats \<Rightarrow> u64" where
  "connection_traffic e = bytes_sent (snd e) + bytes_received (snd e)"

definition compareConnectionsByTraffic ::
    "connection_key \<times> connection_stats \<Rightarrow> connection_key \<times> connection_stats \<Rightarrow> bool" where
  "compareConnectionsByTraffic a b \<longleftrightarrow> connection_traffic a > connection_traffic b"

text \<open>\<open>es\<close> is the order in which the loop visits \<open>connections_\<close>.\<close>

definition getTopConnections ::
    "(connection_key \<times> connection_stats) list \<Rightarrow> nat \<Rightarrow> (connection_key \<times> connection_stats) list" where
  "getTopConnections es limit =
     (let result = std_sort compareConnectionsByTraffic es
      in if length result > limit then take limit result else result)"

definition getHostTrafficStats :: "analyzer \<Rightarrow> (string \<rightharpoonup> u64)" where
  "getHostTrafficStats a = host_traffic_stats a"

definition getConnectionStats :: "connection_key \<Rightarrow> analyzer \<Rightarrow> connection_stats option" where
  "getConnectionStats key a = connections a key"

definition analyzer_reset :: "analyzer \<Rightarrow> analyzer" where
  "analyzer_reset a = a\<lparr>connections := Map.empty, host_traffic_stats := Map.empty\<rparr>"

text \<open>Processing a sequence of packets.\<close>

fun process_all :: "packet_info list \<Rightarrow> analyzer \<Rightarrow> analyzer option" where
  "process_all [] a = Some a"
| "process_all (p # ps) a = (case processPacket p a of None \<Rightarrow> None | Some a' \<Rightarrow> process_all ps a')"

section \<open>Specification: what a history of packets means\<close>

text \<open>The key of a packet, and the packets of a connection.\<close>

abbreviation key_of :: "packet_info \<Rightarrow> connection_key" where
  "key_of p \<equiv> createConnectionKey p True"

definition packets_of :: "connection_key \<Rightarrow> packet_info list \<Rightarrow> packet_info list" where
  "packets_of k ps = filter (\<lambda>p. key_of p = k) ps"

text \<open>What the first recognised packet of a connection was recognised as.\<close>

fun first_hit :: "packet_info list \<Rightarrow> protocol_data option" where
  "first_hit [] = None"
| "first_hit (p # ps) =
     (case classify createAllParsers p of Some (Some d) \<Rightarrow> Some d | _ \<Rightarrow> first_hit ps)"

definition summary :: "connection_key \<Rightarrow> packet_info list \<Rightarrow> connection_stats" where
  "summary k qs = \<lparr>
     packets_sent = of_nat (length (filter (from_source k) qs)),
     packets_received = of_nat (length (filter (\<lambda>p. \<not> from_source k p) qs)),
     bytes_sent = (\<Sum>p \<leftarrow> filter (from_source k) qs. pk_size p),
     bytes_received = (\<Sum>p \<leftarrow> filter (\<lambda>p. \<not> from_source k p) qs. pk_size p),
     first_seen = pk_timestamp (hd qs), last_seen = pk_timestamp (last qs),
     protocol_type = map_option pd_type (first_hit qs), protocol_data = first_hit qs\<rparr>"

definition connections_spec :: "packet_info list \<Rightarrow> (connection_key \<rightharpoonup> connection_stats)" where
  "connections_spec ps k =
     (let qs = packets_of k ps in if qs = [] then None else Some (summary k qs))"

definition host_bytes :: "string \<Rightarrow> packet_info list \<Rightarrow> u64" where
  "host_bytes ip ps = (\<Sum>p \<leftarrow> filter (\<lambda>p. pk_source_ip p = ip) ps. pk_size p)
     + (\<Sum>p \<leftarrow> filter (\<lambda>p. pk_dest_ip p = ip) ps. pk_size p)"

definition host_spec :: "packet_info list \<Rightarrow> (string \<rightharpoonup> u64)" where
  "host_spec ps ip =
     (if \<exists>p \<in> set ps. pk_source_ip p = ip \<or> pk_dest_ip p = ip then Some (host_bytes ip ps) else None)"

section \<open>One packet refines the specification\<close>

lemma first_hit_append:
  "first_hit (ps @ qs) = (case first_hit ps of None \<Rightarrow> first_hit qs | Some d \<Rightarrow> Some d)"
  by (induction ps) (auto split: option.splits)

lemma packets_of_snoc:
  "packets_of k (ps @ [p]) = packets_of k ps @ (if key_of p = k then [p] else [])"
  by (simp add: packets_of_def)

lemma summary_snoc:
  assumes "qs \<noteq> []"
  shows "summary k (qs @ [p]) =
    (let s = update_connection k p (summary k qs) in
     if protocol_type s \<noteq> None then s
     else s\<lparr>protocol_type := map_option pd_type (first_hit [p]), protocol_data := first_hit [p]\<rparr>)"
  using assms
  by (cases "first_hit qs") (auto simp: summary_def update_connection_def Let_def first_hit_append)

lemma summary_single:
  "summary k [p] = (new_connection k p)\<lparr>protocol_type := map_option pd_type (first_hit [p]),
     protocol_data := first_hit [p]\<rparr>"
  by (simp add: summary_def new_connection_def new_connection_stats_def Let_def)

lemma analyzeProtocol_hit:
  assumes "classify createAllParsers p \<noteq> None" and "protocol_type s = None" "protocol_data s = None"
  shows "analyzeProtocol createAllParsers p s
    = Some (s\<lparr>protocol_type := map_option pd_type (first_hit [p]), protocol_data := first_hit [p]\<rparr>)"
  using assms by (auto simp: analyzeProtocol_def split: option.splits)

lemma connections_spec_snoc:
  "connections_spec (ps @ [p]) = (connections_spec ps)(key_of p \<mapsto> summary (key_of p) (packets_of (key_of p) (ps @ [p])))"
  by (rule ext) (simp add: connections_spec_def Let_def packets_of_snoc)

lemma host_spec_none: "host_spec ps ip = None \<Longrightarrow> host_bytes ip ps = 0"
proof -
  assume "host_spec ps ip = None"
  then have "filter (\<lambda>p. pk_source_ip p = ip) ps = [] \<and> filter (\<lambda>p. pk_dest_ip p = ip) ps = []"
    by (auto simp: host_spec_def filter_empty_conv split: if_splits)
  then show ?thesis by (simp add: host_bytes_def)
qed

lemma host_spec_value: "(case host_spec ps ip of None \<Rightarrow> 0 | Some v \<Rightarrow> v) = host_bytes ip ps"
  using host_spec_none [of ps ip] by (auto simp: host_spec_def split: if_splits)

lemma host_spec_snoc:
  "host_spec (ps @ [p]) = add_traffic (pk_dest_ip p) (pk_size p)
     (add_traffic (pk_source_ip p) (pk_size p) (host_spec ps))"
proof
  fix ip
  have v: "(case host_spec ps ip of None \<Rightarrow> 0 | Some v \<Rightarrow> v) = host_bytes ip ps" for ip
    by (rule host_spec_value)
  show "host_spec (ps @ [p]) ip = add_traffic (pk_dest_ip p) (pk_size p)
     (add_traffic (pk_source_ip p) (pk_size p) (host_spec ps)) ip"
  proof (cases "pk_source_ip p = ip \<or> pk_dest_ip p = ip")
    case True
    then have "host_spec (ps @ [p]) ip = Some (host_bytes ip (ps @ [p]))"
      by (auto simp: host_spec_def)
    with True v [of ip] v [of "pk_dest_ip p"] show ?thesis
      by (auto simp: add_traffic_def host_bytes_def algebra_simps)
  next
    case False
    then show ?thesis by (auto simp: host_spec_def host_bytes_def add_traffic_def)
  qed
qed

text \<open>The state after a history, for an analyzer built with default packet \<open>d\<close>.\<close>

definition analyzer_after :: "packet_info \<Rightarrow> packet_info list \<Rightarrow> analyzer" where
  "analyzer_after d ps = \<lparr>connections = connections_spec ps, host_traffic_stats = host_spec ps,
     recent_packets = push_all (cb_push 1000) ps (cb_init 1000 d),
     protocol_parsers = createAllParsers\<rparr>"

lemma analyzer_after_Nil: "analyzer_after d [] = analyzer_init d"
  by (simp add: analyzer_after_def analyzer_init_def connections_spec_def host_spec_def
      packets_of_def fun_eq_iff)

lemma processPacket_step:
  assumes "classify createAllParsers p \<noteq> None"
  shows "processPacket p (analyzer_after d ps) = Some (analyzer_after d (ps @ [p]))"
proof -
  let ?k = "key_of p" and ?qs = "packets_of (key_of p) ps"
  have buf: "push_all (cb_push 1000) (ps @ [p]) (cb_init 1000 d)
      = snd (cb_push 1000 p (push_all (cb_push 1000) ps (cb_init 1000 d)))"
    by (simp add: push_all_append)
  have upd: "connection_entry createAllParsers (connections_spec ps) p
    = Some (summary ?k (packets_of ?k (ps @ [p])))"
  proof (cases "?qs = []")
    case True
    have "protocol_type (new_connection ?k p) = None" "protocol_data (new_connection ?k p) = None"
      by (simp_all add: new_connection_def new_connection_stats_def Let_def)
    from analyzeProtocol_hit [OF assms this] True show ?thesis
      by (simp add: connection_entry_def connections_spec_def packets_of_snoc summary_single)
  next
    case False
    let ?s = "update_connection ?k p (summary ?k ?qs)"
    have pd: "protocol_type ?s = None \<Longrightarrow> protocol_data ?s = None"
      by (simp add: update_connection_def summary_def Let_def split: if_splits)
    show ?thesis
      using False analyzeProtocol_hit [OF assms, of ?s] pd
      by (auto simp: connection_entry_def connections_spec_def packets_of_snoc summary_snoc Let_def)
  qed
  show ?thesis
    using upd unfolding processPacket_def analyzer_after_def Let_def
    by (simp add: buf connections_spec_snoc host_spec_snoc)
qed

lemma process_all_append:
  "process_all (ps @ qs) a = (case process_all ps a of None \<Rightarrow> None | Some a' \<Rightarrow> process_all qs a')"
  by (induction ps arbitrary: a) (auto split: option.splits)

lemma process_all_after:
  "(\<forall>p \<in> set ps. classify createAllParsers p \<noteq> None) \<Longrightarrow>
   process_all ps (analyzer_init d) = Some (analyzer_after d ps)"
proof (induction ps rule: rev_induct)
  case (snoc p ps)
  then show ?case by (simp add: process_all_append processPacket_step)
qed (simp add: analyzer_after_Nil)

section \<open>Keys and directions\<close>

definition reverse_packet :: "packet_info \<Rightarrow> packet_info" where
  "reverse_packet p = p\<lparr>pk_source_ip := pk_dest_ip p, pk_dest_ip := pk_source_ip p,
     pk_source_port := pk_dest_port p, pk_dest_port := pk_source_port p\<rparr>"

lemma key_of_reverse: "key_of (reverse_packet p) = key_of p"
  by (auto simp: createConnectionKey_def reverse_packet_def)

lemma from_source_reverse:
  assumes "pk_source_ip p \<noteq> pk_dest_ip p \<or> pk_source_port p \<noteq> pk_dest_port p"
  shows "from_source (key_of p) (reverse_packet p) \<longleftrightarrow> \<not> from_source (key_of p) p"
  using assms by (auto simp: createConnectionKey_def reverse_packet_def from_source_def)

text \<open>Every packet belongs to one of the two directions of its connection.\<close>

lemma key_endpoints:
  "from_source (key_of p) p \<or>
   (pk_dest_ip p = ck_source_ip (key_of p) \<and> pk_dest_port p = ck_source_port (key_of p))"
  by (auto simp: createConnectionKey_def from_source_def)

section \<open>Totals\<close>

definition total_bytes :: "(connection_key \<rightharpoonup> connection_stats) \<Rightarrow> u64" where
  "total_bytes m = (\<Sum>k \<in> dom m. bytes_sent (the (m k)) + bytes_received (the (m k)))"

lemma sum_list_filter_split:
  fixes f :: "'a \<Rightarrow> 'b::comm_monoid_add"
  shows "(\<Sum>x \<leftarrow> filter P xs. f x) + (\<Sum>x \<leftarrow> filter (\<lambda>x. \<not> P x) xs. f x) = (\<Sum>x \<leftarrow> xs. f x)"
  by (induction xs) (simp_all add: ac_simps)

lemma sum_list_partition:
  fixes f :: "'a \<Rightarrow> 'b::comm_monoid_add"
  assumes "finite K" and "g ` set xs \<subseteq> K"
  shows "(\<Sum>k \<in> K. \<Sum>x \<leftarrow> filter (\<lambda>x. g x = k) xs. f x) = (\<Sum>x \<leftarrow> xs. f x)"
  using assms(2)
proof (induction xs)
  case (Cons x xs)
  have "(\<Sum>k \<in> K. \<Sum>y \<leftarrow> filter (\<lambda>y. g y = k) (x # xs). f y)
      = (\<Sum>k \<in> K. (if k = g x then f x else 0) + (\<Sum>y \<leftarrow> filter (\<lambda>y. g y = k) xs. f y))"
    by (rule sum.cong) auto
  also have "\<dots> = (\<Sum>k \<in> K. if k = g x then f x else 0) + (\<Sum>y \<leftarrow> xs. f y)"
    using Cons by (simp add: sum.distrib)
  finally show ?case using assms(1) Cons.prems by simp
qed simp

lemma dom_connections_spec: "dom (connections_spec ps) = key_of ` set ps"
  by (auto simp: connections_spec_def Let_def packets_of_def filter_empty_conv dom_def split: if_splits)

lemma summary_bytes: "bytes_sent (summary k qs) + bytes_received (summary k qs) = (\<Sum>p \<leftarrow> qs. pk_size p)"
  by (simp add: summary_def sum_list_filter_split)

lemma total_bytes_spec: "total_bytes (connections_spec ps) = (\<Sum>p \<leftarrow> ps. pk_size p)"
proof -
  have "total_bytes (connections_spec ps) = (\<Sum>k \<in> key_of ` set ps. \<Sum>p \<leftarrow> packets_of k ps. pk_size p)"
    unfolding total_bytes_def dom_connections_spec
  proof (rule sum.cong)
    fix k assume "k \<in> key_of ` set ps"
    then have "connections_spec ps k = Some (summary k (packets_of k ps))"
      using dom_connections_spec [of ps] by (auto simp: connections_spec_def Let_def split: if_splits)
    then show "bytes_sent (the (connections_spec ps k)) + bytes_received (the (connections_spec ps k))
        = (\<Sum>p \<leftarrow> packets_of k ps. pk_size p)"
      by (simp add: summary_bytes)
  qed simp
  then show ?thesis
    unfolding packets_of_def by (simp add: sum_list_partition)
qed

lemma dom_host_spec: "dom (host_spec ps) = pk_source_ip ` set ps \<union> pk_dest_ip ` set ps"
  by (auto simp: host_spec_def dom_def split: if_splits)

lemma host_total_spec:
  "(\<Sum>ip \<in> dom (host_spec ps). the (host_spec ps ip)) = 2 * (\<Sum>p \<leftarrow> ps. pk_size p)"
proof -
  let ?K = "dom (host_spec ps)"
  have fin: "finite ?K" by (simp add: dom_host_spec)
  have "(\<Sum>ip \<in> ?K. the (host_spec ps ip)) = (\<Sum>ip \<in> ?K. host_bytes ip ps)"
    by (rule sum.cong) (auto simp: host_spec_def split: if_splits)
  also have "\<dots> = (\<Sum>p \<leftarrow> ps. pk_size p) + (\<Sum>p \<leftarrow> ps. pk_size p)"
    unfolding host_bytes_def sum.distrib
    using sum_list_partition [OF fin, of pk_source_ip ps pk_size]
      sum_list_partition [OF fin, of pk_dest_ip ps pk_size]
    by (simp add: dom_host_spec)
  finally show ?thesis by simp
qed

section \<open>The comparator meets the contract of the sort\<close>

interpretation by_traffic: strict_weak_order compareConnectionsByTraffic
  by unfold_locales (auto simp: compareConnectionsByTraffic_def)

lemma getTopConnections_take:
  "getTopConnections es limit = take limit (std_sort compareConnectionsByTraffic es)"
  by (simp add: getTopConnections_def Let_def)

section \<open>Properties\<close>

text \<open>
  C3: The analyzer is a faithful summary of the packet history. For every sequence of packets
  whose classification stays inside the data, processing them one by one from the
  constructor succeeds, and then for every key the stored statistics are exactly those of
  the subsequence of packets with that key: how many packets and bytes came from the key's
  source and from the other side (modulo 2^64), the time stamps of the first and of the last
  packet, and the protocol of the first packet any parser recognised (HTTP before DNS before
  TLS), which later packets never change. A key without packets has no entry, and every host
  has the bytes it sent plus the bytes it received.
\<close>

theorem analyzer_refines_history:
  assumes "\<forall>p \<in> set ps. classify createAllParsers p \<noteq> None"
  shows "\<exists>a. process_all ps (analyzer_init d) = Some a
    \<and> (\<forall>k. getConnectionStats k a =
          (if packets_of k ps = [] then None else Some (summary k (packets_of k ps))))
    \<and> getHostTrafficStats a = host_spec ps"
  using process_all_after [OF assms, of d]
  by (simp add: analyzer_after_def getConnectionStats_def getHostTrafficStats_def
      connections_spec_def Let_def)

definition tcp_packet :: "string \<Rightarrow> u16 \<Rightarrow> string \<Rightarrow> u16 \<Rightarrow> u64 \<Rightarrow> u64 \<Rightarrow> packet_info" where
  "tcp_packet sip sport dip dport sz ts = \<lparr>pk_data = [], pk_size = sz, pk_source_ip = sip,
     pk_dest_ip = dip, pk_source_port = sport, pk_dest_port = dport, pk_protocol = IPPROTO_TCP,
     pk_timestamp = ts\<rparr>"

lemma classify_tcp_packet:
  "sport \<noteq> 53 \<Longrightarrow> dport \<noteq> 53 \<Longrightarrow>
   classify createAllParsers (tcp_packet sip sport dip dport sz ts) = Some None"
  by (simp add: createAllParsers_def http_parse_def dns_parse_def tls_parse_def isHttpPacket_def
      isDnsPacket_def isTlsPacket_def tcp_packet_def)

abbreviation blank_packet :: packet_info where
  "blank_packet \<equiv> tcp_packet [] 0 [] 0 0 0"

definition sample_history :: "packet_info list" where
  "sample_history = [tcp_packet ''b'' 80 ''a'' 9 100 5, tcp_packet ''a'' 9 ''b'' 80 40 6]"

definition sample_key :: connection_key where
  "sample_key = \<lparr>ck_source_ip = ''a'', ck_dest_ip = ''b'', ck_source_port = 9, ck_dest_port = 80,
     ck_protocol = 6\<rparr>"

lemma sample_keys:
  "key_of (tcp_packet ''b'' 80 ''a'' 9 100 5) = sample_key"
  "key_of (tcp_packet ''a'' 9 ''b'' 80 40 6) = sample_key"
  by (simp_all add: createConnectionKey_def tcp_packet_def sample_key_def less_char_def)

lemma sample_sides:
  "\<not> from_source sample_key (tcp_packet ''b'' 80 ''a'' 9 100 5)"
  "from_source sample_key (tcp_packet ''a'' 9 ''b'' 80 40 6)"
  by (simp_all add: from_source_def tcp_packet_def sample_key_def)

theorem analyzer_refines_history_witness:
  "\<exists>a. process_all sample_history (analyzer_init blank_packet) = Some a
     \<and> getConnectionStats sample_key a
       = Some \<lparr>packets_sent = 1, packets_received = 1, bytes_sent = 40, bytes_received = 100,
               first_seen = 5, last_seen = 6, protocol_type = None, protocol_data = None\<rparr>"
proof -
  have c: "\<forall>p \<in> set sample_history. classify createAllParsers p \<noteq> None"
    by (simp add: sample_history_def classify_tcp_packet)
  have q: "packets_of sample_key sample_history = sample_history"
    by (simp add: packets_of_def sample_history_def sample_keys)
  have s: "summary sample_key sample_history = \<lparr>packets_sent = 1, packets_received = 1,
      bytes_sent = 40, bytes_received = 100, first_seen = 5, last_seen = 6, protocol_type = None,
      protocol_data = None\<rparr>"
    by (simp add: summary_def sample_history_def sample_sides classify_tcp_packet)
      (simp add: tcp_packet_def)
  have ne: "sample_history \<noteq> []" by (simp add: sample_history_def)
  obtain a where a: "process_all sample_history (analyzer_init blank_packet) = Some a"
    "getConnectionStats sample_key a = Some (summary sample_key sample_history)"
    using analyzer_refines_history [OF c, of blank_packet] q ne by auto
  then show ?thesis unfolding s by blast
qed

text \<open>
  C29: Connections are exactly the unordered endpoint pairs. Two packets get the same key if
  and only if they have the same protocol and the same two (address, port) endpoints, in
  either direction. A packet and its reply share the key and are counted on opposite sides,
  unless both endpoints are equal.
\<close>

theorem connection_key_normalised:
  "(key_of p = key_of q \<longleftrightarrow> pk_protocol p = pk_protocol q \<and>
      {(pk_source_ip p, pk_source_port p), (pk_dest_ip p, pk_dest_port p)}
      = {(pk_source_ip q, pk_source_port q), (pk_dest_ip q, pk_dest_port q)})
   \<and> key_of (reverse_packet p) = key_of p
   \<and> (from_source (key_of p) (reverse_packet p) = from_source (key_of p) p
        \<longleftrightarrow> pk_source_ip p = pk_dest_ip p \<and> pk_source_port p = pk_dest_port p)"
proof (intro conjI)
  show "key_of p = key_of q \<longleftrightarrow> pk_protocol p = pk_protocol q \<and>
      {(pk_source_ip p, pk_source_port p), (pk_dest_ip p, pk_dest_port p)}
      = {(pk_source_ip q, pk_source_port q), (pk_dest_ip q, pk_dest_port q)}"
    by (auto simp: createConnectionKey_def doubleton_eq_iff)
  show "key_of (reverse_packet p) = key_of p" by (rule key_of_reverse)
  show "from_source (key_of p) (reverse_packet p) = from_source (key_of p) p
        \<longleftrightarrow> pk_source_ip p = pk_dest_ip p \<and> pk_source_port p = pk_dest_port p"
    using from_source_reverse [of p] by (auto simp: reverse_packet_def from_source_def)
qed

text \<open>
  C25: Bytes are conserved. After any history, in whatever order the hash map is visited, the
  bytes of all connections add up to the sizes of all packets (modulo 2^64), so no packet is
  lost or counted for two connections; the host statistics add up to twice that, because
  each packet is counted for its source and for its destination.
\<close>

theorem traffic_conserved:
  assumes "\<forall>p \<in> set ps. classify createAllParsers p \<noteq> None"
    and "process_all ps (analyzer_init d) = Some a"
    and "listing (connections a) es" "listing (getHostTrafficStats a) hs"
  shows "(\<Sum>e \<leftarrow> es. connection_traffic e) = (\<Sum>p \<leftarrow> ps. pk_size p)
    \<and> (\<Sum>h \<leftarrow> hs. snd h) = 2 * (\<Sum>p \<leftarrow> ps. pk_size p)"
proof -
  have a: "a = analyzer_after d ps" using process_all_after [OF assms(1), of d] assms(2) by simp
  have "(\<Sum>e \<leftarrow> es. connection_traffic e) = (\<Sum>(k, s) \<leftarrow> es. bytes_sent s + bytes_received s)"
    by (simp add: connection_traffic_def case_prod_beta')
  also have "\<dots> = total_bytes (connections_spec ps)"
    using listing_sum [OF assms(3)] by (simp add: a analyzer_after_def total_bytes_def)
  finally have c: "(\<Sum>e \<leftarrow> es. connection_traffic e) = (\<Sum>p \<leftarrow> ps. pk_size p)"
    by (simp add: total_bytes_spec)
  have "(\<Sum>h \<leftarrow> hs. snd h) = (\<Sum>(ip, v) \<leftarrow> hs. v)" by (simp add: case_prod_beta')
  also have "\<dots> = 2 * (\<Sum>p \<leftarrow> ps. pk_size p)"
    using listing_sum [OF assms(4), of "\<lambda>_ v. v"]
    by (simp add: a analyzer_after_def getHostTrafficStats_def host_total_spec)
  finally show ?thesis using c by simp
qed

theorem traffic_conserved_witness:
  "\<exists>a es hs. process_all sample_history (analyzer_init blank_packet) = Some a \<and> listing (connections a) es
     \<and> listing (getHostTrafficStats a) hs
     \<and> (\<Sum>e \<leftarrow> es. connection_traffic e) = 140 \<and> (\<Sum>h \<leftarrow> hs. snd h) = 280"
proof -
  have c: "\<forall>p \<in> set sample_history. classify createAllParsers p \<noteq> None"
    by (simp add: sample_history_def classify_tcp_packet)
  have a: "process_all sample_history (analyzer_init blank_packet) = Some (analyzer_after blank_packet sample_history)"
    by (rule process_all_after [OF c])
  obtain es where es: "listing (connections (analyzer_after blank_packet sample_history)) es"
    using listing_exists [of "connections_spec sample_history"]
    by (auto simp: analyzer_after_def dom_connections_spec)
  obtain hs where hs: "listing (getHostTrafficStats (analyzer_after blank_packet sample_history)) hs"
    using listing_exists [of "host_spec sample_history"]
    by (auto simp: analyzer_after_def getHostTrafficStats_def dom_host_spec)
  have "(\<Sum>p \<leftarrow> sample_history. pk_size p) = 140"
    by (simp add: sample_history_def tcp_packet_def)
  then show ?thesis using traffic_conserved [OF c a es hs] a es hs by auto
qed

text \<open>
  C27: The top-connections query. For every order in which the hash map is visited, the result
  has \<open>limit\<close> entries or all of them if there are fewer, names no connection twice, holds
  entries of the table unchanged, is ordered by decreasing traffic, and no connection that
  was left out has more traffic than one that was returned.
\<close>

theorem top_connections_correct:
  assumes "listing (connections a) es" "r = getTopConnections es limit"
  shows "length r = min limit (card (dom (connections a)))
    \<and> distinct (map fst r)
    \<and> (\<forall>k s. (k, s) \<in> set r \<longrightarrow> connections a k = Some s)
    \<and> sorted_wrt (\<lambda>x y. connection_traffic y \<le> connection_traffic x) r
    \<and> (\<forall>k s e. connections a k = Some s \<longrightarrow> (k, s) \<notin> set r \<longrightarrow> e \<in> set r
          \<longrightarrow> connection_traffic (k, s) \<le> connection_traffic e)"
proof -
  have r: "r = take limit (std_sort compareConnectionsByTraffic es)"
    using assms(2) by (simp add: getTopConnections_take)
  note top = top_entries [OF by_traffic.strict_weak_order_axioms assms(1) r]
  show ?thesis
    using top(1-3) top(4)[unfolded compareConnectionsByTraffic_def not_less]
      top(5)[unfolded compareConnectionsByTraffic_def not_less] by blast
qed

theorem top_connections_correct_witness:
  "\<exists>a es. process_all sample_history (analyzer_init blank_packet) = Some a \<and> listing (connections a) es
     \<and> length (getTopConnections es 10) = 1"
proof -
  have c: "\<forall>p \<in> set sample_history. classify createAllParsers p \<noteq> None"
    by (simp add: sample_history_def classify_tcp_packet)
  have a: "process_all sample_history (analyzer_init blank_packet) = Some (analyzer_after blank_packet sample_history)"
    by (rule process_all_after [OF c])
  obtain es where es: "listing (connections (analyzer_after blank_packet sample_history)) es"
    using listing_exists [of "connections_spec sample_history"]
    by (auto simp: analyzer_after_def dom_connections_spec)
  have "card (dom (connections (analyzer_after blank_packet sample_history))) = 1"
    by (simp add: analyzer_after_def dom_connections_spec sample_history_def sample_keys)
  with top_connections_correct [OF es, of _ 10] have "length (getTopConnections es 10) = 1" by simp
  with a es show ?thesis by blast
qed

text \<open>
  The buffer of recent packets holds the oldest packets. It is only ever pushed to, the
  result of the push is ignored, and \<open>reset\<close> does not clear it: after any history it holds
  the first 1000 packets the analyzer ever saw, and once it is full no later packet enters
  it.
\<close>

theorem recent_packets_are_oldest:
  assumes "\<forall>p \<in> set ps. classify createAllParsers p \<noteq> None"
    and "process_all ps (analyzer_init d) = Some a"
  shows "cb_contents 1000 (recent_packets a) = take 1000 ps
    \<and> recent_packets (analyzer_reset a) = recent_packets a"
proof -
  have "a = analyzer_after d ps" using process_all_after [OF assms(1), of d] assms(2) by simp
  then show ?thesis
    using ring.push_all_contents [OF cb_inv_init [of 1000 d], of ps]
    by (simp add: analyzer_after_def analyzer_reset_def cb_contents_init)
qed

theorem recent_packets_are_oldest_witness:
  "\<exists>a. process_all sample_history (analyzer_init blank_packet) = Some a
     \<and> cb_contents 1000 (recent_packets (analyzer_reset a)) = sample_history"
proof -
  have c: "\<forall>p \<in> set sample_history. classify createAllParsers p \<noteq> None"
    by (simp add: sample_history_def classify_tcp_packet)
  have a: "process_all sample_history (analyzer_init blank_packet) = Some (analyzer_after blank_packet sample_history)"
    by (rule process_all_after [OF c])
  show ?thesis
    using recent_packets_are_oldest [OF c a] a by (auto simp: sample_history_def)
qed

end
