(* ===== verification/Packet_Pipeline.thy ===== *)
theory Packet_Pipeline
  imports Packet_Capture Packet_Analyzer Settings Event_Machine
begin

text \<open>
  \<^verbatim>\<open>main.cpp\<close>, lines 144 to 188: what happens to a captured packet. The handler queues a task; a
  worker of the pool that is free takes the first one queued; the task updates the analyzer, reads
  the connection back and sends it to the database, whose call may throw. The three steps of a task
  hold different locks, so the tasks of several workers interleave between them.
\<close>

section \<open>The task\<close>

text \<open>\<open>Failed\<close>: the call on the database has thrown, and the pool keeps the exception to itself.\<close>

datatype task_phase = Queued | Taken | Processed | Fetched "connection_record option" | Stored | Failed

text \<open>\<open>pl_workers\<close>: how many workers the pool has.\<close>

record pipeline =
  pl_workers :: nat
  pl_analyzer :: analyzer
  pl_tasks :: "(packet_info \<times> task_phase) list"
  pl_db :: "db_call list"

definition pipeline_init :: "nat \<Rightarrow> packet_info \<Rightarrow> pipeline" where
  "pipeline_init n d = \<lparr>pl_workers = n, pl_analyzer = analyzer_init d, pl_tasks = [], pl_db = []\<rparr>"

text \<open>The handler registered with the capture.\<close>

definition enqueue_packet :: "packet_info \<Rightarrow> pipeline \<Rightarrow> pipeline" where
  "enqueue_packet packet s = s\<lparr>pl_tasks := pl_tasks s @ [(packet, Queued)]\<rparr>"

definition make_connection_record :: "connection_key \<Rightarrow> connection_stats \<Rightarrow> connection_record" where
  "make_connection_record key stats =
     \<lparr>cr_source_ip = ck_source_ip key, cr_source_port = ck_source_port key,
      cr_dest_ip = ck_dest_ip key, cr_dest_port = ck_dest_port key, cr_protocol = ck_protocol key,
      cr_bytes_sent = bytes_sent stats, cr_bytes_received = bytes_received stats,
      cr_packets_sent = packets_sent stats, cr_packets_received = packets_received stats,
      cr_first_seen = sint (first_seen stats), cr_last_seen = sint (last_seen stats)\<rparr>"

text \<open>The three steps of a task; \<open>None\<close> for the first is a read out of bounds.\<close>

definition process_step :: "packet_info \<Rightarrow> analyzer \<Rightarrow> analyzer option" where
  "process_step packet a = processPacket packet a"

definition fetch_step :: "packet_info \<Rightarrow> analyzer \<Rightarrow> connection_record option" where
  "fetch_step packet a =
     (let conn_key = createConnectionKey packet True
      in map_option (make_connection_record conn_key) (getConnectionStats conn_key a))"

text \<open>The call on the database, if there is a record to send, returns or throws (\<open>None\<close>).\<close>

definition store_step :: "bool \<Rightarrow> connection_record option \<Rightarrow> db_call list \<Rightarrow> db_call list option" where
  "store_step returns r db =
     (case r of None \<Rightarrow> Some db | Some rec \<Rightarrow> if returns then Some (db @ [UpdateConnection rec]) else None)"

text \<open>The tasks that a worker is running.\<close>

fun in_progress :: "task_phase \<Rightarrow> bool" where
  "in_progress Taken = True"
| "in_progress Processed = True"
| "in_progress (Fetched r) = True"
| "in_progress _ = False"

definition busy_workers :: "pipeline \<Rightarrow> nat" where
  "busy_workers s = length (filter (in_progress \<circ> snd) (pl_tasks s))"

text \<open>\<open>Advance returns i\<close>: the next step of task \<open>i\<close>; \<open>returns\<close> says whether a call on the database does.\<close>

datatype pipeline_event = Capture packet_info | Advance bool nat

definition set_phase :: "nat \<Rightarrow> task_phase \<Rightarrow> pipeline \<Rightarrow> pipeline" where
  "set_phase i phase s = s\<lparr>pl_tasks := (pl_tasks s)[i := (fst (pl_tasks s ! i), phase)]\<rparr>"

definition advance :: "bool \<Rightarrow> nat \<Rightarrow> pipeline \<Rightarrow> pipeline option" where
  "advance returns i s =
     (if length (pl_tasks s) \<le> i then None
      else let packet = fst (pl_tasks s ! i) in
        case snd (pl_tasks s ! i) of
          Queued \<Rightarrow>
            if (\<forall>x \<in> set (take i (pl_tasks s)). snd x \<noteq> Queued) \<and> busy_workers s < pl_workers s
            then Some (set_phase i Taken s) else None
        | Taken \<Rightarrow> map_option (\<lambda>a. set_phase i Processed (s\<lparr>pl_analyzer := a\<rparr>)) (process_step packet (pl_analyzer s))
        | Processed \<Rightarrow> Some (set_phase i (Fetched (fetch_step packet (pl_analyzer s))) s)
        | Fetched r \<Rightarrow>
            (case store_step returns r (pl_db s) of
               None \<Rightarrow> Some (set_phase i Failed s)
             | Some db \<Rightarrow> Some (set_phase i Stored (s\<lparr>pl_db := db\<rparr>)))
        | _ \<Rightarrow> None)"

fun pipeline_step :: "pipeline_event \<Rightarrow> pipeline \<Rightarrow> pipeline option" where
  "pipeline_step (Capture p) s = Some (enqueue_packet p s)"
| "pipeline_step (Advance returns i) s = advance returns i s"

text \<open>
  The capture and the analyzer of \<^verbatim>\<open>main\<close>, both null when capturing is off or cannot start;
  \<open>opened\<close> is what libpcap answers for an interface.
\<close>

definition network_setup :: "config \<Rightarrow> (string \<Rightarrow> string + 'h) \<Rightarrow> packet_info \<Rightarrow>
    crash + (('h, pipeline) capture \<times> analyzer) option" where
  "network_setup c opened d =
     (if \<not> cfg_bool ''enable_packet_capture'' False c then Inr None
      else let packet_capture = registerHandler enqueue_packet (capture_init d);
               interface = cfg_string ''capture_interface'' ''eth0'' c
           in case startCapture (opened interface) packet_capture of
                Inl e \<Rightarrow> Inl e
              | Inr (result, packet_capture) \<Rightarrow>
                  if result \<noteq> NONE then Inr None
                  else Inr (Some (packet_capture, analyzer_init d)))"

section \<open>Specification\<close>

text \<open>
  The record of a packet's connection after a history, said without the code's keys and statistics:
  a connection has two ends, an address and a port each, the lower one first; its packets are those
  between the two ends, in either direction, with the same protocol; sent is what comes from the
  first end and received what comes from the second.
\<close>

definition source_end :: "packet_info \<Rightarrow> string \<times> u16" where
  "source_end p = (pk_source_ip p, pk_source_port p)"

definition dest_end :: "packet_info \<Rightarrow> string \<times> u16" where
  "dest_end p = (pk_dest_ip p, pk_dest_port p)"

definition end_less :: "string \<times> u16 \<Rightarrow> string \<times> u16 \<Rightarrow> bool" where
  "end_less a b \<longleftrightarrow> fst a < fst b \<or> fst a = fst b \<and> snd a < snd b"

definition first_end :: "packet_info \<Rightarrow> string \<times> u16" where
  "first_end p = (if end_less (dest_end p) (source_end p) then dest_end p else source_end p)"

definition second_end :: "packet_info \<Rightarrow> string \<times> u16" where
  "second_end p = (if end_less (dest_end p) (source_end p) then source_end p else dest_end p)"

definition same_connection :: "packet_info \<Rightarrow> packet_info \<Rightarrow> bool" where
  "same_connection p q \<longleftrightarrow> first_end q = first_end p \<and> second_end q = second_end p \<and> pk_protocol q = pk_protocol p"

definition record_after :: "packet_info list \<Rightarrow> packet_info \<Rightarrow> connection_record" where
  "record_after hist p =
     (let qs = filter (same_connection p) hist;
          sent = filter (\<lambda>q. source_end q = first_end p) qs;
          received = filter (\<lambda>q. source_end q \<noteq> first_end p) qs
      in \<lparr>cr_source_ip = fst (first_end p), cr_source_port = snd (first_end p),
          cr_dest_ip = fst (second_end p), cr_dest_port = snd (second_end p), cr_protocol = pk_protocol p,
          cr_bytes_sent = (\<Sum>q \<leftarrow> sent. pk_size q), cr_bytes_received = (\<Sum>q \<leftarrow> received. pk_size q),
          cr_packets_sent = of_nat (length sent), cr_packets_received = of_nat (length received),
          cr_first_seen = sint (pk_timestamp (hd qs)), cr_last_seen = sint (pk_timestamp (last qs))\<rparr>)"

definition readable :: "packet_info \<Rightarrow> bool" where
  "readable p \<longleftrightarrow> classify createAllParsers p \<noteq> None"

definition prefix_record :: "packet_info list \<Rightarrow> packet_info \<Rightarrow> connection_record \<Rightarrow> bool" where
  "prefix_record hist p r \<longleftrightarrow> (\<exists>pre post. hist = pre @ post \<and> p \<in> set pre \<and> r = record_after pre p)"

text \<open>What the phase of a task says, when \<open>hist\<close> is the order in which packets were processed.\<close>

fun phase_ok :: "packet_info list \<Rightarrow> packet_info \<times> task_phase \<Rightarrow> bool" where
  "phase_ok hist (p, Processed) = (p \<in> set hist)"
| "phase_ok hist (p, Fetched r) = (\<exists>rec. r = Some rec \<and> prefix_record hist p rec)"
| "phase_ok hist (p, _) = True"

definition processed_packets :: "(packet_info \<times> task_phase) list \<Rightarrow> packet_info multiset" where
  "processed_packets ts = mset (map fst (filter (\<lambda>t. snd t \<noteq> Queued \<and> snd t \<noteq> Taken) ts))"

definition stored_packets :: "(packet_info \<times> task_phase) list \<Rightarrow> packet_info multiset" where
  "stored_packets ts = mset (map fst (filter (\<lambda>t. snd t = Stored) ts))"

definition pipeline_ok :: "packet_info \<Rightarrow> pipeline \<Rightarrow> bool" where
  "pipeline_ok d s \<longleftrightarrow> (\<exists>hist ps.
     pl_analyzer s = analyzer_after d hist \<and> mset hist = processed_packets (pl_tasks s) \<and>
     (\<forall>t \<in> set (pl_tasks s). phase_ok hist t \<and> readable (fst t)) \<and>
     mset ps = stored_packets (pl_tasks s) \<and>
     list_all2 (\<lambda>p c. \<exists>r. c = UpdateConnection r \<and> prefix_record hist p r) ps (pl_db s))"

section \<open>Lemmas\<close>

lemma filter_update:
  "i < length ts \<Longrightarrow> mset (map fst (filter P (ts[i := x]))) + (if P (ts ! i) then {#fst (ts ! i)#} else {#}) =
    mset (map fst (filter P ts)) + (if P x then {#fst x#} else {#})"
proof (induction ts arbitrary: i)
  case (Cons t ts)
  show ?case
  proof (cases i)
    case (Suc j)
    then show ?thesis using Cons.IH [of j] Cons.prems by (cases "P (ts ! j)"; cases "P x") simp_all
  qed simp
qed simp

lemma prefix_record_later: "prefix_record hist p r \<Longrightarrow> prefix_record (hist @ [q]) p r"
  unfolding prefix_record_def by (metis append_assoc)

lemma phase_ok_later: "phase_ok hist t \<Longrightarrow> phase_ok (hist @ [q]) t"
  by (cases "(hist, t)" rule: phase_ok.cases) (auto dest: prefix_record_later)

lemma prefix_record_now: "p \<in> set hist \<Longrightarrow> prefix_record hist p (record_after hist p)"
  unfolding prefix_record_def by (metis append_Nil2)

lemma key_ends:
  "key_of p = \<lparr>ck_source_ip = fst (first_end p), ck_dest_ip = fst (second_end p), ck_source_port = snd (first_end p),
     ck_dest_port = snd (second_end p), ck_protocol = pk_protocol p\<rparr>"
  by (auto simp: createConnectionKey_def first_end_def second_end_def end_less_def source_end_def dest_end_def)

lemma same_connection_key: "same_connection p q \<longleftrightarrow> key_of q = key_of p"
  by (auto simp: key_ends same_connection_def prod_eq_iff)

lemma from_first_end: "from_source (key_of p) q \<longleftrightarrow> source_end q = first_end p"
  by (auto simp: from_source_def key_ends source_end_def prod_eq_iff)

text \<open>The code's record is that one.\<close>

lemma record_after_summary:
  "record_after hist p = make_connection_record (key_of p) (summary (key_of p) (packets_of (key_of p) hist))"
proof -
  have "filter (same_connection p) hist = packets_of (key_of p) hist"
    by (auto simp: packets_of_def same_connection_key intro!: filter_cong)
  then show ?thesis
    unfolding record_after_def make_connection_record_def summary_def from_first_end Let_def
    by (simp add: key_ends)
qed

lemma fetch_step_after:
  assumes "p \<in> set hist"
  shows "fetch_step p (analyzer_after d hist) = Some (record_after hist p)"
proof -
  have "packets_of (key_of p) hist \<noteq> []" using assms by (auto simp: packets_of_def filter_empty_conv)
  then show ?thesis
    by (simp add: fetch_step_def getConnectionStats_def analyzer_after_def connections_spec_def
        record_after_summary Let_def)
qed

lemma pipeline_ok_init: "pipeline_ok d (pipeline_init n d)"
  unfolding pipeline_ok_def
  by (intro exI [of _ "[]"])
    (simp add: pipeline_init_def analyzer_after_Nil processed_packets_def stored_packets_def)

lemma pipeline_ok_capture:
  assumes "pipeline_ok d s" and "readable p"
  shows "pipeline_ok d (enqueue_packet p s)"
  using assms unfolding pipeline_ok_def
  by (auto simp: enqueue_packet_def processed_packets_def stored_packets_def)

lemma set_phase_simps [simp]:
  "pl_tasks (set_phase i ph s) = (pl_tasks s)[i := (fst (pl_tasks s ! i), ph)]"
  "pl_analyzer (set_phase i ph s) = pl_analyzer s" "pl_db (set_phase i ph s) = pl_db s"
  "pl_workers (set_phase i ph s) = pl_workers s"
  by (simp_all add: set_phase_def)

text \<open>The six things that \<open>advance\<close> can do.\<close>

lemma advance_cases:
  assumes "advance returns i s = Some s'"
  obtains
    (Take) "snd (pl_tasks s ! i) = Queued" "\<forall>x \<in> set (take i (pl_tasks s)). snd x \<noteq> Queued"
      "busy_workers s < pl_workers s" "s' = set_phase i Taken s"
  | (Process) a where "snd (pl_tasks s ! i) = Taken" "process_step (fst (pl_tasks s ! i)) (pl_analyzer s) = Some a"
      "s' = set_phase i Processed (s\<lparr>pl_analyzer := a\<rparr>)"
  | (Fetch) "snd (pl_tasks s ! i) = Processed"
      "s' = set_phase i (Fetched (fetch_step (fst (pl_tasks s ! i)) (pl_analyzer s))) s"
  | (Nothing) "snd (pl_tasks s ! i) = Fetched None" "s' = set_phase i Stored s"
  | (Store) r where "snd (pl_tasks s ! i) = Fetched (Some r)" "returns"
      "s' = set_phase i Stored (s\<lparr>pl_db := pl_db s @ [UpdateConnection r]\<rparr>)"
  | (Fail) r where "snd (pl_tasks s ! i) = Fetched (Some r)" "\<not> returns" "s' = set_phase i Failed s"
  using assms
  by (cases "snd (pl_tasks s ! i)")
    (auto simp: advance_def store_step_def Let_def split: if_splits option.splits)

lemma advance_index: "advance returns i s = Some s' \<Longrightarrow> i < length (pl_tasks s)"
  by (simp add: advance_def split: if_splits)

lemma advance_tasks:
  "advance returns i s = Some s' \<Longrightarrow> map fst (pl_tasks s') = map fst (pl_tasks s) \<and> pl_workers s' = pl_workers s"
  by (cases rule: advance_cases, assumption) (simp_all add: map_update list_update_same_conv advance_index)

text \<open>A step that leaves the order of the processed packets, or adds the packet of a task to it.\<close>

lemma pipeline_ok_phase:
  assumes i: "i < length (pl_tasks s)" and t: "pl_tasks s ! i = (p, ph0)"
    and h: "mset hist = processed_packets (pl_tasks s)" "\<forall>t \<in> set (pl_tasks s). phase_ok hist t \<and> readable (fst t)"
      "mset ps = stored_packets (pl_tasks s)"
      "list_all2 (\<lambda>p c. \<exists>r. c = UpdateConnection r \<and> prefix_record hist p r) ps (pl_db s)"
    and new: "phase_ok hist' (p, ph)" "hist' = (if ph0 \<in> {Queued, Taken} \<and> ph \<notin> {Queued, Taken} then hist @ [p] else hist)"
      "ph0 \<in> {Queued, Taken} \<or> ph \<notin> {Queued, Taken}"
      "ph0 \<noteq> Stored" "if ph = Stored then \<exists>r. prefix_record hist p r \<and> db = pl_db s @ [UpdateConnection r] else db = pl_db s"
    and s': "pl_tasks s' = (pl_tasks s)[i := (p, ph)]" "pl_db s' = db" "pl_analyzer s' = analyzer_after d hist'"
  shows "pipeline_ok d s'"
proof -
  let ?ts = "pl_tasks s"
  note upd = filter_update [OF i, of "\<lambda>t. snd t \<noteq> Queued \<and> snd t \<noteq> Taken" "(p, ph)"]
    filter_update [OF i, of "\<lambda>t. snd t = Stored" "(p, ph)"]
  have later: "prefix_record hist q r \<Longrightarrow> prefix_record hist' q r" "phase_ok hist x \<Longrightarrow> phase_ok hist' x" for q r x
    using prefix_record_later phase_ok_later new(2) by (auto split: if_splits)
  have "mset hist' = processed_packets (pl_tasks s')"
    using upd(1) h(1) t new(2,3) by (auto simp: processed_packets_def s' split: if_splits)
  moreover have "\<forall>t \<in> set (pl_tasks s'). phase_ok hist' t \<and> readable (fst t)"
  proof -
    have "readable p" using h(2) i t nth_mem by fastforce
    then show ?thesis using h(2) new(1) later(2) unfolding s'(1) by (auto dest!: set_update_cases)
  qed
  moreover have "mset (if ph = Stored then ps @ [p] else ps) = stored_packets (pl_tasks s')"
    using upd(2) h(3) t new(4) by (auto simp: stored_packets_def s' split: if_splits)
  moreover have "list_all2 (\<lambda>p c. \<exists>r. c = UpdateConnection r \<and> prefix_record hist' p r)
      (if ph = Stored then ps @ [p] else ps) (pl_db s')"
  proof -
    have "list_all2 (\<lambda>p c. \<exists>r. c = UpdateConnection r \<and> prefix_record hist' p r) ps (pl_db s)"
      by (rule list_all2_mono [OF h(4)]) (auto dest: later)
    then show ?thesis using new(5) later(1) unfolding s'(2) by (auto simp: list_all2_appendI split: if_splits)
  qed
  ultimately show ?thesis using s'(3) unfolding pipeline_ok_def by blast
qed

lemma pipeline_ok_advance:
  assumes ok: "pipeline_ok d s" and step: "advance returns i s = Some s'"
  shows "pipeline_ok d s'"
proof -
  obtain hist ps where a: "pl_analyzer s = analyzer_after d hist"
    and h: "mset hist = processed_packets (pl_tasks s)" "\<forall>t \<in> set (pl_tasks s). phase_ok hist t \<and> readable (fst t)"
      "mset ps = stored_packets (pl_tasks s)"
      "list_all2 (\<lambda>p c. \<exists>r. c = UpdateConnection r \<and> prefix_record hist p r) ps (pl_db s)"
    using ok unfolding pipeline_ok_def by blast
  note i = advance_index [OF step]
  obtain p ph where t: "pl_tasks s ! i = (p, ph)" by fastforce
  have p: "phase_ok hist (p, ph)" "readable p" using h(2) i t nth_mem by fastforce+
  note go = pipeline_ok_phase [OF i t h]
  show ?thesis using step
  proof (cases rule: advance_cases)
    case Take
    show ?thesis by (rule go [of hist Taken "pl_db s"]) (use Take t a in simp_all)
  next
    case (Process a')
    have "process_step p (pl_analyzer s) = Some (analyzer_after d (hist @ [p]))"
      using p(2) by (simp add: process_step_def a readable_def processPacket_step)
    then have "a' = analyzer_after d (hist @ [p])" using Process(2) t by simp
    then show ?thesis by (intro go [of "hist @ [p]" Processed "pl_db s"]) (use Process t in simp_all)
  next
    case Fetch
    have m: "p \<in> set hist" using p(1) Fetch(1) t by simp
    show ?thesis
      by (rule go [of hist "Fetched (Some (record_after hist p))" "pl_db s"])
        (use Fetch t a m prefix_record_now in \<open>simp_all add: fetch_step_after\<close>)
  next
    case Nothing
    then show ?thesis using p(1) t by simp
  next
    case (Store r)
    then show ?thesis
      by (intro go [of hist Stored "pl_db s @ [UpdateConnection r]"]) (use p(1) t a in auto)
  next
    case (Fail r)
    then show ?thesis by (intro go [of hist Failed "pl_db s"]) (use t a in simp_all)
  qed
qed

definition capture_readable :: "pipeline_event \<Rightarrow> pipeline \<Rightarrow> bool" where
  "capture_readable e s = (case e of Capture p \<Rightarrow> readable p | Advance returns i \<Rightarrow> True)"

lemma readable_schedule:
  "\<forall>p. Capture p \<in> set es \<longrightarrow> readable p \<Longrightarrow> run_allowed capture_readable pipeline_step es s"
  by (induction es arbitrary: s)
    (auto simp: capture_readable_def split: option.splits pipeline_event.splits)

interpretation packet_machine: started_machine pipeline_step capture_readable "pipeline_ok d" "pipeline_init n d"
  for n d
proof unfold_locales
  fix s e s'
  assume "pipeline_ok d s" and "capture_readable e s" and "pipeline_step e s = Some s'"
  then show "pipeline_ok d s'"
    by (cases e) (auto simp: capture_readable_def intro: pipeline_ok_capture pipeline_ok_advance)
qed (rule pipeline_ok_init)

subsection \<open>Progress\<close>

fun phase_left :: "task_phase \<Rightarrow> nat" where
  "phase_left Queued = 4"
| "phase_left Taken = 3"
| "phase_left Processed = 2"
| "phase_left (Fetched _) = 1"
| "phase_left _ = 0"

definition work_left :: "pipeline \<Rightarrow> nat" where
  "work_left s = sum_list (map (phase_left \<circ> snd) (pl_tasks s))"

definition task_over :: "task_phase \<Rightarrow> bool" where
  "task_over ph \<longleftrightarrow> ph = Stored \<or> ph = Failed"

lemma sum_list_update_nat:
  fixes f :: "'a \<Rightarrow> nat"
  shows "i < length ts \<Longrightarrow> sum_list (map f (ts[i := x])) + f (ts ! i) = sum_list (map f ts) + f x"
proof (induction ts arbitrary: i)
  case (Cons t ts)
  then show ?case by (cases i) auto
qed simp

lemma phase_left_0: "phase_left ph = 0 \<longleftrightarrow> task_over ph"
  by (cases ph) (simp_all add: task_over_def)

lemma advance_sets:
  assumes "advance returns i s = Some s'"
  shows "\<exists>ph. pl_tasks s' = (pl_tasks s)[i := (fst (pl_tasks s ! i), ph)] \<and> phase_left (snd (pl_tasks s ! i)) = Suc (phase_left ph)"
  using assms by (cases rule: advance_cases) auto

lemma advance_uses_up:
  assumes "advance returns i s = Some s'"
  shows "Suc (work_left s') = work_left s"
proof -
  obtain ph where ph: "pl_tasks s' = (pl_tasks s)[i := (fst (pl_tasks s ! i), ph)]"
    "phase_left (snd (pl_tasks s ! i)) = Suc (phase_left ph)" using advance_sets [OF assms] by blast
  then show ?thesis
    using sum_list_update_nat [OF advance_index [OF assms], of "phase_left \<circ> snd" "(fst (pl_tasks s ! i), ph)"]
    by (simp add: work_left_def)
qed

text \<open>A task fails only when its own call throws.\<close>

lemma advance_fails:
  assumes "advance returns i s = Some s'" and "k < length (pl_tasks s)" and "snd (pl_tasks s' ! k) = Failed"
  shows "snd (pl_tasks s ! k) = Failed \<or> k = i \<and> \<not> returns"
  using assms(1)
proof (cases rule: advance_cases)
  case (Fail r)
  then show ?thesis using assms(2,3) by (cases "k = i") simp_all
qed (use assms(2,3) in \<open>cases "k = i"; simp\<close>)+

text \<open>With a worker there is always a task that can go on, whether the calls on the database return or throw.\<close>

lemma advance_possible:
  assumes ok: "pipeline_ok d s" and "0 < pl_workers s" and "\<exists>x \<in> set (pl_tasks s). \<not> task_over (snd x)"
  shows "\<exists>i < length (pl_tasks s). \<forall>returns. advance returns i s \<noteq> None"
proof (cases "\<exists>i < length (pl_tasks s). in_progress (snd (pl_tasks s ! i))")
  case True
  then obtain i where i: "i < length (pl_tasks s)" "in_progress (snd (pl_tasks s ! i))" by blast
  obtain hist where "pl_analyzer s = analyzer_after d hist" "readable (fst (pl_tasks s ! i))"
    using ok i(1) nth_mem unfolding pipeline_ok_def by fastforce
  then have "process_step (fst (pl_tasks s ! i)) (pl_analyzer s) \<noteq> None"
    by (simp add: process_step_def readable_def processPacket_step)
  then show ?thesis using i
    by (intro exI [of _ i]) (cases "snd (pl_tasks s ! i)"; auto simp: advance_def Let_def split: option.splits)
next
  case False
  obtain j where j: "j < length (pl_tasks s)" "\<not> task_over (snd (pl_tasks s ! j))"
    using assms(3) by (metis in_set_conv_nth)
  then have "j < length (pl_tasks s) \<and> snd (pl_tasks s ! j) = Queued"
    using False by (cases "snd (pl_tasks s ! j)") (auto simp: task_over_def)
  then obtain i where i: "i < length (pl_tasks s)" "snd (pl_tasks s ! i) = Queued"
    and first: "\<forall>k < i. \<not> (k < length (pl_tasks s) \<and> snd (pl_tasks s ! k) = Queued)"
    using exists_least_iff [of "\<lambda>k. k < length (pl_tasks s) \<and> snd (pl_tasks s ! k) = Queued"] by blast
  have "snd x \<noteq> Queued" if x: "x \<in> set (take i (pl_tasks s))" for x
  proof -
    obtain k where "k < i" "k < length (pl_tasks s)" "x = pl_tasks s ! k"
      using x by (auto simp: in_set_conv_nth)
    then show ?thesis using first by blast
  qed
  moreover have "\<not> in_progress (snd x)" if "x \<in> set (pl_tasks s)" for x
    using that False by (metis in_set_conv_nth)
  then have "busy_workers s = 0" unfolding busy_workers_def by (simp add: filter_empty_conv)
  ultimately show ?thesis using i assms(2) by (intro exI [of _ i]) (simp add: advance_def)
qed

abbreviation work_events :: "(nat \<Rightarrow> bool) \<Rightarrow> nat list \<Rightarrow> pipeline_event list" where
  "work_events returns is \<equiv> map (\<lambda>i. Advance (returns i) i) is"

lemma drain:
  assumes "pipeline_ok d s" and "0 < pl_workers s"
  shows "\<exists>is t. run_events pipeline_step (work_events returns is) s = Some t \<and> length is = work_left s \<and>
    (\<forall>x \<in> set (pl_tasks t). task_over (snd x)) \<and> map fst (pl_tasks t) = map fst (pl_tasks s) \<and> pipeline_ok d t \<and>
    (\<forall>k < length (pl_tasks s). snd (pl_tasks t ! k) = Failed \<longrightarrow> snd (pl_tasks s ! k) = Failed \<or> \<not> returns k)"
  using assms
proof (induction "work_left s" arbitrary: s)
  case 0
  then have "\<forall>x \<in> set (pl_tasks s). task_over (snd x)" by (auto simp: work_left_def phase_left_0)
  then show ?case using 0 by (intro exI [of _ "[]"]) simp
next
  case (Suc n)
  then have "work_left s \<noteq> 0" by simp
  then have "\<exists>x \<in> set (pl_tasks s). \<not> task_over (snd x)" by (auto simp: work_left_def phase_left_0)
  then obtain i s' where s': "advance (returns i) i s = Some s'"
    using advance_possible [OF Suc.prems] by blast
  note left = advance_uses_up [OF s'] and same = advance_tasks [OF s']
  have "n = work_left s'" using Suc.hyps(2) left by simp
  from Suc.hyps(1) [OF this pipeline_ok_advance [OF Suc.prems(1) s']] Suc.prems(2) same
  obtain "is" t where t: "run_events pipeline_step (work_events returns is) s' = Some t" "length is = work_left s'"
    "\<forall>x \<in> set (pl_tasks t). task_over (snd x)" "map fst (pl_tasks t) = map fst (pl_tasks s')" "pipeline_ok d t"
    "\<forall>k < length (pl_tasks s'). snd (pl_tasks t ! k) = Failed \<longrightarrow> snd (pl_tasks s' ! k) = Failed \<or> \<not> returns k"
    by auto
  have "length (pl_tasks s') = length (pl_tasks s)" using same by (metis length_map)
  then have "\<forall>k < length (pl_tasks s). snd (pl_tasks t ! k) = Failed \<longrightarrow> snd (pl_tasks s ! k) = Failed \<or> \<not> returns k"
    using t(6) advance_fails [OF s'] by metis
  then show ?case using s' t same left by (intro exI [of _ "i # is"] exI [of _ t]) simp
qed

section \<open>Properties\<close>

text \<open>
  What the database is told. However the tasks of the pool interleave, there is one order of
  the packets processed so far that the analyzer's state is the summary of, and every update
  of the database belongs to one stored packet and is the exact summary of that packet's
  connection over some initial part of that order that contains the packet.
\<close>

theorem packet_pipeline_exact:
  assumes "\<forall>p. Capture p \<in> set es \<longrightarrow> readable p"
    and "run_events pipeline_step es (pipeline_init n d) = Some s"
  shows "\<exists>hist ps. pl_analyzer s = analyzer_after d hist \<and> mset hist = processed_packets (pl_tasks s) \<and>
    mset ps = stored_packets (pl_tasks s) \<and>
    list_all2 (\<lambda>p c. \<exists>pre post. hist = pre @ post \<and> p \<in> set pre \<and> c = UpdateConnection (record_after pre p))
      ps (pl_db s)"
proof -
  have "pipeline_ok d s" by (rule packet_machine.reachable [OF readable_schedule [OF assms(1)] assms(2)])
  then obtain hist ps where h: "pl_analyzer s = analyzer_after d hist" "mset hist = processed_packets (pl_tasks s)"
    "mset ps = stored_packets (pl_tasks s)"
    "list_all2 (\<lambda>p c. \<exists>r. c = UpdateConnection r \<and> prefix_record hist p r) ps (pl_db s)"
    unfolding pipeline_ok_def by blast
  have "list_all2 (\<lambda>p c. \<exists>pre post. hist = pre @ post \<and> p \<in> set pre \<and> c = UpdateConnection (record_after pre p))
      ps (pl_db s)"
    by (rule list_all2_mono [OF h(4)]) (auto simp: prefix_record_def)
  with h show ?thesis by blast
qed

definition sample_packet :: packet_info where
  "sample_packet = tcp_packet ''b'' 80 ''a'' 9 100 5"

lemma readable_sample: "readable sample_packet" "readable (tcp_packet ''a'' 9 ''b'' 80 40 6)"
  by (simp_all add: readable_def sample_packet_def classify_tcp_packet)

abbreviation goes :: "nat \<Rightarrow> pipeline_event" where
  "goes \<equiv> Advance True"

lemmas pipeline_run = pipeline_init_def enqueue_packet_def advance_def process_step_def store_step_def busy_workers_def
  set_phase_def Let_def

lemma run_one_packet:
  assumes "readable p" and "0 < n"
  shows "run_events pipeline_step [Capture p, goes 0, goes 0, goes 0, goes 0] (pipeline_init n d) =
    Some \<lparr>pl_workers = n, pl_analyzer = analyzer_after d [p], pl_tasks = [(p, Stored)],
          pl_db = [UpdateConnection (record_after [p] p)]\<rparr>"
  using processPacket_step [of p d "[]"] fetch_step_after [of p "[p]" d] assms
  by (simp add: pipeline_run analyzer_after_Nil readable_def)

theorem packet_pipeline_exact_witness:
  "\<exists>hist ps s. run_events pipeline_step [Capture sample_packet, goes 0, goes 0, goes 0, goes 0]
      (pipeline_init 1 blank_packet) = Some s \<and> pl_analyzer s = analyzer_after blank_packet hist \<and>
    mset hist = {#sample_packet#} \<and> mset ps = {#sample_packet#} \<and> length (pl_db s) = 1"
proof -
  let ?es = "[Capture sample_packet, goes 0, goes 0, goes 0, goes 0]"
  have ok: "\<forall>p. Capture p \<in> set ?es \<longrightarrow> readable p" by (simp add: readable_sample)
  have "0 < (1 :: nat)" by simp
  note r = run_one_packet [OF readable_sample(1) this, of blank_packet]
  show ?thesis using packet_pipeline_exact [OF ok r] r
    by (auto simp: processed_packets_def stored_packets_def)
qed

text \<open>
  Updates can arrive out of order. For any two packets of one connection there is a schedule
  of two workers in which the database is first told the connection with both packets and
  last the connection with only the first, so what it keeps is out of date.
\<close>

theorem stale_database_update:
  assumes "readable p" and "readable q" and "same_connection p q"
  shows "\<exists>s new old. run_events pipeline_step
      [Capture p, Capture q, goes 0, goes 0, goes 0, goes 1, goes 1, goes 1, goes 1, goes 0]
      (pipeline_init 2 d) = Some s \<and>
    pl_db s = [UpdateConnection new, UpdateConnection old] \<and>
    unat (cr_packets_sent new) + unat (cr_packets_received new) = 2 \<and>
    unat (cr_packets_sent old) + unat (cr_packets_received old) = 1 \<and>
    cr_source_ip new = cr_source_ip old \<and> cr_dest_ip new = cr_dest_ip old \<and>
    cr_source_port new = cr_source_port old \<and> cr_dest_port new = cr_dest_port old"
proof -
  have one: "processPacket p (analyzer_init d) = Some (analyzer_after d [p])"
    using processPacket_step [of p d "[]"] assms(1) by (simp add: readable_def analyzer_after_Nil)
  have two: "processPacket q (analyzer_after d [p]) = Some (analyzer_after d [p, q])"
    using processPacket_step [of q d "[p]"] assms(2) by (simp add: readable_def)
  have old: "fetch_step p (analyzer_after d [p]) = Some (record_after [p] p)"
    by (rule fetch_step_after) simp
  have new: "fetch_step q (analyzer_after d [p, q]) = Some (record_after [p, q] q)"
    by (rule fetch_step_after) simp
  have run: "\<exists>s. run_events pipeline_step
      [Capture p, Capture q, goes 0, goes 0, goes 0, goes 1, goes 1, goes 1, goes 1, goes 0]
      (pipeline_init 2 d) = Some s \<and>
    pl_db s = [UpdateConnection (record_after [p, q] q), UpdateConnection (record_after [p] p)]"
    by (simp add: pipeline_run one two old new)
  have "filter (same_connection q) [p, q] = [p, q]" "filter (same_connection p) [p] = [p]"
    using assms(3) by (simp_all add: same_connection_def)
  moreover have "first_end q = first_end p" "second_end q = second_end p" using assms(3) by (simp_all add: same_connection_def)
  ultimately have "cr_packets_sent (record_after [p, q] q) = of_nat (length (filter (\<lambda>x. source_end x = first_end p) [p, q]))"
    "cr_packets_received (record_after [p, q] q) = of_nat (length (filter (\<lambda>x. source_end x \<noteq> first_end p) [p, q]))"
    "cr_packets_sent (record_after [p] p) = of_nat (length (filter (\<lambda>x. source_end x = first_end p) [p]))"
    "cr_packets_received (record_after [p] p) = of_nat (length (filter (\<lambda>x. source_end x \<noteq> first_end p) [p]))"
    and same: "cr_source_ip (record_after [p, q] q) = cr_source_ip (record_after [p] p)"
    "cr_dest_ip (record_after [p, q] q) = cr_dest_ip (record_after [p] p)"
    "cr_source_port (record_after [p, q] q) = cr_source_port (record_after [p] p)"
    "cr_dest_port (record_after [p, q] q) = cr_dest_port (record_after [p] p)"
    unfolding record_after_def Let_def by (simp_all del: filter.simps)
  then have "unat (cr_packets_sent (record_after [p, q] q)) + unat (cr_packets_received (record_after [p, q] q)) = 2"
    "unat (cr_packets_sent (record_after [p] p)) + unat (cr_packets_received (record_after [p] p)) = 1"
    by (cases "source_end p = first_end p"; cases "source_end q = first_end p"; simp)+
  with run same show ?thesis by (metis (no_types, lifting))
qed

theorem stale_database_update_witness:
  "\<exists>s. run_events pipeline_step
      [Capture sample_packet, Capture sample_packet, goes 0, goes 0, goes 0, goes 1, goes 1, goes 1, goes 1, goes 0]
      (pipeline_init 2 blank_packet) = Some s \<and> length (pl_db s) = 2"
proof -
  have "same_connection sample_packet sample_packet" by (simp add: same_connection_def)
  from stale_database_update [OF readable_sample(1) readable_sample(1) this, of blank_packet] show ?thesis by auto
qed

end
