(* ===== verification/Thread_Pool.thy ===== *)
theory Thread_Pool
  imports Queue_Interface
begin

text \<open>
  \<^verbatim>\<open>core/utils/thread_pool.hpp\<close>: workers that take tasks from a shared queue until the pool
  is stopped and the queue is empty. A step is what happens under the queue mutex at once. The
  condition variable is part of the state: a worker that has found nothing to do sleeps until it is
  notified, by \<open>enqueue\<close> or by the destructor, or wakes up spuriously.
\<close>

section \<open>State\<close>

text \<open>
  A worker is awake and about to test the condition, sleeps in \<^verbatim>\<open>condition_.wait\<close>, runs a task
  outside the mutex, or has left its loop.
\<close>

datatype 'a worker_state = Waiting | Asleep | Running 'a | Exited

text \<open>\<open>wakeups\<close>: the notifications given to sleeping workers that have not woken up yet.\<close>

record 'a thread_pool =
  workers :: "'a worker_state list"
  tasks :: "'a list"
  stopping :: bool
  wakeups :: nat

definition ThreadPool :: "nat \<Rightarrow> 'a thread_pool" where
  "ThreadPool num_threads =
     \<lparr>workers = replicate num_threads Waiting, tasks = [], stopping = False, wakeups = 0\<rparr>"

section \<open>The condition variable\<close>

definition asleep :: "'a thread_pool \<Rightarrow> nat" where
  "asleep p = length (filter (\<lambda>w. w = Asleep) (workers p))"

text \<open>A notification without a sleeper is lost.\<close>

definition notify_one :: "'a thread_pool \<Rightarrow> 'a thread_pool" where
  "notify_one p = p\<lparr>wakeups := min (asleep p) (Suc (wakeups p))\<rparr>"

definition notify_all :: "'a thread_pool \<Rightarrow> 'a thread_pool" where
  "notify_all p = p\<lparr>wakeups := asleep p\<rparr>"

definition condition_holds :: "'a thread_pool \<Rightarrow> bool" where
  "condition_holds p \<longleftrightarrow> stopping p \<or> tasks p \<noteq> []"

section \<open>Operations\<close>

text \<open>
  \<open>enqueue\<close>; \<open>None\<close> is the exception thrown when the pool is stopped. The notification follows the
  locked block at once: a worker that tests the condition between the two takes the task all the same,
  and one that falls asleep between them is at most woken for nothing.
\<close>

definition enqueue :: "'a \<Rightarrow> 'a thread_pool \<Rightarrow> 'a thread_pool option" where
  "enqueue task p = (if stopping p then None else Some (notify_one (p\<lparr>tasks := tasks p @ [task]\<rparr>)))"

text \<open>The locked block of worker \<open>i\<close> once the condition holds.\<close>

definition worker_go :: "nat \<Rightarrow> 'a thread_pool \<Rightarrow> 'a thread_pool" where
  "worker_go i p =
     (if stopping p \<and> tasks p = []
      then p\<lparr>workers := (workers p)[i := Exited]\<rparr>
      else p\<lparr>workers := (workers p)[i := Running (hd (tasks p))], tasks := tl (tasks p)\<rparr>)"

text \<open>
  One pass of worker \<open>i\<close> through the test of the condition, or its waking up; \<open>None\<close> while it sleeps.
  \<open>spurious\<close>: it wakes up without a notification; when the condition does not hold that changes
  nothing and is no step.
\<close>

definition worker_wake :: "bool \<Rightarrow> nat \<Rightarrow> 'a thread_pool \<Rightarrow> 'a thread_pool option" where
  "worker_wake spurious i p =
     (if length (workers p) \<le> i then None
      else case workers p ! i of
        Waiting \<Rightarrow> Some (if condition_holds p then worker_go i p else p\<lparr>workers := (workers p)[i := Asleep]\<rparr>)
      | Asleep \<Rightarrow>
          if spurious
          then if condition_holds p
               then Some (let q = worker_go i p in q\<lparr>wakeups := min (asleep q) (wakeups q)\<rparr>) else None
          else if 0 < wakeups p
               then Some (p\<lparr>workers := (workers p)[i := Waiting], wakeups := wakeups p - 1\<rparr>) else None
      | _ \<Rightarrow> None)"

text \<open>The task returns and the worker goes back to the wait.\<close>

definition worker_finish :: "nat \<Rightarrow> 'a thread_pool \<Rightarrow> 'a thread_pool option" where
  "worker_finish i p =
     (if i < length (workers p) \<and> (\<exists>t. workers p ! i = Running t)
      then Some (p\<lparr>workers := (workers p)[i := Waiting]\<rparr>) else None)"

text \<open>The destructor: the locked assignment and the notification, and the joins, which wait for every worker.\<close>

definition stop_pool :: "'a thread_pool \<Rightarrow> 'a thread_pool" where
  "stop_pool p = notify_all (p\<lparr>stopping := True\<rparr>)"

definition can_join :: "'a thread_pool \<Rightarrow> bool" where
  "can_join p \<longleftrightarrow> (\<forall>w \<in> set (workers p). w = Exited)"

definition getQueueSize :: "'a thread_pool \<Rightarrow> nat" where
  "getQueueSize p = length (tasks p)"

definition getThreadCount :: "'a thread_pool \<Rightarrow> nat" where
  "getThreadCount p = length (workers p)"

section \<open>Runs\<close>

text \<open>With the lists of the tasks accepted, started and finished so far.\<close>

record 'a pool_run =
  the_pool :: "'a thread_pool"
  accepted :: "'a list"
  started :: "'a list"
  finished :: "'a list"

definition run_init :: "nat \<Rightarrow> 'a pool_run" where
  "run_init n = \<lparr>the_pool = ThreadPool n, accepted = [], started = [], finished = []\<rparr>"

inductive pool_steps :: "nat \<Rightarrow> 'a pool_run \<Rightarrow> bool" for n where
  init: "pool_steps n (run_init n)"
| enqueue: "pool_steps n r \<Longrightarrow> enqueue t (the_pool r) = Some p \<Longrightarrow>
    pool_steps n (r\<lparr>the_pool := p, accepted := accepted r @ [t]\<rparr>)"
| wake: "pool_steps n r \<Longrightarrow> worker_wake spurious i (the_pool r) = Some p \<Longrightarrow>
    pool_steps n (r\<lparr>the_pool := p,
      started := started r @ (case workers p ! i of Running t \<Rightarrow> [t] | _ \<Rightarrow> [])\<rparr>)"
| finish: "pool_steps n r \<Longrightarrow> worker_finish i (the_pool r) = Some p \<Longrightarrow>
    pool_steps n (r\<lparr>the_pool := p,
      finished := finished r @ (case workers (the_pool r) ! i of Running t \<Rightarrow> [t] | _ \<Rightarrow> [])\<rparr>)"
| stop: "pool_steps n r \<Longrightarrow> pool_steps n (r\<lparr>the_pool := stop_pool (the_pool r)\<rparr>)"

subsection \<open>Invariant\<close>

fun in_worker :: "'a worker_state \<Rightarrow> 'a multiset" where
  "in_worker (Running t) = {#t#}"
| "in_worker _ = {#}"

definition in_workers :: "'a worker_state list \<Rightarrow> 'a multiset" where
  "in_workers ws = sum_list (map in_worker ws)"

lemma in_workers_update:
  "i < length ws \<Longrightarrow> in_workers (ws[i := w]) + in_worker (ws ! i) = in_workers ws + in_worker w"
proof (induction ws arbitrary: i)
  case (Cons x ws)
  then show ?case by (cases i) (auto simp: in_workers_def ac_simps)
qed simp

text \<open>
  The condition variable: nobody is notified twice; once the pool is stopped every sleeper is; and no
  task waits in the queue while every worker sleeps unnotified.
\<close>

fun awake :: "'a worker_state \<Rightarrow> bool" where
  "awake Waiting = True"
| "awake (Running t) = True"
| "awake _ = False"

definition pool_ok :: "'a thread_pool \<Rightarrow> bool" where
  "pool_ok p \<longleftrightarrow> wakeups p \<le> asleep p \<and> (stopping p \<longrightarrow> wakeups p = asleep p) \<and>
     (Exited \<in> set (workers p) \<longrightarrow> stopping p \<and> tasks p = []) \<and>
     (tasks p \<noteq> [] \<and> workers p \<noteq> [] \<longrightarrow> 0 < wakeups p \<or> (\<exists>w \<in> set (workers p). awake w))"

lemma asleep_update:
  "i < length ws \<Longrightarrow> length (filter (\<lambda>w. w = Asleep) (ws[i := w])) + (if ws ! i = Asleep then 1 else 0) =
    length (filter (\<lambda>w. w = Asleep) ws) + (if w = Asleep then 1 else 0)"
proof (induction ws arbitrary: i)
  case (Cons x ws)
  show ?case
  proof (cases i)
    case (Suc j)
    then show ?thesis using Cons.IH [of j] Cons.prems by (cases "x = Asleep") simp_all
  qed simp
qed simp

lemma nobody_awake: "\<forall>w \<in> set ws. \<not> awake w \<Longrightarrow> Exited \<notin> set ws \<Longrightarrow> length (filter (\<lambda>w. w = Asleep) ws) = length ws"
proof (induction ws)
  case (Cons w ws)
  then show ?case by (cases w) auto
qed simp

text \<open>The five things that \<open>worker_wake\<close> can do.\<close>

lemma worker_wake_cases:
  assumes "worker_wake spurious i p = Some p'"
  obtains
    (Take) "i < length (workers p)" "workers p ! i = Waiting \<or> workers p ! i = Asleep" "tasks p \<noteq> []"
      "workers p' = (workers p)[i := Running (hd (tasks p))]" "tasks p' = tl (tasks p)" "stopping p' = stopping p"
      "wakeups p' = (if workers p ! i = Waiting then wakeups p else min (asleep p') (wakeups p))"
  | (Leave) "i < length (workers p)" "workers p ! i = Waiting \<or> workers p ! i = Asleep" "tasks p = []" "stopping p"
      "workers p' = (workers p)[i := Exited]" "tasks p' = tasks p" "stopping p' = stopping p"
      "wakeups p' = (if workers p ! i = Waiting then wakeups p else min (asleep p') (wakeups p))"
  | (Sleep) "i < length (workers p)" "workers p ! i = Waiting" "tasks p = []" "\<not> stopping p"
      "p' = p\<lparr>workers := (workers p)[i := Asleep]\<rparr>"
  | (Notified) "i < length (workers p)" "workers p ! i = Asleep" "0 < wakeups p"
      "p' = p\<lparr>workers := (workers p)[i := Waiting], wakeups := wakeups p - 1\<rparr>"
proof -
  have i: "i < length (workers p)" using assms by (simp add: worker_wake_def split: if_splits)
  show ?thesis
  proof (cases "workers p ! i")
    case Waiting
    show ?thesis
    proof (cases "condition_holds p")
      case True
      then have p': "p' = worker_go i p" using assms i Waiting by (simp add: worker_wake_def)
      show ?thesis
      proof (cases "tasks p = []")
        case t: True
        then show ?thesis using Leave i Waiting True by (simp add: p' worker_go_def condition_holds_def)
      next
        case False
        then show ?thesis using Take i Waiting by (simp add: p' worker_go_def)
      qed
    next
      case False
      then show ?thesis using Sleep assms i Waiting by (simp add: worker_wake_def condition_holds_def)
    qed
  next
    case Asleep
    show ?thesis
    proof (cases spurious)
      case True
      then have c: "condition_holds p" and p': "p' = (let q = worker_go i p in q\<lparr>wakeups := min (asleep q) (wakeups q)\<rparr>)"
        using assms i Asleep by (simp_all add: worker_wake_def split: if_splits)
      show ?thesis
      proof (cases "tasks p = []")
        case t: True
        then show ?thesis using Leave i Asleep c by (simp add: p' worker_go_def condition_holds_def asleep_def)
      next
        case False
        then show ?thesis using Take i Asleep by (simp add: p' worker_go_def asleep_def)
      qed
    next
      case False
      then show ?thesis using Notified assms i Asleep by (simp add: worker_wake_def split: if_splits)
    qed
  qed (use assms i in \<open>simp_all add: worker_wake_def\<close>)
qed

text \<open>What a pool that is seen from outside needs to know of a pass: whether a task was taken.\<close>

lemma worker_wake_task:
  assumes "worker_wake spurious i p = Some p'" and "workers p' ! i = Running j"
  shows "i < length (workers p)" and "\<And>t. workers p ! i \<noteq> Running t" and "workers p ! i \<noteq> Exited"
    and "tasks p = j # tasks p'" and "workers p' = (workers p)[i := Running j]" and "stopping p' = stopping p"
    and "wakeups p' \<le> wakeups p"
proof -
  have "i < length (workers p) \<and> (workers p ! i = Waiting \<or> workers p ! i = Asleep) \<and> tasks p = j # tasks p' \<and>
    workers p' = (workers p)[i := Running j] \<and> stopping p' = stopping p \<and> wakeups p' \<le> wakeups p" using assms(1)
  proof (cases rule: worker_wake_cases)
    case Take
    then show ?thesis using assms(2) by (cases "tasks p") auto
  next
    case Leave
    then show ?thesis using assms(2) by simp
  qed (use assms(2) in simp_all)
  then show "i < length (workers p)" "\<And>t. workers p ! i \<noteq> Running t" "workers p ! i \<noteq> Exited" "tasks p = j # tasks p'"
    "workers p' = (workers p)[i := Running j]" "stopping p' = stopping p" "wakeups p' \<le> wakeups p" by auto
qed

lemma worker_wake_idle:
  assumes "worker_wake spurious i p = Some p'" and "\<And>j. workers p' ! i \<noteq> Running j"
  shows "tasks p' = tasks p" and "stopping p' = stopping p" and "i < length (workers p)"
    and "\<exists>w. workers p' = (workers p)[i := w] \<and> (\<forall>j. w \<noteq> Running j)" and "\<And>j. workers p ! i \<noteq> Running j"
proof -
  have "tasks p' = tasks p \<and> stopping p' = stopping p \<and> i < length (workers p) \<and>
    (\<exists>w. workers p' = (workers p)[i := w] \<and> (\<forall>j. w \<noteq> Running j)) \<and> (\<forall>j. workers p ! i \<noteq> Running j)" using assms(1)
  proof (cases rule: worker_wake_cases)
    case Take
    then show ?thesis using assms(2) [of "hd (tasks p)"] by simp
  qed auto
  then show "tasks p' = tasks p" "stopping p' = stopping p" "i < length (workers p)"
    "\<exists>w. workers p' = (workers p)[i := w] \<and> (\<forall>j. w \<noteq> Running j)" "\<And>j. workers p ! i \<noteq> Running j" by blast+
qed

lemma pool_ok_enqueue: "pool_ok p \<Longrightarrow> enqueue t p = Some p' \<Longrightarrow> pool_ok p'"
proof -
  assume ok: "pool_ok p" and e: "enqueue t p = Some p'"
  have p': "p' = p\<lparr>tasks := tasks p @ [t], wakeups := min (asleep p) (Suc (wakeups p))\<rparr>" "\<not> stopping p"
    using e by (simp_all add: enqueue_def notify_one_def asleep_def split: if_splits)
  have "0 < asleep p \<or> (\<exists>w \<in> set (workers p). awake w)" if "workers p \<noteq> []"
    using nobody_awake [of "workers p"] ok p'(2) that by (auto simp: pool_ok_def asleep_def)
  then show "pool_ok p'" using ok p'(2) by (auto simp: p'(1) pool_ok_def asleep_def)
qed

lemma pool_ok_stop: "pool_ok p \<Longrightarrow> pool_ok (stop_pool p)"
  by (auto simp: pool_ok_def stop_pool_def notify_all_def asleep_def)

lemma awake_update: "i < length ws \<Longrightarrow> awake w \<Longrightarrow> \<exists>x \<in> set (ws[i := w]). awake x"
  by (metis set_update_memI)

lemma pool_ok_finish: "pool_ok p \<Longrightarrow> worker_finish i p = Some p' \<Longrightarrow> pool_ok p'"
proof -
  assume ok: "pool_ok p" and f: "worker_finish i p = Some p'"
  then obtain t where i: "i < length (workers p)" "workers p ! i = Running t" "p' = p\<lparr>workers := (workers p)[i := Waiting]\<rparr>"
    by (auto simp: worker_finish_def split: if_splits)
  have "Exited \<in> set ((workers p)[i := Waiting]) \<longrightarrow> Exited \<in> set (workers p)" using set_update_cases by fastforce
  then show "pool_ok p'" using ok asleep_update [OF i(1), of Waiting] i(2) awake_update [OF i(1), of Waiting]
    by (auto simp: i(3) pool_ok_def asleep_def)
qed

lemma pool_ok_wake:
  assumes ok: "pool_ok p" and w: "worker_wake spurious i p = Some p'"
  shows "pool_ok p'"
  using w
proof (cases rule: worker_wake_cases)
  case Take
  note ws = Take(4) and st = Take(6)
  have "Exited \<notin> set (workers p)" using ok Take(3) by (auto simp: pool_ok_def)
  then have "Exited \<notin> set (workers p')" unfolding ws using set_update_cases by fastforce
  moreover have "asleep p' + (if workers p ! i = Asleep then 1 else 0) = asleep p"
    using asleep_update [OF Take(1), of "Running (hd (tasks p))"] by (simp add: asleep_def ws)
  moreover have "\<exists>x \<in> set (workers p'). awake x" unfolding ws by (rule awake_update [OF Take(1)]) simp
  ultimately show ?thesis using ok Take(2,7) st by (auto simp: pool_ok_def)
next
  case Leave
  note ws = Leave(5) and st = Leave(6,7)
  have "asleep p' + (if workers p ! i = Asleep then 1 else 0) = asleep p"
    using asleep_update [OF Leave(1), of Exited] by (simp add: asleep_def ws)
  then show ?thesis using ok Leave(2,3,4,8) st by (auto simp: pool_ok_def)
next
  case Sleep
  have "asleep p' = Suc (asleep p)" using asleep_update [OF Sleep(1), of Asleep] Sleep(2) by (simp add: asleep_def Sleep(5))
  moreover have "Exited \<in> set (workers p') \<longrightarrow> Exited \<in> set (workers p)" unfolding Sleep(5) using set_update_cases by fastforce
  ultimately show ?thesis using ok Sleep(3,4) by (auto simp: pool_ok_def Sleep(5))
next
  case Notified
  have "Suc (asleep p') = asleep p" using asleep_update [OF Notified(1), of Waiting] Notified(2) by (simp add: asleep_def Notified(4))
  moreover have "Exited \<in> set (workers p') \<longrightarrow> Exited \<in> set (workers p)" unfolding Notified(4) using set_update_cases by fastforce
  moreover have "\<exists>x \<in> set (workers p'). awake x" unfolding Notified(4) using awake_update [OF Notified(1), of Waiting] by simp
  ultimately show ?thesis using ok Notified(3) by (auto simp: pool_ok_def Notified(4))
qed

definition run_ok :: "nat \<Rightarrow> 'a pool_run \<Rightarrow> bool" where
  "run_ok n r \<longleftrightarrow> length (workers (the_pool r)) = n \<and>
     started r @ tasks (the_pool r) = accepted r \<and>
     mset (started r) = mset (finished r) + in_workers (workers (the_pool r)) \<and> pool_ok (the_pool r)"

lemma in_workers_waiting [simp]: "in_workers (replicate n Waiting) = {#}"
  by (induction n) (simp_all add: in_workers_def)

lemma in_worker_idle: "(\<And>j. w \<noteq> Running j) \<Longrightarrow> in_worker w = {#}"
  by (cases w) auto

lemma run_ok_steps: "pool_steps n r \<Longrightarrow> run_ok n r"
proof (induction rule: pool_steps.induct)
  case init
  then show ?case by (simp add: run_ok_def run_init_def ThreadPool_def pool_ok_def)
next
  case (enqueue r t p)
  have "pool_ok p" using pool_ok_enqueue enqueue by (auto simp: run_ok_def)
  then show ?case using enqueue by (auto simp: run_ok_def enqueue_def notify_one_def split: if_splits)
next
  case (wake r spurious i p)
  let ?p = "the_pool r"
  have ok: "pool_ok p" using pool_ok_wake wake by (auto simp: run_ok_def)
  show ?case
  proof (cases "\<exists>j. workers p ! i = Running j")
    case True
    then obtain j where j: "workers p ! i = Running j" by blast
    note f = worker_wake_task [OF wake.hyps(2) j]
    have "in_worker (workers ?p ! i) = {#}" by (rule in_worker_idle) (use f(2) in blast)
    then have "in_workers (workers p) = in_workers (workers ?p) + {#j#}"
      using in_workers_update [OF f(1), of "Running j"] by (simp add: f(5))
    moreover have "(case workers p ! i of Running t \<Rightarrow> [t] | _ \<Rightarrow> []) = [j]" by (simp add: j)
    ultimately show ?thesis using wake.IH ok f(4) by (simp add: run_ok_def f(5))
  next
    case False
    then have idle: "\<And>j. workers p ! i \<noteq> Running j" by blast
    note f = worker_wake_idle [OF wake.hyps(2) idle]
    obtain w where w: "workers p = (workers ?p)[i := w]" "\<forall>j. w \<noteq> Running j" using f(4) by blast
    have "in_worker (workers ?p ! i) = {#}" "in_worker w = {#}" by (rule in_worker_idle, use f(5) w(2) in blast)+
    then have "in_workers (workers p) = in_workers (workers ?p)" using in_workers_update [OF f(3), of w] by (simp add: w(1))
    moreover have "(case workers p ! i of Running t \<Rightarrow> [t] | _ \<Rightarrow> []) = []" using idle by (cases "workers p ! i") auto
    ultimately show ?thesis using wake.IH ok f(1) w(1) by (simp add: run_ok_def)
  qed
next
  case (finish r i p)
  let ?p = "the_pool r"
  obtain t where i: "i < length (workers ?p)" "workers ?p ! i = Running t"
    and p: "p = ?p\<lparr>workers := (workers ?p)[i := Waiting]\<rparr>"
    using finish.hyps(2) by (auto simp: worker_finish_def split: if_splits)
  have "pool_ok p" using pool_ok_finish finish by (auto simp: run_ok_def)
  then show ?case using finish.IH i in_workers_update [OF i(1), of Waiting]
    by (auto simp: p run_ok_def)
next
  case (stop r)
  have "pool_ok (stop_pool (the_pool r))" using pool_ok_stop stop by (auto simp: run_ok_def)
  then show ?case using stop.IH by (auto simp: run_ok_def stop_pool_def notify_all_def)
qed

lemma all_exited: "\<forall>w \<in> set ws. w = Exited \<Longrightarrow> in_workers ws = {#}"
  by (induction ws) (auto simp: in_workers_def)

text \<open>Work left: every step of a worker makes it smaller.\<close>

fun worker_weight :: "'a worker_state \<Rightarrow> nat" where
  "worker_weight Waiting = 2"
| "worker_weight Asleep = 1"
| "worker_weight (Running _) = 3"
| "worker_weight Exited = 0"

definition pool_weight :: "'a thread_pool \<Rightarrow> nat" where
  "pool_weight p = 3 * length (tasks p) + 2 * wakeups p + sum_list (map worker_weight (workers p))"

lemma weight_update:
  "i < length ws \<Longrightarrow> sum_list (map worker_weight (ws[i := w])) + worker_weight (ws ! i) =
    sum_list (map worker_weight ws) + worker_weight w"
proof (induction ws arbitrary: i)
  case (Cons x ws)
  then show ?case by (cases i) auto
qed simp

lemma wake_weight:
  assumes "worker_wake spurious i p = Some p'"
  shows "2 * wakeups p' + sum_list (map worker_weight (workers p')) <
    2 * wakeups p + sum_list (map worker_weight (workers p)) + 3 * (length (tasks p) - length (tasks p')) \<and>
    length (tasks p') \<le> length (tasks p)"
  using assms
proof (cases rule: worker_wake_cases)
  case Take
  have "wakeups p' \<le> wakeups p" by (simp add: Take(7))
  moreover have "1 \<le> worker_weight (workers p ! i)" using Take(2) by auto
  moreover have "length (tasks p) - length (tasks p') = 1" "length (tasks p') \<le> length (tasks p)"
    using Take(3,5) by (cases "tasks p"; simp)+
  ultimately show ?thesis using weight_update [OF Take(1), of "Running (hd (tasks p))"] by (simp add: Take(4))
next
  case Leave
  have "wakeups p' \<le> wakeups p" by (simp add: Leave(8))
  moreover have "1 \<le> worker_weight (workers p ! i)" using Leave(2) by auto
  ultimately show ?thesis using weight_update [OF Leave(1), of Exited] by (simp add: Leave(5,6))
next
  case Sleep
  then show ?thesis using weight_update [OF Sleep(1), of Asleep] by simp
next
  case Notified
  then show ?thesis using weight_update [OF Notified(1), of Waiting] by simp
qed

lemma weight_decreases:
  "worker_wake spurious i p = Some p' \<or> worker_finish i p = Some p' \<Longrightarrow> pool_weight p' < pool_weight p"
proof (elim disjE)
  assume "worker_wake spurious i p = Some p'"
  from wake_weight [OF this] show "pool_weight p' < pool_weight p" by (auto simp: pool_weight_def)
next
  assume f: "worker_finish i p = Some p'"
  then obtain t where i: "i < length (workers p)" "workers p ! i = Running t" "p' = p\<lparr>workers := (workers p)[i := Waiting]\<rparr>"
    by (auto simp: worker_finish_def split: if_splits)
  then show "pool_weight p' < pool_weight p" using weight_update [OF i(1), of Waiting] by (simp add: pool_weight_def)
qed

text \<open>While there is something to do, some worker can go on without waking up spuriously.\<close>

lemma wake_possible:
  assumes "pool_ok p" and "i < length (workers p)" and "workers p ! i \<noteq> Exited" and "condition_holds p"
    and "workers p ! i = Asleep \<Longrightarrow> 0 < wakeups p"
  shows "(\<forall>spurious. worker_wake spurious i p \<noteq> None) \<or> worker_finish i p \<noteq> None"
  using assms by (cases "workers p ! i") (auto simp: worker_wake_def worker_finish_def)

lemma work_possible:
  assumes ok: "pool_ok p" and "workers p \<noteq> []" and work: "tasks p \<noteq> [] \<or> stopping p \<and> \<not> can_join p"
  shows "\<exists>i < length (workers p). (\<forall>spurious. worker_wake spurious i p \<noteq> None) \<or> worker_finish i p \<noteq> None"
proof -
  have c: "condition_holds p" using work by (auto simp: condition_holds_def)
  obtain i where i: "i < length (workers p)" "workers p ! i \<noteq> Exited" "workers p ! i = Asleep \<longrightarrow> 0 < wakeups p"
  proof (cases "\<exists>w \<in> set (workers p). awake w")
    case True
    then obtain i where "i < length (workers p)" "awake (workers p ! i)" by (auto simp: in_set_conv_nth)
    then show ?thesis using that by (cases "workers p ! i") auto
  next
    case False
    show ?thesis
    proof (cases "tasks p = []")
      case True
      then have "stopping p" "\<not> can_join p" using work by auto
      then obtain i where i: "i < length (workers p)" "workers p ! i \<noteq> Exited" by (auto simp: can_join_def in_set_conv_nth)
      have "0 < asleep p" if "workers p ! i = Asleep"
        using i(1) that by (auto simp: asleep_def filter_empty_conv) (metis nth_mem)
      then show ?thesis using that i ok \<open>stopping p\<close> by (auto simp: pool_ok_def)
    next
      case False
      have "0 < wakeups p" using ok \<open>tasks p \<noteq> []\<close> \<open>\<not> (\<exists>w \<in> set (workers p). awake w)\<close> assms(2) by (auto simp: pool_ok_def)
      moreover have "workers p ! 0 \<noteq> Exited" using ok False assms(2) by (metis length_greater_0_conv nth_mem pool_ok_def)
      ultimately show ?thesis using that [of 0] assms(2) by simp
    qed
  qed
  then show ?thesis using wake_possible [OF ok i(1,2) c] by blast
qed

lemma pool_joined:
  assumes "run_ok n r" and "0 < n" and "can_join (the_pool r)"
  shows "tasks (the_pool r) = [] \<and> mset (finished r) = mset (accepted r)"
proof -
  let ?p = "the_pool r"
  have all: "\<forall>w \<in> set (workers ?p). w = Exited" using assms(3) by (simp add: can_join_def)
  moreover have "workers ?p \<noteq> []" using assms(1,2) by (auto simp: run_ok_def)
  ultimately have "Exited \<in> set (workers ?p)" by (cases "workers ?p") auto
  then have t: "tasks ?p = []" using assms(1) by (simp add: run_ok_def pool_ok_def)
  then have "started r = accepted r" using assms(1) by (simp add: run_ok_def)
  then show ?thesis using t assms(1) all_exited [OF all] by (simp add: run_ok_def)
qed

section \<open>Properties\<close>

text \<open>
  C30: Tasks are run once each and started in the order in which they were accepted: in every
  interleaving of callers and workers the tasks started so far, followed by those in the
  queue, are exactly the accepted ones, and the started ones are those finished and those
  running.
\<close>

theorem pool_fifo_once:
  assumes "pool_steps n r"
  shows "started r @ tasks (the_pool r) = accepted r \<and>
    mset (started r) = mset (finished r) + in_workers (workers (the_pool r)) \<and>
    getThreadCount (the_pool r) = n"
  using run_ok_steps [OF assms] by (simp add: run_ok_def getThreadCount_def)

theorem pool_fifo_once_witness:
  "let r = (run_init 2)\<lparr>the_pool := the (enqueue (7 :: nat) (ThreadPool 2)), accepted := [] @ [7]\<rparr> in
   started r @ tasks (the_pool r) = accepted r \<and>
    mset (started r) = mset (finished r) + in_workers (workers (the_pool r)) \<and>
    getThreadCount (the_pool r) = 2"
proof -
  have "pool_steps 2 ((run_init 2)\<lparr>the_pool := the (enqueue (7 :: nat) (ThreadPool 2)),
      accepted := accepted (run_init 2) @ [7]\<rparr>)"
    by (rule pool_steps.enqueue [OF pool_steps.init]) (simp add: run_init_def enqueue_def ThreadPool_def)
  then have "pool_steps 2 ((run_init 2)\<lparr>the_pool := the (enqueue (7 :: nat) (ThreadPool 2)), accepted := [] @ [7]\<rparr>)"
    by (simp add: run_init_def)
  then show ?thesis unfolding Let_def by (rule pool_fifo_once)
qed

text \<open>
  C33: No task is forgotten and the destructor completes the work. With at least one worker, in every
  state the pool can reach: each step of a worker uses up some of a bounded amount of work; as long as
  a task is in the queue, or the pool is stopped and not every worker can be joined, some worker can
  take a step without a spurious wake-up, because a sleeping worker has been notified; and when
  every worker can be joined each accepted task has been finished. So after the stop, once the tasks
  themselves return, the joins return under every schedule.
\<close>

theorem pool_shutdown_complete:
  assumes "pool_steps n r" and "0 < n"
  shows "(\<forall>spurious i p. worker_wake spurious i (the_pool r) = Some p \<or> worker_finish i (the_pool r) = Some p \<longrightarrow>
       pool_weight p < pool_weight (the_pool r)) \<and>
    (tasks (the_pool r) \<noteq> [] \<or> stopping (the_pool r) \<and> \<not> can_join (the_pool r) \<longrightarrow>
       (\<exists>i < n. worker_wake False i (the_pool r) \<noteq> None \<or> worker_finish i (the_pool r) \<noteq> None)) \<and>
    (can_join (the_pool r) \<longrightarrow> tasks (the_pool r) = [] \<and> mset (finished r) = mset (accepted r))"
proof -
  let ?p = "the_pool r"
  have ok: "run_ok n r" by (rule run_ok_steps [OF assms(1)])
  have "tasks ?p = [] \<and> mset (finished r) = mset (accepted r)" if "can_join ?p"
    using pool_joined [OF ok assms(2) that] .
  moreover have "\<exists>i < n. worker_wake False i ?p \<noteq> None \<or> worker_finish i ?p \<noteq> None"
    if "tasks ?p \<noteq> [] \<or> stopping ?p \<and> \<not> can_join ?p"
    using work_possible [OF _ _ that] ok assms(2) by (auto simp: run_ok_def)
  ultimately show ?thesis using weight_decreases by blast
qed

text \<open>A worker falls asleep; the stop notifies it, and it leaves.\<close>

definition sleepy_run :: "nat pool_run" where
  "sleepy_run = (run_init 1)\<lparr>the_pool := stop_pool (the (worker_wake False 0 (ThreadPool 1)))\<rparr>"

lemma sleepy_run_steps: "pool_steps 1 sleepy_run"
proof -
  let ?r = "run_init 1 :: nat pool_run" and ?p = "the (worker_wake False 0 (ThreadPool 1)) :: nat thread_pool"
  have w: "worker_wake False 0 (the_pool ?r) = Some ?p"
    by (simp add: run_init_def ThreadPool_def worker_wake_def condition_holds_def)
  have "?r\<lparr>the_pool := ?p, started := started ?r @ (case workers ?p ! 0 of Running t \<Rightarrow> [t] | _ \<Rightarrow> [])\<rparr> = ?r\<lparr>the_pool := ?p\<rparr>"
    by (simp add: run_init_def ThreadPool_def worker_wake_def condition_holds_def)
  then have "pool_steps 1 (?r\<lparr>the_pool := ?p\<rparr>)" using pool_steps.wake [OF pool_steps.init w] by simp
  from pool_steps.stop [OF this] show ?thesis by (simp add: sleepy_run_def)
qed

theorem pool_shutdown_complete_witness:
  "workers (the_pool sleepy_run) = [Asleep] \<and> \<not> can_join (the_pool sleepy_run) \<and>
    (\<exists>p. worker_wake False 0 (the_pool sleepy_run) = Some p \<and> pool_weight p < pool_weight (the_pool sleepy_run))"
proof -
  have p: "the_pool sleepy_run = \<lparr>workers = [Asleep], tasks = [], stopping = True, wakeups = 1\<rparr>"
    by (simp add: sleepy_run_def ThreadPool_def worker_wake_def condition_holds_def stop_pool_def notify_all_def asleep_def)
  then have "stopping (the_pool sleepy_run) \<and> \<not> can_join (the_pool sleepy_run)" by (simp add: can_join_def)
  then have "worker_wake False 0 (the_pool sleepy_run) \<noteq> None \<or> worker_finish 0 (the_pool sleepy_run) \<noteq> None"
    using pool_shutdown_complete [OF sleepy_run_steps zero_less_one] by auto
  then obtain q where "worker_wake False 0 (the_pool sleepy_run) = Some q"
    unfolding p by (auto simp: worker_finish_def)
  then show ?thesis
    using pool_shutdown_complete [OF sleepy_run_steps zero_less_one] p by (auto simp: can_join_def)
qed

text \<open>
  A pool without workers accepts tasks and never runs one, and its destructor returns at
  once; \<^verbatim>\<open>hardware_concurrency()\<close>, which gives the number of workers, may be 0.
\<close>

theorem pool_no_workers:
  assumes "pool_steps 0 r"
  shows "finished r = [] \<and> tasks (the_pool r) = accepted r \<and> can_join (the_pool r)"
proof -
  have ok: "run_ok 0 r" by (rule run_ok_steps [OF assms])
  then have w: "workers (the_pool r) = []" by (simp add: run_ok_def)
  have "started r = []" using assms
  proof (induction rule: pool_steps.induct)
    case (wake r spurious i p)
    then have "workers (the_pool r) = []" using run_ok_steps [of 0 r] by (simp add: run_ok_def)
    then show ?case using wake by (simp add: worker_wake_def)
  qed (simp_all add: run_init_def)
  then show ?thesis using ok w by (auto simp: run_ok_def can_join_def in_workers_def)
qed

theorem pool_no_workers_witness:
  "let r = (run_init 0)\<lparr>the_pool := the (enqueue (7 :: nat) (ThreadPool 0)), accepted := accepted (run_init 0) @ [7]\<rparr> in
   finished r = [] \<and> tasks (the_pool r) = accepted r \<and> can_join (the_pool r)"
  unfolding Let_def
  by (rule pool_no_workers, rule pool_steps.enqueue [OF pool_steps.init])
    (simp add: run_init_def enqueue_def notify_one_def ThreadPool_def)

end
