(* ===== verification/Command_Line.thy ===== *)
theory Command_Line
  imports Settings
begin

text \<open>
  \<^verbatim>\<open>main.cpp\<close>, lines 57 to 105: the command line on top of the settings, and the log level.
  Files are an argument: the text of a file, or \<open>None\<close> when it cannot be opened.
\<close>

section \<open>Parsing the arguments\<close>

text \<open>
  How the loop ends: the usage text and exit code 0, exit code 1 for a file that cannot be read,
  the exception of \<^verbatim>\<open>std::stoi\<close>, which nothing catches here, or the settings.
\<close>

datatype cli_result = Usage | LoadFailed string | Uncaught conv_error | Configured config

definition set_interface :: "string \<Rightarrow> config \<Rightarrow> config" where
  "set_interface v c = cfg_set ''enable_packet_capture'' (CBool True) (cfg_set ''capture_interface'' (CStr v) c)"

text \<open>\<^verbatim>\<open>static_cast<uint16_t>\<close> of an \<open>int\<close>.\<close>

definition set_port :: "string \<Rightarrow> int \<Rightarrow> config \<Rightarrow> config" where
  "set_port key p c = cfg_set key (CUInt16 (of_int p)) c"

text \<open>The loop over \<open>argv[1]\<close> and so on; the list is what is left.\<close>

function parse_args :: "(string \<Rightarrow> string option) \<Rightarrow> string list \<Rightarrow> config \<Rightarrow> cli_result" where
  "parse_args files [] c = Configured c"
| "parse_args files (a # rest) c =
     (if a = ''--help'' then Usage
      else if a = ''--config'' \<and> rest \<noteq> [] then
        (let (loaded, c') = loadFromFile (files (hd rest)) c
         in if \<not> loaded then LoadFailed (hd rest) else parse_args files (tl rest) c')
      else if a = ''--interface'' \<and> rest \<noteq> [] then
        parse_args files (tl rest) (set_interface (hd rest) c)
      else if a = ''--api-enable'' then parse_args files rest (cfg_set ''enable_api'' (CBool True) c)
      else if a = ''--api-port'' \<and> rest \<noteq> [] then
        (case stoi (hd rest) of Inl e \<Rightarrow> Uncaught e
         | Inr p \<Rightarrow> parse_args files (tl rest) (set_port ''api_port'' p c))
      else if a = ''--web-enable'' then parse_args files rest (cfg_set ''enable_web'' (CBool True) c)
      else if a = ''--web-port'' \<and> rest \<noteq> [] then
        (case stoi (hd rest) of Inl e \<Rightarrow> Uncaught e
         | Inr p \<Rightarrow> parse_args files (tl rest) (set_port ''web_port'' p c))
      else if a = ''--log-level'' \<and> rest \<noteq> [] then
        parse_args files (tl rest) (cfg_set ''log_level'' (CStr (hd rest)) c)
      else if a = ''--log-file'' \<and> rest \<noteq> [] then
        parse_args files (tl rest) (cfg_set ''log_file'' (CStr (hd rest)) c)
      else parse_args files rest c)"
  by pat_completeness auto

termination parse_args
  by (relation "measure (\<lambda>(files, as, c). length as)") auto

declare parse_args.simps(2) [simp del]

section \<open>The logger\<close>

definition init_logger :: "config \<Rightarrow> logger option \<Rightarrow> logger option" where
  "init_logger c inst =
     logger_initialize (cfg_string ''log_file'' ''netsentry.log'' c)
       (level_of_setting (cfg_string ''log_level'' ''info'' c)) inst"

section \<open>Specification: a list of options\<close>

datatype cli_option = OConfig string | OInterface string | OApiEnable | OApiPort int
  | OWebEnable | OWebPort int | OLogLevel string | OLogFile string

fun option_args :: "cli_option \<Rightarrow> string list" where
  "option_args (OConfig f) = [''--config'', f]"
| "option_args (OInterface i) = [''--interface'', i]"
| "option_args OApiEnable = [''--api-enable'']"
| "option_args (OApiPort p) = [''--api-port'', int_str p]"
| "option_args OWebEnable = [''--web-enable'']"
| "option_args (OWebPort p) = [''--web-port'', int_str p]"
| "option_args (OLogLevel l) = [''--log-level'', l]"
| "option_args (OLogFile f) = [''--log-file'', f]"

fun option_ok :: "(string \<Rightarrow> string option) \<Rightarrow> cli_option \<Rightarrow> bool" where
  "option_ok files (OConfig f) = (files f \<noteq> None)"
| "option_ok files (OApiPort p) = (- (2 ^ 31) \<le> p \<and> p < 2 ^ 31)"
| "option_ok files (OWebPort p) = (- (2 ^ 31) \<le> p \<and> p < 2 ^ 31)"
| "option_ok files _ = True"

text \<open>What an option means: the settings it puts on top of those before it.\<close>

fun option_settings :: "(string \<Rightarrow> string option) \<Rightarrow> cli_option \<Rightarrow> (string \<times> cfg_value) list" where
  "option_settings files (OConfig f) = List.map_filter parse_yaml_line (split_lines (the (files f)))"
| "option_settings files (OInterface i) =
     [(''capture_interface'', CStr i), (''enable_packet_capture'', CBool True)]"
| "option_settings files OApiEnable = [(''enable_api'', CBool True)]"
| "option_settings files (OApiPort p) = [(''api_port'', CUInt16 (of_int p))]"
| "option_settings files OWebEnable = [(''enable_web'', CBool True)]"
| "option_settings files (OWebPort p) = [(''web_port'', CUInt16 (of_int p))]"
| "option_settings files (OLogLevel l) = [(''log_level'', CStr l)]"
| "option_settings files (OLogFile f) = [(''log_file'', CStr f)]"

definition apply_settings :: "(string \<times> cfg_value) list \<Rightarrow> config \<Rightarrow> config" where
  "apply_settings es c = foldl (\<lambda>c e. cfg_set (fst e) (snd e) c) c es"

lemma apply_settings_append: "apply_settings (xs @ ys) c = apply_settings ys (apply_settings xs c)"
  by (simp add: apply_settings_def)

lemma parseYaml_settings: "parseYaml text c = apply_settings (List.map_filter parse_yaml_line (split_lines text)) c"
proof -
  have "foldl (\<lambda>c line. case parse_yaml_line line of None \<Rightarrow> c | Some (k, v) \<Rightarrow> cfg_set k v c) c ls =
      foldl (\<lambda>c e. cfg_set (fst e) (snd e) c) c (List.map_filter parse_yaml_line ls)" for ls
    by (induction ls arbitrary: c) (auto simp: List.map_filter_simps split: option.splits)
  then show ?thesis by (simp add: parseYaml_def apply_settings_def)
qed

lemma stoi_int_str:
  assumes "- (2 ^ 31) \<le> i" and "i < 2 ^ 31"
  shows "stoi (int_str i) = Inr i"
proof -
  have "stoll (int_str i) = Inr i" using assms by (intro stoll_int_str) simp_all
  then show ?thesis using assms
    by (auto simp: stoi_def stoll_def in_range_def split: option.splits if_splits)
qed

lemma parse_option:
  assumes "option_ok files opt"
  shows "parse_args files (option_args opt @ as) c = parse_args files as (apply_settings (option_settings files opt) c)"
proof (cases opt)
  case (OConfig f)
  with assms obtain body where "files f = Some body" by auto
  with OConfig show ?thesis by (simp add: parse_args.simps(2) loadFromFile_def parseYaml_settings)
qed (use assms in \<open>simp_all add: parse_args.simps(2) set_interface_def set_port_def apply_settings_def stoi_int_str\<close>)

lemma parse_options:
  "\<forall>opt \<in> set opts. option_ok files opt \<Longrightarrow>
    parse_args files (concat (map option_args opts) @ as) c =
      parse_args files as (apply_settings (concat (map (option_settings files) opts)) c)"
  by (induction opts arbitrary: c) (simp_all add: parse_option apply_settings_append, simp add: apply_settings_def)

text \<open>A last argument, and the two ways an option fails.\<close>

lemma parse_last:
  "parse_args files [a] c =
    (if a = ''--help'' then Usage
     else if a = ''--api-enable'' then Configured (cfg_set ''enable_api'' (CBool True) c)
     else if a = ''--web-enable'' then Configured (cfg_set ''enable_web'' (CBool True) c)
     else Configured c)"
  by (subst parse_args.simps(2)) simp

lemma parse_bad_config: "files f = None \<Longrightarrow> parse_args files (''--config'' # f # as) c = LoadFailed f"
  by (subst parse_args.simps(2)) (simp add: loadFromFile_def)

lemma parse_bad_port:
  "port = ''--api-port'' \<or> port = ''--web-port'' \<Longrightarrow> stoi p = Inl e \<Longrightarrow> parse_args files (port # p # as) c = Uncaught e"
  by (subst parse_args.simps(2)) auto

lemma parse_help: "parse_args files (''--help'' # as) c = Usage"
  by (subst parse_args.simps(2)) simp

lemma cfg_values_apply: "cfg_values (apply_settings es c) = cfg_values c ++ map_of (rev es)"
  by (induction es arbitrary: c)
    (auto simp: apply_settings_def map_add_def fun_eq_iff split: option.splits)

text \<open>No input writes a 32-bit unsigned setting: a file can at most take one away.\<close>

definition u32_kept :: "config \<Rightarrow> config \<Rightarrow> bool" where
  "u32_kept c0 c \<longleftrightarrow> (\<forall>key. cfg_get TUInt32 key c \<in> {None, cfg_get TUInt32 key c0})"

lemma u32_kept_set: "u32_kept c0 c \<Longrightarrow> type_of v \<noteq> TUInt32 \<Longrightarrow> u32_kept c0 (cfg_set key v c)"
  by (auto simp: u32_kept_def cfg_get_def)

lemma u32_kept_file: "u32_kept c0 c \<Longrightarrow> u32_kept c0 (parseYaml body c)"
  by (simp add: u32_kept_def cfg_get_file)

lemma if_cases: "(if b then x else y) = r \<Longrightarrow> (x = r \<Longrightarrow> R) \<Longrightarrow> (y = r \<Longrightarrow> R) \<Longrightarrow> R"
  by (cases b) simp_all

lemma u32_kept_args: "parse_args files args c = Configured c' \<Longrightarrow> u32_kept c0 c \<Longrightarrow> u32_kept c0 c'"
proof (induction "length args" arbitrary: args c rule: less_induct)
  case less
  note kept = less.prems(2)
  show ?case
  proof (cases args)
    case Nil
    then show ?thesis using less.prems by simp
  next
    case (Cons a rest)
    have IH: "parse_args files as c1 = Configured c' \<Longrightarrow> length as \<le> length rest \<Longrightarrow> u32_kept c0 c1 \<Longrightarrow> u32_kept c0 c'"
      for as c1 using less.hyps [of as c1] Cons by simp
    have loaded: "loadFromFile f c = (b, c1) \<Longrightarrow> u32_kept c0 c1" for f b c1
      using u32_kept_file [OF kept] kept by (cases f) (auto simp: loadFromFile_def)
    have set1: "type_of v \<noteq> TUInt32 \<Longrightarrow> u32_kept c0 (cfg_set k v c)" for k v
      by (rule u32_kept_set [OF kept])
    have "u32_kept c0 (set_port k p c)" "u32_kept c0 (set_interface v c)" for k p v
      by (simp_all add: set_port_def set_interface_def u32_kept_set kept)
    with less.prems(1)[unfolded Cons parse_args.simps(2)] kept set1 loaded show ?thesis
      by (elim if_cases) (auto split: prod.splits sum.splits if_splits elim!: IH)
  qed
qed

section \<open>Properties\<close>

text \<open>
  C39: The command line is read as a sequence of options whose settings, those of a configuration
  file in the order of its lines, are put on top of each other from left to right: each key has
  the value given last, so an option before \<open>--config\<close> is overridden by the file and one after
  it overrides the file. Ports are reduced modulo 65536. After such a sequence, whatever comes
  behind it, the usage option and a file that cannot be read end the program, as does a port of
  the API or of the dashboard that is no number, through an exception that nothing catches; and
  an option whose argument is missing is ignored.
\<close>

theorem command_line_settings:
  assumes "\<forall>opt \<in> set opts. option_ok files opt"
  shows "\<exists>c'. parse_args files (concat (map option_args opts)) c = Configured c' \<and>
      cfg_values c' = cfg_values c ++ map_of (rev (concat (map (option_settings files) opts))) \<and>
      parse_args files (concat (map option_args opts) @ [o']) c =
        (if o' = ''--help'' then Usage
         else if o' = ''--api-enable'' then Configured (cfg_set ''enable_api'' (CBool True) c')
         else if o' = ''--web-enable'' then Configured (cfg_set ''enable_web'' (CBool True) c')
         else Configured c') \<and>
      parse_args files (concat (map option_args opts) @ ''--help'' # as) c = Usage \<and>
      (files f = None \<longrightarrow> parse_args files (concat (map option_args opts) @ ''--config'' # f # as) c = LoadFailed f) \<and>
      (stoi p = Inl e \<longrightarrow>
         parse_args files (concat (map option_args opts) @ ''--api-port'' # p # as) c = Uncaught e \<and>
         parse_args files (concat (map option_args opts) @ ''--web-port'' # p # as) c = Uncaught e)"
proof -
  let ?c = "apply_settings (concat (map (option_settings files) opts)) c"
  have r: "parse_args files (concat (map option_args opts) @ as) c = parse_args files as ?c" for as
    by (rule parse_options [OF assms])
  have all: "parse_args files (concat (map option_args opts)) c = Configured ?c" using r [of "[]"] by simp
  show ?thesis
  proof (rule exI [of _ ?c], intro conjI impI)
    show "parse_args files (concat (map option_args opts)) c = Configured ?c" by (rule all)
    show "cfg_values ?c = cfg_values c ++ map_of (rev (concat (map (option_settings files) opts)))"
      by (rule cfg_values_apply)
    show "parse_args files (concat (map option_args opts) @ [o']) c =
        (if o' = ''--help'' then Usage
         else if o' = ''--api-enable'' then Configured (cfg_set ''enable_api'' (CBool True) ?c)
         else if o' = ''--web-enable'' then Configured (cfg_set ''enable_web'' (CBool True) ?c)
         else Configured ?c)" unfolding r by (rule parse_last)
    show "files f = None \<Longrightarrow> parse_args files (concat (map option_args opts) @ ''--config'' # f # as) c = LoadFailed f"
      unfolding r by (rule parse_bad_config)
    show "parse_args files (concat (map option_args opts) @ ''--help'' # as) c = Usage"
      unfolding r by (rule parse_help)
    show "stoi p = Inl e \<Longrightarrow> parse_args files (concat (map option_args opts) @ ''--api-port'' # p # as) c = Uncaught e"
      "stoi p = Inl e \<Longrightarrow> parse_args files (concat (map option_args opts) @ ''--web-port'' # p # as) c = Uncaught e"
      unfolding r by (rule parse_bad_port; simp)+
  qed
qed

theorem command_line_settings_witness:
  "\<exists>c'. parse_args (\<lambda>f. Some ''log_level: debug'') [''--log-level'', ''trace'', ''--config'', ''f'', ''--api-port'', int_str 70000]
      ConfigManager = Configured c' \<and>
    cfg_values c' ''log_level'' = Some (CStr ''debug'') \<and> cfg_values c' ''api_port'' = Some (CUInt16 4464)"
proof -
  let ?files = "\<lambda>f. Some ''log_level: debug''" and ?opts = "[OLogLevel ''trace'', OConfig ''f'', OApiPort 70000]"
  have ok: "\<forall>opt \<in> set ?opts. option_ok ?files opt" by simp
  have args: "concat (map option_args ?opts) = [''--log-level'', ''trace'', ''--config'', ''f'', ''--api-port'', int_str 70000]"
    by simp
  have lines: "List.map_filter parse_yaml_line (split_lines ''log_level: debug'') = [(''log_level'', CStr ''debug'')]"
    by code_simp
  obtain c' where "parse_args ?files (concat (map option_args ?opts)) ConfigManager = Configured c'"
      "cfg_values c' = cfg_values ConfigManager ++ map_of (rev (concat (map (option_settings ?files) ?opts)))"
    using command_line_settings [OF ok, of ConfigManager] by blast
  then show ?thesis unfolding args by (intro exI [of _ c']) (simp add: lines)
qed

text \<open>
  The log level: the six level names give their levels, any other text, whatever its case,
  gives INFO, and the printed name of a level is not itself accepted.
\<close>

theorem log_level_setting:
  "level_of_setting ''trace'' = L_TRACE \<and> level_of_setting ''debug'' = L_DEBUG \<and>
   level_of_setting ''info'' = L_INFO \<and> level_of_setting ''warning'' = L_WARNING \<and>
   level_of_setting ''error'' = L_ERROR \<and> level_of_setting ''critical'' = L_CRITICAL \<and>
   level_of_setting (logLevelToString l) = L_INFO"
  by (cases l) (simp_all add: level_of_setting_def)

text \<open>
  No input reaches a 32-bit unsigned setting. Whatever the command line and the files say,
  such a setting reads as its default in the manager or, if a file names it, as the literal
  of the call; the settings that have no default, the cleanup interval and the ages among
  them, always read as the literal.
\<close>

theorem u32_settings_fixed:
  assumes "parse_args files args ConfigManager = Configured c"
  shows "cfg_u32 key dflt c \<in> {dflt, cfg_u32 key dflt ConfigManager} \<and>
    (key \<notin> fst ` set default_settings \<longrightarrow> cfg_u32 key dflt c = dflt)"
proof -
  have "u32_kept ConfigManager ConfigManager" by (simp add: u32_kept_def)
  then have "u32_kept ConfigManager c" using u32_kept_args [OF assms] by blast
  then have get: "cfg_get TUInt32 key c \<in> {None, cfg_get TUInt32 key ConfigManager}" by (simp add: u32_kept_def)
  have "cfg_get TUInt32 key ConfigManager = None" if "key \<notin> fst ` set default_settings"
    using that by (simp add: cfg_get_def ConfigManager_def setDefaultConfig_def default_settings_def)
  with get show ?thesis by (auto simp: cfg_u32_get)
qed

theorem u32_settings_fixed_witness:
  "cfg_u32 ''cleanup_interval_seconds'' 3600 (cfg_set ''enable_api'' (CBool True) ConfigManager) = 3600"
proof -
  have r: "parse_args (\<lambda>f. None) [''--api-enable''] ConfigManager = Configured (cfg_set ''enable_api'' (CBool True) ConfigManager)"
    by (simp add: parse_last)
  have "''cleanup_interval_seconds'' \<notin> fst ` set default_settings" by (simp add: default_settings_def)
  with u32_settings_fixed [OF r] show ?thesis by blast
qed

end
