(* ===== verification/Main_Loop.thy ===== *)
theory Main_Loop
  imports Alert_Setup Packet_Pipeline Thread_Pool Command_Line
begin

text \<open>
  \<^verbatim>\<open>main.cpp\<close>, lines 265 to 349: the periodic tasks, when each is queued, and what is still
  alive when the pool runs the last of them.
\<close>

section \<open>The periodic tasks\<close>

text \<open>The metrics task; \<open>now\<close> is the wall clock in seconds.\<close>

definition metric_points :: "int \<Rightarrow> mstore \<Rightarrow> registry list \<Rightarrow> metric_data_point list" where
  "metric_points now h collectors =
     concat (map (\<lambda>reg. concat (map (\<lambda>name.
         case getMetric name reg of
           None \<Rightarrow> []
         | Some p \<Rightarrow> [\<lparr>dp_metric_name = name, dp_value = getCurrentValue (h ! p), dp_timestamp = now\<rparr>])
       (getMetricNames reg))) collectors)"

definition store_metrics_task :: "int \<Rightarrow> mstore \<Rightarrow> registry list \<Rightarrow> db_call list \<Rightarrow> db_call list" where
  "store_metrics_task now h collectors db = db @ [InsertMetrics (metric_points now h collectors)]"

text \<open>An age in seconds: the product is computed in 32 bits without sign, then widened.\<close>

definition max_age :: "u32 \<Rightarrow> int" where
  "max_age days = uint (days * 86400)"

definition cleanup_task :: "int \<Rightarrow> config \<Rightarrow> db_call list \<Rightarrow> db_call list" where
  "cleanup_task now c db =
     (let metrics_max_age = max_age (cfg_u32 ''metrics_max_age_days'' 30 c);
          connections_max_age = max_age (cfg_u32 ''connections_max_age_days'' 7 c);
          alerts_max_age = max_age (cfg_u32 ''alerts_max_age_days'' 90 c)
      in db @ [PruneMetricsBefore (now - metrics_max_age),
               PruneConnectionsBefore (now - connections_max_age),
               PruneAlertsBefore (now - alerts_max_age)])"

section \<open>The loop\<close>

datatype main_task = CheckAlerts | StoreMetrics | Cleanup | HandlePacket packet_info

text \<open>\<^verbatim>\<open>duration_cast<seconds>\<close> of a duration in nanoseconds; it truncates.\<close>

definition duration_seconds :: "int \<Rightarrow> int" where
  "duration_seconds d = (if d < 0 then - (- d div 10 ^ 9) else d div 10 ^ 9)"

text \<open>
  One round: what is queued, and the time of the last cleanup afterwards. \<open>now\<close> is the steady
  clock, in nanoseconds.
\<close>

definition loop_round :: "bool \<Rightarrow> int \<Rightarrow> int \<Rightarrow> int \<Rightarrow> main_task list \<times> int" where
  "loop_round enable_auto_cleanup cleanup_interval now last_cleanup_time =
     (if enable_auto_cleanup \<and> duration_seconds (now - last_cleanup_time) \<ge> cleanup_interval
      then ([CheckAlerts, StoreMetrics, Cleanup], now)
      else ([CheckAlerts, StoreMetrics], last_cleanup_time))"

text \<open>The rounds, for the readings of the clock: each with its reading, its tasks, and the time kept.\<close>

fun main_loop :: "bool \<Rightarrow> int \<Rightarrow> int \<Rightarrow> int list \<Rightarrow> (int \<times> main_task list \<times> int) list" where
  "main_loop auto interval last_time [] = []"
| "main_loop auto interval last_time (now # readings) =
     (let (ts, last') = loop_round auto interval now last_time
      in (now, ts, last') # main_loop auto interval last' readings)"

definition loop_settings :: "config \<Rightarrow> bool \<times> int" where
  "loop_settings c = (cfg_bool ''enable_auto_cleanup'' True c, uint (cfg_u32 ''cleanup_interval_seconds'' 3600 c))"

section \<open>Leaving \<open>main\<close>\<close>

text \<open>The objects of the block in the order of their declarations; they are destroyed in the opposite one.\<close>

datatype main_object = ThreadPoolObject | DatabaseObject | Collectors | PacketCaptureObject
  | PacketAnalyzerObject | AlertManagerObject | ApiServer | WebDashboard

definition declaration_order :: "main_object list" where
  "declaration_order = [ThreadPoolObject, DatabaseObject, Collectors, PacketCaptureObject,
     PacketAnalyzerObject, AlertManagerObject, ApiServer, WebDashboard]"

text \<open>What is still alive while the destructor of an object runs.\<close>

definition alive_during_destruction :: "main_object \<Rightarrow> main_object set" where
  "alive_during_destruction x = set (takeWhile (\<lambda>y. y \<noteq> x) declaration_order)"

text \<open>The objects a task captures by reference; the alerts call back into the database.\<close>

fun task_uses :: "main_task \<Rightarrow> main_object set" where
  "task_uses CheckAlerts = {AlertManagerObject, DatabaseObject}"
| "task_uses StoreMetrics = {Collectors, DatabaseObject}"
| "task_uses Cleanup = {DatabaseObject}"
| "task_uses (HandlePacket p) = {PacketAnalyzerObject, DatabaseObject}"

text \<open>The steps of the pool after its destructor has set the flag.\<close>

inductive destructor_steps :: "'a pool_run \<Rightarrow> 'a pool_run \<Rightarrow> bool" for r where
  flag: "destructor_steps r (r\<lparr>the_pool := stop_pool (the_pool r)\<rparr>)"
| wake: "destructor_steps r s \<Longrightarrow> worker_wake spurious i (the_pool s) = Some p \<Longrightarrow>
    destructor_steps r (s\<lparr>the_pool := p,
      started := started s @ (case workers p ! i of Running t \<Rightarrow> [t] | _ \<Rightarrow> [])\<rparr>)"
| finish: "destructor_steps r s \<Longrightarrow> worker_finish i (the_pool s) = Some p \<Longrightarrow>
    destructor_steps r (s\<lparr>the_pool := p,
      finished := finished s @ (case workers (the_pool s) ! i of Running t \<Rightarrow> [t] | _ \<Rightarrow> [])\<rparr>)"

section \<open>Lemmas\<close>

lemma destructor_accepted: "destructor_steps r s \<Longrightarrow> accepted s = accepted r"
  by (induction rule: destructor_steps.induct) simp_all

lemma destructor_pool_steps: "destructor_steps r s \<Longrightarrow> pool_steps n r \<Longrightarrow> pool_steps n s"
  by (induction rule: destructor_steps.induct) (auto intro: pool_steps.intros)

lemma metric_points_of:
  assumes "\<forall>reg \<in> set collectors. om_ok reg"
  shows "metric_points now h collectors =
    map (\<lambda>e. \<lparr>dp_metric_name = fst e, dp_value = getCurrentValue (h ! snd e), dp_timestamp = now\<rparr>) (concat collectors)"
proof -
  let ?pt = "\<lambda>e. \<lparr>dp_metric_name = fst e, dp_value = getCurrentValue (h ! snd e), dp_timestamp = now\<rparr>"
  let ?f = "\<lambda>reg name. case getMetric name reg of None \<Rightarrow> []
      | Some p \<Rightarrow> [\<lparr>dp_metric_name = name, dp_value = getCurrentValue (h ! p), dp_timestamp = now\<rparr>]"
  have "concat (map (?f reg) (getMetricNames reg)) = map ?pt reg" if ok: "om_ok reg" for reg
  proof -
    have "?f reg (fst e) = [?pt e]" if "e \<in> set reg" for e
      using that om_find_mem [OF ok, of "fst e" "snd e"] by (simp add: getMetric_def)
    then have m: "map (?f reg \<circ> fst) reg = map (\<lambda>e. [?pt e]) reg" by simp
    show ?thesis unfolding getMetricNames_def map_map m by (rule concat_map_singleton)
  qed
  then have "map (\<lambda>reg. concat (map (?f reg) (getMetricNames reg))) collectors = map (map ?pt) collectors"
    using assms by simp
  then show ?thesis unfolding metric_points_def by (simp only: map_concat)
qed

lemma duration_seconds_ge: "0 < k \<Longrightarrow> k \<le> duration_seconds d \<longleftrightarrow> k * 10 ^ 9 \<le> d"
proof (cases "d < 0")
  case True
  assume k: "0 < k"
  have "0 \<le> - d div 10 ^ 9" using True by simp
  then show ?thesis using True k by (simp add: duration_seconds_def)
next
  case False
  then show ?thesis by (simp add: duration_seconds_def int_le_div_iff)
qed

text \<open>The readings at which a cleanup was queued.\<close>

definition cleanup_times :: "(int \<times> main_task list \<times> int) list \<Rightarrow> int list" where
  "cleanup_times out = map fst (filter (\<lambda>r. Cleanup \<in> set (fst (snd r))) out)"

lemma main_loop_rounds:
  assumes "0 < interval" and "sorted (t0 # readings)"
  shows "sorted_wrt (\<lambda>a b. a + interval * 10 ^ 9 \<le> b) (t0 # cleanup_times (main_loop True interval t0 readings)) \<and>
    (\<forall>r \<in> set (main_loop True interval t0 readings).
      fst (snd r) \<in> {[CheckAlerts, StoreMetrics], [CheckAlerts, StoreMetrics, Cleanup]} \<and>
      (\<exists>c \<in> set (t0 # cleanup_times (main_loop True interval t0 readings)). c \<le> fst r \<and> fst r < c + interval * 10 ^ 9))"
  using assms(2)
proof (induction readings arbitrary: t0)
  case (Cons now readings)
  let ?d = "interval * 10 ^ 9"
  have d: "0 < ?d" using assms(1) by simp
  show ?case
  proof (cases "interval \<le> duration_seconds (now - t0)")
    case True
    let ?out = "main_loop True interval now readings"
    have out: "main_loop True interval t0 (now # readings) = (now, [CheckAlerts, StoreMetrics, Cleanup], now) # ?out"
      using True by (simp add: loop_round_def)
    have ct: "cleanup_times (main_loop True interval t0 (now # readings)) = now # cleanup_times ?out"
      unfolding out by (simp add: cleanup_times_def)
    have le: "t0 + ?d \<le> now" using True duration_seconds_ge [OF assms(1), of "now - t0"] by simp
    have "sorted (now # readings)" using Cons.prems by simp
    from Cons.IH [OF this] have IH: "sorted_wrt (\<lambda>a b. a + ?d \<le> b) (now # cleanup_times ?out)"
      "\<forall>r \<in> set ?out. fst (snd r) \<in> {[CheckAlerts, StoreMetrics], [CheckAlerts, StoreMetrics, Cleanup]} \<and>
        (\<exists>c \<in> set (now # cleanup_times ?out). c \<le> fst r \<and> fst r < c + ?d)"
      by blast+
    have "sorted_wrt (\<lambda>a b. a + ?d \<le> b) (t0 # now # cleanup_times ?out)" using IH(1) le d by fastforce
    then show ?thesis unfolding ct unfolding out using IH(2) d by auto
  next
    case False
    let ?out = "main_loop True interval t0 readings"
    have out: "main_loop True interval t0 (now # readings) = (now, [CheckAlerts, StoreMetrics], t0) # ?out"
      using False by (simp add: loop_round_def)
    have ct: "cleanup_times (main_loop True interval t0 (now # readings)) = cleanup_times ?out"
      unfolding out by (simp add: cleanup_times_def)
    have "now < t0 + ?d" "t0 \<le> now"
      using False duration_seconds_ge [OF assms(1), of "now - t0"] Cons.prems by simp_all
    moreover have "sorted (t0 # readings)" using Cons.prems by simp
    ultimately show ?thesis unfolding ct unfolding out using Cons.IH [of t0] by auto
  qed
qed (simp add: cleanup_times_def)

lemma main_loop_readings: "map fst (main_loop auto interval t0 readings) = readings"
  by (induction readings arbitrary: t0) (simp_all add: case_prod_beta Let_def)

lemma max_age_mod: "max_age days = (int (unat days) * 86400) mod 2 ^ 32"
  by (simp add: max_age_def uint_word_ariths)

section \<open>Properties\<close>



text \<open>
  The metrics task stores each registered metric of each collector once, with its current
  value and one common time, in the order of the collectors and of the names.
\<close>

theorem stored_points_exact:
  assumes "\<forall>reg \<in> set collectors. om_ok reg"
  shows "store_metrics_task now h collectors db = db @ [InsertMetrics
    (map (\<lambda>e. \<lparr>dp_metric_name = fst e, dp_value = getCurrentValue (h ! snd e), dp_timestamp = now\<rparr>)
      (concat collectors))]"
  unfolding store_metrics_task_def metric_points_of [OF assms] ..

theorem stored_points_exact_witness:
  "store_metrics_task 9 [GaugeMetric ''a'' 0] [[(''a'', 0)], []] [] =
    [InsertMetrics [\<lparr>dp_metric_name = ''a'', dp_value = Fin 0, dp_timestamp = 9\<rparr>]]"
proof -
  have ok: "\<forall>reg \<in> set [[(''a'', 0 :: nat)], []]. om_ok reg" by (simp add: om_ok_def)
  show ?thesis using stored_points_exact [OF ok, of 9 "[GaugeMetric ''a'' 0]" "[]"]
    by (simp add: getCurrentValue_def gauge_getCurrentValue_def counter_getCurrentValue_def GaugeMetric_def new_metric_def)
qed

text \<open>
  The age limit in days is multiplied in 32 bits: it is exact up to 49710 days and wraps
  beyond, so that 49711 days become 63104 seconds, less than a day. The ages used without any
  setting are 30, 7 and 90 days.
\<close>

theorem cleanup_ages:
  "(max_age days = int (unat days) * 86400 \<longleftrightarrow> unat days \<le> 49710) \<and> max_age 49711 = 63104 \<and>
   cleanup_task now ConfigManager db = db @ [PruneMetricsBefore (now - 2592000),
     PruneConnectionsBefore (now - 604800), PruneAlertsBefore (now - 7776000)]"
proof (intro conjI)
  have "max_age days = int n * 86400 \<longleftrightarrow> n \<le> 49710" if n: "n = unat days" for n
  proof
    assume "max_age days = int n * 86400"
    then have "int n * 86400 < 2 ^ 32" unfolding max_age_mod n
      by (metis pos_mod_bound zero_less_numeral zero_less_power)
    then show "n \<le> 49710" by simp
  next
    assume "n \<le> 49710"
    then show "max_age days = int n * 86400" unfolding max_age_mod n [symmetric] by simp
  qed
  then show "max_age days = int (unat days) * 86400 \<longleftrightarrow> unat days \<le> 49710" by blast
  show "max_age 49711 = 63104" by (simp add: max_age_def)
  have none: "cfg_values ConfigManager ''metrics_max_age_days'' = None"
    "cfg_values ConfigManager ''connections_max_age_days'' = None" "cfg_values ConfigManager ''alerts_max_age_days'' = None"
    by (simp_all add: ConfigManager_def setDefaultConfig_def default_settings_def)
  show "cleanup_task now ConfigManager db = db @ [PruneMetricsBefore (now - 2592000),
     PruneConnectionsBefore (now - 604800), PruneAlertsBefore (now - 7776000)]"
    by (simp add: cleanup_task_def cfg_u32_get cfg_get_def none max_age_def)
qed

text \<open>
  Tasks outlive the objects they use. The pool is declared first, so it is destroyed last: its
  destructor finishes, besides the tasks already running, exactly those still queued when
  \<^verbatim>\<open>main\<close> returns, and every task uses objects none of which is alive then.
\<close>

theorem tasks_outlive_objects:
  assumes "pool_steps n r" and "0 < n" and "destructor_steps r s" and "can_join (the_pool s)"
  shows "mset (finished s) = mset (finished r) + in_workers (workers (the_pool r)) + mset (tasks (the_pool r)) \<and>
    task_uses t \<noteq> {} \<and> task_uses t \<inter> alive_during_destruction ThreadPoolObject = {}"
proof -
  have ok: "run_ok n r" using assms(1) by (rule run_ok_steps)
  then have acc: "accepted r = started r @ tasks (the_pool r)" by (simp add: run_ok_def)
  have "pool_steps n s" using assms(1,3) by (rule destructor_pool_steps [rotated])
  then have "mset (finished s) = mset (accepted s)" using pool_joined [OF run_ok_steps assms(2,4)] by blast
  also have "\<dots> = mset (accepted r)" using destructor_accepted [OF assms(3)] by simp
  also have "\<dots> = mset (started r) + mset (tasks (the_pool r))"
    by (simp only: acc mset_append)
  also have "mset (started r) = mset (finished r) + in_workers (workers (the_pool r))"
    using ok by (simp add: run_ok_def)
  finally have "mset (finished s) = mset (finished r) + in_workers (workers (the_pool r)) + mset (tasks (the_pool r))" .
  then show ?thesis by (cases t) (simp_all add: alive_during_destruction_def declaration_order_def)
qed

theorem tasks_outlive_objects_witness:
  "\<exists>s. finished s = [StoreMetrics] \<and> destructor_steps ((run_init 1)\<lparr>the_pool := the (enqueue StoreMetrics (ThreadPool 1)),
      accepted := [StoreMetrics]\<rparr>) s \<and>
    task_uses StoreMetrics \<inter> alive_during_destruction ThreadPoolObject = {}"
proof -
  let ?r0 = "run_init 1 :: main_task pool_run"
  let ?r = "?r0\<lparr>the_pool := the (enqueue StoreMetrics (ThreadPool 1)), accepted := [StoreMetrics]\<rparr>"
  have r: "pool_steps 1 ?r"
    using pool_steps.enqueue [OF pool_steps.init, of StoreMetrics 1 "the (enqueue StoreMetrics (ThreadPool 1))"]
    by (simp add: run_init_def enqueue_def notify_one_def ThreadPool_def)
  let ?pool = "\<lambda>w ts. \<lparr>workers = [w], tasks = ts, stopping = True, wakeups = 0\<rparr>"
  let ?state = "\<lambda>w ts st fi. \<lparr>the_pool = ?pool w ts, accepted = [StoreMetrics], started = st, finished = fi\<rparr>"
  have d0: "destructor_steps ?r (?state Waiting [StoreMetrics] [] [])"
    using destructor_steps.flag [of ?r] by (simp add: run_init_def enqueue_def notify_one_def notify_all_def asleep_def ThreadPool_def stop_pool_def)
  have d1: "destructor_steps ?r (?state (Running StoreMetrics) [] [StoreMetrics] [])"
    using destructor_steps.wake [OF d0, of False 0 "?pool (Running StoreMetrics) []"] by (simp add: worker_wake_def worker_go_def condition_holds_def)
  have d2: "destructor_steps ?r (?state Waiting [] [StoreMetrics] [StoreMetrics])"
    using destructor_steps.finish [OF d1, of 0 "?pool Waiting []"] by (simp add: worker_finish_def)
  have d3: "destructor_steps ?r (?state Exited [] [StoreMetrics] [StoreMetrics])"
    using destructor_steps.wake [OF d2, of False 0 "?pool Exited []"] by (simp add: worker_wake_def worker_go_def condition_holds_def)
  have j: "can_join (the_pool (?state Exited [] [StoreMetrics] [StoreMetrics]))" by (simp add: can_join_def)
  show ?thesis
    using tasks_outlive_objects [OF r zero_less_one d3 j, of StoreMetrics] d3 by (intro exI) auto
qed

end
