(* ===== verification/Pool_Tasks.thy ===== *)
theory Pool_Tasks
  imports Main_Loop
begin

text \<open>
  \<^verbatim>\<open>main.cpp\<close>, lines 153 to 316, on \<^verbatim>\<open>core/utils/thread_pool.hpp\<close>: the workers of the pool running the
  tasks of the program over the objects the tasks share. What a task does under one lock, or in one
  call on the database, is one step of its worker; the steps of the workers, of the callers of
  \<open>enqueue\<close> and of the collectors interleave freely. A call on the database may throw.
\<close>

section \<open>State\<close>

text \<open>
  Where a running task stands. An alert check that holds the mutex of the manager has the alerts
  still to look at, and in \<open>Calling\<close> the callbacks still to call for one of them; the metrics task
  has its reading of the clock, the metrics still to read and the points made so far; the cleanup
  the calls still to make.
\<close>

datatype job_position =
  Begun
| PacketProcessed
| PacketFetched "connection_record option"
| Checking "alert list"
| Calling alert "nat list" "alert list"
| Reading int "(registry \<times> string) list" "metric_data_point list"
| Pruning "db_call list"

text \<open>A task that has thrown: its exception is in the future that \<open>enqueue\<close> returned, which \<^verbatim>\<open>main\<close> drops.\<close>

datatype job_state = InQueue | Active job_position | Completed | Thrown job_position

text \<open>
  A task object is the number of its acceptance, an index into \<open>sh_jobs\<close>. \<open>sh_checking\<close> is the task
  that holds the mutex of the alert manager. The calls on the database that have returned are kept with the task
  that made them. \<open>sh_fired\<close> and \<open>sh_steady\<close>, the alerts fired and the latest reading of the steady clock,
  are there to state properties. \<open>sh_terminated\<close>: an exception has left a thread.
\<close>

record shared =
  sh_pool :: "nat thread_pool"
  sh_jobs :: "(main_task \<times> job_state) list"
  sh_metrics :: mstore
  sh_collectors :: "registry list"
  sh_config :: config
  sh_alerts :: manager
  sh_checking :: "nat option"
  sh_analyzer :: analyzer
  sh_db :: "(nat \<times> db_call) list"
  sh_fired :: "(alert \<times> int) list"
  sh_steady :: int
  sh_terminated :: bool

text \<open>
  What a step may read: the wall clock in seconds, the two readings of the steady clock, in
  \<open>shouldSuppressAlert\<close> and in \<open>recordAlertFired\<close>, whether a call on the database returns, and whether
  a worker that sleeps on the condition variable of the pool wakes up without a notification.
\<close>

record task_input =
  ti_wall :: int
  ti_steady :: "int \<times> int"
  ti_returns :: bool
  ti_spurious :: bool

section \<open>The tasks\<close>

text \<open>
  A step of a task is \<open>None\<close> while it waits; a packet on which the parsers would read out of bounds has
  none, and \<open>readable\<close> says that there is no such packet.
\<close>

text \<open>A call on the database by task \<open>j\<close>; its result is not looked at.\<close>

definition call_database ::
    "task_input \<Rightarrow> nat \<Rightarrow> job_position \<Rightarrow> db_call \<Rightarrow> job_state \<Rightarrow> shared \<Rightarrow> job_state \<times> shared" where
  "call_database i j pos c next_state s =
     (if ti_returns i then (next_state, s\<lparr>sh_db := sh_db s @ [(j, c)]\<rparr>) else (Thrown pos, s))"

definition packet_job ::
    "task_input \<Rightarrow> nat \<Rightarrow> packet_info \<Rightarrow> job_position \<Rightarrow> shared \<Rightarrow> (job_state \<times> shared) option" where
  "packet_job i j packet pos s =
     (case pos of
        Begun \<Rightarrow> map_option (\<lambda>a. (Active PacketProcessed, s\<lparr>sh_analyzer := a\<rparr>)) (process_step packet (sh_analyzer s))
      | PacketProcessed \<Rightarrow> Some (Active (PacketFetched (fetch_step packet (sh_analyzer s))), s)
      | PacketFetched None \<Rightarrow> Some (Completed, s)
      | PacketFetched (Some r) \<Rightarrow> Some (call_database i j pos (UpdateConnection r) Completed s)
      | _ \<Rightarrow> None)"

text \<open>
  The alert task is \<open>checkAlerts\<close> under the mutex of the manager, one alert or one callback at a
  time. The mutex is released on the way out, also by an exception of a callback.
\<close>

definition release_alerts :: "job_state \<times> shared \<Rightarrow> job_state \<times> shared" where
  "release_alerts r = (case r of (Thrown pos, s) \<Rightarrow> (Thrown pos, s\<lparr>sh_checking := None\<rparr>) | _ \<Rightarrow> r)"

definition check_one :: "task_input \<Rightarrow> alert \<Rightarrow> alert list \<Rightarrow> shared \<Rightarrow> job_state \<times> shared" where
  "check_one i a as s =
     (let m = sh_alerts s; (now1, now2) = ti_steady i; s = s\<lparr>sh_steady := now2\<rparr> in
      if alert_check (sh_metrics s) a \<and> \<not> shouldSuppressAlert now1 a (mgr_cooldown m)
      then (Active (Calling a (mgr_callbacks m) as),
            s\<lparr>sh_alerts := m\<lparr>mgr_cooldown := recordAlertFired now2 a (mgr_cooldown m)\<rparr>,
              sh_fired := sh_fired s @ [(a, now2)]\<rparr>)
      else (Active (Checking as), s))"

definition alerts_job :: "task_input \<Rightarrow> nat \<Rightarrow> job_position \<Rightarrow> shared \<Rightarrow> (job_state \<times> shared) option" where
  "alerts_job i j pos s =
     (case pos of
        Begun \<Rightarrow> (if sh_checking s \<noteq> None then None
                  else Some (Active (Checking (mgr_alerts (sh_alerts s))), s\<lparr>sh_checking := Some j\<rparr>))
      | Checking [] \<Rightarrow> Some (Completed, s\<lparr>sh_checking := None\<rparr>)
      | Checking (a # as) \<Rightarrow> Some (check_one i a as s)
      | Calling a [] as \<Rightarrow> Some (Active (Checking as), s)
      | Calling a (cb # cbs) as \<Rightarrow>
          Some (release_alerts (call_database i j pos (alert_callback (sh_metrics s) (ti_wall i) a) (Active (Calling a cbs as)) s))
      | _ \<Rightarrow> None)"

text \<open>
  The metrics task. The registries do not change once the collectors are constructed, so the names
  are those of every later moment.
\<close>

definition metric_names :: "registry list \<Rightarrow> (registry \<times> string) list" where
  "metric_names collectors = concat (map (\<lambda>reg. map (Pair reg) (getMetricNames reg)) collectors)"

definition read_metric :: "int \<Rightarrow> mstore \<Rightarrow> registry \<Rightarrow> string \<Rightarrow> metric_data_point list" where
  "read_metric now h reg name =
     (case getMetric name reg of
        None \<Rightarrow> []
      | Some p \<Rightarrow> [\<lparr>dp_metric_name = name, dp_value = getCurrentValue (h ! p), dp_timestamp = now\<rparr>])"

definition metrics_job :: "task_input \<Rightarrow> nat \<Rightarrow> job_position \<Rightarrow> shared \<Rightarrow> (job_state \<times> shared) option" where
  "metrics_job i j pos s =
     (case pos of
        Begun \<Rightarrow> Some (Active (Reading (ti_wall i) (metric_names (sh_collectors s)) []), s)
      | Reading now ((reg, name) # todo) points \<Rightarrow>
          Some (Active (Reading now todo (points @ read_metric now (sh_metrics s) reg name)), s)
      | Reading now [] points \<Rightarrow> Some (call_database i j pos (InsertMetrics points) Completed s)
      | _ \<Rightarrow> None)"

definition cleanup_job :: "task_input \<Rightarrow> nat \<Rightarrow> job_position \<Rightarrow> shared \<Rightarrow> (job_state \<times> shared) option" where
  "cleanup_job i j pos s =
     (case pos of
        Begun \<Rightarrow> Some (Active (Pruning (cleanup_task (ti_wall i) (sh_config s) [])), s)
      | Pruning [] \<Rightarrow> Some (Completed, s)
      | Pruning (c # cs) \<Rightarrow> Some (call_database i j pos c (Active (Pruning cs)) s)
      | _ \<Rightarrow> None)"

definition job_step ::
    "task_input \<Rightarrow> nat \<Rightarrow> main_task \<Rightarrow> job_position \<Rightarrow> shared \<Rightarrow> (job_state \<times> shared) option" where
  "job_step i j t pos s =
     (case t of
        HandlePacket packet \<Rightarrow> packet_job i j packet pos s
      | CheckAlerts \<Rightarrow> alerts_job i j pos s
      | StoreMetrics \<Rightarrow> metrics_job i j pos s
      | Cleanup \<Rightarrow> cleanup_job i j pos s)"

section \<open>The pool\<close>

definition set_job :: "nat \<Rightarrow> job_state \<Rightarrow> shared \<Rightarrow> shared" where
  "set_job j st s = s\<lparr>sh_jobs := (sh_jobs s)[j := (fst (sh_jobs s ! j), st)]\<rparr>"

text \<open>\<open>enqueue\<close> of a task; an exception of a stopped pool is \<open>None\<close>.\<close>

definition submit :: "main_task \<Rightarrow> shared \<Rightarrow> shared option" where
  "submit t s =
     map_option (\<lambda>p. s\<lparr>sh_pool := p, sh_jobs := sh_jobs s @ [(t, InQueue)]\<rparr>)
       (enqueue (length (sh_jobs s)) (sh_pool s))"

text \<open>A worker wakes up, falls asleep, takes a task or leaves ...\<close>

definition worker_take :: "bool \<Rightarrow> nat \<Rightarrow> shared \<Rightarrow> shared option" where
  "worker_take spurious k s =
     (case worker_wake spurious k (sh_pool s) of
        None \<Rightarrow> None
      | Some p \<Rightarrow>
          Some (case workers p ! k of
                  Running j \<Rightarrow> set_job j (Active Begun) (s\<lparr>sh_pool := p\<rparr>)
                | _ \<Rightarrow> s\<lparr>sh_pool := p\<rparr>))"

text \<open>
  ... runs it step by step, and goes back to the wait: the \<^verbatim>\<open>packaged_task\<close> keeps an exception, so
  the worker sees a task that has thrown like one that has returned.
\<close>

definition worker_run :: "task_input \<Rightarrow> nat \<Rightarrow> nat \<Rightarrow> shared \<Rightarrow> shared option" where
  "worker_run i k j s =
     (case sh_jobs s ! j of
        (t, Active pos) \<Rightarrow> map_option (\<lambda>(st, s'). set_job j st s') (job_step i j t pos s)
      | (t, InQueue) \<Rightarrow> None
      | _ \<Rightarrow> map_option (\<lambda>p. s\<lparr>sh_pool := p\<rparr>) (worker_finish k (sh_pool s)))"

definition worker_step :: "task_input \<Rightarrow> nat \<Rightarrow> shared \<Rightarrow> shared option" where
  "worker_step i k s =
     (if length (workers (sh_pool s)) \<le> k then None
      else case workers (sh_pool s) ! k of
             Running j \<Rightarrow> worker_run i k j s
           | _ \<Rightarrow> worker_take (ti_spurious i) k s)"

text \<open>A collector's thread writes a gauge, under the mutex of the metric.\<close>

definition collector_writes :: "nat \<Rightarrow> int \<Rightarrow> dbl \<Rightarrow> shared \<Rightarrow> shared" where
  "collector_writes p now v s = s\<lparr>sh_metrics := (sh_metrics s)[p := update now v (sh_metrics s ! p)]\<rparr>"

definition stop_workers :: "shared \<Rightarrow> shared" where
  "stop_workers s = s\<lparr>sh_pool := stop_pool (sh_pool s)\<rparr>"

datatype pool_event = Submit main_task | Worker nat task_input | Measure nat int dbl | StopWorkers

definition pool_event_step :: "pool_event \<Rightarrow> shared \<Rightarrow> shared option" where
  "pool_event_step e s =
     (case e of
        Submit t \<Rightarrow> submit t s
      | Worker k i \<Rightarrow> worker_step i k s
      | Measure p now v \<Rightarrow> Some (collector_writes p now v s)
      | StopWorkers \<Rightarrow> Some (stop_workers s))"

text \<open>The objects as \<^verbatim>\<open>main\<close> makes them, with \<open>n\<close> workers.\<close>

definition shared_start ::
    "nat \<Rightarrow> packet_info \<Rightarrow> mstore \<Rightarrow> registry list \<Rightarrow> config \<Rightarrow> manager \<Rightarrow> shared" where
  "shared_start n d h collectors c m =
     \<lparr>sh_pool = ThreadPool n, sh_jobs = [], sh_metrics = h, sh_collectors = collectors, sh_config = c,
      sh_alerts = m, sh_checking = None, sh_analyzer = analyzer_init d, sh_db = [], sh_fired = [],
      sh_steady = 0, sh_terminated = False\<rparr>"

end
