(* ===== verification/Pool_Order.thy ===== *)
theory Pool_Order
  imports Pool_Tasks
begin

text \<open>
  Which task is where: the queue of the pool, its workers and the states of the tasks agree, under
  every interleaving. The pool of \<open>Pool_Tasks\<close> is a run of the pool of \<open>Thread_Pool\<close>.
\<close>

section \<open>Invariant\<close>

fun job_over :: "job_state \<Rightarrow> bool" where
  "job_over Completed = True"
| "job_over (Thrown pos) = True"
| "job_over _ = False"

definition job_at :: "shared \<Rightarrow> nat \<Rightarrow> job_state" where
  "job_at s j = snd (sh_jobs s ! j)"

definition job_task :: "shared \<Rightarrow> nat \<Rightarrow> main_task" where
  "job_task s j = fst (sh_jobs s ! j)"

definition pool_view :: "nat \<Rightarrow> shared \<Rightarrow> nat pool_run \<Rightarrow> bool" where
  "pool_view n s r \<longleftrightarrow> pool_steps n r \<and> the_pool r = sh_pool s \<and> accepted r = [0..<length (sh_jobs s)] \<and>
     (\<forall>j < length (sh_jobs s). job_at s j = InQueue \<longleftrightarrow> j \<notin> set (started r)) \<and>
     (\<forall>j \<in> set (finished r). job_over (job_at s j))"

definition pool_part :: "nat \<Rightarrow> shared \<Rightarrow> bool" where
  "pool_part n s \<longleftrightarrow> (\<exists>r. pool_view n s r)"

section \<open>What the invariant says\<close>

lemma in_workers_mem: "j \<in># in_workers ws \<longleftrightarrow> Running j \<in> set ws"
proof (induction ws)
  case (Cons w ws)
  then show ?case by (cases w) (auto simp: in_workers_def)
qed (simp add: in_workers_def)

lemma in_workers_twice:
  "i < k \<Longrightarrow> k < length ws \<Longrightarrow> ws ! i = Running j \<Longrightarrow> ws ! k = Running j \<Longrightarrow> 2 \<le> count (in_workers ws) j"
proof (induction ws arbitrary: i k)
  case (Cons w ws)
  show ?case
  proof (cases i)
    case 0
    then have "ws ! (k - 1) = Running j \<and> k - 1 < length ws" using Cons.prems by (cases k) auto
    then have "Running j \<in> set ws" by (metis nth_mem)
    then have "1 \<le> count (in_workers ws) j" using in_workers_mem [of j ws] by (simp add: Suc_le_eq)
    then show ?thesis using 0 Cons.prems by (simp add: in_workers_def)
  next
    case (Suc i')
    then have "2 \<le> count (in_workers ws) j" using Cons.prems by (cases k) (auto intro: Cons.IH [of i' "k - 1"])
    then show ?thesis by (simp add: in_workers_def)
  qed
qed simp

lemma upt_once: "count (mset [0..<k]) j = (if j < k then 1 else 0)"
  using distinct_count_atmost_1 [of "[0..<k]"] by (simp del: mset_upt)

lemma append_eq_upt:
  assumes "xs @ ys = [0..<m]"
  shows "xs = [0..<length xs] \<and> ys = [length xs..<m] \<and> length xs \<le> m"
proof -
  have "length (xs @ ys) = m" using assms by simp
  then have m: "m = length xs + length ys" by simp
  then show ?thesis using assms upt_add_eq_append [of 0 "length xs" "length ys"] by (auto simp: append_eq_append_conv)
qed

lemma pool_view_facts:
  assumes "pool_view n s r"
  defines "k \<equiv> length (started r)"
  shows "started r = [0..<k]" and "tasks (sh_pool s) = [k..<length (sh_jobs s)]" and "k \<le> length (sh_jobs s)"
    and "length (workers (sh_pool s)) = n"
    and "mset [0..<k] = mset (finished r) + in_workers (workers (sh_pool s))"
    and "\<And>j. j < length (sh_jobs s) \<Longrightarrow> job_at s j = InQueue \<longleftrightarrow> k \<le> j"
proof -
  have ok: "run_ok n r" using assms(1) by (simp add: pool_view_def run_ok_steps)
  then have "started r @ tasks (sh_pool s) = [0..<length (sh_jobs s)]" using assms(1) by (simp add: pool_view_def run_ok_def)
  from append_eq_upt [OF this] have st: "started r = [0..<k]" "tasks (sh_pool s) = [k..<length (sh_jobs s)]"
      "k \<le> length (sh_jobs s)"
    unfolding k_def by blast+
  then show "started r = [0..<k]" "tasks (sh_pool s) = [k..<length (sh_jobs s)]" "k \<le> length (sh_jobs s)" by blast+
  show "length (workers (sh_pool s)) = n" using ok assms(1) by (simp add: pool_view_def run_ok_def)
  have "mset (started r) = mset (finished r) + in_workers (workers (sh_pool s))"
    using ok assms(1) by (simp add: pool_view_def run_ok_def)
  then show "mset [0..<k] = mset (finished r) + in_workers (workers (sh_pool s))" using st(1) by simp
  show "job_at s j = InQueue \<longleftrightarrow> k \<le> j" if "j < length (sh_jobs s)" for j
  proof -
    have "j \<in> set (started r) \<longleftrightarrow> j < k" unfolding st(1) by simp
    then show ?thesis using assms(1) that by (auto simp: pool_view_def)
  qed
qed

lemma pool_view_finished:
  assumes "pool_view n s r" and "j \<in> set (finished r)"
  shows "j < length (sh_jobs s)"
proof -
  have "j \<in># mset [0..<length (started r)]" unfolding pool_view_facts(5) [OF assms(1)] using assms(2) by simp
  then show ?thesis using pool_view_facts(3) [OF assms(1)] by simp
qed

lemma pool_view_running:
  assumes "pool_view n s r" and "Running j \<in> set (workers (sh_pool s))"
  shows "j < length (started r)" and "j \<notin> set (finished r)" and "job_at s j \<noteq> InQueue" and "j < length (sh_jobs s)"
proof -
  note f = pool_view_facts [OF assms(1)]
  have w: "j \<in># in_workers (workers (sh_pool s))" using assms(2) by (simp add: in_workers_mem)
  then have m: "j \<in># mset [0..<length (started r)]" using f(5) by simp
  then show k: "j < length (started r)" by simp
  show l: "j < length (sh_jobs s)" using k f(3) by simp
  show "job_at s j \<noteq> InQueue" using f(6) [OF l] k by simp
  have "count (in_workers (workers (sh_pool s))) j \<noteq> 0" using w by simp
  moreover have "count (mset [0..<length (started r)]) j = 1" using k by (simp only: upt_once if_True)
  ultimately have "count (mset (finished r)) j = 0" unfolding f(5) count_union by linarith
  then show "j \<notin> set (finished r)" by simp
qed

lemma running_once:
  assumes "pool_part n s" and "i < length (workers (sh_pool s))" and "k < length (workers (sh_pool s))"
    and "workers (sh_pool s) ! i = Running j" and "workers (sh_pool s) ! k = Running j"
  shows "i = k"
proof (rule ccontr)
  assume "i \<noteq> k"
  then have two: "2 \<le> count (in_workers (workers (sh_pool s))) j"
    using in_workers_twice [of i k "workers (sh_pool s)" j] in_workers_twice [of k i "workers (sh_pool s)" j] assms
    by (metis linorder_neqE_nat)
  obtain r where r: "pool_view n s r" using assms(1) by (auto simp: pool_part_def)
  have "count (in_workers (workers (sh_pool s))) j \<le> count (mset [0..<length (started r)]) j"
    unfolding pool_view_facts(5) [OF r] by simp
  also have "\<dots> \<le> 1" unfolding upt_once by simp
  finally show False using two by simp
qed

text \<open>A task that is neither queued nor over is run by a worker.\<close>

lemma active_has_worker:
  assumes "pool_part n s" and "j < length (sh_jobs s)" and "job_at s j = Active pos"
  shows "\<exists>k < length (workers (sh_pool s)). workers (sh_pool s) ! k = Running j"
proof -
  obtain r where r: "pool_view n s r" using assms(1) by (auto simp: pool_part_def)
  note f = pool_view_facts [OF r]
  have "j < length (started r)" using f(6) [OF assms(2)] assms(3) by simp
  then have "j \<in># mset [0..<length (started r)]" by simp
  moreover have "j \<notin> set (finished r)" using r assms(3) by (auto simp: pool_view_def)
  ultimately have "j \<in># in_workers (workers (sh_pool s))" unfolding f(5) by simp
  then show ?thesis by (simp add: in_workers_mem in_set_conv_nth)
qed

section \<open>Steps\<close>

lemma not_running: "(\<And>j. w \<noteq> Running j) \<Longrightarrow> w \<in> {Waiting, Asleep, Exited}"
  by (cases w) auto

lemma job_step_frame:
  assumes "job_step i j t pos s = Some (st, s')"
  shows "sh_pool s' = sh_pool s \<and> sh_jobs s' = sh_jobs s \<and> st \<noteq> InQueue \<and> sh_metrics s' = sh_metrics s \<and>
    sh_collectors s' = sh_collectors s \<and> sh_config s' = sh_config s \<and> sh_terminated s' = sh_terminated s"
  using assms
  by (auto simp: job_step_def packet_job_def alerts_job_def metrics_job_def cleanup_job_def call_database_def
      release_alerts_def check_one_def Let_def
      split: main_task.splits job_position.splits option.splits list.splits prod.splits if_splits)

lemma set_job_simps [simp]:
  "sh_pool (set_job j st s) = sh_pool s" "sh_metrics (set_job j st s) = sh_metrics s"
  "sh_collectors (set_job j st s) = sh_collectors s" "sh_config (set_job j st s) = sh_config s"
  "sh_alerts (set_job j st s) = sh_alerts s" "sh_checking (set_job j st s) = sh_checking s"
  "sh_analyzer (set_job j st s) = sh_analyzer s" "sh_db (set_job j st s) = sh_db s"
  "sh_fired (set_job j st s) = sh_fired s" "sh_steady (set_job j st s) = sh_steady s"
  "sh_terminated (set_job j st s) = sh_terminated s" "length (sh_jobs (set_job j st s)) = length (sh_jobs s)"
  "map fst (sh_jobs (set_job j st s)) = map fst (sh_jobs s)"
  by (simp_all add: set_job_def map_update)
    (metis list_update_beyond list_update_id map_update not_le_imp_less nth_map)

lemma job_at_set_job:
  "k < length (sh_jobs s) \<Longrightarrow> job_at (set_job j st s) k = (if k = j then st else job_at s k)"
  "k < length (sh_jobs s) \<Longrightarrow> job_task (set_job j st s) k = job_task s k"
  by (cases "k = j"; simp add: job_at_def job_task_def set_job_def)+

lemma job_cong:
  "sh_jobs s' = sh_jobs s \<Longrightarrow> job_at s' k = job_at s k \<and> job_task s' k = job_task s k"
  by (simp add: job_at_def job_task_def)

text \<open>The four things a worker can do; \<open>Idle\<close>: it wakes up, falls asleep or leaves.\<close>

lemma worker_step_cases:
  assumes "pool_part n s" and "worker_step i k s = Some s'"
  obtains
    (Take) j p where "j < length (sh_jobs s)" "job_at s j = InQueue" "\<forall>i < j. job_at s i \<noteq> InQueue"
      "worker_wake (ti_spurious i) k (sh_pool s) = Some p" "workers p ! k = Running j"
      "s' = set_job j (Active Begun) (s\<lparr>sh_pool := p\<rparr>)"
  | (Idle) p where "worker_wake (ti_spurious i) k (sh_pool s) = Some p" "\<And>j. workers p ! k \<noteq> Running j"
      "s' = s\<lparr>sh_pool := p\<rparr>"
  | (Run) j pos st s1 where "workers (sh_pool s) ! k = Running j" "k < length (workers (sh_pool s))"
      "j < length (sh_jobs s)" "job_at s j = Active pos"
      "job_step i j (job_task s j) pos s = Some (st, s1)" "s' = set_job j st s1"
  | (Back) j p where "workers (sh_pool s) ! k = Running j" "k < length (workers (sh_pool s))"
      "j < length (sh_jobs s)" "job_over (job_at s j)" "worker_finish k (sh_pool s) = Some p" "s' = s\<lparr>sh_pool := p\<rparr>"
proof -
  obtain r where r: "pool_view n s r" using assms(1) by (auto simp: pool_part_def)
  note f = pool_view_facts [OF r]
  have k: "k < length (workers (sh_pool s))" using assms(2) by (simp add: worker_step_def split: if_splits)
  have takes: thesis if idle: "\<And>j. workers (sh_pool s) ! k \<noteq> Running j"
  proof -
    have w: "worker_take (ti_spurious i) k s = Some s'"
      using assms(2) k not_running [OF idle] by (auto simp: worker_step_def)
    then obtain p where p: "worker_wake (ti_spurious i) k (sh_pool s) = Some p"
      by (auto simp: worker_take_def split: option.splits)
    show thesis
    proof (cases "\<exists>j. workers p ! k = Running j")
      case True
      then obtain j where pk: "workers p ! k = Running j" by blast
      let ?j = "length (started r)"
      have t: "tasks (sh_pool s) = j # tasks p" by (rule worker_wake_task(4) [OF p pk])
      then have lt: "?j < length (sh_jobs s)" using f(2) by (cases "?j < length (sh_jobs s)") simp_all
      then have "[?j..<length (sh_jobs s)] = ?j # [Suc ?j..<length (sh_jobs s)]" by (rule upt_conv_Cons)
      then have j: "j = ?j" using t f(2) by simp
      have "job_at s ?j = InQueue" "\<forall>i < ?j. job_at s i \<noteq> InQueue" using f(6) lt by auto
      moreover have "s' = set_job ?j (Active Begun) (s\<lparr>sh_pool := p\<rparr>)" using w p pk j by (simp add: worker_take_def)
      ultimately show thesis using Take [OF lt _ _ p] pk j by blast
    next
      case False
      then have "workers p ! k \<in> {Waiting, Asleep, Exited}" by (intro not_running) blast
      then have "s' = s\<lparr>sh_pool := p\<rparr>" using w p by (auto simp: worker_take_def)
      then show thesis using Idle [OF p] False by blast
    qed
  qed
  show ?thesis
  proof (cases "workers (sh_pool s) ! k")
    case (Running j)
    then have "Running j \<in> set (workers (sh_pool s))" using k by (metis nth_mem)
    note j = pool_view_running [OF r this]
    have w: "worker_run i k j s = Some s'" using assms(2) Running k by (simp add: worker_step_def)
    obtain t st where t: "sh_jobs s ! j = (t, st)" by fastforce
    show ?thesis
    proof (cases st)
      case (Active pos)
      then show ?thesis
        using w t Run [OF Running k j(4), of pos] by (auto simp: worker_run_def job_at_def job_task_def)
    qed (use w t j(3) Back [OF Running k j(4)] in \<open>auto simp: worker_run_def job_at_def\<close>)
  next
    case Waiting
    then show ?thesis using takes by simp
  next
    case Asleep
    then show ?thesis using takes by simp
  next
    case Exited
    then show ?thesis using takes by simp
  qed
qed

lemma pool_part_start: "pool_part n (shared_start n d h cs c m)"
  unfolding pool_part_def pool_view_def
  using pool_steps.init [of n] by (intro exI [of _ "run_init n"]) (simp add: run_init_def shared_start_def)

lemma pool_part_submit:
  assumes "pool_part n s" and "submit t s = Some s'"
  shows "pool_part n s'"
proof -
  obtain r where r: "pool_view n s r" using assms(1) by (auto simp: pool_part_def)
  obtain p where p: "enqueue (length (sh_jobs s)) (sh_pool s) = Some p"
      "s' = s\<lparr>sh_pool := p, sh_jobs := sh_jobs s @ [(t, InQueue)]\<rparr>"
    using assms(2) by (auto simp: submit_def)
  let ?r = "r\<lparr>the_pool := p, accepted := accepted r @ [length (sh_jobs s)]\<rparr>"
  note f = pool_view_facts [OF r]
  have "pool_steps n ?r" using pool_steps.enqueue [of n r "length (sh_jobs s)" p] r p(1) by (simp add: pool_view_def)
  moreover have "j < length (sh_jobs s)" if "j \<in> set (finished r)" for j
    using pool_view_finished [OF r that] .
  moreover have "length (sh_jobs s) \<notin> set (started r)" using f(3) by (subst f(1)) simp
  ultimately have "pool_view n s' ?r"
    using r by (auto simp: pool_view_def p(2) job_at_def nth_append less_Suc_eq)
  then show ?thesis by (auto simp: pool_part_def)
qed

lemma pool_part_worker:
  assumes "pool_part n s" and "worker_step i k s = Some s'"
  shows "pool_part n s'"
proof -
  obtain r where r: "pool_view n s r" using assms(1) by (auto simp: pool_part_def)
  note f = pool_view_facts [OF r]
  show ?thesis using assms
  proof (cases rule: worker_step_cases)
    case (Take j p)
    let ?r = "r\<lparr>the_pool := p, started := started r @ [j]\<rparr>"
    have "pool_steps n ?r"
      using pool_steps.wake [of n r "ti_spurious i" k p] r Take(4,5) by (simp add: pool_view_def)
    moreover have "j \<notin> set (finished r)" using r Take(2) by (auto simp: pool_view_def)
    moreover have "x < length (sh_jobs s)" if "x \<in> set (finished r)" for x
      using pool_view_finished [OF r that] .
    ultimately have "pool_view n s' ?r"
      using r by (auto simp: pool_view_def Take(6) job_at_set_job job_cong [of "s\<lparr>sh_pool := p\<rparr>" s])
    then show ?thesis by (auto simp: pool_part_def)
  next
    case (Idle p)
    let ?r = "r\<lparr>the_pool := p\<rparr>"
    have "started r @ (case workers p ! k of Running j \<Rightarrow> [j] | _ \<Rightarrow> []) = started r"
      using not_running [OF Idle(2)] by auto
    then have "pool_steps n ?r"
      using pool_steps.wake [of n r "ti_spurious i" k p] r Idle(1) by (simp add: pool_view_def)
    then have "pool_view n s' ?r" using r by (simp add: pool_view_def Idle(3) job_at_def)
    then show ?thesis by (auto simp: pool_part_def)
  next
    case (Run j pos st s1)
    note fr = job_step_frame [OF Run(5)]
    have "Running j \<in> set (workers (sh_pool s))" using Run(1,2) by (metis nth_mem)
    note j = pool_view_running [OF r this]
    have "x < length (sh_jobs s)" if "x \<in> set (finished r)" for x
      using pool_view_finished [OF r that] .
    then have "pool_view n s' r"
      using r fr Run(4) j(2) by (auto simp: pool_view_def Run(6) job_at_set_job job_cong [of s1 s])
    then show ?thesis by (auto simp: pool_part_def)
  next
    case (Back j p)
    let ?r = "r\<lparr>the_pool := p, finished := finished r @ [j]\<rparr>"
    have "pool_steps n ?r"
      using pool_steps.finish [of n r k p] r Back(1,5) by (simp add: pool_view_def)
    then have "pool_view n s' ?r" using r Back(4) by (auto simp: pool_view_def Back(6) job_at_def)
    then show ?thesis by (auto simp: pool_part_def)
  qed
qed

lemma pool_part_step:
  assumes "pool_part n s" and "pool_event_step e s = Some s'"
  shows "pool_part n s'"
proof (cases e)
  case (Submit t)
  then show ?thesis using pool_part_submit [OF assms(1)] assms(2) by (simp add: pool_event_step_def)
next
  case (Worker k i)
  then show ?thesis using pool_part_worker [OF assms(1)] assms(2) by (simp add: pool_event_step_def)
next
  case (Measure p now v)
  then have "s' = collector_writes p now v s" using assms(2) by (simp add: pool_event_step_def)
  then show ?thesis using assms(1)
    by (simp add: pool_part_def pool_view_def collector_writes_def job_at_def)
next
  case StopWorkers
  then have s': "s' = stop_workers s" using assms(2) by (simp add: pool_event_step_def)
  obtain r where r: "pool_view n s r" using assms(1) by (auto simp: pool_part_def)
  then have "pool_view n s' (r\<lparr>the_pool := stop_pool (the_pool r)\<rparr>)"
    using pool_steps.stop [of n r] by (simp add: pool_view_def s' stop_workers_def job_at_def)
  then show ?thesis by (auto simp: pool_part_def)
qed

interpretation pool_order: started_machine pool_event_step "\<lambda>e s. True" "pool_part n" "shared_start n d h cs c m"
  for n d h cs c m
  by unfold_locales (rule pool_part_step, assumption+, rule pool_part_start)

section \<open>Invariants of the tasks\<close>

text \<open>
  What an invariant of the tasks and the objects has to be checked for: which worker runs a task, and
  when the pool is stopped, does not matter.
\<close>

locale job_invariant =
  fixes n :: nat and allowed :: "pool_event \<Rightarrow> shared \<Rightarrow> bool" and inv :: "shared \<Rightarrow> bool"
  assumes pool: "inv s \<Longrightarrow> inv (s\<lparr>sh_pool := p\<rparr>)"
    and submitted: "inv s \<Longrightarrow> allowed (Submit t) s \<Longrightarrow> inv (s\<lparr>sh_jobs := sh_jobs s @ [(t, InQueue)]\<rparr>)"
    and begun: "inv s \<Longrightarrow> pool_part n s \<Longrightarrow> k < length (workers (sh_pool s)) \<Longrightarrow>
      (\<And>t. workers (sh_pool s) ! k \<noteq> Running t) \<Longrightarrow> j < length (sh_jobs s) \<Longrightarrow> job_at s j = InQueue \<Longrightarrow> \<forall>i < j. job_at s i \<noteq> InQueue \<Longrightarrow>
      inv (set_job j (Active Begun) s)"
    and run: "inv s \<Longrightarrow> pool_part n s \<Longrightarrow> allowed (Worker k i) s \<Longrightarrow> k < length (workers (sh_pool s)) \<Longrightarrow>
      workers (sh_pool s) ! k = Running j \<Longrightarrow> j < length (sh_jobs s) \<Longrightarrow> job_at s j = Active pos \<Longrightarrow> job_step i j (job_task s j) pos s = Some (st, s') \<Longrightarrow> inv (set_job j st s')"
    and measured: "inv s \<Longrightarrow> allowed (Measure g now v) s \<Longrightarrow> inv (collector_writes g now v s)"
begin

lemma worker_keeps:
  assumes "pool_part n s" and "inv s" and "allowed (Worker k i) s" and "worker_step i k s = Some s'"
  shows "inv s'"
  using assms(1,4)
proof (cases rule: worker_step_cases)
  case (Take j p)
  have "inv (set_job j (Active Begun) s)"
    by (rule begun [OF assms(2,1) worker_wake_task(1,2) [OF Take(4,5)] Take(1-3)])
  then have "inv ((set_job j (Active Begun) s)\<lparr>sh_pool := p\<rparr>)" by (rule pool)
  moreover have "(set_job j (Active Begun) s)\<lparr>sh_pool := p\<rparr> = s'" unfolding Take(6) by (cases s) (simp add: set_job_def)
  ultimately show ?thesis by simp
next
  case (Run j pos st s1)
  then show ?thesis using run [OF assms(2,1,3) Run(2,1,3-5)] by simp
qed (simp_all add: pool assms(2))

lemma step_keeps:
  assumes "pool_part n s" and "inv s" and "allowed e s" and "pool_event_step e s = Some s'"
  shows "inv s'"
proof (cases e)
  case (Submit t)
  then obtain p where p: "s' = s\<lparr>sh_pool := p, sh_jobs := sh_jobs s @ [(t, InQueue)]\<rparr>"
    using assms(4) by (auto simp: pool_event_step_def submit_def)
  have "inv (s\<lparr>sh_jobs := sh_jobs s @ [(t, InQueue)]\<rparr>)" using submitted assms(2,3) Submit by blast
  then have "inv (s\<lparr>sh_jobs := sh_jobs s @ [(t, InQueue)], sh_pool := p\<rparr>)" by (rule pool)
  moreover have "s\<lparr>sh_jobs := sh_jobs s @ [(t, InQueue)], sh_pool := p\<rparr> = s'" unfolding p by (cases s) simp
  ultimately show ?thesis by simp
next
  case (Worker k i)
  then show ?thesis using worker_keeps assms by (simp add: pool_event_step_def)
next
  case (Measure p now v)
  then show ?thesis using measured [of s p now v] assms by (simp add: pool_event_step_def)
next
  case StopWorkers
  then show ?thesis
    using pool [of s "stop_pool (sh_pool s)"] assms by (simp add: pool_event_step_def stop_workers_def)
qed

end

sublocale job_invariant \<subseteq> in_pool: machine_invariant pool_event_step allowed "\<lambda>s. pool_part n s \<and> inv s"
  using pool_part_step step_keeps by unfold_locales blast

end
