(* ===== verification/Task_Effects.thy ===== *)
theory Task_Effects
  imports Pool_Order "HOL-Library.Sublist"
begin

text \<open>
  What the tasks do to the analyzer, the alert manager and the database when the workers of the pool
  run them at the same time: every task has made the calls on the database that its code makes, on
  values that were there while it ran.
\<close>

section \<open>The mutex of the alert manager\<close>

definition holds_alerts :: "job_state \<Rightarrow> bool" where
  "holds_alerts st = (case st of Active (Checking as) \<Rightarrow> True | Active (Calling a cbs as) \<Rightarrow> True | _ \<Rightarrow> False)"

definition lock_inv :: "shared \<Rightarrow> bool" where
  "lock_inv s \<longleftrightarrow> (\<forall>j < length (sh_jobs s). holds_alerts (job_at s j) \<longleftrightarrow> sh_checking s = Some j) \<and>
     (\<forall>j. sh_checking s = Some j \<longrightarrow> j < length (sh_jobs s))"

text \<open>Only the alert task touches the manager.\<close>

lemma alerts_frame:
  assumes "job_step i j t pos s = Some (st, s')" and "t \<noteq> CheckAlerts"
  shows "sh_checking s' = sh_checking s \<and> sh_alerts s' = sh_alerts s \<and> sh_fired s' = sh_fired s \<and>
    sh_steady s' = sh_steady s \<and> \<not> holds_alerts (Active pos) \<and> \<not> holds_alerts st"
  using assms
  by (auto simp: job_step_def packet_job_def metrics_job_def cleanup_job_def call_database_def holds_alerts_def
      split: main_task.splits job_position.splits option.splits list.splits prod.splits if_splits)

lemma alerts_lock:
  assumes "alerts_job i j pos s = Some (st, s')"
  shows "(if pos = Begun then sh_checking s = None else holds_alerts (Active pos)) \<and>
    (if holds_alerts st then sh_checking s' = (if pos = Begun then Some j else sh_checking s)
     else sh_checking s' = None)"
  using assms
  by (auto simp: alerts_job_def check_one_def call_database_def release_alerts_def holds_alerts_def Let_def
      split: job_position.splits list.splits prod.splits if_splits)

lemma lock_inv_run:
  assumes "lock_inv s" and "j < length (sh_jobs s)" and "job_at s j = Active pos"
    and "job_step i j (job_task s j) pos s = Some (st, s')"
  shows "lock_inv (set_job j st s')"
proof -
  have jobs: "sh_jobs s' = sh_jobs s" using job_step_frame [OF assms(4)] by blast
  note at = job_at_set_job(1) [of _ s' j st, unfolded jobs] job_cong [OF jobs]
  show ?thesis
  proof (cases "job_task s j = CheckAlerts")
    case True
    then have "alerts_job i j pos s = Some (st, s')" using assms(4) by (simp add: job_step_def)
    from alerts_lock [OF this] show ?thesis
      using assms(1-3) by (auto simp: lock_inv_def at jobs holds_alerts_def split: if_splits)
  next
    case False
    from alerts_frame [OF assms(4) this] show ?thesis
      using assms(1-3) by (auto simp: lock_inv_def at jobs)
  qed
qed

lemma lock_inv_begun:
  "lock_inv s \<Longrightarrow> j < length (sh_jobs s) \<Longrightarrow> job_at s j = InQueue \<Longrightarrow> lock_inv (set_job j (Active Begun) s)"
  by (auto simp: lock_inv_def job_at_set_job holds_alerts_def)

lemma lock_inv_start: "lock_inv (shared_start n d h cs c m)"
  by (simp add: lock_inv_def shared_start_def)

interpretation alert_lock: job_invariant n "\<lambda>e s. True" lock_inv for n
proof unfold_locales
  fix s t
  assume "lock_inv s"
  then show "lock_inv (s\<lparr>sh_jobs := sh_jobs s @ [(t, InQueue)]\<rparr>)"
    by (auto simp: lock_inv_def job_at_def nth_append holds_alerts_def less_Suc_eq)
qed (auto intro: lock_inv_run lock_inv_begun simp: collector_writes_def, auto simp: lock_inv_def job_at_def)

section \<open>Calls on the database\<close>

definition task_calls :: "nat \<Rightarrow> shared \<Rightarrow> db_call list" where
  "task_calls j s = map snd (filter (\<lambda>e. fst e = j) (sh_db s))"

definition calls_known :: "shared \<Rightarrow> bool" where
  "calls_known s \<longleftrightarrow> (\<forall>e \<in> set (sh_db s). fst e < length (sh_jobs s))"

lemma job_step_db:
  assumes "job_step i j t pos s = Some (st, s')"
  obtains cs where "sh_db s' = sh_db s @ map (Pair j) cs"
proof -
  have "sh_db s' = sh_db s \<or> (\<exists>c. sh_db s' = sh_db s @ [(j, c)])"
    using assms
    by (auto simp: job_step_def packet_job_def alerts_job_def metrics_job_def cleanup_job_def call_database_def
        release_alerts_def check_one_def Let_def
        split: main_task.splits job_position.splits option.splits list.splits prod.splits if_splits)
  then show ?thesis using that [of "[]"] that [of "[_]"] by auto
qed

lemma calls_other:
  assumes "job_step i j t pos s = Some (st, s')" and "k \<noteq> j"
  shows "task_calls k (set_job j st s') = task_calls k s"
proof -
  obtain cs where "sh_db s' = sh_db s @ map (Pair j) cs" using job_step_db [OF assms(1)] .
  then show ?thesis using assms(2) by (simp add: task_calls_def filter_map comp_def)
qed

lemma calls_known_run:
  assumes "calls_known s" and "j < length (sh_jobs s)" and st: "job_step i j t pos s = Some (st, s')"
  shows "calls_known (set_job j st s')"
proof -
  obtain cs where "sh_db s' = sh_db s @ map (Pair j) cs" using job_step_db [OF st] .
  moreover have "sh_jobs s' = sh_jobs s" using job_step_frame [OF st] by blast
  ultimately show ?thesis using assms(1,2) by (auto simp: calls_known_def)
qed

lemma task_calls_cong: "sh_db s' = sh_db s \<Longrightarrow> task_calls j s' = task_calls j s"
  by (simp add: task_calls_def)

lemma task_calls_new: "calls_known s \<Longrightarrow> task_calls (length (sh_jobs s)) s = []"
  by (auto simp: task_calls_def calls_known_def filter_empty_conv)

interpretation calls_by_tasks: job_invariant n "\<lambda>e s. True" calls_known for n
  by unfold_locales (auto intro: calls_known_run, auto simp: calls_known_def collector_writes_def)

subsection \<open>Packet tasks\<close>

text \<open>
  Each packet task of a history: until it has fetched nothing is known, what it fetched and what it
  stored is its connection's summary over an initial part of the history.
\<close>

fun packet_calls :: "packet_info list \<Rightarrow> packet_info \<Rightarrow> job_state \<Rightarrow> db_call list \<Rightarrow> bool" where
  "packet_calls hist p InQueue calls \<longleftrightarrow> calls = []"
| "packet_calls hist p (Active Begun) calls \<longleftrightarrow> calls = []"
| "packet_calls hist p (Active PacketProcessed) calls \<longleftrightarrow> calls = [] \<and> p \<in> set hist"
| "packet_calls hist p (Active (PacketFetched r)) calls \<longleftrightarrow>
     calls = [] \<and> (\<exists>rec. r = Some rec \<and> prefix_record hist p rec)"
| "packet_calls hist p (Thrown (PacketFetched r)) calls \<longleftrightarrow>
     calls = [] \<and> (\<exists>rec. r = Some rec \<and> prefix_record hist p rec)"
| "packet_calls hist p Completed calls \<longleftrightarrow> (\<exists>rec. calls = [UpdateConnection rec] \<and> prefix_record hist p rec)"
| "packet_calls hist p _ calls \<longleftrightarrow> False"

fun begun_packet :: "main_task \<times> job_state \<Rightarrow> packet_info list" where
  "begun_packet (HandlePacket p, InQueue) = []"
| "begun_packet (HandlePacket p, Active Begun) = []"
| "begun_packet (HandlePacket p, _) = [p]"
| "begun_packet _ = []"

definition begun_packets :: "shared \<Rightarrow> packet_info list" where
  "begun_packets s = concat (map begun_packet (sh_jobs s))"

text \<open>\<open>past\<close> is an initial part of the order of processing that was known before.\<close>

definition packet_inv :: "packet_info \<Rightarrow> packet_info list \<Rightarrow> shared \<Rightarrow> bool" where
  "packet_inv d past s \<longleftrightarrow> calls_known s \<and>
     (\<exists>hist. prefix past hist \<and> sh_analyzer s = analyzer_after d hist \<and> mset hist = mset (begun_packets s) \<and>
       (\<forall>j p. j < length (sh_jobs s) \<and> job_task s j = HandlePacket p \<longrightarrow>
          readable p \<and> packet_calls hist p (job_at s j) (task_calls j s)))"

lemma packet_invI:
  assumes "calls_known s" and "prefix past hist" and "sh_analyzer s = analyzer_after d hist" and "mset hist = mset (begun_packets s)"
    and "\<And>j p. j < length (sh_jobs s) \<Longrightarrow> job_task s j = HandlePacket p \<Longrightarrow>
      readable p \<and> packet_calls hist p (job_at s j) (task_calls j s)"
  shows "packet_inv d past s"
  using assms unfolding packet_inv_def by blast

lemma packet_calls_later: "packet_calls hist p st calls \<Longrightarrow> packet_calls (hist @ [q]) p st calls"
  by (cases "(hist, p, st, calls)" rule: packet_calls.cases) (auto dest: prefix_record_later)

lemma concat_update:
  "i < length xs \<Longrightarrow> mset (concat (map f (xs[i := x]))) + mset (f (xs ! i)) = mset (concat (map f xs)) + mset (f x)"
proof (induction xs arbitrary: i)
  case (Cons y ys)
  then show ?case by (cases i) (auto simp: ac_simps)
qed simp

lemma begun_set_job:
  assumes "j < length (sh_jobs s)"
  shows "mset (begun_packets (set_job j st s)) + mset (begun_packet (job_task s j, job_at s j)) =
    mset (begun_packets s) + mset (begun_packet (job_task s j, st))"
  using concat_update [OF assms, of begun_packet "(fst (sh_jobs s ! j), st)"]
  by (simp add: begun_packets_def set_job_def job_at_def job_task_def)

lemma packet_other_tasks: "(\<And>p. t \<noteq> HandlePacket p) \<Longrightarrow> begun_packet (t, st) = []"
  by (cases t) auto

lemma analyzer_frame:
  assumes "job_step i j t pos s = Some (st, s')" and "\<And>p. t \<noteq> HandlePacket p"
  shows "sh_analyzer s' = sh_analyzer s"
  using assms
  by (auto simp: job_step_def alerts_job_def metrics_job_def cleanup_job_def call_database_def
      release_alerts_def check_one_def Let_def
      split: main_task.splits job_position.splits option.splits list.splits prod.splits if_splits)

text \<open>One step of a packet task.\<close>

lemma packet_job_step:
  assumes "packet_job i j p pos s = Some (st, s')" and "sh_analyzer s = analyzer_after d hist"
    and "readable p" and "packet_calls hist p (Active pos) (task_calls j s)"
  shows "(if pos = Begun then st = Active PacketProcessed \<and> sh_analyzer s' = analyzer_after d (hist @ [p])
          else sh_analyzer s' = sh_analyzer s) \<and>
    packet_calls (if pos = Begun then hist @ [p] else hist) p st (task_calls j s')"
proof (cases pos)
  case Begun
  have "process_step p (sh_analyzer s) = Some (analyzer_after d (hist @ [p]))"
    using assms(2,3) by (simp add: process_step_def readable_def processPacket_step)
  then show ?thesis using assms Begun by (auto simp: packet_job_def task_calls_def)
next
  case PacketProcessed
  then have "fetch_step p (sh_analyzer s) = Some (record_after hist p)" "p \<in> set hist"
    using assms(2,4) fetch_step_after by auto
  then show ?thesis using assms PacketProcessed prefix_record_now by (auto simp: packet_job_def task_calls_def)
next
  case (PacketFetched r)
  then obtain rec where r: "r = Some rec" "prefix_record hist p rec" "task_calls j s = []" using assms(4) by auto
  then have "s' = (if ti_returns i then s\<lparr>sh_db := sh_db s @ [(j, UpdateConnection rec)]\<rparr> else s)"
    "st = (if ti_returns i then Completed else Thrown (PacketFetched (Some rec)))"
    using assms(1) PacketFetched by (auto simp: packet_job_def call_database_def split: if_splits)
  then show ?thesis using r PacketFetched by (auto simp: task_calls_def)
qed (use assms in \<open>simp_all add: packet_job_def\<close>)

lemma packet_inv_run:
  assumes inv: "packet_inv d past s" and j: "j < length (sh_jobs s)" "job_at s j = Active pos"
    and st: "job_step i j (job_task s j) pos s = Some (st, s')"
  shows "packet_inv d past (set_job j st s')"
proof -
  obtain hist where h: "sh_analyzer s = analyzer_after d hist" "mset hist = mset (begun_packets s)" "prefix past hist"
    and ok: "\<And>k p. k < length (sh_jobs s) \<Longrightarrow> job_task s k = HandlePacket p \<Longrightarrow>
      readable p \<and> packet_calls hist p (job_at s k) (task_calls k s)"
    using inv by (auto simp: packet_inv_def)
  have jobs: "sh_jobs s' = sh_jobs s" using job_step_frame [OF st] by blast
  have known: "calls_known (set_job j st s')"
    using calls_known_run [OF _ j(1) st] inv by (simp add: packet_inv_def)
  note at = job_at_set_job [of _ s' j st, unfolded jobs] job_cong [OF jobs]
  have len: "length (sh_jobs (set_job j st s')) = length (sh_jobs s)" by (simp add: jobs)
  have task: "k < length (sh_jobs s) \<Longrightarrow> job_task (set_job j st s') k = job_task s k" for k by (simp add: at)
  have bg: "mset (begun_packets (set_job j st s')) + mset (begun_packet (job_task s j, Active pos)) =
      mset (begun_packets s) + mset (begun_packet (job_task s j, st))"
    using begun_set_job [of j s' st] j jobs at by (simp add: begun_packets_def)
  have own: "task_calls j (set_job j st s') = task_calls j s'" by (simp add: task_calls_def)
  show ?thesis
  proof (cases "\<exists>p. job_task s j = HandlePacket p")
    case True
    then obtain p where p: "job_task s j = HandlePacket p" by blast
    let ?h = "if pos = Begun then hist @ [p] else hist"
    note okj = ok [OF j(1) p, unfolded j(2)]
    have pj: "packet_job i j p pos s = Some (st, s')" using st p by (simp add: job_step_def)
    note step = packet_job_step [OF pj h(1) okj [THEN conjunct1] okj [THEN conjunct2]]
    have "begun_packet (HandlePacket p, Active pos) = (if pos = Begun then [] else [p])" by (cases pos) simp_all
    moreover have "begun_packet (HandlePacket p, st) = [p]"
      using job_step_frame [OF st] step okj [THEN conjunct2]
      by (cases "(?h, p, st, task_calls j s')" rule: packet_calls.cases)
        (use pj in \<open>auto simp: packet_job_def call_database_def split: job_position.splits option.splits if_splits\<close>)
    ultimately have "mset ?h = mset (begun_packets (set_job j st s'))"
      using bg h(2) p by (auto split: if_splits)
    moreover have "packet_calls ?h q (job_at (set_job j st s') k) (task_calls k (set_job j st s'))"
      if "k < length (sh_jobs s)" "job_task s k = HandlePacket q" for k q
      using that ok [OF that] step calls_other [OF st] p packet_calls_later own by (auto simp: at)
    moreover have "sh_analyzer (set_job j st s') = analyzer_after d ?h" using step h(1) by (auto split: if_splits)
    moreover have "prefix past ?h" using h(3) by simp
    ultimately show ?thesis using known ok by (intro packet_invI [of _ past ?h]) (simp_all only: len task)
  next
    case False
    then have other: "\<And>p. job_task s j \<noteq> HandlePacket p" by blast
    have "mset hist = mset (begun_packets (set_job j st s'))"
      using bg h(2) packet_other_tasks [OF other] by simp
    moreover have "packet_calls hist q (job_at (set_job j st s') k) (task_calls k (set_job j st s'))"
      if "k < length (sh_jobs s)" "job_task s k = HandlePacket q" for k q
      using that ok [OF that] calls_other [OF st] other by (auto simp: at)
    ultimately show ?thesis using known ok h(1) h(3) analyzer_frame [OF st other]
      by (intro packet_invI [of _ past hist]) (simp_all add: len task del: length_map set_job_simps(12))
  qed
qed

lemma packet_inv_begun:
  assumes "packet_inv d past s" and j: "j < length (sh_jobs s)" "job_at s j = InQueue"
  shows "packet_inv d past (set_job j (Active Begun) s)"
proof -
  obtain hist where h: "sh_analyzer s = analyzer_after d hist" "mset hist = mset (begun_packets s)" "prefix past hist"
    and ok: "\<And>k p. k < length (sh_jobs s) \<Longrightarrow> job_task s k = HandlePacket p \<Longrightarrow>
      readable p \<and> packet_calls hist p (job_at s k) (task_calls k s)"
    using assms(1) by (auto simp: packet_inv_def)
  have none: "begun_packet (job_task s j, InQueue) = []" "begun_packet (job_task s j, Active Begun) = []"
    by (cases "job_task s j"; simp)+
  have "mset (begun_packets (set_job j (Active Begun) s)) = mset (begun_packets s)"
    using begun_set_job [OF j(1), of "Active Begun"] j(2) none by simp
  moreover have "packet_calls hist p (job_at (set_job j (Active Begun) s) k) (task_calls k (set_job j (Active Begun) s))"
    if "k < length (sh_jobs s)" "job_task s k = HandlePacket p" for k p
    using ok [OF that] that(1) j(2) by (auto simp: job_at_set_job task_calls_def)
  ultimately show ?thesis
    using assms(1) h ok by (intro packet_invI [of _ past hist]) (auto simp: packet_inv_def calls_known_def job_at_set_job)
qed

lemma packet_inv_submitted:
  assumes "packet_inv d past s" and "\<And>p. t = HandlePacket p \<Longrightarrow> readable p"
  shows "packet_inv d past (s\<lparr>sh_jobs := sh_jobs s @ [(t, InQueue)]\<rparr>)"
proof -
  obtain hist where h: "sh_analyzer s = analyzer_after d hist" "mset hist = mset (begun_packets s)" "prefix past hist"
    and ok: "\<And>k p. k < length (sh_jobs s) \<Longrightarrow> job_task s k = HandlePacket p \<Longrightarrow>
      readable p \<and> packet_calls hist p (job_at s k) (task_calls k s)"
    using assms(1) by (auto simp: packet_inv_def)
  let ?s = "s\<lparr>sh_jobs := sh_jobs s @ [(t, InQueue)]\<rparr>"
  have known: "calls_known s" using assms(1) by (simp add: packet_inv_def)
  have "begun_packet (t, InQueue) = []" by (cases t) simp_all
  then have "begun_packets ?s = begun_packets s" by (simp add: begun_packets_def)
  moreover have "readable p \<and> packet_calls hist p (job_at ?s k) (task_calls k ?s)"
    if k: "k < length (sh_jobs ?s)" "job_task ?s k = HandlePacket p" for k p
  proof (cases "k = length (sh_jobs s)")
    case True
    then show ?thesis using k assms(2) task_calls_new [OF known]
      by (simp add: job_task_def job_at_def task_calls_def)
  next
    case False
    then show ?thesis using k ok [of k p] by (simp add: job_task_def job_at_def task_calls_def nth_append)
  qed
  ultimately show ?thesis
    using h known by (intro packet_invI [of _ past hist]) (auto simp: calls_known_def)
qed

definition readable_events :: "pool_event \<Rightarrow> shared \<Rightarrow> bool" where
  "readable_events e s = (case e of Submit (HandlePacket p) \<Rightarrow> readable p | _ \<Rightarrow> True)"

lemma packet_inv_cong:
  "packet_inv d past s \<Longrightarrow> sh_analyzer s' = sh_analyzer s \<Longrightarrow> sh_jobs s' = sh_jobs s \<Longrightarrow> sh_db s' = sh_db s \<Longrightarrow> packet_inv d past s'"
  by (simp add: packet_inv_def calls_known_def begun_packets_def job_at_def job_task_def task_calls_def)

interpretation packet_tasks: job_invariant n readable_events "packet_inv d past" for n d past
proof unfold_locales
  fix s t
  assume "packet_inv d past s" and "readable_events (Submit t) s"
  then show "packet_inv d past (s\<lparr>sh_jobs := sh_jobs s @ [(t, InQueue)]\<rparr>)"
    by (intro packet_inv_submitted) (simp_all add: readable_events_def)
qed (auto intro: packet_inv_run packet_inv_begun packet_inv_cong simp: collector_writes_def)

subsection \<open>The periodic tasks\<close>

text \<open>
  The steps at which a task reads the wall clock: the metrics task and the cleanup at their beginning,
  an alert check in every callback.
\<close>

fun reads_clock :: "main_task \<Rightarrow> job_position \<Rightarrow> bool" where
  "reads_clock StoreMetrics Begun = True"
| "reads_clock Cleanup Begun = True"
| "reads_clock CheckAlerts (Calling a (cb # cbs) as) = True"
| "reads_clock _ _ = False"

text \<open>Which task reads which time in an event of the pool, as the event has it.\<close>

definition clock_reads :: "pool_event \<Rightarrow> shared \<Rightarrow> (nat \<times> int) list" where
  "clock_reads e s =
     (case e of
        Worker k i \<Rightarrow>
          if length (workers (sh_pool s)) \<le> k then []
          else (case workers (sh_pool s) ! k of
                  Running j \<Rightarrow>
                    (case job_at s j of
                       Active pos \<Rightarrow> if reads_clock (job_task s j) pos then [(j, ti_wall i)] else []
                     | _ \<Rightarrow> [])
                | _ \<Rightarrow> [])
      | _ \<Rightarrow> [])"

definition clock_events :: "(nat \<Rightarrow> int \<Rightarrow> bool) \<Rightarrow> pool_event \<Rightarrow> shared \<Rightarrow> bool" where
  "clock_events T e s \<longleftrightarrow> (\<forall>(j, now) \<in> set (clock_reads e s). T j now)"

lemma clock_events_run:
  "clock_events T (Worker k i) s \<Longrightarrow> k < length (workers (sh_pool s)) \<Longrightarrow> workers (sh_pool s) ! k = Running j \<Longrightarrow>
    job_at s j = Active pos \<Longrightarrow> reads_clock (job_task s j) pos \<Longrightarrow> T j (ti_wall i)"
  by (simp add: clock_events_def clock_reads_def)

text \<open>
  \<open>P\<close> says which values a metric may have had, and \<open>T\<close> which times a task has read. The points of the
  metrics task are one for every name listed, in order, with one time and a value the metric had.
\<close>

definition points_for ::
    "(nat \<Rightarrow> dbl \<Rightarrow> bool) \<Rightarrow> int \<Rightarrow> (registry \<times> string) list \<Rightarrow> metric_data_point list \<Rightarrow> bool" where
  "points_for P now names points \<longleftrightarrow> list_all2 (\<lambda>(reg, name) pt. dp_metric_name pt = name \<and> dp_timestamp pt = now \<and>
     (\<exists>p. getMetric name reg = Some p \<and> P p (dp_value pt))) names points"

fun metrics_calls ::
    "(nat \<Rightarrow> dbl \<Rightarrow> bool) \<Rightarrow> (int \<Rightarrow> bool) \<Rightarrow> registry list \<Rightarrow> job_state \<Rightarrow> db_call list \<Rightarrow> bool" where
  "metrics_calls P T cs InQueue calls \<longleftrightarrow> calls = []"
| "metrics_calls P T cs (Active Begun) calls \<longleftrightarrow> calls = []"
| "metrics_calls P T cs (Active (Reading now todo points)) calls \<longleftrightarrow>
     calls = [] \<and> T now \<and> (\<exists>got. metric_names cs = got @ todo \<and> points_for P now got points)"
| "metrics_calls P T cs (Thrown (Reading now todo points)) calls \<longleftrightarrow> calls = []"
| "metrics_calls P T cs Completed calls \<longleftrightarrow>
     (\<exists>now points. T now \<and> calls = [InsertMetrics points] \<and> points_for P now (metric_names cs) points)"
| "metrics_calls P T cs _ calls \<longleftrightarrow> False"

fun cleanup_calls :: "(int \<Rightarrow> bool) \<Rightarrow> config \<Rightarrow> job_state \<Rightarrow> db_call list \<Rightarrow> bool" where
  "cleanup_calls T c InQueue calls \<longleftrightarrow> calls = []"
| "cleanup_calls T c (Active Begun) calls \<longleftrightarrow> calls = []"
| "cleanup_calls T c (Active (Pruning cs)) calls \<longleftrightarrow> (\<exists>now. T now \<and> calls @ cs = cleanup_task now c [])"
| "cleanup_calls T c (Thrown (Pruning cs)) calls \<longleftrightarrow> (\<exists>now. T now \<and> calls @ cs = cleanup_task now c [])"
| "cleanup_calls T c Completed calls \<longleftrightarrow> (\<exists>now. T now \<and> calls = cleanup_task now c [])"
| "cleanup_calls T c _ calls \<longleftrightarrow> False"

definition periodic_calls ::
    "(nat \<Rightarrow> dbl \<Rightarrow> bool) \<Rightarrow> (int \<Rightarrow> bool) \<Rightarrow> registry list \<Rightarrow> config \<Rightarrow> main_task \<Rightarrow> job_state \<Rightarrow> db_call list \<Rightarrow> bool" where
  "periodic_calls P T cs c t st calls \<longleftrightarrow>
     (t = StoreMetrics \<longrightarrow> metrics_calls P T cs st calls) \<and> (t = Cleanup \<longrightarrow> cleanup_calls T c st calls)"

definition periodic_inv ::
    "(nat \<Rightarrow> dbl \<Rightarrow> bool) \<Rightarrow> (nat \<Rightarrow> int \<Rightarrow> bool) \<Rightarrow> registry list \<Rightarrow> config \<Rightarrow> shared \<Rightarrow> bool" where
  "periodic_inv P T cs c s \<longleftrightarrow> calls_known s \<and> sh_collectors s = cs \<and> sh_config s = c \<and>
     (\<forall>reg \<in> set cs. om_ok reg \<and> (\<forall>e \<in> set reg. snd e < length (sh_metrics s))) \<and>
     (\<forall>p < length (sh_metrics s). P p (getCurrentValue (sh_metrics s ! p))) \<and>
     (\<forall>j < length (sh_jobs s). periodic_calls P (T j) cs c (job_task s j) (job_at s j) (task_calls j s))"

lemma points_read:
  assumes "points_for P now got points" and "getMetric name reg = Some p" and "P p (getCurrentValue (h ! p))"
  shows "points_for P now (got @ [(reg, name)]) (points @ read_metric now h reg name)"
  using assms by (auto simp: points_for_def read_metric_def intro!: list_all2_appendI)

lemma named_metric:
  assumes "(reg, name) \<in> set (metric_names cs)" and "\<forall>reg \<in> set cs. om_ok reg \<and> (\<forall>e \<in> set reg. snd e < m)"
  shows "\<exists>p < m. getMetric name reg = Some p"
proof -
  obtain p where "reg \<in> set cs" "(name, p) \<in> set reg"
    using assms(1) by (auto simp: metric_names_def getMetricNames_def)
  then have "om_ok reg" "snd (name, p) < m" using assms(2) by blast+
  then show ?thesis using om_find_mem [of reg name p] \<open>(name, p) \<in> set reg\<close> by (simp add: getMetric_def)
qed

lemma metrics_job_step:
  assumes "metrics_job i j pos s = Some (st, s')" and "metrics_calls P T (sh_collectors s) (Active pos) (task_calls j s)"
    and "\<forall>reg \<in> set (sh_collectors s). om_ok reg \<and> (\<forall>e \<in> set reg. snd e < length (sh_metrics s))"
    and "\<forall>p < length (sh_metrics s). P p (getCurrentValue (sh_metrics s ! p))" and "pos = Begun \<Longrightarrow> T (ti_wall i)"
  shows "metrics_calls P T (sh_collectors s) st (task_calls j s')"
proof (cases pos)
  case Begun
  then show ?thesis using assms(1,2,5) by (auto simp: metrics_job_def points_for_def)
next
  case (Reading now todo points)
  then obtain got where got: "task_calls j s = []" "metric_names (sh_collectors s) = got @ todo" "points_for P now got points" "T now"
    using assms(2) by auto
  show ?thesis
  proof (cases todo)
    case Nil
    then show ?thesis
      using assms(1) Reading got by (auto simp: metrics_job_def call_database_def task_calls_def split: if_splits)
  next
    case (Cons x todo')
    obtain reg name where x: "x = (reg, name)" by (cases x)
    then have "(reg, name) \<in> set (metric_names (sh_collectors s))" using got(2) Cons by simp
    then obtain p where "p < length (sh_metrics s)" "getMetric name reg = Some p"
      using named_metric assms(3) by blast
    then have "points_for P now (got @ [(reg, name)]) (points @ read_metric now (sh_metrics s) reg name)"
      using points_read [OF got(3)] assms(4) by blast
    then show ?thesis
      using assms(1) Reading got(1,2,4) Cons x
      by (auto simp: metrics_job_def intro!: exI [of _ "got @ [(reg, name)]"])
  qed
qed (use assms in \<open>simp_all add: metrics_job_def\<close>)

lemma cleanup_job_step:
  assumes "cleanup_job i j pos s = Some (st, s')" and "cleanup_calls T (sh_config s) (Active pos) (task_calls j s)"
    and "pos = Begun \<Longrightarrow> T (ti_wall i)"
  shows "cleanup_calls T (sh_config s) st (task_calls j s')"
proof (cases pos)
  case (Pruning cs)
  then obtain now where now: "T now" "task_calls j s @ cs = cleanup_task now (sh_config s) []" using assms(2) by auto
  then show ?thesis
    using assms(1) Pruning
    by (cases cs) (auto simp: cleanup_job_def call_database_def task_calls_def split: if_splits intro!: exI [of _ now])
qed (use assms in \<open>auto simp: cleanup_job_def\<close>)

lemma periodic_calls_run:
  assumes "periodic_inv P T cs c s" and j: "j < length (sh_jobs s)" "job_at s j = Active pos"
    and st: "job_step i j (job_task s j) pos s = Some (st, s')"
    and time: "reads_clock (job_task s j) pos \<Longrightarrow> T j (ti_wall i)"
  shows "periodic_calls P (T j) cs c (job_task s j) st (task_calls j s')"
proof -
  have own: "periodic_calls P (T j) cs c (job_task s j) (Active pos) (task_calls j s)"
    using assms(1) j by (auto simp: periodic_inv_def)
  show ?thesis
  proof (cases "job_task s j")
    case StoreMetrics
    then show ?thesis
      using st own assms(1) time metrics_job_step [of i j pos s st s' P "T j"]
      by (simp add: periodic_calls_def periodic_inv_def job_step_def)
  next
    case Cleanup
    then show ?thesis
      using st own assms(1) time cleanup_job_step [of i j pos s st s' "T j"]
      by (simp add: periodic_calls_def periodic_inv_def job_step_def)
  qed (simp_all add: periodic_calls_def)
qed

lemma periodic_inv_run:
  assumes "periodic_inv P T cs c s" and j: "j < length (sh_jobs s)" "job_at s j = Active pos"
    and st: "job_step i j (job_task s j) pos s = Some (st, s')"
    and time: "reads_clock (job_task s j) pos \<Longrightarrow> T j (ti_wall i)"
  shows "periodic_inv P T cs c (set_job j st s')"
proof -
  note frame = job_step_frame [OF st]
  then have jobs: "sh_jobs s' = sh_jobs s" by blast
  note at = job_at_set_job [of _ s' j st, unfolded jobs] job_cong [OF jobs]
  have own: "task_calls j (set_job j st s') = task_calls j s'" by (simp add: task_calls_def)
  have "periodic_calls P (T k) cs c (job_task (set_job j st s') k) (job_at (set_job j st s') k) (task_calls k (set_job j st s'))"
    if k: "k < length (sh_jobs s)" for k
  proof (cases "k = j")
    case True
    then show ?thesis using periodic_calls_run [OF assms] k own by (simp add: at)
  next
    case False
    then show ?thesis using assms(1) k calls_other [OF st] by (simp add: at periodic_inv_def)
  qed
  moreover have "calls_known (set_job j st s')"
    using calls_known_run [OF _ j(1) st] assms(1) by (simp add: periodic_inv_def)
  ultimately show ?thesis using assms(1) frame by (simp add: periodic_inv_def)
qed

lemma periodic_inv_begun:
  assumes "periodic_inv P T cs c s" and j: "j < length (sh_jobs s)" "job_at s j = InQueue"
  shows "periodic_inv P T cs c (set_job j (Active Begun) s)"
proof -
  have "periodic_calls P (T j) cs c (job_task s j) InQueue (task_calls j s)" using assms by (auto simp: periodic_inv_def)
  then have own: "periodic_calls P (T j) cs c (job_task s j) (Active Begun) (task_calls j s)"
    by (auto simp: periodic_calls_def)
  have "periodic_calls P (T k) cs c (job_task (set_job j (Active Begun) s) k) (job_at (set_job j (Active Begun) s) k)
      (task_calls k (set_job j (Active Begun) s))" if k: "k < length (sh_jobs s)" for k
    using own assms(1) k by (auto simp: periodic_inv_def job_at_set_job task_calls_def)
  then show ?thesis using assms(1) by (simp add: periodic_inv_def calls_known_def)
qed

lemma periodic_inv_submitted:
  assumes "periodic_inv P T cs c s"
  shows "periodic_inv P T cs c (s\<lparr>sh_jobs := sh_jobs s @ [(t, InQueue)]\<rparr>)"
proof -
  let ?s = "s\<lparr>sh_jobs := sh_jobs s @ [(t, InQueue)]\<rparr>"
  have known: "calls_known s" using assms by (simp add: periodic_inv_def)
  have "periodic_calls P (T k) cs c (job_task ?s k) (job_at ?s k) (task_calls k ?s)" if k: "k < length (sh_jobs ?s)" for k
  proof (cases "k = length (sh_jobs s)")
    case True
    then show ?thesis using task_calls_new [OF known]
      by (simp add: job_task_def job_at_def task_calls_def periodic_calls_def)
  next
    case False
    then have "k < length (sh_jobs s)" using k by simp
    then show ?thesis using assms
      by (simp add: periodic_inv_def job_task_def job_at_def task_calls_def nth_append)
  qed
  then show ?thesis using assms by (auto simp: periodic_inv_def calls_known_def)
qed

text \<open>The collectors write values that \<open>P\<close> allows.\<close>

definition measured_values :: "(nat \<Rightarrow> dbl \<Rightarrow> bool) \<Rightarrow> pool_event \<Rightarrow> shared \<Rightarrow> bool" where
  "measured_values P e s = (case e of Measure p now v \<Rightarrow> P p v | _ \<Rightarrow> True)"

lemma measured_field:
  "m_name (sh_metrics (collector_writes p now v s) ! q) = m_name (sh_metrics s ! q)"
  "q < length (sh_metrics s) \<Longrightarrow> getCurrentValue (sh_metrics (collector_writes p now v s) ! q) =
    (if q = p then v else getCurrentValue (sh_metrics s ! q))"
  "length (sh_metrics (collector_writes p now v s)) = length (sh_metrics s)"
proof -
  have "sh_metrics (collector_writes p now v s) ! q =
      (if q = p \<and> p < length (sh_metrics s) then record_sample now v (sh_metrics s ! p) else sh_metrics s ! q)"
    by (cases "q = p"; cases "p < length (sh_metrics s)")
      (simp_all add: collector_writes_def writers_record not_less list_update_beyond)
  then show "m_name (sh_metrics (collector_writes p now v s) ! q) = m_name (sh_metrics s ! q)"
    "q < length (sh_metrics s) \<Longrightarrow> getCurrentValue (sh_metrics (collector_writes p now v s) ! q) =
      (if q = p then v else getCurrentValue (sh_metrics s ! q))"
    by simp_all
qed (simp add: collector_writes_def)

lemma periodic_inv_measured:
  assumes "periodic_inv P T cs c s" and "P p v"
  shows "periodic_inv P T cs c (collector_writes p now v s)"
proof -
  have "sh_jobs (collector_writes p now v s) = sh_jobs s" "sh_db (collector_writes p now v s) = sh_db s"
    "sh_collectors (collector_writes p now v s) = sh_collectors s" "sh_config (collector_writes p now v s) = sh_config s"
    by (simp_all add: collector_writes_def)
  then show ?thesis using assms
    by (auto simp: periodic_inv_def measured_field calls_known_def job_at_def job_task_def task_calls_def
        simp del: getCurrentValue_alt)
qed

interpretation periodic_tasks: job_invariant n "\<lambda>e s. measured_values P e s \<and> clock_events T e s" "periodic_inv P T cs c"
  for n P T cs c
proof unfold_locales
  fix s g now v
  assume "periodic_inv P T cs c s" and "measured_values P (Measure g now v) s \<and> clock_events T (Measure g now v) s"
  then show "periodic_inv P T cs c (collector_writes g now v s)"
    by (intro periodic_inv_measured) (simp_all add: measured_values_def)
next
  fix s p
  assume "periodic_inv P T cs c s"
  then show "periodic_inv P T cs c (s\<lparr>sh_pool := p\<rparr>)"
    by (simp add: periodic_inv_def calls_known_def job_at_def job_task_def task_calls_def)
qed (auto intro: periodic_inv_run clock_events_run periodic_inv_begun periodic_inv_submitted)

end
