(* ===== verification/Task_Order.thy ===== *)
theory Task_Order
  imports Task_Effects
begin

text \<open>
  The order in which packets reach the analyzer and the database: with several workers it is the order
  of capture up to as many packets as there are workers, with one worker exactly that order.
\<close>

section \<open>Any number of workers\<close>

fun packet_of :: "main_task \<times> job_state \<Rightarrow> packet_info list" where
  "packet_of (HandlePacket p, st) = [p]"
| "packet_of _ = []"

text \<open>The packets among the first \<open>k\<close> tasks accepted.\<close>

definition first_packets :: "nat \<Rightarrow> shared \<Rightarrow> packet_info list" where
  "first_packets k s = concat (map packet_of (take k (sh_jobs s)))"

lemma begun_cases:
  "begun_packet x = (if snd x = InQueue \<or> snd x = Active Begun then [] else packet_of x)"
  by (cases x rule: begun_packet.cases) auto

definition begun_jobs :: "(main_task \<times> job_state) list \<Rightarrow> nat set" where
  "begun_jobs js = {j. j < length js \<and> snd (js ! j) = Active Begun}"

lemma begun_missing:
  "\<forall>x \<in> set js. snd x \<noteq> InQueue \<Longrightarrow>
    mset (concat (map begun_packet js)) \<subseteq># mset (concat (map packet_of js)) \<and>
    length (concat (map packet_of js)) \<le> length (concat (map begun_packet js)) + card (begun_jobs js)"
proof (induction js rule: rev_induct)
  case (snoc x js)
  have fin: "finite (begun_jobs js)" by (simp add: begun_jobs_def)
  have b: "begun_jobs (js @ [x]) = (if snd x = Active Begun then insert (length js) (begun_jobs js) else begun_jobs js)"
    by (auto simp: begun_jobs_def nth_append less_Suc_eq)
  have "length js \<notin> begun_jobs js" by (simp add: begun_jobs_def)
  then have c: "card (begun_jobs (js @ [x])) = (if snd x = Active Begun then 1 else 0) + card (begun_jobs js)"
    using fin by (simp add: b)
  have l: "length (packet_of x) \<le> 1" by (cases x rule: packet_of.cases) simp_all
  have x: "begun_packet x = (if snd x = Active Begun then [] else packet_of x)"
    using begun_cases [of x] snoc.prems by simp
  have IH: "mset (concat (map begun_packet js)) \<subseteq># mset (concat (map packet_of js))"
    "length (concat (map packet_of js)) \<le> length (concat (map begun_packet js)) + card (begun_jobs js)"
    using snoc by auto
  have "mset (begun_packet x) \<subseteq># mset (packet_of x)" by (simp add: x)
  then have "mset (concat (map begun_packet (js @ [x]))) \<subseteq># mset (concat (map packet_of (js @ [x])))"
    using subset_mset.add_mono [OF IH(1)] by simp
  moreover have "length (concat (map packet_of (js @ [x]))) = length (concat (map packet_of js)) + length (packet_of x)"
    "length (concat (map begun_packet (js @ [x]))) = length (concat (map begun_packet js)) + length (begun_packet x)"
    by simp_all
  ultimately show ?case using IH(2) l unfolding c by (cases "snd x = Active Begun") (simp_all add: x)
qed simp

lemma begun_workers:
  assumes "pool_part n s"
  shows "card (begun_jobs (sh_jobs s)) \<le> n"
proof -
  obtain r where r: "pool_view n s r" using assms by (auto simp: pool_part_def)
  let ?ws = "workers (sh_pool s)"
  have "\<forall>j \<in> begun_jobs (sh_jobs s). \<exists>k. k < length ?ws \<and> ?ws ! k = Running j"
    using active_has_worker [OF assms] by (auto simp: begun_jobs_def job_at_def)
  from bchoice [OF this] obtain who where
    who: "\<And>j. j \<in> begun_jobs (sh_jobs s) \<Longrightarrow> who j < length ?ws \<and> ?ws ! who j = Running j" by blast
  then have "inj_on who (begun_jobs (sh_jobs s))"
    by (intro inj_onI) (metis worker_state.inject)
  moreover have "who ` begun_jobs (sh_jobs s) \<subseteq> {..<length ?ws}" using who by auto
  ultimately have "card (begun_jobs (sh_jobs s)) \<le> card {..<length ?ws}" by (intro card_inj_on_le) auto
  then show ?thesis using pool_view_facts(4) [OF r] by simp
qed

text \<open>All but \<open>n\<close> of the packets of the tasks started have been processed.\<close>

lemma packets_started:
  assumes "pool_part n s"
  obtains k where "k \<le> length (sh_jobs s)" "\<forall>j < length (sh_jobs s). job_at s j = InQueue \<longleftrightarrow> k \<le> j"
    "mset (begun_packets s) \<subseteq># mset (first_packets k s)"
    "length (first_packets k s) \<le> length (begun_packets s) + n"
proof -
  obtain r where r: "pool_view n s r" using assms by (auto simp: pool_part_def)
  define k where "k = length (started r)"
  note f = pool_view_facts [OF r, folded k_def]
  let ?a = "take k (sh_jobs s)" and ?b = "drop k (sh_jobs s)"
  have q: "snd x \<noteq> InQueue" if "x \<in> set ?a" for x
    using that f(6) by (auto simp: in_set_conv_nth job_at_def)
  have "begun_packet x = []" if "x \<in> set ?b" for x
  proof -
    have "snd x = InQueue" using that f(3,6) by (auto simp: in_set_conv_nth job_at_def)
    then show ?thesis using begun_cases [of x] by simp
  qed
  then have "concat (map begun_packet ?b) = []" by simp
  then have bp: "begun_packets s = concat (map begun_packet ?a)"
    unfolding begun_packets_def by (metis append_Nil2 append_take_drop_id concat_append map_append)
  have "begun_jobs ?a \<subseteq> begun_jobs (sh_jobs s)" by (auto simp: begun_jobs_def)
  then have "card (begun_jobs ?a) \<le> card (begun_jobs (sh_jobs s))" by (intro card_mono) (simp add: begun_jobs_def)
  then have "card (begun_jobs ?a) \<le> n" using begun_workers [OF assms] by simp
  then have "length (first_packets k s) \<le> length (begun_packets s) + n" "mset (begun_packets s) \<subseteq># mset (first_packets k s)"
    using begun_missing [of ?a] q unfolding bp first_packets_def by auto
  then show ?thesis using that f(3,6) by blast
qed

section \<open>One worker\<close>

text \<open>With one worker at most one task is begun and not over, and all before it are over.\<close>

definition one_at_a_time :: "shared \<Rightarrow> bool" where
  "one_at_a_time s \<longleftrightarrow> (\<forall>i j. i < j \<and> j < length (sh_jobs s) \<and> job_at s j \<noteq> InQueue \<longrightarrow> job_over (job_at s i))"

definition record_here :: "nat \<Rightarrow> shared \<Rightarrow> packet_info \<Rightarrow> connection_record" where
  "record_here j s p = record_after (first_packets (Suc j) s) p"

fun serial_calls :: "connection_record \<Rightarrow> job_state \<Rightarrow> db_call list \<Rightarrow> bool" where
  "serial_calls r (Active (PacketFetched r')) calls \<longleftrightarrow> calls = [] \<and> r' = Some r"
| "serial_calls r Completed calls \<longleftrightarrow> calls = [UpdateConnection r]"
| "serial_calls r _ calls \<longleftrightarrow> calls = []"

definition serial_inv :: "packet_info \<Rightarrow> shared \<Rightarrow> bool" where
  "serial_inv d s \<longleftrightarrow> one_at_a_time s \<and> calls_known s \<and> sorted (map fst (sh_db s)) \<and>
     (\<forall>e \<in> set (sh_db s). job_at s (fst e) \<noteq> InQueue) \<and> sh_analyzer s = analyzer_after d (begun_packets s) \<and>
     (\<forall>j p. j < length (sh_jobs s) \<and> job_task s j = HandlePacket p \<longrightarrow>
        readable p \<and> serial_calls (record_here j s p) (job_at s j) (task_calls j s))"

lemma none_active:
  assumes "pool_part 1 s" and "k < length (workers (sh_pool s))" and "\<And>t. workers (sh_pool s) ! k \<noteq> Running t"
    and "i < length (sh_jobs s)" and "job_at s i \<noteq> InQueue"
  shows "job_over (job_at s i)"
proof (rule ccontr)
  assume "\<not> job_over (job_at s i)"
  then obtain pos where "job_at s i = Active pos" using assms(5) by (cases "job_at s i") auto
  then obtain k' where k': "k' < length (workers (sh_pool s))" "workers (sh_pool s) ! k' = Running i"
    using active_has_worker assms(1,4) by blast
  obtain r where "pool_view 1 s r" using assms(1) by (auto simp: pool_part_def)
  from pool_view_facts(4) [OF this] show False using k' assms(2) assms(3) [of i] by simp
qed

text \<open>The packets begun, when task \<open>j\<close> runs alone.\<close>

lemma begun_alone:
  assumes "one_at_a_time s" and j: "j < length (sh_jobs s)" "job_at s j \<noteq> InQueue" "\<not> job_over (job_at s j)"
  shows "begun_packets s = first_packets j s @ begun_packet (sh_jobs s ! j)"
proof -
  have "begun_packet x = packet_of x" if "x \<in> set (take j (sh_jobs s))" for x
  proof -
    obtain i where "i < length (take j (sh_jobs s))" "x = take j (sh_jobs s) ! i"
      using \<open>x \<in> set (take j (sh_jobs s))\<close> by (metis in_set_conv_nth)
    then have i: "i < j" "x = sh_jobs s ! i" by simp_all
    then have "job_over (job_at s i)" using assms(1) j unfolding one_at_a_time_def by blast
    then have "job_over (snd x)" using i by (simp add: job_at_def)
    then show ?thesis using begun_cases [of x] by auto
  qed
  then have a: "map begun_packet (take j (sh_jobs s)) = map packet_of (take j (sh_jobs s))" by simp
  have "begun_packet x = []" if "x \<in> set (drop (Suc j) (sh_jobs s))" for x
  proof -
    obtain k where "k < length (drop (Suc j) (sh_jobs s))" "x = drop (Suc j) (sh_jobs s) ! k"
      using \<open>x \<in> set (drop (Suc j) (sh_jobs s))\<close> by (metis in_set_conv_nth)
    then obtain i where i: "j < i" "i < length (sh_jobs s)" "x = sh_jobs s ! i"
      by (intro that [of "Suc j + k"]) simp_all
    then have "job_at s i = InQueue" using assms(1) j unfolding one_at_a_time_def by blast
    then show ?thesis using i begun_cases [of x] by (simp add: job_at_def)
  qed
  then have b: "concat (map begun_packet (drop (Suc j) (sh_jobs s))) = []" by simp
  have "sh_jobs s = take j (sh_jobs s) @ sh_jobs s ! j # drop (Suc j) (sh_jobs s)" using j(1) by (rule id_take_nth_drop)
  then have "begun_packets s = concat (map begun_packet (take j (sh_jobs s))) @ begun_packet (sh_jobs s ! j) @
      concat (map begun_packet (drop (Suc j) (sh_jobs s)))"
    unfolding begun_packets_def by (metis concat.simps(2) concat_append list.simps(9) map_append)
  then show ?thesis by (simp only: a b first_packets_def append_Nil2)
qed

lemma packet_of_state: "packet_of (t, st) = packet_of (t, st')"
  by (cases t) simp_all

lemma first_packets_set_job [simp]: "first_packets k (set_job j st s) = first_packets k s"
proof -
  have "map packet_of (sh_jobs (set_job j st s)) = map packet_of (sh_jobs s)"
  proof (cases "j < length (sh_jobs s)")
    case True
    have "packet_of (fst (sh_jobs s ! j), st) = packet_of (sh_jobs s ! j)"
      using packet_of_state by (metis prod.collapse)
    then show ?thesis using True by (simp add: set_job_def map_update list_update_same_conv)
  qed (simp add: set_job_def list_update_beyond)
  then show ?thesis by (simp add: first_packets_def flip: take_map)
qed

lemma begun_packets_same:
  assumes "j < length (sh_jobs s)" and "begun_packet (job_task s j, st) = begun_packet (sh_jobs s ! j)"
  shows "begun_packets (set_job j st s) = begun_packets s"
proof -
  have "map begun_packet (sh_jobs (set_job j st s)) = map begun_packet (sh_jobs s)"
    using assms by (simp add: set_job_def map_update list_update_same_conv job_task_def)
  then show ?thesis by (simp add: begun_packets_def)
qed

lemma one_at_a_time_run:
  assumes "one_at_a_time s" and j: "j < length (sh_jobs s)" "job_at s j = Active pos" and "st \<noteq> InQueue"
    and jobs: "sh_jobs s' = sh_jobs s"
  shows "one_at_a_time (set_job j st s')"
  unfolding one_at_a_time_def
proof (intro allI impI)
  fix i k
  assume a: "i < k \<and> k < length (sh_jobs (set_job j st s')) \<and> job_at (set_job j st s') k \<noteq> InQueue"
  then have k: "i < k" "k < length (sh_jobs s)" "k = j \<or> job_at s k \<noteq> InQueue"
    using jobs job_at_set_job(1) [of k s' j st] job_cong [OF jobs, of k] by (auto split: if_splits)
  then have "job_over (job_at s i)" using assms(1) j unfolding one_at_a_time_def by (metis job_state.distinct(1))
  moreover from this have "i \<noteq> j" using j(2) by auto
  ultimately show "job_over (job_at (set_job j st s') i)"
    using k jobs job_at_set_job(1) [of i s' j st] job_cong [OF jobs, of i] by simp
qed

lemma serial_invI:
  assumes "one_at_a_time s" and "calls_known s" and "sorted (map fst (sh_db s))"
    and "\<And>e. e \<in> set (sh_db s) \<Longrightarrow> job_at s (fst e) \<noteq> InQueue" and "sh_analyzer s = analyzer_after d (begun_packets s)"
    and "\<And>j p. j < length (sh_jobs s) \<Longrightarrow> job_task s j = HandlePacket p \<Longrightarrow>
      readable p \<and> serial_calls (record_here j s p) (job_at s j) (task_calls j s)"
  shows "serial_inv d s"
  using assms unfolding serial_inv_def by blast

text \<open>One step of a packet task that runs alone.\<close>

lemma serial_packet_job:
  assumes inv: "serial_inv d s" and j: "j < length (sh_jobs s)" "job_at s j = Active pos"
    and p: "job_task s j = HandlePacket p" and st: "packet_job i j p pos s = Some (st, s')"
  shows "sh_analyzer s' = analyzer_after d (begun_packets (set_job j st s')) \<and>
    serial_calls (record_here j s p) st (task_calls j s')"
proof -
  have jobs: "sh_jobs s' = sh_jobs s"
    using job_step_frame [of i j "HandlePacket p" pos s st s'] st by (simp add: job_step_def)
  have x: "sh_jobs s ! j = (HandlePacket p, Active pos)"
    using j(2) p by (simp add: job_at_def job_task_def prod_eq_iff)
  have alone: "begun_packets s = first_packets j s @ begun_packet (HandlePacket p, Active pos)"
    using begun_alone [OF _ j(1)] inv j(2) x by (simp add: serial_inv_def)
  have all: "first_packets (Suc j) s = first_packets j s @ [p]"
    using j(1) x by (simp add: first_packets_def take_Suc_conv_app_nth)
  have rd: "readable p" "serial_calls (record_here j s p) (Active pos) (task_calls j s)"
    and an: "sh_analyzer s = analyzer_after d (begun_packets s)"
    using inv j p unfolding serial_inv_def by metis+
  have same: "begun_packets (set_job j st s') = begun_packets s" if "begun_packet (HandlePacket p, st) = [p]" "pos \<noteq> Begun"
  proof -
    have "begun_packet (sh_jobs s ! j) = [p]" using x that(2) by (cases pos) simp_all
    then show ?thesis using begun_packets_same [of j s' st] j(1) that p jobs job_cong [OF jobs, of j]
      by (simp add: begun_packets_def)
  qed
  show ?thesis
  proof (cases pos)
    case Begun
    have proc: "process_step p (sh_analyzer s) = Some (analyzer_after d (begun_packets s @ [p]))"
      using rd(1) by (simp add: an process_step_def readable_def processPacket_step)
    then have r: "st = Active PacketProcessed" "s' = s\<lparr>sh_analyzer := analyzer_after d (begun_packets s @ [p])\<rparr>"
      using st Begun by (simp_all add: packet_job_def)
    have at: "job_at (set_job j st s') j = st" using job_at_set_job(1) [of j s' j st] j(1) jobs by simp
    have "one_at_a_time (set_job j st s')"
      by (rule one_at_a_time_run [OF _ j _ jobs]) (use inv in \<open>simp_all add: serial_inv_def r(1)\<close>)
    then have "begun_packets (set_job j st s') =
        first_packets j (set_job j st s') @ begun_packet (sh_jobs (set_job j st s') ! j)"
      using begun_alone [of "set_job j st s'" j] j(1) jobs at by (simp add: r(1))
    also have "sh_jobs (set_job j st s') ! j = (HandlePacket p, st)" using j(1) jobs x by (simp add: set_job_def)
    also have "first_packets j (set_job j st s') = first_packets j s"
      by (subst first_packets_set_job) (simp add: first_packets_def jobs)
    finally have "begun_packets (set_job j st s') = begun_packets s @ [p]" using alone Begun r(1) by simp
    then show ?thesis using rd(2) Begun by (simp add: r task_calls_def)
  next
    case PacketProcessed
    have "p \<in> set (begun_packets s)" using alone PacketProcessed by simp
    then have "fetch_step p (sh_analyzer s) = Some (record_after (begun_packets s) p)"
      using an fetch_step_after by simp
    then have r: "st = Active (PacketFetched (Some (record_here j s p)))" "s' = s"
      using st PacketProcessed alone all by (auto simp: packet_job_def record_here_def)
    then show ?thesis using same an rd(2) PacketProcessed by simp
  next
    case (PacketFetched r0)
    then have r0: "r0 = Some (record_here j s p)" "task_calls j s = []" using rd(2) by auto
    then show ?thesis
      using st PacketFetched same an
      by (auto simp: packet_job_def call_database_def task_calls_def split: if_splits)
  qed (use st in \<open>simp_all add: packet_job_def\<close>)
qed

lemma serial_inv_run:
  assumes inv: "serial_inv d s" and j: "j < length (sh_jobs s)" "job_at s j = Active pos"
    and st: "job_step i j (job_task s j) pos s = Some (st, s')"
  shows "serial_inv d (set_job j st s')"
proof -
  let ?s = "set_job j st s'"
  note frame = job_step_frame [OF st]
  then have jobs: "sh_jobs s' = sh_jobs s" by blast
  have at: "job_at ?s k = (if k = j then st else job_at s k)" "job_task ?s k = job_task s k" if "k < length (sh_jobs s)" for k
    using that job_at_set_job [of k s' j st] job_cong [OF jobs, of k] jobs by simp_all
  have one: "one_at_a_time s" "calls_known s" using inv by (simp_all add: serial_inv_def)
  have rc: "record_here k ?s p = record_here k s p" for k p
    unfolding record_here_def first_packets_set_job by (simp add: first_packets_def jobs)
  obtain cs where db: "sh_db s' = sh_db s @ map (Pair j) cs" using job_step_db [OF st] .
  have le: "fst e \<le> j" "fst e < length (sh_jobs s)" "job_at s (fst e) \<noteq> InQueue" if "e \<in> set (sh_db s)" for e
  proof -
    show e: "fst e < length (sh_jobs s)" "job_at s (fst e) \<noteq> InQueue"
      using inv that by (auto simp: serial_inv_def calls_known_def)
    show "fst e \<le> j"
    proof (rule ccontr)
      assume "\<not> fst e \<le> j"
      then have "job_over (job_at s j)" using one(1) e unfolding one_at_a_time_def by (meson not_le)
      then show False using j(2) by simp
    qed
  qed
  have "sorted (map fst (sh_db s @ map (Pair j) cs))"
  proof -
    have "sorted (map fst (sh_db s))" using inv by (simp add: serial_inv_def)
    moreover have "\<forall>x \<in> set (map fst (sh_db s)). \<forall>y \<in> set (map fst (map (Pair j) cs)). x \<le> y" using le(1) by auto
    moreover have "map fst (map (Pair j) cs) = replicate (length cs) j" by (simp add: map_replicate_const comp_def)
    ultimately show ?thesis by (auto simp: sorted_append)
  qed
  then have sorted: "sorted (map fst (sh_db ?s))" by (simp add: db)
  have begun: "job_at ?s (fst e) \<noteq> InQueue" if "e \<in> set (sh_db ?s)" for e
  proof -
    have "e \<in> set (sh_db s) \<or> fst e = j" using that by (auto simp: db)
    then have "fst e < length (sh_jobs s)" "fst e = j \<or> job_at s (fst e) \<noteq> InQueue" using le [of e] j(1) by auto
    then show ?thesis using at(1) [of "fst e"] frame by (cases "fst e = j") simp_all
  qed
  have calls: "readable p \<and> serial_calls (record_here k ?s p) (job_at ?s k) (task_calls k ?s)"
    if k: "k < length (sh_jobs s)" "job_task s k = HandlePacket p" for k p
  proof -
    have old: "readable p \<and> serial_calls (record_here k s p) (job_at s k) (task_calls k s)"
      using inv k unfolding serial_inv_def by blast
    have own: "task_calls j ?s = task_calls j s'" by (simp add: task_calls_def)
    show ?thesis
    proof (cases "k = j")
      case True
      then have "packet_job i j p pos s = Some (st, s')" using st k(2) by (simp add: job_step_def)
      from serial_packet_job [OF inv j _ this] show ?thesis using True k old by (simp add: rc at own)
    next
      case False
      then show ?thesis using old calls_other [OF st False] k(1) by (simp add: rc at)
    qed
  qed
  have "sh_analyzer ?s = analyzer_after d (begun_packets ?s)"
  proof (cases "\<exists>p. job_task s j = HandlePacket p")
    case True
    then obtain p where p: "job_task s j = HandlePacket p" by blast
    then have "packet_job i j p pos s = Some (st, s')" using st by (simp add: job_step_def)
    from serial_packet_job [OF inv j p this] show ?thesis by simp
  next
    case False
    then have other: "\<And>p. job_task s j \<noteq> HandlePacket p" by blast
    have "sh_jobs s ! j = (job_task s j, job_at s j)" by (simp add: job_at_def job_task_def)
    then have "begun_packet (sh_jobs s ! j) = []" using packet_other_tasks [OF other] by simp
    then have "begun_packets ?s = begun_packets s'"
      using begun_packets_same [of j s' st] j(1) jobs job_cong [OF jobs, of j] packet_other_tasks [OF other] by simp
    then show ?thesis using inv analyzer_frame [OF st other] jobs by (simp add: serial_inv_def begun_packets_def)
  qed
  then show ?thesis
    using one_at_a_time_run [OF one(1) j _ jobs] frame calls_known_run [OF one(2) j(1) st] sorted begun calls at
    by (intro serial_invI) (simp_all add: jobs)
qed

lemma serial_inv_begun:
  assumes inv: "serial_inv d s" and w: "pool_part 1 s" "k < length (workers (sh_pool s))" "\<And>t. workers (sh_pool s) ! k \<noteq> Running t"
    and j: "j < length (sh_jobs s)" "job_at s j = InQueue" "\<forall>i < j. job_at s i \<noteq> InQueue"
  shows "serial_inv d (set_job j (Active Begun) s)"
proof -
  let ?s = "set_job j (Active Begun) s"
  have one: "one_at_a_time s" using inv by (simp add: serial_inv_def)
  have none: "begun_packet (t, InQueue) = []" "begun_packet (t, Active Begun) = []" for t by (cases t; simp)+
  have "sh_jobs s ! j = (job_task s j, InQueue)" using j(2) by (simp add: job_at_def job_task_def prod_eq_iff)
  then have bp: "begun_packets ?s = begun_packets s" using begun_packets_same [OF j(1)] none by simp
  have "one_at_a_time ?s" unfolding one_at_a_time_def
  proof (intro allI impI)
    fix a b
    assume ab: "a < b \<and> b < length (sh_jobs ?s) \<and> job_at ?s b \<noteq> InQueue"
    then have b: "b < length (sh_jobs s)" "b = j \<or> job_at s b \<noteq> InQueue" by (auto simp: job_at_set_job split: if_splits)
    have "job_at s a \<noteq> InQueue"
    proof (cases "b = j")
      case False
      then have "job_over (job_at s a)" using one ab b unfolding one_at_a_time_def by blast
      then show ?thesis by auto
    qed (use ab j(3) in blast)
    then have "job_over (job_at s a)" using none_active [OF w] ab b(1) by simp
    moreover from this have "a \<noteq> j" using j(2) by auto
    ultimately show "job_over (job_at ?s a)" using ab b(1) by (simp add: job_at_set_job)
  qed
  moreover have "job_at ?s (fst e) \<noteq> InQueue" if "e \<in> set (sh_db ?s)" for e
  proof -
    have "fst e < length (sh_jobs s)" "job_at s (fst e) \<noteq> InQueue"
      using inv that by (auto simp: serial_inv_def calls_known_def)
    then show ?thesis by (simp add: job_at_set_job)
  qed
  moreover have "readable p \<and> serial_calls (record_here i ?s p) (job_at ?s i) (task_calls i ?s)"
    if i: "i < length (sh_jobs ?s)" "job_task ?s i = HandlePacket p" for i p
  proof -
    have "readable p \<and> serial_calls (record_here i s p) (job_at s i) (task_calls i s)"
      using inv i unfolding serial_inv_def by (simp add: job_at_set_job)
    then show ?thesis using i j(2) by (auto simp: job_at_set_job record_here_def task_calls_def)
  qed
  ultimately show ?thesis using inv
    by (intro serial_invI) (simp_all add: serial_inv_def bp calls_known_def)
qed

lemma serial_inv_submitted:
  assumes inv: "serial_inv d s" and "\<And>p. t = HandlePacket p \<Longrightarrow> readable p"
  shows "serial_inv d (s\<lparr>sh_jobs := sh_jobs s @ [(t, InQueue)]\<rparr>)"
proof -
  let ?s = "s\<lparr>sh_jobs := sh_jobs s @ [(t, InQueue)]\<rparr>"
  have known: "calls_known s" using inv by (simp add: serial_inv_def)
  have at: "job_at ?s k = job_at s k" "job_task ?s k = job_task s k" "first_packets (Suc k) ?s = first_packets (Suc k) s"
    if "k < length (sh_jobs s)" for k
    using that by (simp_all add: job_at_def job_task_def nth_append first_packets_def)
  have new: "job_at ?s (length (sh_jobs s)) = InQueue" "job_task ?s (length (sh_jobs s)) = t"
    by (simp_all add: job_at_def job_task_def)
  have bp: "begun_packets ?s = begun_packets s" by (simp add: begun_packets_def) (cases t; simp)
  have "one_at_a_time ?s"
  proof -
    have "job_over (job_at ?s i)" if "i < j" "j < length (sh_jobs ?s)" "job_at ?s j \<noteq> InQueue" for i j
    proof -
      have "j < length (sh_jobs s)" using that new by (cases "j = length (sh_jobs s)") auto
      then show ?thesis using that inv at [of i] at [of j] by (auto simp: serial_inv_def one_at_a_time_def)
    qed
    then show ?thesis unfolding one_at_a_time_def by blast
  qed
  moreover have "job_at ?s (fst e) \<noteq> InQueue" if "e \<in> set (sh_db ?s)" for e
  proof -
    have "fst e < length (sh_jobs s)" "job_at s (fst e) \<noteq> InQueue"
      using inv that by (auto simp: serial_inv_def calls_known_def)
    then show ?thesis by (simp add: at)
  qed
  moreover have "readable p \<and> serial_calls (record_here k ?s p) (job_at ?s k) (task_calls k ?s)"
    if k: "k < length (sh_jobs ?s)" "job_task ?s k = HandlePacket p" for k p
  proof (cases "k = length (sh_jobs s)")
    case True
    then show ?thesis using new k(2) assms(2) task_calls_new [OF known] by (simp add: task_calls_def)
  next
    case False
    then have l: "k < length (sh_jobs s)" using k(1) by simp
    then show ?thesis using inv k(2) at [OF l] by (simp add: serial_inv_def record_here_def task_calls_def)
  qed
  ultimately show ?thesis using inv known
    by (intro serial_invI) (simp_all add: serial_inv_def bp, auto simp: calls_known_def)
qed

lemma serial_inv_cong:
  assumes "serial_inv d s" and "sh_jobs s' = sh_jobs s" and "sh_db s' = sh_db s" and "sh_analyzer s' = sh_analyzer s"
  shows "serial_inv d s'"
proof -
  have "job_at s' = job_at s" "job_task s' = job_task s" "begun_packets s' = begun_packets s"
      "\<And>k. first_packets k s' = first_packets k s" "\<And>k. task_calls k s' = task_calls k s"
    using assms(2,3) by (auto simp: job_at_def job_task_def begun_packets_def first_packets_def task_calls_def)
  then show ?thesis using assms by (simp add: serial_inv_def one_at_a_time_def calls_known_def record_here_def)
qed

interpretation one_worker: job_invariant 1 readable_events "serial_inv d" for d
proof unfold_locales
  fix s t
  assume "serial_inv d s" and "readable_events (Submit t) s"
  then show "serial_inv d (s\<lparr>sh_jobs := sh_jobs s @ [(t, InQueue)]\<rparr>)"
    by (intro serial_inv_submitted) (simp_all add: readable_events_def)
next
  fix s p
  assume "serial_inv d s"
  then show "serial_inv d (s\<lparr>sh_pool := p\<rparr>)" by (rule serial_inv_cong) simp_all
next
  fix s g now v
  assume "serial_inv d s"
  then show "serial_inv d (collector_writes g now v s)"
    by (rule serial_inv_cong) (simp_all add: collector_writes_def)
next
  fix s k j
  assume "serial_inv d s" "pool_part 1 s" "k < length (workers (sh_pool s))" "\<And>t. workers (sh_pool s) ! k \<noteq> Running t"
    "j < length (sh_jobs s)" "job_at s j = InQueue" "\<forall>i < j. job_at s i \<noteq> InQueue"
  then show "serial_inv d (set_job j (Active Begun) s)" by (rule serial_inv_begun)
qed (rule serial_inv_run)

end
