(* ===== verification/Alert_Effects.thy ===== *)
theory Alert_Effects
  imports Task_Effects
begin

text \<open>
  The alert tasks among the others: what they fire keeps the cooldown although several of them may
  be queued at once, what the database is told is what was fired, and what one check has told.
\<close>

section \<open>What is fired\<close>

text \<open>The condition of an alert held for a value that \<open>P\<close> allows for its metric.\<close>

definition held :: "(nat \<Rightarrow> dbl \<Rightarrow> bool) \<Rightarrow> alert \<Rightarrow> bool" where
  "held P a \<longleftrightarrow> (\<exists>p v. cond_metric (al_condition a) = Some p \<and> P p v \<and>
     compareValues (cond_comparator (al_condition a)) v (cond_threshold (al_condition a)))"

fun alerts_ahead :: "job_state \<Rightarrow> alert list" where
  "alerts_ahead (Active (Checking as)) = as"
| "alerts_ahead (Active (Calling a cbs as)) = a # as"
| "alerts_ahead _ = []"

definition fired_ok :: "(nat \<Rightarrow> dbl \<Rightarrow> bool) \<Rightarrow> manager \<Rightarrow> shared \<Rightarrow> bool" where
  "fired_ok P m s \<longleftrightarrow> mgr_alerts (sh_alerts s) = mgr_alerts m \<and> mgr_callbacks (sh_alerts s) = mgr_callbacks m \<and>
     cooldown_duration (mgr_cooldown (sh_alerts s)) = cooldown_duration (mgr_cooldown m) \<and>
     log_inv (sh_steady s) (mgr_cooldown (sh_alerts s)) (sh_fired s) \<and>
     (\<forall>p < length (sh_metrics s). P p (getCurrentValue (sh_metrics s ! p))) \<and>
     (\<forall>a \<in> set (mgr_alerts m). \<forall>p. cond_metric (al_condition a) = Some p \<longrightarrow> p < length (sh_metrics s)) \<and>
     (\<forall>f \<in> set (sh_fired s). fst f \<in> set (mgr_alerts m) \<and> held P (fst f))"

definition ahead_ok :: "manager \<Rightarrow> shared \<Rightarrow> bool" where
  "ahead_ok m s \<longleftrightarrow> (\<forall>j < length (sh_jobs s). set (alerts_ahead (job_at s j)) \<subseteq> set (mgr_alerts m))"

definition manager_inv :: "(nat \<Rightarrow> dbl \<Rightarrow> bool) \<Rightarrow> manager \<Rightarrow> shared \<Rightarrow> bool" where
  "manager_inv P m s \<longleftrightarrow> fired_ok P m s \<and> ahead_ok m s"

text \<open>The steady clock does not go back, whichever thread reads it.\<close>

definition steady_events :: "(nat \<Rightarrow> dbl \<Rightarrow> bool) \<Rightarrow> pool_event \<Rightarrow> shared \<Rightarrow> bool" where
  "steady_events P e s \<longleftrightarrow> measured_values P e s \<and>
     (case e of Worker k i \<Rightarrow> sh_steady s \<le> fst (ti_steady i) \<and> fst (ti_steady i) \<le> snd (ti_steady i) | _ \<Rightarrow> True)"

lemma check_held:
  assumes "alert_check h a" and "\<forall>p < length h. P p (getCurrentValue (h ! p))"
    and "\<forall>p. cond_metric (al_condition a) = Some p \<longrightarrow> p < length h"
  shows "held P a"
  using assms by (auto simp: alert_check_def evaluate_def held_def split: option.splits)

lemma check_one_fired:
  assumes ok: "fired_ok P m s" and "a \<in> set (mgr_alerts m)"
    and "sh_steady s \<le> fst (ti_steady i)" and "fst (ti_steady i) \<le> snd (ti_steady i)"
    and "check_one i a as s = (st, s')"
  shows "fired_ok P m s' \<and> set (alerts_ahead st) \<subseteq> insert a (set as)"
proof -
  obtain t1 t2 where t: "ti_steady i = (t1, t2)" by fastforce
  let ?cd = "mgr_cooldown (sh_alerts s)"
  have inv: "log_inv (sh_steady s) ?cd (sh_fired s)" using ok by (simp add: fired_ok_def)
  show ?thesis
  proof (cases "alert_check (sh_metrics s) a \<and> \<not> shouldSuppressAlert t1 a ?cd")
    case True
    then have r: "st = Active (Calling a (mgr_callbacks (sh_alerts s)) as)"
      "s' = s\<lparr>sh_steady := t2, sh_alerts := (sh_alerts s)\<lparr>mgr_cooldown := recordAlertFired t2 a ?cd\<rparr>,
              sh_fired := sh_fired s @ [(a, t2)]\<rparr>"
      using assms(5) t by (auto simp: check_one_def Let_def)
    have "log_inv t2 (recordAlertFired t2 a ?cd) (sh_fired s @ [(a, t2)])"
      using log_inv_fire [OF inv] assms(3,4) True t by simp
    moreover have "held P a" using check_held True assms(1,2) by (fastforce simp: fired_ok_def)
    moreover have "cooldown_duration (recordAlertFired t2 a ?cd) = cooldown_duration ?cd"
      by (simp add: recordAlertFired_def)
    ultimately show ?thesis using ok assms(2) unfolding r by (auto simp: fired_ok_def)
  next
    case False
    then have r: "st = Active (Checking as)" "s' = s\<lparr>sh_steady := t2\<rparr>"
      using assms(5) t by (auto simp: check_one_def Let_def)
    have "log_inv t2 ?cd (sh_fired s)" using log_inv_later [OF inv] assms(3,4) t by simp
    then show ?thesis using ok unfolding r by (auto simp: fired_ok_def)
  qed
qed

lemma fired_ok_cong:
  "fired_ok P m s \<Longrightarrow> sh_alerts s' = sh_alerts s \<Longrightarrow> sh_fired s' = sh_fired s \<Longrightarrow> sh_steady s' = sh_steady s \<Longrightarrow>
    sh_metrics s' = sh_metrics s \<Longrightarrow> fired_ok P m s'"
  by (simp add: fired_ok_def)

lemma ahead_set_job: "ahead_ok m s \<Longrightarrow> set (alerts_ahead st) \<subseteq> set (mgr_alerts m) \<Longrightarrow> ahead_ok m (set_job j st s)"
  by (simp add: ahead_ok_def job_at_set_job)

lemma alerts_job_fired:
  assumes ok: "fired_ok P m s" and st: "alerts_job i j pos s = Some (st, s')"
    and "sh_steady s \<le> fst (ti_steady i)" and "fst (ti_steady i) \<le> snd (ti_steady i)"
    and "set (alerts_ahead (Active pos)) \<subseteq> set (mgr_alerts m)"
  shows "fired_ok P m s' \<and> set (alerts_ahead st) \<subseteq> set (mgr_alerts m)"
proof (cases "\<exists>a as. pos = Checking (a # as)")
  case True
  then obtain a as where pos: "pos = Checking (a # as)" by blast
  then have "check_one i a as s = (st, s')" "a \<in> set (mgr_alerts m)" "set as \<subseteq> set (mgr_alerts m)"
    using st assms(5) by (simp_all add: alerts_job_def)
  then show ?thesis using check_one_fired [OF ok _ assms(3,4)] by blast
next
  case False
  then have "(sh_alerts s' = sh_alerts s \<and> sh_fired s' = sh_fired s \<and> sh_steady s' = sh_steady s \<and>
      sh_metrics s' = sh_metrics s) \<and>
      (alerts_ahead st = mgr_alerts (sh_alerts s) \<or> set (alerts_ahead st) \<subseteq> set (alerts_ahead (Active pos)))"
    using st
    by (auto simp: alerts_job_def call_database_def release_alerts_def
        split: job_position.splits list.splits if_splits)
  moreover have "mgr_alerts (sh_alerts s) = mgr_alerts m" using ok by (simp add: fired_ok_def)
  ultimately show ?thesis using fired_ok_cong [OF ok] assms(5) by auto
qed

lemma manager_inv_run:
  assumes "manager_inv P m s" and "steady_events P (Worker k i) s" and j: "j < length (sh_jobs s)" "job_at s j = Active pos"
    and st: "job_step i j (job_task s j) pos s = Some (st, s')"
  shows "manager_inv P m (set_job j st s')"
proof -
  have clock: "sh_steady s \<le> fst (ti_steady i)" "fst (ti_steady i) \<le> snd (ti_steady i)"
    using assms(2) by (simp_all add: steady_events_def)
  have ok: "fired_ok P m s" "ahead_ok m s" using assms(1) by (simp_all add: manager_inv_def)
  have ahead: "set (alerts_ahead (Active pos)) \<subseteq> set (mgr_alerts m)"
    using ok(2) j unfolding ahead_ok_def by metis
  have "fired_ok P m s' \<and> set (alerts_ahead st) \<subseteq> set (mgr_alerts m)"
  proof (cases "job_task s j = CheckAlerts")
    case True
    then show ?thesis using alerts_job_fired [OF ok(1) _ clock ahead] st by (simp add: job_step_def)
  next
    case False
    note fr = alerts_frame [OF st False] job_step_frame [OF st]
    have "alerts_ahead st = []" using fr by (cases st rule: alerts_ahead.cases) (simp_all add: holds_alerts_def)
    then show ?thesis using fr fired_ok_cong [OF ok(1)] by simp
  qed
  moreover have "ahead_ok m s'" using ok(2) job_step_frame [OF st] by (simp add: ahead_ok_def job_at_def)
  ultimately show ?thesis
    using ahead_set_job fired_ok_cong [of P m s' "set_job j st s'"] by (simp add: manager_inv_def)
qed

lemma manager_inv_measured:
  assumes "manager_inv P m s" and "P p v"
  shows "manager_inv P m (collector_writes p now v s)"
proof -
  let ?s = "collector_writes p now v s"
  have "sh_alerts ?s = sh_alerts s" "sh_fired ?s = sh_fired s" "sh_steady ?s = sh_steady s" "sh_jobs ?s = sh_jobs s"
    by (simp_all add: collector_writes_def)
  then show ?thesis using assms measured_field(2) [of _ s p now v] measured_field(3) [of p now v s]
    by (simp add: manager_inv_def fired_ok_def ahead_ok_def job_at_def del: getCurrentValue_alt)
qed

interpretation fired_alerts: job_invariant n "steady_events P" "manager_inv P m" for n P m
proof unfold_locales
  fix s g now v
  assume "manager_inv P m s" and "steady_events P (Measure g now v) s"
  then show "manager_inv P m (collector_writes g now v s)"
    by (intro manager_inv_measured) (simp_all add: steady_events_def measured_values_def)
next
  fix s j
  assume "manager_inv P m s"
  then show "manager_inv P m (set_job j (Active Begun) s)"
    using ahead_set_job fired_ok_cong [of P m s "set_job j (Active Begun) s"] by (simp add: manager_inv_def)
next
  fix s t
  assume "manager_inv P m s"
  then show "manager_inv P m (s\<lparr>sh_jobs := sh_jobs s @ [(t, InQueue)]\<rparr>)"
    by (simp add: manager_inv_def fired_ok_def ahead_ok_def job_at_def nth_append)
next
  fix s p
  assume "manager_inv P m s"
  then show "manager_inv P m (s\<lparr>sh_pool := p\<rparr>)" by (simp add: manager_inv_def fired_ok_def ahead_ok_def job_at_def)
qed (rule manager_inv_run)

section \<open>What the database is told\<close>

fun is_alert :: "db_call \<Rightarrow> bool" where
  "is_alert (InsertAlert r) = True"
| "is_alert _ = False"

definition alert_calls :: "shared \<Rightarrow> db_call list" where
  "alert_calls s = filter is_alert (map snd (sh_db s))"

text \<open>The last alert fired has not been told while the callback is still to be called.\<close>

fun owes :: "job_state \<Rightarrow> bool" where
  "owes (Active (Calling a (cb # cbs) as)) = True"
| "owes _ = False"

definition told :: "shared \<Rightarrow> (alert \<times> int) list" where
  "told s = (if \<exists>j. sh_checking s = Some j \<and> owes (job_at s j) then butlast (sh_fired s) else sh_fired s)"

definition alert_threw :: "shared \<Rightarrow> bool" where
  "alert_threw s \<longleftrightarrow> (\<exists>j < length (sh_jobs s). \<exists>pos. job_task s j = CheckAlerts \<and> job_at s j = Thrown pos)"

definition tells :: "mstore \<Rightarrow> alert \<times> int \<Rightarrow> db_call \<Rightarrow> bool" where
  "tells h f c \<longleftrightarrow> (\<exists>now. c = alert_callback h now (fst f))"

text \<open>With the one callback of \<^verbatim>\<open>main\<close>: what a state of a task may be.\<close>

fun calling_ok :: "(alert \<times> int) list \<Rightarrow> job_state \<Rightarrow> bool" where
  "calling_ok fired (Active (Calling a cbs as)) \<longleftrightarrow>
     cbs = [] \<or> cbs = [0] \<and> fired \<noteq> [] \<and> fst (last fired) = a"
| "calling_ok fired (Active (Pruning cs)) \<longleftrightarrow> (\<forall>c \<in> set cs. \<not> is_alert c)"
| "calling_ok fired _ \<longleftrightarrow> True"

definition told_inv :: "mstore \<Rightarrow> shared \<Rightarrow> bool" where
  "told_inv h s \<longleftrightarrow> lock_inv s \<and> mgr_callbacks (sh_alerts s) = [0] \<and>
     (\<forall>q. m_name (sh_metrics s ! q) = m_name (h ! q)) \<and>
     (\<forall>j < length (sh_jobs s). calling_ok (sh_fired s) (job_at s j)) \<and>
     (\<exists>fs. subseq fs (told s) \<and> (\<not> alert_threw s \<longrightarrow> fs = told s) \<and> list_all2 (tells h) fs (alert_calls s))"

lemma names_callback: "(\<And>q. m_name (h' ! q) = m_name (h ! q)) \<Longrightarrow> alert_callback h' now a = alert_callback h now a"
  by (simp add: alert_callback_def getDescription_def split: option.splits)

lemma subseq_butlast: "subseq fs (butlast xs) \<Longrightarrow> subseq fs xs"
  by (cases xs rule: rev_cases) (auto simp: list_emb_append2)

text \<open>One step of an alert task, its job \<open>j\<close> holding the mutex or taking it.\<close>

lemma alerts_job_told:
  assumes st: "alerts_job i j pos s = Some (st, s')" and cb: "mgr_callbacks (sh_alerts s) = [0]"
    and ok: "calling_ok (sh_fired s) (Active pos)" and names: "\<And>q. m_name (sh_metrics s ! q) = m_name (h ! q)"
    and fs: "subseq fs (if owes (Active pos) then butlast (sh_fired s) else sh_fired s)"
      "\<not> tr \<Longrightarrow> fs = (if owes (Active pos) then butlast (sh_fired s) else sh_fired s)"
      "list_all2 (tells h) fs (alert_calls s)"
  defines "tr' \<equiv> tr \<or> (\<exists>p. st = Thrown p)"
  shows "mgr_callbacks (sh_alerts s') = [0] \<and> calling_ok (sh_fired s') st \<and>
    (\<exists>fs'. subseq fs' (if owes st then butlast (sh_fired s') else sh_fired s') \<and>
      (\<not> tr' \<longrightarrow> fs' = (if owes st then butlast (sh_fired s') else sh_fired s')) \<and>
      list_all2 (tells h) fs' (alert_calls s'))"
proof (cases "\<exists>a cb cbs as. pos = Calling a (cb # cbs) as")
  case True
  then obtain a as where pos: "pos = Calling a [0] as" "sh_fired s \<noteq> []" "fst (last (sh_fired s)) = a"
    using ok by auto
  let ?c = "alert_callback h (ti_wall i) a"
  have c: "alert_callback (sh_metrics s) (ti_wall i) a = ?c" using names by (rule names_callback)
  show ?thesis
  proof (cases "ti_returns i")
    case True
    then have r: "st = Active (Calling a [] as)" "s' = s\<lparr>sh_db := sh_db s @ [(j, ?c)]\<rparr>"
      using st pos c by (auto simp: alerts_job_def call_database_def release_alerts_def)
    have "subseq (fs @ [last (sh_fired s)]) (butlast (sh_fired s) @ [last (sh_fired s)])"
      using fs(1) pos(1) by (intro list_emb_append_mono) simp_all
    moreover have "list_all2 (tells h) (fs @ [last (sh_fired s)]) (alert_calls s')"
      using fs(3) pos(3) by (auto simp: r alert_calls_def alert_callback_def tells_def intro!: list_all2_appendI)
    ultimately show ?thesis using fs(2) pos cb
      by (intro conjI exI [of _ "fs @ [last (sh_fired s)]"]) (auto simp: r tr'_def)
  next
    case False
    then have r: "st = Thrown pos" "s' = s\<lparr>sh_checking := None\<rparr>"
      using st pos c by (auto simp: alerts_job_def call_database_def release_alerts_def)
    then show ?thesis using fs subseq_butlast pos cb
      by (intro conjI exI [of _ fs]) (auto simp: alert_calls_def tr'_def)
  qed
next
  case False
  then have "\<not> owes (Active pos)" by (cases pos) (auto elim: owes.elims)
  note fs' = fs [unfolded if_not_P [OF this]]
  have db: "sh_db s' = sh_db s" using st False
    by (auto simp: alerts_job_def check_one_def Let_def split: job_position.splits list.splits prod.splits if_splits)
  show ?thesis
  proof (cases "owes st")
    case True
    then obtain a as t where r: "st = Active (Calling a [0] as)" "sh_fired s' = sh_fired s @ [(a, t)]"
        "mgr_callbacks (sh_alerts s') = [0]"
      using st False cb
      by (auto simp: alerts_job_def check_one_def Let_def split: job_position.splits list.splits prod.splits if_splits)
    then show ?thesis using fs' by (intro conjI exI [of _ fs]) (auto simp: r alert_calls_def db tr'_def)
  next
    case o: False
    have r: "sh_fired s' = sh_fired s \<and> sh_alerts s' = sh_alerts s \<and> calling_ok (sh_fired s') st \<and> (\<forall>p. st \<noteq> Thrown p)"
      using st False o cb ok
      by (auto simp: alerts_job_def check_one_def Let_def split: job_position.splits list.splits prod.splits if_splits)
    then show ?thesis using fs' cb o by (intro conjI exI [of _ fs]) (auto simp: alert_calls_def db tr'_def)
  qed
qed

text \<open>The other tasks insert no alerts.\<close>

lemma cleanup_no_alerts: "c \<in> set (cleanup_task now cfg []) \<Longrightarrow> \<not> is_alert c"
  by (auto simp: cleanup_task_def Let_def)

lemma other_job_told:
  assumes "job_step i j t pos s = Some (st, s')" and "t \<noteq> CheckAlerts" and "calling_ok fired (Active pos)"
  shows "alert_calls s' = alert_calls s \<and> calling_ok fired st \<and> \<not> owes st \<and> \<not> owes (Active pos)"
  using assms
  by (auto simp: job_step_def packet_job_def metrics_job_def cleanup_job_def call_database_def alert_calls_def
      cleanup_no_alerts
      split: main_task.splits job_position.splits option.splits list.splits prod.splits if_splits)

lemma told_inv_parts:
  assumes "told_inv h s"
  obtains fs where "lock_inv s" "mgr_callbacks (sh_alerts s) = [0]" "\<And>q. m_name (sh_metrics s ! q) = m_name (h ! q)"
    "\<And>j. j < length (sh_jobs s) \<Longrightarrow> calling_ok (sh_fired s) (job_at s j)" "subseq fs (told s)"
    "\<not> alert_threw s \<Longrightarrow> fs = told s" "list_all2 (tells h) fs (alert_calls s)"
  using assms by (auto simp: told_inv_def)

lemma told_by_holder:
  assumes "lock_inv s" and "j < length (sh_jobs s)" and "holds_alerts (job_at s j) \<or> sh_checking s = None"
  shows "told s = (if owes (job_at s j) then butlast (sh_fired s) else sh_fired s)"
proof -
  have "holds_alerts (job_at s j)" if "owes (job_at s j)"
    using that by (cases "job_at s j" rule: owes.cases) (simp_all add: holds_alerts_def)
  then show ?thesis using assms by (auto simp: told_def lock_inv_def)
qed

lemma calling_ok_other: "\<not> holds_alerts st \<Longrightarrow> calling_ok fired st \<Longrightarrow> calling_ok fired' st"
  by (cases "(fired, st)" rule: calling_ok.cases) (simp_all add: holds_alerts_def)

lemma alert_threw_set_job:
  assumes "j < length (sh_jobs s)" and "\<And>p. job_at s j \<noteq> Thrown p" and "sh_jobs s' = sh_jobs s"
  shows "alert_threw (set_job j st s') \<longleftrightarrow> alert_threw s \<or> job_task s j = CheckAlerts \<and> (\<exists>p. st = Thrown p)"
proof -
  have at: "job_at (set_job j st s') k = (if k = j then st else job_at s k) \<and> job_task (set_job j st s') k = job_task s k"
    if "k < length (sh_jobs s)" for k
    using that job_at_set_job [of k s' j st] job_cong [OF assms(3), of k] assms(3) by simp
  have len: "length (sh_jobs (set_job j st s')) = length (sh_jobs s)" using assms(3) by simp
  show ?thesis
  proof
    assume "alert_threw (set_job j st s')"
    then obtain k p where "k < length (sh_jobs s)" "job_task (set_job j st s') k = CheckAlerts"
        "job_at (set_job j st s') k = Thrown p"
      unfolding alert_threw_def len by blast
    then show "alert_threw s \<or> job_task s j = CheckAlerts \<and> (\<exists>p. st = Thrown p)"
      using at [of k] by (cases "k = j") (auto simp: alert_threw_def)
  next
    assume "alert_threw s \<or> job_task s j = CheckAlerts \<and> (\<exists>p. st = Thrown p)"
    then obtain k p where k: "k < length (sh_jobs s)" "job_task s k = CheckAlerts"
        "(if k = j then st else job_at s k) = Thrown p"
      using assms(1,2) unfolding alert_threw_def by fastforce
    then have "job_at (set_job j st s') k = Thrown p" "job_task (set_job j st s') k = CheckAlerts"
      using at by auto
    then show "alert_threw (set_job j st s')" using k(1) unfolding alert_threw_def len by blast
  qed
qed

lemma told_inv_run:
  assumes inv: "told_inv h s" and j: "j < length (sh_jobs s)" "job_at s j = Active pos"
    and st: "job_step i j (job_task s j) pos s = Some (st, s')"
  shows "told_inv h (set_job j st s')"
proof -
  obtain fs where lock: "lock_inv s" and cb: "mgr_callbacks (sh_alerts s) = [0]"
    and names: "\<And>q. m_name (sh_metrics s ! q) = m_name (h ! q)"
    and ok: "\<And>j. j < length (sh_jobs s) \<Longrightarrow> calling_ok (sh_fired s) (job_at s j)"
    and fs: "subseq fs (told s)" "\<not> alert_threw s \<Longrightarrow> fs = told s" "list_all2 (tells h) fs (alert_calls s)"
    using told_inv_parts [OF inv] by metis
  let ?s = "set_job j st s'"
  note frame = job_step_frame [OF st]
  then have jobs: "sh_jobs s' = sh_jobs s" by blast
  note at = job_at_set_job [of _ s' j st, unfolded jobs] job_cong [OF jobs]
  have lock': "lock_inv ?s" by (rule lock_inv_run [OF lock j st])
  have len: "length (sh_jobs ?s) = length (sh_jobs s)" by (simp add: jobs)
  have okj: "calling_ok (sh_fired s) (Active pos)" using ok [OF j(1)] j(2) by simp
  show ?thesis
  proof (cases "job_task s j = CheckAlerts")
    case True
    have aj: "alerts_job i j pos s = Some (st, s')" using st True by (simp add: job_step_def)
    note al = alerts_lock [OF aj]
    have t: "told s = (if owes (Active pos) then butlast (sh_fired s) else sh_fired s)"
      using told_by_holder [OF lock j(1)] j(2) al by (auto split: if_splits)
    have t': "told ?s = (if owes st then butlast (sh_fired s') else sh_fired s')"
      using told_by_holder [OF lock', of j] j(1) len al at(1) [OF j(1)] by (auto split: if_splits)
    have threw: "alert_threw ?s \<longleftrightarrow> alert_threw s \<or> (\<exists>p. st = Thrown p)"
      using alert_threw_set_job [OF j(1) _ jobs] j(2) True by simp
    have "calling_ok (sh_fired s') (job_at ?s k)" if k: "k < length (sh_jobs s)" for k
    proof (cases "k = j")
      case True
      then show ?thesis
        using alerts_job_told [OF aj cb okj names fs(1,2,3) [unfolded t]] k by (simp add: at)
    next
      case False
      then have "sh_checking s \<noteq> Some k \<or> sh_fired s' = sh_fired s"
        using lock j al by (auto simp: lock_inv_def split: if_splits)
      then have "\<not> holds_alerts (job_at s k) \<or> sh_fired s' = sh_fired s" using lock k by (auto simp: lock_inv_def)
      then show ?thesis using calling_ok_other ok [OF k] False k by (auto simp: at)
    qed
    then show ?thesis
      using alerts_job_told [OF aj cb okj names fs(1,2,3) [unfolded t]] lock' names frame
      unfolding told_inv_def t' threw len by (simp add: alert_calls_def)
  next
    case False
    note al = alerts_frame [OF st False] and o = other_job_told [OF st False okj]
    have "owes (job_at ?s k) \<longleftrightarrow> owes (job_at s k)" if "k < length (sh_jobs s)" for k
      using o j(2) that by (simp add: at)
    then have "told ?s = told s"
      using al lock by (auto simp: told_def lock_inv_def)
    moreover have "alert_threw ?s = alert_threw s" using alert_threw_set_job [OF j(1) _ jobs] j(2) False by simp
    moreover have "alert_calls ?s = alert_calls s" using o by (simp add: alert_calls_def)
    ultimately show ?thesis
      using lock' cb names ok o al frame fs unfolding told_inv_def by (auto simp: at)
  qed
qed

lemma told_inv_begun:
  assumes inv: "told_inv h s" and j: "j < length (sh_jobs s)" "job_at s j = InQueue"
  shows "told_inv h (set_job j (Active Begun) s)"
proof -
  let ?s = "set_job j (Active Begun) s"
  have lock: "lock_inv s" using inv by (simp add: told_inv_def)
  then have "lock_inv ?s" by (rule lock_inv_begun [OF _ j])
  moreover have "told ?s = told s"
    using lock j by (auto simp: told_def lock_inv_def job_at_set_job)
  moreover have "alert_threw ?s = alert_threw s"
    using alert_threw_set_job [OF j(1) _ refl] j(2) by simp
  moreover have "calling_ok (sh_fired s) (job_at ?s k)" if "k < length (sh_jobs s)" for k
    using inv that by (simp add: told_inv_def job_at_set_job)
  ultimately show ?thesis using inv by (auto simp: told_inv_def alert_calls_def)
qed

lemma told_inv_submitted:
  assumes inv: "told_inv h s"
  shows "told_inv h (s\<lparr>sh_jobs := sh_jobs s @ [(t, InQueue)]\<rparr>)"
proof -
  let ?s = "s\<lparr>sh_jobs := sh_jobs s @ [(t, InQueue)]\<rparr>"
  have lock: "lock_inv s" using inv by (simp add: told_inv_def)
  have at: "job_at ?s k = (if k < length (sh_jobs s) then job_at s k else InQueue)"
      "job_task ?s k = (if k < length (sh_jobs s) then job_task s k else t)" if "k < length (sh_jobs ?s)" for k
    using that by (auto simp: job_at_def job_task_def nth_append less_Suc_eq)
  have at': "job_at ?s k = job_at s k" "job_task ?s k = job_task s k" if "k < length (sh_jobs s)" for k
    using at [of k] that by simp_all
  have l: "lock_inv ?s" using lock at by (auto simp: lock_inv_def holds_alerts_def)
  have "told ?s = told s" using lock at' by (auto simp: told_def lock_inv_def)
  moreover have "alert_threw ?s \<longleftrightarrow> alert_threw s"
  proof
    assume "alert_threw ?s"
    then obtain k p where k: "k < length (sh_jobs ?s)" "job_task ?s k = CheckAlerts" "job_at ?s k = Thrown p"
      unfolding alert_threw_def by blast
    then show "alert_threw s" using at [OF k(1)] by (auto simp: alert_threw_def split: if_splits)
  next
    assume "alert_threw s"
    then obtain k p where k: "k < length (sh_jobs s)" "job_task s k = CheckAlerts" "job_at s k = Thrown p"
      unfolding alert_threw_def by blast
    moreover have "k < length (sh_jobs ?s)" using k(1) by simp
    ultimately show "alert_threw ?s" using at' [OF k(1)] unfolding alert_threw_def by metis
  qed
  moreover have "calling_ok (sh_fired s) (job_at ?s k)" if "k < length (sh_jobs ?s)" for k
    using at [OF that] inv by (simp add: told_inv_def)
  moreover have "alert_calls ?s = alert_calls s" by (simp add: alert_calls_def)
  ultimately show ?thesis using inv l by (auto simp: told_inv_def)
qed

lemma told_inv_cong:
  assumes "told_inv h s" and "sh_jobs s' = sh_jobs s" and "sh_checking s' = sh_checking s" and "sh_alerts s' = sh_alerts s"
    and "sh_fired s' = sh_fired s" and "sh_db s' = sh_db s" and "\<And>q. m_name (sh_metrics s' ! q) = m_name (sh_metrics s ! q)"
  shows "told_inv h s'"
proof -
  have at: "job_at s' = job_at s" "job_task s' = job_task s" using assms(2) by (auto simp: job_at_def job_task_def)
  then have "told s' = told s" "alert_threw s' = alert_threw s" "alert_calls s' = alert_calls s" "lock_inv s' = lock_inv s"
    unfolding told_def alert_threw_def alert_calls_def lock_inv_def by (simp_all only: assms at)
  with assms at show ?thesis unfolding told_inv_def by simp
qed

interpretation told_alerts: job_invariant n "\<lambda>e s. True" "told_inv h" for n h
proof unfold_locales
  fix s g now v
  assume "told_inv h s"
  then show "told_inv h (collector_writes g now v s)"
    by (rule told_inv_cong) (simp_all add: measured_field, simp_all add: collector_writes_def)
next
  fix s p
  assume "told_inv h s"
  then show "told_inv h (s\<lparr>sh_pool := p\<rparr>)" by (rule told_inv_cong) simp_all
qed (auto intro: told_inv_run told_inv_begun told_inv_submitted)

section \<open>What one check tells\<close>

text \<open>
  The callbacks a check has made are for alerts that have fired, in the order of the manager's list and
  at times that the check has read. \<open>seen\<close> are the alerts it has looked at.
\<close>

definition tells_at :: "(int \<Rightarrow> bool) \<Rightarrow> mstore \<Rightarrow> alert \<Rightarrow> db_call \<Rightarrow> bool" where
  "tells_at T h a c \<longleftrightarrow> (\<exists>now. T now \<and> c = alert_callback h now a)"

definition told_of :: "(int \<Rightarrow> bool) \<Rightarrow> mstore \<Rightarrow> (alert \<times> int) list \<Rightarrow> alert list \<Rightarrow> db_call list \<Rightarrow> bool" where
  "told_of T h fired seen calls \<longleftrightarrow> (\<exists>as. subseq as seen \<and> set as \<subseteq> fst ` set fired \<and> list_all2 (tells_at T h) as calls)"

fun check_calls :: "(int \<Rightarrow> bool) \<Rightarrow> mstore \<Rightarrow> alert list \<Rightarrow> (alert \<times> int) list \<Rightarrow> job_state \<Rightarrow> db_call list \<Rightarrow> bool" where
  "check_calls T h alerts fired InQueue calls \<longleftrightarrow> calls = []"
| "check_calls T h alerts fired (Active Begun) calls \<longleftrightarrow> calls = []"
| "check_calls T h alerts fired (Active (Checking as)) calls \<longleftrightarrow>
     (\<exists>seen. alerts = seen @ as \<and> told_of T h fired seen calls)"
| "check_calls T h alerts fired (Active (Calling a [] as)) calls \<longleftrightarrow>
     (\<exists>seen. alerts = seen @ a # as \<and> told_of T h fired (seen @ [a]) calls)"
| "check_calls T h alerts fired (Active (Calling a (cb # cbs) as)) calls \<longleftrightarrow> cbs = [] \<and> a \<in> fst ` set fired \<and>
     (\<exists>seen. alerts = seen @ a # as \<and> told_of T h fired seen calls)"
| "check_calls T h alerts fired (Active _) calls \<longleftrightarrow> False"
| "check_calls T h alerts fired _ calls \<longleftrightarrow> told_of T h fired alerts calls"

lemma told_of_simps:
  "told_of T h fired [] []" "told_of T h fired seen calls \<Longrightarrow> told_of T h fired (seen @ later) calls"
  "told_of T h fired seen calls \<Longrightarrow> told_of T h (fired @ fs) seen calls"
  "told_of T h fired seen calls \<Longrightarrow> a \<in> fst ` set fired \<Longrightarrow> T now \<Longrightarrow>
    told_of T h fired (seen @ [a]) (calls @ [alert_callback h now a])"
proof -
  assume "told_of T h fired seen calls" "a \<in> fst ` set fired" "T now"
  then obtain as where as: "subseq as seen" "set as \<subseteq> fst ` set fired" "list_all2 (tells_at T h) as calls"
    by (auto simp: told_of_def)
  have "list_all2 (tells_at T h) (as @ [a]) (calls @ [alert_callback h now a])"
    using as(3) \<open>T now\<close> by (intro list_all2_appendI) (auto simp: tells_at_def)
  then show "told_of T h fired (seen @ [a]) (calls @ [alert_callback h now a])"
    using as \<open>a \<in> fst ` set fired\<close> unfolding told_of_def
    by (intro exI [of _ "as @ [a]"]) (simp add: list_emb_append_mono)
next
  show "told_of T h fired [] []" by (simp add: told_of_def)
next
  assume "told_of T h fired seen calls"
  then obtain as where as: "subseq as seen" "set as \<subseteq> fst ` set fired" "list_all2 (tells_at T h) as calls"
    by (auto simp: told_of_def)
  show "told_of T h fired (seen @ later) calls"
    using as list_emb_append2 [OF as(1), of later] unfolding told_of_def by blast
  have "set as \<subseteq> fst ` set (fired @ fs)" using as(2) by auto
  then show "told_of T h (fired @ fs) seen calls" using as unfolding told_of_def by blast
qed

lemma check_calls_later: "check_calls T h alerts fired st calls \<Longrightarrow> check_calls T h alerts (fired @ fs) st calls"
  by (cases "(T, h, alerts, fired, st, calls)" rule: check_calls.cases) (auto intro: told_of_simps(3))

lemma check_job_step:
  assumes st: "alerts_job i j pos s = Some (st, s')" and cb: "mgr_callbacks (sh_alerts s) = [0]"
    and names: "\<And>q. m_name (sh_metrics s ! q) = m_name (h ! q)"
    and ok: "check_calls T h (mgr_alerts (sh_alerts s)) (sh_fired s) (Active pos) (task_calls j s)"
    and time: "reads_clock CheckAlerts pos \<Longrightarrow> T (ti_wall i)"
  shows "check_calls T h (mgr_alerts (sh_alerts s)) (sh_fired s') st (task_calls j s')"
proof (cases pos)
  case Begun
  then show ?thesis using st ok told_of_simps(1) [of T h "sh_fired s"]
    by (auto simp: alerts_job_def task_calls_def split: if_splits)
next
  case (Checking as)
  then obtain seen where seen: "mgr_alerts (sh_alerts s) = seen @ as" "told_of T h (sh_fired s) seen (task_calls j s)"
    using ok by auto
  show ?thesis
  proof (cases as)
    case Nil
    then show ?thesis using st seen Checking by (auto simp: alerts_job_def task_calls_def)
  next
    case (Cons a rest)
    then have one: "check_one i a rest s = (st, s')" using st Checking by (simp add: alerts_job_def)
    have fire: "sh_fired s' = sh_fired s @ [(a, snd (ti_steady i))]" "task_calls j s' = task_calls j s"
      if "st = Active (Calling a [0] rest)"
      using one that by (auto simp: check_one_def Let_def task_calls_def split: prod.splits if_splits)
    have skip: "sh_fired s' = sh_fired s" "task_calls j s' = task_calls j s" if "st = Active (Checking rest)"
      using one that by (auto simp: check_one_def Let_def task_calls_def split: prod.splits if_splits)
    have "st = Active (Calling a [0] rest) \<or> st = Active (Checking rest)"
      using one cb by (auto simp: check_one_def Let_def split: prod.splits if_splits)
    then show ?thesis
    proof
      assume f: "st = Active (Calling a [0] rest)"
      show ?thesis using fire [OF f] seen Cons by (auto simp: f intro!: exI [of _ seen] told_of_simps(3))
    next
      assume f: "st = Active (Checking rest)"
      show ?thesis using skip [OF f] seen Cons by (auto simp: f intro!: exI [of _ "seen @ [a]"] told_of_simps(2))
    qed
  qed
next
  case (Calling a cbs as)
  show ?thesis
  proof (cases cbs)
    case Nil
    then obtain seen where "mgr_alerts (sh_alerts s) = seen @ a # as" "told_of T h (sh_fired s) (seen @ [a]) (task_calls j s)"
      using ok Calling by auto
    moreover have "st = Active (Checking as)" "s' = s" using st Nil Calling by (simp_all add: alerts_job_def)
    ultimately show ?thesis by (auto intro!: exI [of _ "seen @ [a]"])
  next
    case (Cons c cs)
    then obtain seen where seen: "mgr_alerts (sh_alerts s) = seen @ a # as" "told_of T h (sh_fired s) seen (task_calls j s)"
        "a \<in> fst ` set (sh_fired s)" "cs = []"
      using ok Calling by auto
    have "T (ti_wall i)" using time Calling Cons by simp
    note more = told_of_simps(4) [OF seen(2,3) this]
    have c: "alert_callback (sh_metrics s) (ti_wall i) a = alert_callback h (ti_wall i) a" using names by (rule names_callback)
    show ?thesis
    proof (cases "ti_returns i")
      case True
      then have r: "st = Active (Calling a [] as)" "s' = s\<lparr>sh_db := sh_db s @ [(j, alert_callback h (ti_wall i) a)]\<rparr>"
        using st Calling Cons seen(4) c by (auto simp: alerts_job_def call_database_def release_alerts_def)
      then show ?thesis using more seen(1) by (auto simp: task_calls_def)
    next
      case False
      then have "st = Thrown pos" "sh_fired s' = sh_fired s" "task_calls j s' = task_calls j s"
        using st Calling Cons c by (auto simp: alerts_job_def call_database_def release_alerts_def task_calls_def)
      then show ?thesis using told_of_simps(2) [OF seen(2)] seen(1) by simp
    qed
  qed
qed (use ok in simp_all)

definition checks_inv ::
    "(nat \<Rightarrow> dbl \<Rightarrow> bool) \<Rightarrow> (nat \<Rightarrow> int \<Rightarrow> bool) \<Rightarrow> manager \<Rightarrow> mstore \<Rightarrow> shared \<Rightarrow> bool" where
  "checks_inv P T m h s \<longleftrightarrow> manager_inv P m s \<and> told_inv h s \<and> calls_known s \<and>
     (\<forall>j < length (sh_jobs s). job_task s j = CheckAlerts \<longrightarrow>
        check_calls (T j) h (mgr_alerts m) (sh_fired s) (job_at s j) (task_calls j s))"

lemma checks_inv_run:
  assumes inv: "checks_inv P T m h s" and j: "j < length (sh_jobs s)" "job_at s j = Active pos"
    and st: "job_step i j (job_task s j) pos s = Some (st, s')"
    and kept: "manager_inv P m (set_job j st s')"
    and time: "reads_clock (job_task s j) pos \<Longrightarrow> T j (ti_wall i)"
  shows "checks_inv P T m h (set_job j st s')"
proof -
  have jobs: "sh_jobs s' = sh_jobs s" using job_step_frame [OF st] by blast
  note at = job_at_set_job [of _ s' j st, unfolded jobs] job_cong [OF jobs]
  have own: "task_calls j (set_job j st s') = task_calls j s'" by (simp add: task_calls_def)
  have told: "told_inv h s" and m: "mgr_alerts (sh_alerts s) = mgr_alerts m"
    using inv by (simp_all add: checks_inv_def manager_inv_def fired_ok_def)
  have more: "\<exists>fs. sh_fired s' = sh_fired s @ fs"
    using st by (auto simp: job_step_def packet_job_def alerts_job_def metrics_job_def cleanup_job_def call_database_def
        release_alerts_def check_one_def Let_def
        split: main_task.splits job_position.splits option.splits list.splits prod.splits if_splits)
  have "check_calls (T k) h (mgr_alerts m) (sh_fired s') (job_at (set_job j st s') k) (task_calls k (set_job j st s'))"
    if k: "k < length (sh_jobs s)" "job_task s k = CheckAlerts" for k
  proof (cases "k = j")
    case True
    have "check_calls (T j) h (mgr_alerts m) (sh_fired s) (Active pos) (task_calls j s)"
      using inv j k True by (auto simp: checks_inv_def)
    then show ?thesis
      using check_job_step [of i j pos s st s' h "T j"] st k time told True
      by (auto simp: at own job_step_def told_inv_def m)
  next
    case False
    then show ?thesis using inv k calls_other [OF st] more check_calls_later by (auto simp: at checks_inv_def)
  qed
  moreover have "calls_known (set_job j st s')"
    using calls_known_run [OF _ j(1) st] inv by (simp add: checks_inv_def)
  ultimately show ?thesis
    using kept told_inv_run [OF told j st] by (simp add: checks_inv_def jobs at)
qed

lemma checks_inv_begun:
  assumes inv: "checks_inv P T m h s" and j: "j < length (sh_jobs s)" "job_at s j = InQueue"
    and kept: "manager_inv P m (set_job j (Active Begun) s)"
  shows "checks_inv P T m h (set_job j (Active Begun) s)"
  using assms told_inv_begun [of h s j]
  by (auto simp: checks_inv_def calls_known_def job_at_set_job task_calls_def)

lemma checks_inv_submitted:
  assumes inv: "checks_inv P T m h s" and kept: "manager_inv P m (s\<lparr>sh_jobs := sh_jobs s @ [(t, InQueue)]\<rparr>)"
  shows "checks_inv P T m h (s\<lparr>sh_jobs := sh_jobs s @ [(t, InQueue)]\<rparr>)"
proof -
  have "task_calls (length (sh_jobs s)) s = []" using task_calls_new inv by (simp add: checks_inv_def)
  then show ?thesis using inv kept told_inv_submitted [of h s t]
    by (auto simp: checks_inv_def calls_known_def job_at_def job_task_def nth_append task_calls_def less_Suc_eq)
qed

lemma checks_inv_cong:
  assumes "checks_inv P T m h s" and "manager_inv P m s'" and "told_inv h s'" and "sh_jobs s' = sh_jobs s"
    and "sh_fired s' = sh_fired s" and "sh_db s' = sh_db s"
  shows "checks_inv P T m h s'"
  using assms by (simp add: checks_inv_def calls_known_def job_at_def job_task_def task_calls_def)

interpretation checks_told: job_invariant n "\<lambda>e s. steady_events P e s \<and> clock_events T e s" "checks_inv P T m h" for n P T m h
proof unfold_locales
  fix s g now v
  assume a: "checks_inv P T m h s" "steady_events P (Measure g now v) s \<and> clock_events T (Measure g now v) s"
  show "checks_inv P T m h (collector_writes g now v s)"
    by (rule checks_inv_cong [OF a(1) fired_alerts.measured told_alerts.measured])
      (use a in \<open>simp_all add: checks_inv_def collector_writes_def\<close>)
next
  fix s p
  assume a: "checks_inv P T m h s"
  show "checks_inv P T m h (s\<lparr>sh_pool := p\<rparr>)"
    by (rule checks_inv_cong [OF a fired_alerts.pool told_alerts.pool]) (use a in \<open>simp_all add: checks_inv_def\<close>)
next
  fix s t
  assume a: "checks_inv P T m h s" "steady_events P (Submit t) s \<and> clock_events T (Submit t) s"
  show "checks_inv P T m h (s\<lparr>sh_jobs := sh_jobs s @ [(t, InQueue)]\<rparr>)"
    by (rule checks_inv_submitted [OF a(1) fired_alerts.submitted]) (use a in \<open>simp_all add: checks_inv_def\<close>)
next
  fix s k j
  assume a: "checks_inv P T m h s" "pool_part n s" "k < length (workers (sh_pool s))"
    "\<And>t. workers (sh_pool s) ! k \<noteq> Running t" "j < length (sh_jobs s)" "job_at s j = InQueue" "\<forall>i < j. job_at s i \<noteq> InQueue"
  have "manager_inv P m s" using a(1) by (simp add: checks_inv_def)
  from fired_alerts.begun [OF this a(2-7)] show "checks_inv P T m h (set_job j (Active Begun) s)"
    by (rule checks_inv_begun [OF a(1,5,6)])
next
  fix s k i j pos st s'
  assume a: "checks_inv P T m h s" "pool_part n s" "steady_events P (Worker k i) s \<and> clock_events T (Worker k i) s"
    "k < length (workers (sh_pool s))" "workers (sh_pool s) ! k = Running j" "j < length (sh_jobs s)" "job_at s j = Active pos"
    "job_step i j (job_task s j) pos s = Some (st, s')"
  have m: "manager_inv P m s" using a(1) by (simp add: checks_inv_def)
  show "checks_inv P T m h (set_job j st s')"
    by (rule checks_inv_run [OF a(1,6-8) fired_alerts.run [OF m a(2) conjunct1 [OF a(3)] a(4-8)]])
      (rule clock_events_run [OF conjunct2 [OF a(3)] a(4,5,7)])
qed

end
