(* ===== verification/Task_Progress.thy ===== *)
theory Task_Progress
  imports Alert_Effects
begin

text \<open>
  The tasks end: while there is work some worker can go on, whatever the clocks read and whether the
  calls on the database return or throw, and every step of a worker uses up some of the work.
\<close>

section \<open>Work left\<close>

definition check_length :: "shared \<Rightarrow> nat" where
  "check_length s = length (mgr_callbacks (sh_alerts s)) + 2"

fun position_left :: "shared \<Rightarrow> main_task \<Rightarrow> job_position \<Rightarrow> nat" where
  "position_left s t (Checking as) = 1 + length as * check_length s"
| "position_left s t (Calling a cbs as) = 2 + length cbs + length as * check_length s"
| "position_left s t (Reading now todo points) = 1 + length todo"
| "position_left s t (Pruning cs) = 1 + length cs"
| "position_left s t PacketProcessed = 2"
| "position_left s t (PacketFetched r) = 1"
| "position_left s (HandlePacket p) Begun = 3"
| "position_left s CheckAlerts Begun = 2 + length (mgr_alerts (sh_alerts s)) * check_length s"
| "position_left s StoreMetrics Begun = 2 + length (metric_names (sh_collectors s))"
| "position_left s Cleanup Begun = 5"

fun job_left :: "shared \<Rightarrow> main_task \<times> job_state \<Rightarrow> nat" where
  "job_left s (t, InQueue) = position_left s t Begun + 3"
| "job_left s (t, Active pos) = position_left s t pos"
| "job_left s (t, _) = 0"

definition total_left :: "shared \<Rightarrow> nat" where
  "total_left s = sum_list (map (job_left s) (sh_jobs s)) +
     (2 * wakeups (sh_pool s) + sum_list (map worker_weight (workers (sh_pool s))))"

text \<open>The lengths that the work is measured by do not change.\<close>

definition same_lengths :: "shared \<Rightarrow> shared \<Rightarrow> bool" where
  "same_lengths s s' \<longleftrightarrow> mgr_callbacks (sh_alerts s') = mgr_callbacks (sh_alerts s) \<and>
     mgr_alerts (sh_alerts s') = mgr_alerts (sh_alerts s) \<and> sh_collectors s' = sh_collectors s"

lemma same_job_left: "same_lengths s s' \<Longrightarrow> job_left s' x = job_left s x"
proof -
  assume a: "same_lengths s s'"
  have "position_left s' t pos = position_left s t pos" for t pos
    using a by (cases "(s, t, pos)" rule: position_left.cases) (simp_all add: same_lengths_def check_length_def)
  then show ?thesis by (cases "(s, x)" rule: job_left.cases) simp_all
qed

lemma job_step_lengths:
  assumes "job_step i j t pos s = Some (st, s')"
  shows "same_lengths s s'"
  using assms
  by (auto simp: same_lengths_def job_step_def packet_job_def alerts_job_def metrics_job_def cleanup_job_def
      call_database_def release_alerts_def check_one_def Let_def
      split: main_task.splits job_position.splits option.splits list.splits prod.splits if_splits)

lemma job_step_left:
  assumes "job_step i j t pos s = Some (st, s')"
  shows "job_left s (t, st) < position_left s t pos"
proof (cases t)
  case CheckAlerts
  then show ?thesis using assms
    by (auto simp: job_step_def alerts_job_def call_database_def release_alerts_def check_one_def Let_def check_length_def
        split: job_position.splits list.splits prod.splits if_splits)
next
  case StoreMetrics
  then show ?thesis using assms
    by (auto simp: job_step_def metrics_job_def call_database_def split: job_position.splits list.splits if_splits)
next
  case Cleanup
  then show ?thesis using assms
    by (auto simp: job_step_def cleanup_job_def call_database_def cleanup_task_def Let_def
        split: job_position.splits list.splits if_splits)
next
  case (HandlePacket p)
  then show ?thesis using assms
    by (auto simp: job_step_def packet_job_def call_database_def split: job_position.splits option.splits if_splits)
qed

lemma jobs_left_set_job:
  assumes "j < length (sh_jobs s)"
  shows "sum_list (map (job_left s0) (sh_jobs (set_job j st s))) + job_left s0 (sh_jobs s ! j) =
    sum_list (map (job_left s0) (sh_jobs s)) + job_left s0 (job_task s j, st)"
  using sum_list_update_nat [OF assms, of "job_left s0" "(fst (sh_jobs s ! j), st)"]
  by (simp add: set_job_def job_task_def)

lemma job_pair: "sh_jobs s ! j = (job_task s j, job_at s j)"
  by (simp add: job_task_def job_at_def)

lemma worker_step_lengths:
  assumes "pool_part n s" and "worker_step i k s = Some s'"
  shows "same_lengths s s'"
  using assms
proof (cases rule: worker_step_cases)
  case (Run j pos st s1)
  then show ?thesis using job_step_lengths [OF Run(5)] by (simp add: same_lengths_def)
qed (simp_all add: same_lengths_def)

lemma worker_step_left:
  assumes "pool_part n s" and "worker_step i k s = Some s'"
  shows "total_left s' < total_left s"
proof -
  have "job_left s' = job_left s" using same_job_left [OF worker_step_lengths [OF assms]] by blast
  then have tl: "total_left s' = sum_list (map (job_left s) (sh_jobs s')) +
      (2 * wakeups (sh_pool s') + sum_list (map worker_weight (workers (sh_pool s'))))"
    by (simp add: total_left_def)
  show ?thesis using assms
  proof (cases rule: worker_step_cases)
    case (Take j p)
    have "length (tasks (sh_pool s)) - length (tasks p) = 1" using worker_wake_task(4) [OF Take(4,5)] by simp
    then have "2 * wakeups p + sum_list (map worker_weight (workers p)) <
        2 * wakeups (sh_pool s) + sum_list (map worker_weight (workers (sh_pool s))) + 3"
      using wake_weight [OF Take(4)] by simp
    moreover have "sum_list (map (job_left s) (sh_jobs s')) + 3 = sum_list (map (job_left s) (sh_jobs s))"
    proof -
      have "sum_list (map (job_left s) (sh_jobs (set_job j (Active Begun) s))) + job_left s (sh_jobs s ! j) =
          sum_list (map (job_left s) (sh_jobs s)) + job_left s (job_task s j, Active Begun)"
        by (rule jobs_left_set_job [OF Take(1)])
      moreover have "sh_jobs s' = sh_jobs (set_job j (Active Begun) s)" by (simp add: Take(6) set_job_def)
      ultimately show ?thesis using Take(2) job_pair [of s j] by simp
    qed
    ultimately show ?thesis unfolding tl unfolding total_left_def by (simp add: Take(6))
  next
    case (Idle p)
    have "tasks p = tasks (sh_pool s)" by (rule worker_wake_idle(1) [OF Idle(1,2)])
    then show ?thesis unfolding tl unfolding total_left_def using wake_weight [OF Idle(1)] by (simp add: Idle(3))
  next
    case (Run j pos st s1)
    have "sh_jobs s1 = sh_jobs s" "sh_pool s1 = sh_pool s" using job_step_frame [OF Run(5)] by blast+
    then have "sum_list (map (job_left s) (sh_jobs s')) + job_left s (sh_jobs s ! j) =
        sum_list (map (job_left s) (sh_jobs s)) + job_left s (job_task s j, st)"
      using jobs_left_set_job [of j s1 s st] Run(3) job_cong [of s1 s j] by (simp add: Run(6))
    moreover have "job_left s (job_task s j, st) < job_left s (sh_jobs s ! j)"
      using job_step_left [OF Run(5)] Run(4) by (simp add: job_pair)
    moreover have "sh_pool s' = sh_pool s" using \<open>sh_pool s1 = sh_pool s\<close> by (simp add: Run(6))
    ultimately show ?thesis unfolding tl unfolding total_left_def by simp
  next
    case (Back j p)
    then have "workers p = (workers (sh_pool s))[k := Waiting]" "wakeups p = wakeups (sh_pool s)"
      by (auto simp: worker_finish_def split: if_splits)
    then show ?thesis unfolding tl unfolding total_left_def
      using weight_update [OF Back(2), of Waiting] Back(1) by (simp add: Back(6))
  qed
qed

section \<open>No deadlock\<close>

fun fits :: "main_task \<Rightarrow> job_position \<Rightarrow> bool" where
  "fits t Begun = True"
| "fits (HandlePacket p) PacketProcessed = True"
| "fits (HandlePacket p) (PacketFetched r) = True"
| "fits CheckAlerts (Checking as) = True"
| "fits CheckAlerts (Calling a cbs as) = True"
| "fits StoreMetrics (Reading now todo points) = True"
| "fits Cleanup (Pruning cs) = True"
| "fits _ _ = False"

definition fit_inv :: "shared \<Rightarrow> bool" where
  "fit_inv s \<longleftrightarrow> (\<forall>j < length (sh_jobs s). \<forall>pos. job_at s j = Active pos \<longrightarrow> fits (job_task s j) pos)"

lemma job_step_fits:
  assumes "job_step i j t pos s = Some (Active pos', s')"
  shows "fits t pos'"
  using assms
  by (cases t)
    (auto simp: job_step_def packet_job_def alerts_job_def metrics_job_def cleanup_job_def call_database_def
      release_alerts_def check_one_def Let_def
      split: job_position.splits option.splits list.splits prod.splits if_splits)

interpretation task_positions: job_invariant n "\<lambda>e s. True" fit_inv for n
proof unfold_locales
  fix s s' j i pos st
  assume "fit_inv s" and j: "j < length (sh_jobs s)" "job_at s j = Active pos"
    and st: "job_step i j (job_task s j) pos s = Some (st, s')"
  moreover have jobs: "sh_jobs s' = sh_jobs s" using job_step_frame [OF st] by blast
  ultimately show "fit_inv (set_job j st s')"
    using job_step_fits [of i j "job_task s j" pos s _ s'] job_cong [OF jobs]
    by (auto simp: fit_inv_def job_at_set_job)
qed (auto simp: fit_inv_def job_at_set_job collector_writes_def nth_append less_Suc_eq job_at_def job_task_def set_job_def
    nth_list_update)

text \<open>A running task can go on, unless it is an alert check that waits for the mutex.\<close>

lemma job_can_step:
  assumes "fits t pos" and "\<And>p. t = HandlePacket p \<Longrightarrow> pos = Begun \<Longrightarrow> process_step p (sh_analyzer s) \<noteq> None"
    and "t = CheckAlerts \<Longrightarrow> pos = Begun \<Longrightarrow> sh_checking s = None"
  shows "job_step i j t pos s \<noteq> None"
  using assms
  by (cases "(t, pos)" rule: fits.cases)
    (auto simp: job_step_def packet_job_def alerts_job_def metrics_job_def cleanup_job_def split: option.splits list.splits
      main_task.splits)

lemma worker_runs:
  assumes "k < length (workers (sh_pool s))" and "workers (sh_pool s) ! k = Running j" and "job_at s j \<noteq> InQueue"
    and "\<And>pos. job_at s j = Active pos \<Longrightarrow> job_step i j (job_task s j) pos s \<noteq> None"
  shows "worker_step i k s \<noteq> None"
  using assms
  by (cases "job_at s j") (auto simp: worker_step_def worker_run_def job_pair worker_finish_def)

lemma progress:
  assumes pool: "pool_part n s" and "0 < n" and lock: "lock_inv s" and fit: "fit_inv s" and packets: "packet_inv d past s"
    and work: "(\<exists>j < length (sh_jobs s). \<not> job_over (job_at s j)) \<or> stopping (sh_pool s) \<and> \<not> can_join (sh_pool s)"
  shows "\<exists>k < n. \<forall>i. worker_step i k s \<noteq> None"
proof -
  obtain r where r: "pool_view n s r" using pool by (auto simp: pool_part_def)
  note f = pool_view_facts [OF r]
  let ?ws = "workers (sh_pool s)"
  have proc: "process_step p (sh_analyzer s) \<noteq> None" if p: "j < length (sh_jobs s)" "job_task s j = HandlePacket p" for j p
  proof -
    obtain hist where "sh_analyzer s = analyzer_after d hist" "readable p"
      using packets p unfolding packet_inv_def by blast
    then show ?thesis by (simp add: process_step_def readable_def processPacket_step)
  qed
  have runs: "\<exists>k < n. \<forall>i. worker_step i k s \<noteq> None"
    if j: "j < length (sh_jobs s)" "job_at s j = Active pos" "job_task s j = CheckAlerts \<and> pos = Begun \<longrightarrow> sh_checking s = None"
    for j pos
  proof -
    obtain k where k: "k < length ?ws" "?ws ! k = Running j" using active_has_worker [OF pool j(1,2)] by blast
    have "job_step i j (job_task s j) pos s \<noteq> None" for i
      using job_can_step [of "job_task s j" pos s i j] fit j proc [OF j(1)] unfolding fit_inv_def by blast
    then show ?thesis using worker_runs [OF k] j(2) k(1) f(4) by auto
  qed
  show ?thesis
  proof (cases "\<exists>j < length (sh_jobs s). \<exists>pos. job_at s j = Active pos")
    case True
    then obtain j pos where j: "j < length (sh_jobs s)" "job_at s j = Active pos" by blast
    show ?thesis
    proof (cases "job_task s j = CheckAlerts \<and> pos = Begun \<and> sh_checking s \<noteq> None")
      case False
      then show ?thesis by (intro runs [OF j]) simp
    next
      case True
      then obtain h where h: "sh_checking s = Some h" by blast
      then have "h < length (sh_jobs s)" "holds_alerts (job_at s h)" using lock by (auto simp: lock_inv_def)
      then obtain pos' where "h < length (sh_jobs s)" "job_at s h = Active pos'" "pos' \<noteq> Begun"
        by (cases "job_at s h") (auto simp: holds_alerts_def split: job_position.splits)
      then show ?thesis using runs [of h pos'] by blast
    qed
  next
    case False
    then have quiet: "job_at s j = InQueue \<or> job_over (job_at s j)" if "j < length (sh_jobs s)" for j
      using that by (cases "job_at s j") auto
    have running: "job_at s j \<noteq> InQueue \<and> job_over (job_at s j)" if "k < length ?ws" "?ws ! k = Running j" for j k
    proof -
      have "Running j \<in> set ?ws" using that by (metis nth_mem)
      from pool_view_running [OF r this] show ?thesis using quiet by blast
    qed
    have hands_back: "\<exists>k < n. \<forall>i. worker_step i k s \<noteq> None" if "k < length ?ws" "?ws ! k = Running j" for j k
      using worker_runs [OF that] running [OF that] f(4) that(1) by fastforce
    have ok: "pool_ok (sh_pool s)" using r by (auto simp: pool_view_def dest: run_ok_steps simp: run_ok_def)
    have "tasks (sh_pool s) \<noteq> [] \<or> stopping (sh_pool s) \<and> \<not> can_join (sh_pool s)"
    proof (cases "tasks (sh_pool s) = []")
      case True
      have "job_over (job_at s j)" if "j < length (sh_jobs s)" for j
        using True f(2) f(6) [of j] that quiet [OF that] by auto
      then show ?thesis using work by auto
    qed simp
    moreover have "?ws \<noteq> []" using f(4) assms(2) by auto
    ultimately obtain k where k: "k < length ?ws"
        "(\<forall>spurious. worker_wake spurious k (sh_pool s) \<noteq> None) \<or> worker_finish k (sh_pool s) \<noteq> None"
      using work_possible [OF ok] by blast
    show ?thesis
    proof (cases "\<exists>j. ?ws ! k = Running j")
      case True
      then show ?thesis using hands_back [OF k(1)] by blast
    next
      case False
      then have "worker_finish k (sh_pool s) = None" by (simp add: worker_finish_def)
      then have "worker_wake (ti_spurious i) k (sh_pool s) \<noteq> None" for i using k(2) by blast
      moreover have "?ws ! k \<in> {Waiting, Asleep, Exited}" using False by (intro not_running) blast
      ultimately have "worker_step i k s \<noteq> None" for i
        using k(1) by (auto simp: worker_step_def worker_take_def split: option.splits)
      then show ?thesis using k(1) f(4) by auto
    qed
  qed
qed

text \<open>When every worker has left, every task is over.\<close>

lemma joined_over:
  assumes "pool_part n s" and "0 < n" and "can_join (sh_pool s)" and "j < length (sh_jobs s)"
  shows "job_over (job_at s j)"
proof -
  obtain r where r: "pool_view n s r" using assms(1) by (auto simp: pool_part_def)
  then have "mset (finished r) = mset (accepted r)"
    using pool_joined [of n r] assms(2,3) run_ok_steps by (auto simp: pool_view_def)
  then have "set (finished r) = set (accepted r)" by (metis set_mset_mset)
  then show ?thesis using r assms(4) by (auto simp: pool_view_def)
qed

end
