(* ===== verification/Cpu_Collector.thy ===== *)
theory Cpu_Collector
  imports Collector_Base Cpp_Stream
begin

text \<open>
  \<^verbatim>\<open>core/collectors/cpu_collector\<close>: the jiffy counters of \<^verbatim>\<open>/proc/stat\<close>, the usage computed
  from two readings, and the collector that turns them into gauges. The file is its text, or
  \<open>None\<close> when it cannot be opened. An access outside a vector is \<open>None\<close>.
\<close>

section \<open>Readings\<close>

record cpu_stats =
  cs_user :: u64
  cs_nice :: u64
  cs_system :: u64
  cs_idle :: u64
  cs_iowait :: u64
  cs_irq :: u64
  cs_softirq :: u64
  cs_steal :: u64
  cs_guest :: u64
  cs_guest_nice :: u64

definition cpu_total :: "cpu_stats \<Rightarrow> u64" where
  "cpu_total s = cs_user s + cs_nice s + cs_system s + cs_idle s + cs_iowait s + cs_irq s +
     cs_softirq s + cs_steal s + cs_guest s + cs_guest_nice s"

definition cpu_idle_total :: "cpu_stats \<Rightarrow> u64" where
  "cpu_idle_total s = cs_idle s + cs_iowait s"

definition cpu_non_idle :: "cpu_stats \<Rightarrow> u64" where
  "cpu_non_idle s = cs_user s + cs_nice s + cs_system s + cs_irq s + cs_softirq s + cs_steal s +
     cs_guest s + cs_guest_nice s"

definition zero_stats :: cpu_stats where
  "zero_stats = \<lparr>cs_user = 0, cs_nice = 0, cs_system = 0, cs_idle = 0, cs_iowait = 0, cs_irq = 0,
     cs_softirq = 0, cs_steal = 0, cs_guest = 0, cs_guest_nice = 0\<rparr>"

text \<open>One line of \<^verbatim>\<open>/proc/stat\<close>: the label and up to ten counters; those missing stay 0.\<close>

definition parse_cpu_line :: "string \<Rightarrow> cpu_stats" where
  "parse_cpu_line line =
     (let (s0, label) = extract_word (Some line) [];
          (s1, v1) = extract_u64 s0 0;
          (s2, v2) = extract_u64 s1 0;
          (s3, v3) = extract_u64 s2 0;
          (s4, v4) = extract_u64 s3 0;
          (s5, v5) = extract_u64 s4 0;
          (s6, v6) = extract_u64 s5 0;
          (s7, v7) = extract_u64 s6 0;
          (s8, v8) = extract_u64 s7 0;
          (s9, v9) = extract_u64 s8 0;
          (s10, v10) = extract_u64 s9 0
      in \<lparr>cs_user = v1, cs_nice = v2, cs_system = v3, cs_idle = v4, cs_iowait = v5, cs_irq = v6,
          cs_softirq = v7, cs_steal = v8, cs_guest = v9, cs_guest_nice = v10\<rparr>)"

fun read_cpu_lines :: "string list \<Rightarrow> cpu_stats list" where
  "read_cpu_lines [] = []"
| "read_cpu_lines (line # lines) =
     (if substr line 0 3 \<noteq> ''cpu'' then [] else parse_cpu_line line # read_cpu_lines lines)"

definition readCpuStats :: "string option \<Rightarrow> cpu_stats list" where
  "readCpuStats proc_stat =
     (let stats = (case proc_stat of None \<Rightarrow> [] | Some text \<Rightarrow> read_cpu_lines (split_lines text))
      in if stats = [] then [zero_stats] else stats)"

definition calculateCpuUsage :: "cpu_stats \<Rightarrow> cpu_stats \<Rightarrow> dbl" where
  "calculateCpuUsage prev cur =
     (let total_delta = cpu_total cur - cpu_total prev in
      if total_delta = 0 then Fin 0
      else let idle_delta = cpu_idle_total cur - cpu_idle_total prev
           in dmul (Fin 100) (dsub (Fin 1) (ddiv (dbl_of_u64 idle_delta) (dbl_of_u64 total_delta))))"

section \<open>The collector\<close>

record cpu_collector =
  cpu_metrics :: registry
  cpu_usage :: nat
  core_usage :: "nat list"
  prev_stats :: "cpu_stats list"

definition core_name :: "nat \<Rightarrow> string" where
  "core_name i = ''cpu.core.'' @ nat_str i @ ''.usage''"

text \<open>The constructor's loop over the cores from the \<open>i\<close>-th, \<open>n\<close> of them left.\<close>

fun make_cores :: "int \<Rightarrow> nat \<Rightarrow> nat \<Rightarrow> mstore \<times> registry \<Rightarrow> nat list \<times> mstore \<times> registry" where
  "make_cores now i 0 (h, reg) = ([], h, reg)"
| "make_cores now i (Suc n) (h, reg) =
     (let (p, h1) = make_shared (GaugeMetric (core_name i) now) h;
          (ps, h2, reg2) = make_cores now (Suc i) n (h1, registerMetric h1 p reg)
      in (p # ps, h2, reg2))"

definition CpuCollector :: "int \<Rightarrow> string option \<Rightarrow> mstore \<Rightarrow> mstore \<times> cpu_collector" where
  "CpuCollector now proc_stat h =
     (let (p, h1) = make_shared (GaugeMetric ''cpu.usage'' now) h;
          reg1 = registerMetric h1 p [];
          prev = readCpuStats proc_stat;
          (ps, h2, reg2) = make_cores now 0 (length prev - 1) (h1, reg1)
      in (h2, \<lparr>cpu_metrics = reg2, cpu_usage = p, core_usage = ps, prev_stats = prev\<rparr>))"

text \<open>The loop over \<open>core_usage_\<close>; \<open>now k\<close> is the clock at the \<open>k\<close>-th update of the round.\<close>

fun collect_cores :: "(nat \<Rightarrow> int) \<Rightarrow> cpu_stats list \<Rightarrow> cpu_stats list \<Rightarrow> nat \<Rightarrow> nat list \<Rightarrow> mstore \<Rightarrow>
    mstore option" where
  "collect_cores now prev cur i [] h = Some h"
| "collect_cores now prev cur i (p # ps) h =
     (if i + 1 < length prev \<and> i + 1 < length cur then
        collect_cores now prev cur (i + 1) ps
          (store_update p (now (i + 1)) (calculateCpuUsage (prev ! (i + 1)) (cur ! (i + 1))) h)
      else None)"

definition cpu_collect :: "(nat \<Rightarrow> int) \<Rightarrow> string option \<Rightarrow> mstore \<times> cpu_collector \<Rightarrow>
    (mstore \<times> cpu_collector) option" where
  "cpu_collect now proc_stat s =
     (let (h, c) = s; cur = readCpuStats proc_stat in
      if length cur \<noteq> length (prev_stats c) then Some (h, c\<lparr>prev_stats := cur\<rparr>)
      else
        let h1 = store_update (cpu_usage c) (now 0) (calculateCpuUsage (prev_stats c ! 0) (cur ! 0)) h
        in map_option (\<lambda>h2. (h2, c\<lparr>prev_stats := cur\<rparr>))
             (collect_cores now (prev_stats c) cur 0 (core_usage c) h1))"

section \<open>The readings\<close>

lemma readCpuStats_not_Nil [simp]: "readCpuStats f \<noteq> []"
  by (simp add: readCpuStats_def Let_def)

text \<open>How the kernel prints a line: a label, blanks, ten counters separated by one blank.\<close>

definition counters_text :: "u64 list \<Rightarrow> string" where
  "counters_text ws = concat (map (\<lambda>w. '' '' @ nat_str (unat w)) ws)"

definition stats_counters :: "cpu_stats \<Rightarrow> u64 list" where
  "stats_counters s = [cs_user s, cs_nice s, cs_system s, cs_idle s, cs_iowait s, cs_irq s,
     cs_softirq s, cs_steal s, cs_guest s, cs_guest_nice s]"

definition cpu_line :: "string \<times> cpu_stats \<Rightarrow> string" where
  "cpu_line e = ''cpu'' @ fst e @ counters_text (stats_counters (snd e))"

lemma extract_counters_text:
  "extract_u64 (Some (counters_text (w # ws))) v = (Some (counters_text ws), w)"
proof -
  have "counters_text ws = [] \<or> \<not> is_digit (hd (counters_text ws))"
    by (cases ws) (simp_all add: counters_text_def is_digit_def char_code_def)
  then have "extract_u64 (Some ('' '' @ nat_str (unat w) @ counters_text ws)) v = (Some (counters_text ws), w)"
    by (rule extract_u64_nat_str) (simp add: is_space_def)
  then show ?thesis by (simp add: counters_text_def)
qed

lemma parse_cpu_line_print:
  assumes "\<forall>c \<in> set l. \<not> is_space c"
  shows "parse_cpu_line (cpu_line (l, s)) = s"
proof -
  have "counters_text (stats_counters s) = [] \<or> is_space (hd (counters_text (stats_counters s)))"
    by (simp add: counters_text_def stats_counters_def is_space_def)
  then have "extract_word (Some ((''cpu'' @ l) @ counters_text (stats_counters s))) [] =
      (Some (counters_text (stats_counters s)), ''cpu'' @ l)"
    using assms by (intro extract_word_prefix) (auto simp: is_space_def char_code_def)
  then have w: "extract_word (Some (cpu_line (l, s))) [] = (Some (counters_text (stats_counters s)), ''cpu'' @ l)"
    by (simp add: cpu_line_def)
  show ?thesis
    unfolding parse_cpu_line_def Let_def w prod.case stats_counters_def extract_counters_text by simp
qed

lemma nl_space: "is_space nl"
  by (simp add: is_space_def char_code_def)

lemma nat_str_no_nl: "nl \<notin> set (nat_str n)"
  using nat_str_digits [of n] by (auto simp: is_digit_def char_code_def)

lemma counters_text_no_nl: "nl \<notin> set (counters_text ws)"
  by (induction ws) (auto simp: counters_text_def nat_str_no_nl)

lemma read_cpu_lines_print:
  "\<forall>e \<in> set es. \<forall>c \<in> set (fst e). \<not> is_space c \<Longrightarrow> rest = [] \<or> substr (hd rest) 0 3 \<noteq> ''cpu'' \<Longrightarrow>
    read_cpu_lines (map cpu_line es @ rest) = map snd es"
proof (induction es)
  case Nil
  then show ?case by (cases rest) auto
next
  case (Cons e es)
  obtain l s where e: "e = (l, s)" by fastforce
  have "substr (cpu_line e) 0 3 = ''cpu''" by (simp add: cpu_line_def substr_def numeral_eq_Suc)
  then show ?case using Cons parse_cpu_line_print [of l s] by (simp add: e)
qed

section \<open>The usage\<close>

lemma round53_two64: "round53 (2 ^ 64) = 2 ^ 64"
  by code_simp

lemma dbl_of_u64_fin: "dbl_of_u64 w = Fin (round53 (of_nat (unat w)))"
proof -
  have "(of_nat (unat w) :: rat) \<le> of_nat (2 ^ 64)"
    using u64_bound [of w] by (simp only: of_nat_le_iff less_imp_le)
  then have le: "(of_nat (unat w) :: rat) \<le> 2 ^ 64" by (simp only: of_nat_power of_nat_numeral)
  have "\<exists>y. rnd (of_nat (unat w)) = Fin y \<and> 0 \<le> y \<and> y \<le> 2 ^ 64"
    by (rule rnd_between [OF of_nat_0_le_iff le round53_0 round53_two64]) simp_all
  then show ?thesis by (auto simp: dbl_of_u64_def rnd_def split: if_splits)
qed

lemma round53_ge_1: "1 \<le> n \<Longrightarrow> 1 \<le> round53 (of_nat n)"
  using round53_mono [of 1 "of_nat n"] round53_of_nat [of 1] by simp

text \<open>The share of a part in a whole is a finite double between 0 and 1.\<close>

lemma ddiv_share:
  assumes "unat a \<le> unat b" and "b \<noteq> 0"
  shows "\<exists>y. ddiv (dbl_of_u64 a) (dbl_of_u64 b) = Fin y \<and> 0 \<le> y \<and> y \<le> 1"
proof -
  let ?a = "round53 (of_nat (unat a))" and ?b = "round53 (of_nat (unat b))"
  have b: "1 \<le> ?b" using assms(2) unat_gt_0 [of b] by (intro round53_ge_1) linarith
  have a: "0 \<le> ?a" by (rule round53_nonneg) (rule of_nat_0_le_iff)
  have "?a \<le> ?b" using assms(1) by (intro round53_mono) (simp only: of_nat_le_iff)
  then have "0 \<le> ?a / ?b \<and> ?a / ?b \<le> 1" using a b by simp
  then have "\<exists>y. rnd (?a / ?b) = Fin y \<and> 0 \<le> y \<and> y \<le> 1"
    using round53_of_nat [of 1] by (intro rnd_between) simp_all
  then show ?thesis using b by (simp add: dbl_of_u64_fin)
qed

lemma rnd_unit: "0 \<le> x \<Longrightarrow> x \<le> of_nat n \<Longrightarrow> n \<le> 2 ^ 53 \<Longrightarrow> \<exists>y. rnd x = Fin y \<and> 0 \<le> y \<and> y \<le> of_nat n"
proof -
  assume x: "0 \<le> x" "x \<le> of_nat n" and n: "n \<le> 2 ^ 53"
  have "(of_nat n :: rat) \<le> of_nat (2 ^ 53)" using n by (simp only: of_nat_le_iff)
  also have "\<dots> < 2 ^ 1024" by simp
  finally show ?thesis using x round53_of_nat [OF n] by (intro rnd_between) simp_all
qed

lemma calculateCpuUsage_range:
  assumes "unat (cpu_idle_total cur - cpu_idle_total prev) \<le> unat (cpu_total cur - cpu_total prev)"
  shows "\<exists>y. calculateCpuUsage prev cur = Fin y \<and> 0 \<le> y \<and> y \<le> 100"
proof (cases "cpu_total cur - cpu_total prev = 0")
  case False
  obtain y where y: "ddiv (dbl_of_u64 (cpu_idle_total cur - cpu_idle_total prev))
      (dbl_of_u64 (cpu_total cur - cpu_total prev)) = Fin y" "0 \<le> y" "y \<le> 1"
    using ddiv_share [OF assms False] by auto
  obtain z where z: "rnd (1 - y) = Fin z" "0 \<le> z" "z \<le> 1"
    using rnd_unit [of "1 - y" 1] y by auto
  obtain u where u: "rnd (100 * z) = Fin u" "0 \<le> u" "u \<le> 100"
    using rnd_unit [of "100 * z" 100] z by auto
  show ?thesis using False y z u by (simp add: calculateCpuUsage_def Let_def dsub_def)
qed (simp add: calculateCpuUsage_def)

text \<open>Counters that only grow, in a total that fits, give an idle share of at most the whole.\<close>

definition nat_total :: "cpu_stats \<Rightarrow> nat" where
  "nat_total s = sum_list (map unat (stats_counters s))"

definition nat_idle :: "cpu_stats \<Rightarrow> nat" where
  "nat_idle s = unat (cs_idle s) + unat (cs_iowait s)"

definition grown :: "cpu_stats \<Rightarrow> cpu_stats \<Rightarrow> bool" where
  "grown prev cur \<longleftrightarrow> list_all2 (\<lambda>a b. unat a \<le> unat b) (stats_counters prev) (stats_counters cur)"

lemma cpu_total_nat: "cpu_total s = of_nat (nat_total s)"
  by (simp add: cpu_total_def nat_total_def stats_counters_def)

lemma cpu_idle_nat: "cpu_idle_total s = of_nat (nat_idle s)"
  by (simp add: cpu_idle_total_def nat_idle_def)

lemma idle_share:
  assumes "grown prev cur" and "nat_total cur < 2 ^ 64"
  shows "unat (cpu_idle_total cur - cpu_idle_total prev) \<le> unat (cpu_total cur - cpu_total prev)"
proof -
  have le: "nat_idle prev \<le> nat_idle cur" "nat_total prev \<le> nat_total cur"
    "nat_idle cur - nat_idle prev \<le> nat_total cur - nat_total prev"
    using assms(1) unfolding grown_def stats_counters_def nat_idle_def nat_total_def list.rel_inject
      list.map sum_list.Cons sum_list.Nil
    by linarith+
  have i: "cpu_idle_total cur - cpu_idle_total prev = of_nat (nat_idle cur - nat_idle prev)"
    using le(1) by (simp add: cpu_idle_nat of_nat_diff)
  have t: "cpu_total cur - cpu_total prev = of_nat (nat_total cur - nat_total prev)"
    using le(2) by (simp add: cpu_total_nat of_nat_diff)
  show ?thesis
    unfolding i t using le assms(2) u64_of_nat [of "nat_idle cur - nat_idle prev"]
      u64_of_nat [of "nat_total cur - nat_total prev"]
    by (simp only: less_imp_diff_less le_less_trans)
qed

section \<open>The collector\<close>

lemma core_name_inj [simp]: "core_name i = core_name j \<longleftrightarrow> i = j"
  by (auto simp: core_name_def dest: nat_str_inj)

lemma core_name_neq [simp]: "core_name i \<noteq> ''cpu.usage''" "''cpu.usage'' \<noteq> core_name i"
  by (simp_all add: core_name_def)

lemma make_cores_spec:
  assumes "om_ok reg"
  shows "\<exists>reg'. make_cores now i n (h, reg) =
      ([length h ..< length h + n], h @ map (\<lambda>j. GaugeMetric (core_name j) now) [i ..< i + n], reg') \<and>
    om_ok reg' \<and>
    (\<forall>j. getMetric (core_name j) reg' =
      (if i \<le> j \<and> j < i + n then Some (length h + (j - i)) else getMetric (core_name j) reg)) \<and>
    getMetric ''cpu.usage'' reg' = getMetric ''cpu.usage'' reg"
  using assms
proof (induction n arbitrary: i h reg)
  case (Suc n)
  let ?h1 = "h @ [GaugeMetric (core_name i) now]"
  let ?reg1 = "registerMetric ?h1 (length h) reg"
  have nm: "m_name (?h1 ! length h) = core_name i" by (simp add: GaugeMetric_def new_metric_def)
  obtain reg' where r: "make_cores now (Suc i) n (?h1, ?reg1) =
      ([length ?h1 ..< length ?h1 + n], ?h1 @ map (\<lambda>j. GaugeMetric (core_name j) now) [Suc i ..< Suc i + n], reg')"
    and ok: "om_ok reg'"
    and look: "\<And>j. getMetric (core_name j) reg' =
      (if Suc i \<le> j \<and> j < Suc i + n then Some (length ?h1 + (j - Suc i)) else getMetric (core_name j) ?reg1)"
    and usage: "getMetric ''cpu.usage'' reg' = getMetric ''cpu.usage'' ?reg1"
    using Suc.IH [of ?reg1 "Suc i" ?h1] Suc.prems by auto
  have up: "[i ..< i + Suc n] = i # [Suc i ..< Suc i + n]"
    "[length h ..< length h + Suc n] = length h # [length ?h1 ..< length ?h1 + n]"
    by (simp_all add: upt_conv_Cons)
  have "make_cores now i (Suc n) (h, reg) = ([length h ..< length h + Suc n],
      h @ map (\<lambda>j. GaugeMetric (core_name j) now) [i ..< i + Suc n], reg')"
    unfolding up by (simp only: make_cores.simps make_shared_def Let_def prod.case r) simp
  moreover have "getMetric (core_name j) reg' =
      (if i \<le> j \<and> j < i + Suc n then Some (length h + (j - i)) else getMetric (core_name j) reg)" for j
    using look [of j] getMetric_register [OF Suc.prems, of "core_name j" ?h1 "length h"] nm by auto
  moreover have "getMetric ''cpu.usage'' reg' = getMetric ''cpu.usage'' reg"
    using usage getMetric_register [OF Suc.prems, of "''cpu.usage''" ?h1 "length h"] nm by auto
  ultimately show ?case using ok by blast
next
  case 0
  then have "(if i \<le> j \<and> j < i + 0 then Some (length h + (j - i)) else getMetric (core_name j) reg) =
    getMetric (core_name j) reg" for j by auto
  with 0 show ?case by simp
qed

lemma collect_cores_none:
  "length prev = length cur \<Longrightarrow> ps \<noteq> [] \<Longrightarrow> length prev \<le> i + length ps \<Longrightarrow>
    collect_cores now prev cur i ps h = None"
proof (induction ps arbitrary: i h)
  case (Cons p ps)
  then show ?case by (cases "ps = []") auto
qed simp

lemma collect_cores_some:
  assumes "length prev = length cur" and "i + length ps < length prev" and "distinct ps"
    and "\<forall>p \<in> set ps. p < length h"
  shows "\<exists>h'. collect_cores now prev cur i ps h = Some h' \<and> length h' = length h \<and>
    (\<forall>k < length ps. h' ! (ps ! k) =
       update (now (i + k + 1)) (calculateCpuUsage (prev ! (i + k + 1)) (cur ! (i + k + 1))) (h ! (ps ! k))) \<and>
    (\<forall>q. q \<notin> set ps \<longrightarrow> h' ! q = h ! q)"
  using assms
proof (induction ps arbitrary: i h)
  case (Cons p ps)
  let ?h1 = "store_update p (now (i + 1)) (calculateCpuUsage (prev ! (i + 1)) (cur ! (i + 1))) h"
  obtain h' where h': "collect_cores now prev cur (i + 1) ps ?h1 = Some h'" "length h' = length h"
    and val: "\<And>k. k < length ps \<Longrightarrow> h' ! (ps ! k) =
       update (now (i + 1 + k + 1)) (calculateCpuUsage (prev ! (i + 1 + k + 1)) (cur ! (i + 1 + k + 1))) (?h1 ! (ps ! k))"
    and frame: "\<And>q. q \<notin> set ps \<Longrightarrow> h' ! q = ?h1 ! q"
    using Cons.IH [of "i + 1" ?h1] Cons.prems by auto
  have "h' ! ((p # ps) ! k) =
      update (now (i + k + 1)) (calculateCpuUsage (prev ! (i + k + 1)) (cur ! (i + k + 1))) (h ! ((p # ps) ! k))"
    if k: "k < length (p # ps)" for k
  proof (cases k)
    case 0
    then show ?thesis using frame [of p] Cons.prems by (simp add: store_update_same)
  next
    case (Suc j)
    then have "ps ! j \<noteq> p" using k Cons.prems(3) by auto
    then show ?thesis using Suc k val [of j] by simp
  qed
  moreover have "collect_cores now prev cur i (p # ps) h = Some h'"
    using h'(1) Cons.prems(1,2) by simp
  ultimately show ?case using h'(2) frame by auto
qed simp

text \<open>What the constructor establishes and every round keeps.\<close>

definition cpu_ok :: "mstore \<times> cpu_collector \<Rightarrow> bool" where
  "cpu_ok s \<longleftrightarrow> (let (h, c) = s in
     distinct (cpu_usage c # core_usage c) \<and> (\<forall>p \<in> set (cpu_usage c # core_usage c). p < length h) \<and>
     prev_stats c \<noteq> [] \<and> om_ok (cpu_metrics c) \<and>
     getMetric ''cpu.usage'' (cpu_metrics c) = Some (cpu_usage c) \<and>
     (\<forall>j. getMetric (core_name j) (cpu_metrics c) =
        (if j < length (core_usage c) then Some (core_usage c ! j) else None)))"

lemma CpuCollector_shape:
  fixes f
  defines "n \<equiv> length (readCpuStats f) - 1"
  shows "\<exists>reg. CpuCollector now f h =
      ((h @ [GaugeMetric ''cpu.usage'' now]) @ map (\<lambda>j. GaugeMetric (core_name j) now) [0 ..< n],
       \<lparr>cpu_metrics = reg, cpu_usage = length h, core_usage = [Suc (length h) ..< Suc (length h) + n],
        prev_stats = readCpuStats f\<rparr>) \<and>
    om_ok reg \<and> getMetric ''cpu.usage'' reg = Some (length h) \<and>
    (\<forall>j. getMetric (core_name j) reg = (if j < n then Some (Suc (length h) + j) else None))"
proof -
  let ?h1 = "h @ [GaugeMetric ''cpu.usage'' now]"
  let ?reg1 = "registerMetric ?h1 (length h) []"
  have nm: "m_name (?h1 ! length h) = ''cpu.usage''" by (simp add: GaugeMetric_def new_metric_def)
  obtain reg' where r: "make_cores now 0 n (?h1, ?reg1) =
      ([length ?h1 ..< length ?h1 + n], ?h1 @ map (\<lambda>j. GaugeMetric (core_name j) now) [0 ..< 0 + n], reg')"
    and ok: "om_ok reg'"
    and look: "\<And>j. getMetric (core_name j) reg' =
      (if 0 \<le> j \<and> j < 0 + n then Some (length ?h1 + (j - 0)) else getMetric (core_name j) ?reg1)"
    and usage: "getMetric ''cpu.usage'' reg' = getMetric ''cpu.usage'' ?reg1"
    using make_cores_spec [of ?reg1 now 0 n ?h1] by auto
  have reg1: "getMetric n ?reg1 = (if n = ''cpu.usage'' then Some (length h) else None)" for n
    using getMetric_register [of "[]" n ?h1 "length h"] nm by (simp add: getMetric_def)
  have C: "CpuCollector now f h = (?h1 @ map (\<lambda>j. GaugeMetric (core_name j) now) [0 ..< 0 + n],
      \<lparr>cpu_metrics = reg', cpu_usage = length h, core_usage = [length ?h1 ..< length ?h1 + n],
       prev_stats = readCpuStats f\<rparr>)"
    unfolding CpuCollector_def make_shared_def Let_def prod.case n_def [symmetric] r ..
  show ?thesis using C ok look usage reg1 by (intro exI [of _ reg']) auto
qed

lemma CpuCollector_ok:
  "cpu_ok (CpuCollector now f h) \<and> length (core_usage (snd (CpuCollector now f h))) = length (readCpuStats f) - 1 \<and>
   prev_stats (snd (CpuCollector now f h)) = readCpuStats f"
proof -
  obtain reg where C: "CpuCollector now f h =
      ((h @ [GaugeMetric ''cpu.usage'' now]) @ map (\<lambda>j. GaugeMetric (core_name j) now) [0 ..< length (readCpuStats f) - 1],
       \<lparr>cpu_metrics = reg, cpu_usage = length h,
        core_usage = [Suc (length h) ..< Suc (length h) + (length (readCpuStats f) - 1)], prev_stats = readCpuStats f\<rparr>)"
    and "om_ok reg" "getMetric ''cpu.usage'' reg = Some (length h)"
    "\<forall>j. getMetric (core_name j) reg = (if j < length (readCpuStats f) - 1 then Some (Suc (length h) + j) else None)"
    using CpuCollector_shape by blast
  then show ?thesis unfolding C cpu_ok_def Let_def prod.case by auto
qed

lemma cpu_ok_extend: "cpu_ok (h, c) \<Longrightarrow> cpu_ok (h @ k, c)"
  by (auto simp: cpu_ok_def)

text \<open>One round: another number of lines only replaces the reading; the same number updates.\<close>

lemma cpu_collect_resize:
  "length (readCpuStats f) \<noteq> length (prev_stats c) \<Longrightarrow>
    cpu_collect now f (h, c) = Some (h, c\<lparr>prev_stats := readCpuStats f\<rparr>)"
  by (simp add: cpu_collect_def Let_def)

lemma cpu_collect_none:
  "length (readCpuStats f) = length (prev_stats c) \<Longrightarrow> cpu_ok (h, c) \<Longrightarrow>
    length (prev_stats c) \<le> length (core_usage c) \<Longrightarrow> cpu_collect now f (h, c) = None"
  using collect_cores_none [of "prev_stats c" "readCpuStats f" "core_usage c" 0]
  by (cases "core_usage c = []") (auto simp: cpu_collect_def cpu_ok_def Let_def)

lemma cpu_collect_some:
  assumes "length (readCpuStats f) = length (prev_stats c)" and "cpu_ok (h, c)"
    and "length (core_usage c) < length (prev_stats c)"
  shows "\<exists>h'. cpu_collect now f (h, c) = Some (h', c\<lparr>prev_stats := readCpuStats f\<rparr>) \<and> length h' = length h \<and>
    h' ! cpu_usage c = update (now 0) (calculateCpuUsage (prev_stats c ! 0) (readCpuStats f ! 0)) (h ! cpu_usage c) \<and>
    (\<forall>k < length (core_usage c). h' ! (core_usage c ! k) =
       update (now (k + 1)) (calculateCpuUsage (prev_stats c ! (k + 1)) (readCpuStats f ! (k + 1)))
         (h ! (core_usage c ! k))) \<and>
    (\<forall>q. q \<noteq> cpu_usage c \<and> q \<notin> set (core_usage c) \<longrightarrow> h' ! q = h ! q)"
proof -
  let ?cur = "readCpuStats f"
  let ?h1 = "store_update (cpu_usage c) (now 0) (calculateCpuUsage (prev_stats c ! 0) (?cur ! 0)) h"
  have ok: "distinct (cpu_usage c # core_usage c)" "\<forall>p \<in> set (cpu_usage c # core_usage c). p < length h"
    using assms(2) by (auto simp: cpu_ok_def)
  obtain h' where h': "collect_cores now (prev_stats c) ?cur 0 (core_usage c) ?h1 = Some h'" "length h' = length h"
    and val: "\<And>k. k < length (core_usage c) \<Longrightarrow> h' ! (core_usage c ! k) =
       update (now (k + 1)) (calculateCpuUsage (prev_stats c ! (k + 1)) (?cur ! (k + 1))) (?h1 ! (core_usage c ! k))"
    and frame: "\<And>q. q \<notin> set (core_usage c) \<Longrightarrow> h' ! q = ?h1 ! q"
    using collect_cores_some [of "prev_stats c" ?cur 0 "core_usage c" ?h1 now] assms ok by auto
  have "core_usage c ! k \<noteq> cpu_usage c" if "k < length (core_usage c)" for k
    using ok(1) nth_mem [OF that] by auto
  then have "\<forall>k < length (core_usage c). ?h1 ! (core_usage c ! k) = h ! (core_usage c ! k)" by simp
  moreover have "cpu_collect now f (h, c) = Some (h', c\<lparr>prev_stats := ?cur\<rparr>)"
    using h'(1) assms(1) by (simp add: cpu_collect_def Let_def)
  ultimately show ?thesis
    using h'(2) val frame ok by (auto simp: store_update_same)
qed

lemma cpu_collect_ok:
  assumes "cpu_ok s" and "cpu_collect now f s = Some s'"
  shows "cpu_ok s' \<and> core_usage (snd s') = core_usage (snd s) \<and> prev_stats (snd s') = readCpuStats f"
proof -
  obtain h c where s: "s = (h, c)" by fastforce
  consider (resize) "length (readCpuStats f) \<noteq> length (prev_stats c)"
    | (none) "length (readCpuStats f) = length (prev_stats c)" "length (prev_stats c) \<le> length (core_usage c)"
    | (some) "length (readCpuStats f) = length (prev_stats c)" "length (core_usage c) < length (prev_stats c)"
    by linarith
  then show ?thesis
  proof cases
    case resize
    then show ?thesis using assms cpu_collect_resize [OF resize] by (auto simp: s cpu_ok_def Let_def)
  next
    case none
    then show ?thesis using assms cpu_collect_none [of f c h now] by (simp add: s)
  next
    case some
    then obtain h' where "cpu_collect now f (h, c) = Some (h', c\<lparr>prev_stats := readCpuStats f\<rparr>)" "length h' = length h"
      using cpu_collect_some [of f c h now] assms by (auto simp: s)
    then show ?thesis using assms by (auto simp: s cpu_ok_def Let_def)
  qed
qed

text \<open>The rounds of the worker: the clock and the file of each.\<close>

fun cpu_rounds :: "((nat \<Rightarrow> int) \<times> string option) list \<Rightarrow> mstore \<times> cpu_collector \<Rightarrow>
    (mstore \<times> cpu_collector) option" where
  "cpu_rounds [] s = Some s"
| "cpu_rounds ((now, f) # rs) s =
     (case cpu_collect now f s of None \<Rightarrow> None | Some s' \<Rightarrow> cpu_rounds rs s')"

lemma cpu_rounds_ok:
  "cpu_ok s \<Longrightarrow> cpu_rounds rs s = Some s' \<Longrightarrow> cpu_ok s' \<and> core_usage (snd s') = core_usage (snd s)"
proof (induction rs arbitrary: s)
  case (Cons r rs)
  then show ?case using cpu_collect_ok by (cases r) (fastforce split: option.splits)
qed simp

lemma cpu_rounds_safe:
  assumes "cpu_ok s" and "length (core_usage (snd s)) < length (prev_stats (snd s))"
    and "\<forall>(now, f) \<in> set rs. length (core_usage (snd s)) < length (readCpuStats f)"
  shows "cpu_rounds rs s \<noteq> None"
  using assms
proof (induction rs arbitrary: s)
  case (Cons r rs)
  obtain now f h c where rs: "r = (now, f)" "s = (h, c)" by fastforce
  have "cpu_collect now f (h, c) \<noteq> None"
    using Cons.prems cpu_collect_resize [of f c now h] cpu_collect_some [of f c h now]
    by (cases "length (readCpuStats f) = length (prev_stats c)") (auto simp: rs)
  then obtain s' where s': "cpu_collect now f (h, c) = Some s'" by auto
  have "cpu_rounds rs s' \<noteq> None"
    using Cons cpu_collect_ok [of "(h, c)" now f s'] s' by (intro Cons.IH) (auto simp: rs)
  then show ?case by (simp add: rs s')
qed simp

lemma read_printed_stats:
  assumes "es \<noteq> []" and "\<forall>e \<in> set es. \<forall>c \<in> set (fst e). \<not> is_space c"
    and "rest = [] \<or> substr (hd rest) 0 3 \<noteq> ''cpu''" and "\<forall>l \<in> set rest. nl \<notin> set l"
  shows "readCpuStats (Some (unlines (map cpu_line es @ rest))) = map snd es"
proof -
  have "nl \<notin> set (cpu_line e)" if "e \<in> set es" for e
    using assms(2) that nl_space counters_text_no_nl by (auto simp: cpu_line_def)
  then have "split_lines (unlines (map cpu_line es @ rest) @ []) = map cpu_line es @ rest"
    using assms(4) by (subst split_lines_unlines) auto
  then show ?thesis
    using assms(1) read_cpu_lines_print [OF assms(2,3)] by (simp add: readCpuStats_def)
qed

section \<open>Properties\<close>

text \<open>
  C28: The usage of a CPU is a percentage: if no counter went back between the two readings and
  their sum fits in 64 bits, the usage computed in double arithmetic is a finite value
  between 0 and 100.
\<close>

theorem cpu_usage_percentage:
  assumes "grown prev cur" and "nat_total cur < 2 ^ 64"
  shows "\<exists>y. calculateCpuUsage prev cur = Fin y \<and> 0 \<le> y \<and> y \<le> 100"
  by (rule calculateCpuUsage_range) (rule idle_share [OF assms])

definition sample_stats :: cpu_stats where
  "sample_stats = zero_stats\<lparr>cs_user := 30, cs_idle := 70\<rparr>"

theorem cpu_usage_percentage_witness:
  "\<exists>y. calculateCpuUsage zero_stats sample_stats = Fin y \<and> 0 \<le> y \<and> y \<le> 100"
  by (rule cpu_usage_percentage)
    (simp_all add: grown_def sample_stats_def zero_stats_def stats_counters_def nat_total_def)

text \<open>
  Reading \<^verbatim>\<open>/proc/stat\<close> inverts its printing: for any readings printed the way the kernel
  prints them, under labels without blanks, and followed by lines of another kind,
  \<open>readCpuStats\<close> returns exactly those readings.
\<close>

theorem cpu_stats_roundtrip:
  assumes "es \<noteq> []" and "\<forall>e \<in> set es. \<forall>c \<in> set (fst e). \<not> is_space c"
    and "rest = [] \<or> substr (hd rest) 0 3 \<noteq> ''cpu''" and "\<forall>l \<in> set rest. nl \<notin> set l"
  shows "readCpuStats (Some (unlines (map cpu_line es @ rest))) = map snd es"
  by (rule read_printed_stats [OF assms])

theorem cpu_stats_roundtrip_witness:
  "readCpuStats (Some (unlines (map cpu_line [('''', sample_stats), (''0'', zero_stats)] @ [''intr 7'']))) =
    map snd [('''', sample_stats), (''0'', zero_stats)]"
  by (rule cpu_stats_roundtrip) (auto simp: substr_def is_space_def char_code_def)

text \<open>
  A round of the CPU collector, whatever rounds came before: with as many lines as the last
  reading and no core missing, the gauges of the whole and of every core hold the usage
  between the two readings and no other metric changes; with another number of lines only
  the reading is replaced; and with fewer cores than at construction seen twice in a row the
  loop over the cores reads outside the vectors.
\<close>

theorem cpu_collect_round:
  assumes "cpu_rounds rs (CpuCollector t0 f0 h0) = Some (h, c)"
  shows "if length (readCpuStats f) \<noteq> length (prev_stats c)
     then cpu_collect now f (h, c) = Some (h, c\<lparr>prev_stats := readCpuStats f\<rparr>)
     else if length (prev_stats c) \<le> length (core_usage c) then cpu_collect now f (h, c) = None
     else \<exists>h'. cpu_collect now f (h, c) = Some (h', c\<lparr>prev_stats := readCpuStats f\<rparr>) \<and>
       getCurrentValue (h' ! cpu_usage c) = calculateCpuUsage (prev_stats c ! 0) (readCpuStats f ! 0) \<and>
       (\<forall>k < length (core_usage c). getCurrentValue (h' ! (core_usage c ! k)) =
          calculateCpuUsage (prev_stats c ! (k + 1)) (readCpuStats f ! (k + 1))) \<and>
       (\<forall>q. q \<noteq> cpu_usage c \<and> q \<notin> set (core_usage c) \<longrightarrow> h' ! q = h ! q)"
proof -
  have ok: "cpu_ok (h, c)" using cpu_rounds_ok [OF _ assms] CpuCollector_ok by blast
  show ?thesis
    using cpu_collect_resize [of f c now h] cpu_collect_none [of f c h now] cpu_collect_some [of f c h now] ok
    by (auto simp: writers_record)
qed

theorem cpu_collect_round_witness:
  "let s = CpuCollector 0 None []; h = fst s; c = snd s; now = (\<lambda>k. 5); f = None in
   if length (readCpuStats f) \<noteq> length (prev_stats c)
     then cpu_collect now f (h, c) = Some (h, c\<lparr>prev_stats := readCpuStats f\<rparr>)
     else if length (prev_stats c) \<le> length (core_usage c) then cpu_collect now f (h, c) = None
     else \<exists>h'. cpu_collect now f (h, c) = Some (h', c\<lparr>prev_stats := readCpuStats f\<rparr>) \<and>
       getCurrentValue (h' ! cpu_usage c) = calculateCpuUsage (prev_stats c ! 0) (readCpuStats f ! 0) \<and>
       (\<forall>k < length (core_usage c). getCurrentValue (h' ! (core_usage c ! k)) =
          calculateCpuUsage (prev_stats c ! (k + 1)) (readCpuStats f ! (k + 1))) \<and>
       (\<forall>q. q \<noteq> cpu_usage c \<and> q \<notin> set (core_usage c) \<longrightarrow> h' ! q = h ! q)"
  unfolding Let_def by (rule cpu_collect_round [of "[]" 0 None "[]"]) simp

text \<open>
  The collector never reads outside its vectors as long as no reading has fewer CPU lines
  than the one the constructor saw.
\<close>

theorem cpu_rounds_in_bounds:
  assumes "\<forall>r \<in> set rs. length (readCpuStats f0) \<le> length (readCpuStats (snd r))"
  shows "\<exists>h c. cpu_rounds rs (CpuCollector t0 f0 h0) = Some (h, c) \<and>
    length (core_usage c) = length (readCpuStats f0) - 1"
proof -
  let ?s = "CpuCollector t0 f0 h0"
  note ok = CpuCollector_ok [of t0 f0 h0]
  have pos: "0 < length (readCpuStats f0)" by simp
  have "\<forall>(now, f) \<in> set rs. length (core_usage (snd ?s)) < length (readCpuStats f)"
  proof (clarify)
    fix now f
    assume "(now, f) \<in> set rs"
    then have "length (readCpuStats f0) \<le> length (readCpuStats f)" using assms by fastforce
    then show "length (core_usage (snd ?s)) < length (readCpuStats f)" using ok pos by linarith
  qed
  then have "cpu_rounds rs ?s \<noteq> None" using ok pos by (intro cpu_rounds_safe) auto
  then obtain h c where "cpu_rounds rs ?s = Some (h, c)" by auto
  then show ?thesis using ok cpu_rounds_ok by fastforce
qed

theorem cpu_rounds_in_bounds_witness:
  "\<exists>h c. cpu_rounds [(\<lambda>k. 5, None), (\<lambda>k. 9, None)] (CpuCollector 0 None []) = Some (h, c) \<and>
    length (core_usage c) = length (readCpuStats None) - 1"
  by (rule cpu_rounds_in_bounds) simp

text \<open>
  The hypothesis on the counters is needed: the kernel documents that \<open>iowait\<close> may go back.
  Then the idle difference wraps and a CPU that was never idle is reported with a usage of
  at most 0.
\<close>

lemma round53_two71: "round53 (- (100 * 2 ^ 64)) = - (100 * 2 ^ 64)"
  by code_simp

lemma calculateCpuUsage_not_positive:
  assumes "unat (cpu_total cur - cpu_total prev) \<le> unat (cpu_idle_total cur - cpu_idle_total prev)"
    and "cpu_total cur \<noteq> cpu_total prev"
  shows "\<exists>y. calculateCpuUsage prev cur = Fin y \<and> y \<le> 0"
proof -
  define i t where "i = cpu_idle_total cur - cpu_idle_total prev" and "t = cpu_total cur - cpu_total prev"
  let ?a = "round53 (of_nat (unat i))" and ?b = "round53 (of_nat (unat t))"
  have t: "t \<noteq> 0" using assms(2) by (simp add: t_def)
  have b: "1 \<le> ?b" using t unat_gt_0 [of t] by (intro round53_ge_1) linarith
  have ab: "?b \<le> ?a" using assms(1) unfolding i_def t_def by (intro round53_mono) (simp only: of_nat_le_iff)
  have "(of_nat (unat i) :: rat) \<le> of_nat (2 ^ 64)" using u64_bound [of i] by (simp only: of_nat_le_iff less_imp_le)
  then have a: "?a \<le> 2 ^ 64" using round53_mono [of "of_nat (unat i)" "2 ^ 64"] round53_two64 by simp
  have "?a * 1 \<le> 2 ^ 64 * ?b" using a b by (intro mult_mono) simp_all
  then have q: "1 \<le> ?a / ?b" "?a / ?b \<le> 2 ^ 64" using ab b by (simp_all add: divide_le_eq le_divide_eq)
  have one: "round53 1 = 1" using round53_of_nat [of 1] by simp
  obtain y where y: "rnd (?a / ?b) = Fin y" "1 \<le> y" "y \<le> 2 ^ 64"
    using rnd_between [OF q one round53_two64] by auto
  have m: "round53 (- (2 ^ 64)) = - (2 ^ 64)" using round53_minus [of "2 ^ 64"] round53_two64 by simp
  obtain z where z: "rnd (1 - y) = Fin z" "- (2 ^ 64) \<le> z" "z \<le> 0"
    using rnd_between [of "- (2 ^ 64)" "1 - y" 0, OF _ _ m round53_0] y by auto
  have lo: "- (100 * 2 ^ 64) \<le> 100 * z" and hi: "100 * z \<le> 0" using z by simp_all
  obtain u where u: "rnd (100 * z) = Fin u" "u \<le> 0"
    using rnd_between [OF lo hi round53_two71 round53_0] by auto
  have "calculateCpuUsage prev cur = dmul (Fin 100) (dsub (Fin 1) (ddiv (Fin ?a) (Fin ?b)))"
    using t by (simp add: calculateCpuUsage_def Let_def i_def t_def dbl_of_u64_fin)
  then show ?thesis using b y(1) z(1) u by (simp add: dsub_def)
qed

lemma cpu_usage_iowait_back:
  "\<exists>y. calculateCpuUsage (zero_stats\<lparr>cs_iowait := 1\<rparr>) (zero_stats\<lparr>cs_user := 100\<rparr>) = Fin y \<and> y \<le> 0"
  by (rule calculateCpuUsage_not_positive)
    (simp_all add: cpu_total_def cpu_idle_total_def zero_stats_def unsigned_minus_1_eq_mask mask_eq_exp_minus_1)

end
