(* ===== verification/Memory_Collector.thy ===== *)
theory Memory_Collector
  imports Cpu_Collector
begin

text \<open>
  \<^verbatim>\<open>core/collectors/memory_collector\<close>: the sizes of \<^verbatim>\<open>/proc/meminfo\<close> in kB, and the seven
  gauges made of them. The local variable that receives the number of a line is not
  initialised by the code; \<open>junk\<close> is the value it then has, per line.
\<close>

section \<open>Readings\<close>

record memory_stats =
  ms_total :: u64
  ms_available :: u64
  ms_used :: u64
  ms_free :: u64
  ms_buffers :: u64
  ms_cached :: u64
  ms_swap_total :: u64
  ms_swap_used :: u64
  ms_swap_free :: u64

definition zero_memory :: memory_stats where
  "zero_memory = \<lparr>ms_total = 0, ms_available = 0, ms_used = 0, ms_free = 0, ms_buffers = 0,
     ms_cached = 0, ms_swap_total = 0, ms_swap_used = 0, ms_swap_free = 0\<rparr>"

definition set_memory_field :: "string \<Rightarrow> u64 \<Rightarrow> memory_stats \<Rightarrow> memory_stats" where
  "set_memory_field key v s =
     (if key = ''MemTotal:'' then s\<lparr>ms_total := v\<rparr>
      else if key = ''MemFree:'' then s\<lparr>ms_free := v\<rparr>
      else if key = ''MemAvailable:'' then s\<lparr>ms_available := v\<rparr>
      else if key = ''Buffers:'' then s\<lparr>ms_buffers := v\<rparr>
      else if key = ''Cached:'' then s\<lparr>ms_cached := v\<rparr>
      else if key = ''SwapTotal:'' then s\<lparr>ms_swap_total := v\<rparr>
      else if key = ''SwapFree:'' then s\<lparr>ms_swap_free := v\<rparr>
      else s)"

definition parse_meminfo_line :: "u64 \<Rightarrow> string \<Rightarrow> memory_stats \<Rightarrow> memory_stats" where
  "parse_meminfo_line junk line s =
     (let (s1, key) = extract_word (Some line) [];
          (s2, v) = extract_u64 s1 junk
      in set_memory_field key v s)"

definition derived_memory :: "memory_stats \<Rightarrow> memory_stats" where
  "derived_memory s =
     (let s1 = s\<lparr>ms_used := ms_total s - ms_free s - ms_buffers s - ms_cached s\<rparr>
      in s1\<lparr>ms_swap_used := ms_swap_total s1 - ms_swap_free s1\<rparr>)"

definition readMemoryStats :: "(string \<Rightarrow> u64) \<Rightarrow> string option \<Rightarrow> memory_stats" where
  "readMemoryStats junk meminfo =
     derived_memory (foldl (\<lambda>s line. parse_meminfo_line (junk line) line s) zero_memory
       (case meminfo of None \<Rightarrow> [] | Some text \<Rightarrow> split_lines text))"

section \<open>The collector\<close>

record memory_collector =
  mem_metrics :: registry
  memory_total :: nat
  memory_used :: nat
  memory_free :: nat
  memory_usage_percent :: nat
  swap_total :: nat
  swap_used :: nat
  swap_usage_percent :: nat

definition MemoryCollector :: "int \<Rightarrow> mstore \<Rightarrow> mstore \<times> memory_collector" where
  "MemoryCollector now h =
     (let (p1, h1) = make_shared (GaugeMetric ''memory.total'' now) h;
          (p2, h2) = make_shared (GaugeMetric ''memory.used'' now) h1;
          (p3, h3) = make_shared (GaugeMetric ''memory.free'' now) h2;
          (p4, h4) = make_shared (GaugeMetric ''memory.usage_percent'' now) h3;
          (p5, h5) = make_shared (GaugeMetric ''memory.swap_total'' now) h4;
          (p6, h6) = make_shared (GaugeMetric ''memory.swap_used'' now) h5;
          (p7, h7) = make_shared (GaugeMetric ''memory.swap_usage_percent'' now) h6;
          reg = foldl (\<lambda>r p. registerMetric h7 p r) [] [p1, p2, p3, p4, p5, p6, p7]
      in (h7, \<lparr>mem_metrics = reg, memory_total = p1, memory_used = p2, memory_free = p3,
          memory_usage_percent = p4, swap_total = p5, swap_used = p6, swap_usage_percent = p7\<rparr>))"

definition kb_to_mb :: "u64 \<Rightarrow> dbl" where
  "kb_to_mb v = ddiv (dbl_of_u64 v) (Fin 1024)"

definition percent_of :: "u64 \<Rightarrow> u64 \<Rightarrow> dbl" where
  "percent_of part whole = ddiv (dmul (Fin 100) (dbl_of_u64 part)) (dbl_of_u64 whole)"

definition memory_collect :: "(nat \<Rightarrow> int) \<Rightarrow> (string \<Rightarrow> u64) \<Rightarrow> string option \<Rightarrow> memory_collector \<Rightarrow>
    mstore \<Rightarrow> mstore" where
  "memory_collect now junk meminfo c h =
     (let stats = readMemoryStats junk meminfo;
          h1 = store_update (memory_total c) (now 0) (kb_to_mb (ms_total stats)) h;
          h2 = store_update (memory_used c) (now 1) (kb_to_mb (ms_used stats)) h1;
          h3 = store_update (memory_free c) (now 2) (kb_to_mb (ms_free stats)) h2;
          h4 = (if ms_total stats > 0
                then store_update (memory_usage_percent c) (now 3) (percent_of (ms_used stats) (ms_total stats)) h3
                else h3);
          h5 = store_update (swap_total c) (now 4) (kb_to_mb (ms_swap_total stats)) h4;
          h6 = store_update (swap_used c) (now 5) (kb_to_mb (ms_swap_used stats)) h5
      in if ms_swap_total stats > 0
         then store_update (swap_usage_percent c) (now 6) (percent_of (ms_swap_used stats) (ms_swap_total stats)) h6
         else h6)"

section \<open>Laws\<close>

definition memory_ptrs :: "memory_collector \<Rightarrow> nat list" where
  "memory_ptrs c = [memory_total c, memory_used c, memory_free c, memory_usage_percent c,
     swap_total c, swap_used c, swap_usage_percent c]"

definition memory_names :: "string list" where
  "memory_names = [''memory.total'', ''memory.used'', ''memory.free'', ''memory.usage_percent'',
     ''memory.swap_total'', ''memory.swap_used'', ''memory.swap_usage_percent'']"

definition mem_ok :: "mstore \<Rightarrow> memory_collector \<Rightarrow> bool" where
  "mem_ok h c \<longleftrightarrow> distinct (memory_ptrs c) \<and> (\<forall>p \<in> set (memory_ptrs c). p < length h)"

lemma MemoryCollector_ok: "MemoryCollector now h = (h', c) \<Longrightarrow> mem_ok h' c"
  by (auto simp: MemoryCollector_def make_shared_def mem_ok_def memory_ptrs_def)

lemma MemoryCollector_shape:
  assumes "MemoryCollector now h = (h', c)"
  shows "h' = h @ map (\<lambda>n. GaugeMetric n now) memory_names" and "om_ok (mem_metrics c)"
    and "getMetric ''memory.usage_percent'' (mem_metrics c) = Some (length h + 3)"
    and "memory_usage_percent c = length h + 3"
proof -
  show h': "h' = h @ map (\<lambda>n. GaugeMetric n now) memory_names" "memory_usage_percent c = length h + 3"
    using assms by (auto simp: MemoryCollector_def make_shared_def memory_names_def)
  let ?reg = "\<lambda>ps r. foldl (\<lambda>r p. registerMetric h' p r) r ps"
  have c: "mem_metrics c = ?reg (map (\<lambda>k. length h + k) [0, 1, 2, 3, 4, 5, 6]) []"
    using assms by (auto simp: MemoryCollector_def make_shared_def eval_nat_numeral)
  have keep: "om_ok r \<Longrightarrow> om_ok (?reg ps r)" for ps r
    by (induction ps arbitrary: r) simp_all
  then show "om_ok (mem_metrics c)" unfolding c by simp
  have names: "m_name (h' ! (length h + k)) = memory_names ! k" if "k < 7" for k
    using that by (simp add: h' nth_append memory_names_def GaugeMetric_def new_metric_def nth_Cons')
  show "getMetric ''memory.usage_percent'' (mem_metrics c) = Some (length h + 3)"
    unfolding c using names
    by (simp add: getMetric_register keep [of "[]" "[]", simplified] memory_names_def)
qed

lemma length_memory_collect [simp]: "length (memory_collect now junk f c h) = length h"
  by (simp add: memory_collect_def Let_def)

lemma mem_ok_collect: "mem_ok h c \<Longrightarrow> mem_ok (memory_collect now junk f c h) c"
  by (simp add: mem_ok_def)

text \<open>A line as the kernel prints it, and what it means.\<close>

definition meminfo_line :: "string \<times> u64 \<Rightarrow> string" where
  "meminfo_line e = fst e @ '' '' @ nat_str (unat (snd e)) @ '' kB''"

lemma parse_meminfo_print:
  assumes "fst e \<noteq> []" and "\<forall>c \<in> set (fst e). \<not> is_space c"
  shows "parse_meminfo_line junk (meminfo_line e) s = set_memory_field (fst e) (snd e) s"
proof -
  have "extract_word (Some (fst e @ ('' '' @ nat_str (unat (snd e)) @ '' kB''))) [] =
      (Some ('' '' @ nat_str (unat (snd e)) @ '' kB''), fst e)"
    by (rule extract_word_prefix [OF assms]) (simp add: is_space_def)
  moreover have "extract_u64 (Some ('' '' @ nat_str (unat (snd e)) @ '' kB'')) junk = (Some '' kB'', snd e)"
    by (rule extract_u64_nat_str) (simp_all add: is_space_def is_digit_def char_code_def)
  ultimately show ?thesis by (simp add: parse_meminfo_line_def meminfo_line_def)
qed

lemma foldl_parse_meminfo:
  "\<forall>e \<in> set es. fst e \<noteq> [] \<and> (\<forall>c \<in> set (fst e). \<not> is_space c) \<Longrightarrow>
    foldl (\<lambda>s line. parse_meminfo_line (junk line) line s) s (map meminfo_line es) =
    foldl (\<lambda>s e. set_memory_field (fst e) (snd e) s) s es"
  by (induction es arbitrary: s) (simp_all add: parse_meminfo_print)

text \<open>The last line with a key decides its field.\<close>

definition last_value :: "string \<Rightarrow> (string \<times> u64) list \<Rightarrow> u64" where
  "last_value k es = (case map_of (rev es) k of None \<Rightarrow> 0 | Some v \<Rightarrow> v)"

lemma last_value_snoc [simp]:
  "last_value k (es @ [e]) = (if k = fst e then snd e else last_value k es)"
  by (cases e) (simp add: last_value_def)

lemma set_memory_field_simps [simp]:
  "ms_total (set_memory_field k v s) = (if k = ''MemTotal:'' then v else ms_total s)"
  "ms_free (set_memory_field k v s) = (if k = ''MemFree:'' then v else ms_free s)"
  "ms_available (set_memory_field k v s) = (if k = ''MemAvailable:'' then v else ms_available s)"
  "ms_buffers (set_memory_field k v s) = (if k = ''Buffers:'' then v else ms_buffers s)"
  "ms_cached (set_memory_field k v s) = (if k = ''Cached:'' then v else ms_cached s)"
  "ms_swap_total (set_memory_field k v s) = (if k = ''SwapTotal:'' then v else ms_swap_total s)"
  "ms_swap_free (set_memory_field k v s) = (if k = ''SwapFree:'' then v else ms_swap_free s)"
  "ms_used (set_memory_field k v s) = ms_used s"
  "ms_swap_used (set_memory_field k v s) = ms_swap_used s"
  by (simp_all add: set_memory_field_def)

lemma foldl_memory_fields:
  fixes es
  defines "r \<equiv> foldl (\<lambda>s e. set_memory_field (fst e) (snd e) s) zero_memory es"
  shows "ms_total r = last_value ''MemTotal:'' es" "ms_free r = last_value ''MemFree:'' es"
    "ms_available r = last_value ''MemAvailable:'' es" "ms_buffers r = last_value ''Buffers:'' es"
    "ms_cached r = last_value ''Cached:'' es" "ms_swap_total r = last_value ''SwapTotal:'' es"
    "ms_swap_free r = last_value ''SwapFree:'' es"
  unfolding r_def
  by (induction es rule: rev_induct) (auto simp: zero_memory_def last_value_def)

text \<open>Percentages.\<close>

lemma round53_u64_exact: "unat w \<le> 2 ^ 53 \<Longrightarrow> dbl_of_u64 w = Fin (of_nat (unat w))"
  by (simp only: dbl_of_u64_fin round53_of_nat)

lemma percent_of_range:
  assumes "unat part \<le> unat whole" and "whole \<noteq> 0" and "unat whole < 2 ^ 46"
  shows "\<exists>y. percent_of part whole = Fin y \<and> 0 \<le> y \<and> y \<le> 100"
proof -
  define a b where "a = unat part" and "b = unat whole"
  have ab: "a \<le> b" "0 < b" "b < 2 ^ 46" using assms unat_gt_0 [of whole] by (simp_all add: a_def b_def)
  have "rnd (of_nat (100 * a)) = Fin (of_nat (100 * a))" using ab by (intro rnd_of_nat) simp
  then have m: "dmul (Fin 100) (Fin (of_nat a)) = Fin (100 * of_nat a)" by simp
  have d: "dbl_of_u64 part = Fin (of_nat a)" "dbl_of_u64 whole = Fin (of_nat b)"
    using ab round53_u64_exact [of part] round53_u64_exact [of whole] by (simp_all add: a_def b_def)
  have q: "0 \<le> (100 * of_nat a / of_nat b :: rat)" "(100 * of_nat a / of_nat b :: rat) \<le> of_nat 100"
    using ab by (simp_all add: divide_le_eq)
  obtain y where "rnd (100 * of_nat a / of_nat b) = Fin y" "0 \<le> y" "y \<le> of_nat 100"
    using rnd_unit [OF q] by auto
  then show ?thesis using ab unfolding percent_of_def d m by simp
qed

text \<open>One round over distinct gauges.\<close>

lemma memory_collect_values:
  fixes junk f now
  assumes "mem_ok h c"
  defines "s \<equiv> readMemoryStats junk f" and "h' \<equiv> memory_collect now junk f c h"
  shows "current_value (h' ! memory_total c) = kb_to_mb (ms_total s)"
    and "current_value (h' ! memory_used c) = kb_to_mb (ms_used s)"
    and "current_value (h' ! memory_free c) = kb_to_mb (ms_free s)"
    and "current_value (h' ! swap_total c) = kb_to_mb (ms_swap_total s)"
    and "current_value (h' ! swap_used c) = kb_to_mb (ms_swap_used s)"
    and "current_value (h' ! memory_usage_percent c) =
      (if ms_total s = 0 then current_value (h ! memory_usage_percent c) else percent_of (ms_used s) (ms_total s))"
    and "current_value (h' ! swap_usage_percent c) =
      (if ms_swap_total s = 0 then current_value (h ! swap_usage_percent c)
       else percent_of (ms_swap_used s) (ms_swap_total s))"
    and "q \<notin> set (memory_ptrs c) \<Longrightarrow> h' ! q = h ! q"
  using assms(1) unfolding h'_def memory_collect_def s_def [symmetric] Let_def
  by (auto simp: mem_ok_def memory_ptrs_def current_store_update word_gt_0)

definition memory_rounds :: "((nat \<Rightarrow> int) \<times> (string \<Rightarrow> u64) \<times> string option) list \<Rightarrow>
    mstore \<times> memory_collector \<Rightarrow> mstore \<times> memory_collector" where
  "memory_rounds rs s = (foldl (\<lambda>h (now, junk, f). memory_collect now junk f (snd s) h) (fst s) rs, snd s)"

lemma mem_ok_rounds:
  assumes "mem_ok (fst s) (snd s)"
  shows "mem_ok (fst (memory_rounds rs s)) (snd (memory_rounds rs s))"
  unfolding memory_rounds_def fst_conv snd_conv
  by (rule foldl_invariant [where I = "\<lambda>h. mem_ok h (snd s)"]) (use assms in \<open>auto simp: mem_ok_collect\<close>)

section \<open>Properties\<close>

text \<open>
  Reading \<^verbatim>\<open>/proc/meminfo\<close> inverts its printing: for lines printed the way the kernel
  prints them, every field is the value of the last line with its key (0 if there is none),
  whatever the uninitialised variable held, and the used sizes are derived from them by
  64-bit subtraction.
\<close>

theorem meminfo_roundtrip:
  fixes junk
  assumes "\<forall>e \<in> set es. fst e \<noteq> [] \<and> (\<forall>c \<in> set (fst e). \<not> is_space c)"
  defines "s \<equiv> readMemoryStats junk (Some (unlines (map meminfo_line es)))"
  shows "ms_total s = last_value ''MemTotal:'' es \<and> ms_free s = last_value ''MemFree:'' es \<and>
    ms_available s = last_value ''MemAvailable:'' es \<and> ms_buffers s = last_value ''Buffers:'' es \<and>
    ms_cached s = last_value ''Cached:'' es \<and> ms_swap_total s = last_value ''SwapTotal:'' es \<and>
    ms_swap_free s = last_value ''SwapFree:'' es \<and>
    ms_used s = last_value ''MemTotal:'' es - last_value ''MemFree:'' es - last_value ''Buffers:'' es
      - last_value ''Cached:'' es \<and>
    ms_swap_used s = last_value ''SwapTotal:'' es - last_value ''SwapFree:'' es"
proof -
  have "nl \<notin> set (meminfo_line e)" if "e \<in> set es" for e
    using assms(1) that nl_space nat_str_no_nl by (auto simp: meminfo_line_def)
  then have "split_lines (unlines (map meminfo_line es) @ []) = map meminfo_line es @ split_lines []"
    by (intro split_lines_unlines) auto
  then have "s = derived_memory (foldl (\<lambda>s e. set_memory_field (fst e) (snd e) s) zero_memory es)"
    using foldl_parse_meminfo [OF assms(1), of junk zero_memory] by (simp add: s_def readMemoryStats_def)
  then show ?thesis by (simp add: derived_memory_def foldl_memory_fields)
qed

theorem meminfo_roundtrip_witness:
  "let es = [(''MemTotal:'', 1000), (''MemFree:'', 300), (''Cached:'', 200)];
       s = readMemoryStats (\<lambda>_. 77) (Some (unlines (map meminfo_line es))) in
   ms_total s = last_value ''MemTotal:'' es \<and> ms_free s = last_value ''MemFree:'' es \<and>
    ms_available s = last_value ''MemAvailable:'' es \<and> ms_buffers s = last_value ''Buffers:'' es \<and>
    ms_cached s = last_value ''Cached:'' es \<and> ms_swap_total s = last_value ''SwapTotal:'' es \<and>
    ms_swap_free s = last_value ''SwapFree:'' es \<and>
    ms_used s = last_value ''MemTotal:'' es - last_value ''MemFree:'' es - last_value ''Buffers:'' es
      - last_value ''Cached:'' es \<and>
    ms_swap_used s = last_value ''SwapTotal:'' es - last_value ''SwapFree:'' es"
  unfolding Let_def by (rule meminfo_roundtrip) (simp add: is_space_def char_code_def)

text \<open>
  A round of the memory collector, whatever rounds came before: the gauges hold the sizes
  in MB; a usage percentage is written only when the total is not 0, and lies between 0 and
  100 when the used size is at most the total and the total is below \<open>2 ^ 46\<close> kB; no metric of
  anybody else changes.
\<close>

theorem memory_collect_round:
  fixes junk f now
  assumes "memory_rounds rs (MemoryCollector t0 h0) = (h, c)"
  defines "s \<equiv> readMemoryStats junk f" and "h' \<equiv> memory_collect now junk f c h"
  shows "getCurrentValue (h' ! memory_total c) = ddiv (dbl_of_u64 (ms_total s)) (Fin 1024) \<and>
    getCurrentValue (h' ! memory_used c) = ddiv (dbl_of_u64 (ms_used s)) (Fin 1024) \<and>
    getCurrentValue (h' ! memory_free c) = ddiv (dbl_of_u64 (ms_free s)) (Fin 1024) \<and>
    (if ms_total s = 0
     then getCurrentValue (h' ! memory_usage_percent c) = getCurrentValue (h ! memory_usage_percent c)
     else unat (ms_used s) \<le> unat (ms_total s) \<and> unat (ms_total s) < 2 ^ 46 \<longrightarrow>
       (\<exists>y. getCurrentValue (h' ! memory_usage_percent c) = Fin y \<and> 0 \<le> y \<and> y \<le> 100)) \<and>
    (if ms_swap_total s = 0
     then getCurrentValue (h' ! swap_usage_percent c) = getCurrentValue (h ! swap_usage_percent c)
     else unat (ms_swap_used s) \<le> unat (ms_swap_total s) \<and> unat (ms_swap_total s) < 2 ^ 46 \<longrightarrow>
       (\<exists>y. getCurrentValue (h' ! swap_usage_percent c) = Fin y \<and> 0 \<le> y \<and> y \<le> 100)) \<and>
    (\<forall>q. q \<notin> set (memory_ptrs c) \<longrightarrow> h' ! q = h ! q)"
proof -
  have "mem_ok h c"
    using mem_ok_rounds [of "MemoryCollector t0 h0" rs] MemoryCollector_ok [of t0 h0] assms(1)
    by (metis fst_conv prod.collapse snd_conv)
  note v = memory_collect_values [OF this, where junk = junk and f = f and now = now, folded s_def h'_def]
  show ?thesis
    using v percent_of_range [of "ms_used s" "ms_total s"] percent_of_range [of "ms_swap_used s" "ms_swap_total s"]
    by (simp add: kb_to_mb_def)
qed

theorem memory_collect_round_witness:
  "let sc = memory_rounds [] (MemoryCollector 0 []); h = fst sc; c = snd sc;
       s = readMemoryStats (\<lambda>_. 0) None; h' = memory_collect (\<lambda>k. 5) (\<lambda>_. 0) None c h in
   getCurrentValue (h' ! memory_total c) = ddiv (dbl_of_u64 (ms_total s)) (Fin 1024) \<and>
    getCurrentValue (h' ! memory_used c) = ddiv (dbl_of_u64 (ms_used s)) (Fin 1024) \<and>
    getCurrentValue (h' ! memory_free c) = ddiv (dbl_of_u64 (ms_free s)) (Fin 1024) \<and>
    (if ms_total s = 0
     then getCurrentValue (h' ! memory_usage_percent c) = getCurrentValue (h ! memory_usage_percent c)
     else unat (ms_used s) \<le> unat (ms_total s) \<and> unat (ms_total s) < 2 ^ 46 \<longrightarrow>
       (\<exists>y. getCurrentValue (h' ! memory_usage_percent c) = Fin y \<and> 0 \<le> y \<and> y \<le> 100)) \<and>
    (if ms_swap_total s = 0
     then getCurrentValue (h' ! swap_usage_percent c) = getCurrentValue (h ! swap_usage_percent c)
     else unat (ms_swap_used s) \<le> unat (ms_swap_total s) \<and> unat (ms_swap_total s) < 2 ^ 46 \<longrightarrow>
       (\<exists>y. getCurrentValue (h' ! swap_usage_percent c) = Fin y \<and> 0 \<le> y \<and> y \<le> 100)) \<and>
    (\<forall>q. q \<notin> set (memory_ptrs c) \<longrightarrow> h' ! q = h ! q)"
  unfolding Let_def by (rule memory_collect_round [of "[]" 0 "[]"]) simp

end
