(* ===== verification/Collector_Threads.thy ===== *)
theory Collector_Threads
  imports Memory_Collector "HOL-Library.Sublist"
begin

text \<open>
  The threads of the two collectors: \<open>collectLoop\<close> of \<^verbatim>\<open>collector_base.hpp\<close> with \<open>collect\<close> step by
  step. A round reads its file at once and then updates one gauge after the other, each under the
  mutex of that gauge, so that another thread can see a round half done.
\<close>

section \<open>A round as its writes\<close>

text \<open>The gauges a round writes, with their values and the number of the reading of the clock.\<close>

type_synonym round_writes = "(nat \<times> nat \<times> dbl) list"

definition perform_writes :: "(nat \<Rightarrow> int) \<Rightarrow> round_writes \<Rightarrow> mstore \<Rightarrow> mstore" where
  "perform_writes now ws h = foldl (\<lambda>h (k, p, v). store_update p (now k) v h) h ws"

text \<open>\<open>None\<close> is an access outside a vector.\<close>

definition cpu_writes :: "cpu_stats list \<Rightarrow> cpu_collector \<Rightarrow> round_writes option" where
  "cpu_writes cur c =
     (if length cur \<noteq> length (prev_stats c) then Some []
      else if length (core_usage c) < length cur
      then Some (map (\<lambda>i. (i, (cpu_usage c # core_usage c) ! i, calculateCpuUsage (prev_stats c ! i) (cur ! i)))
                     [0..<Suc (length (core_usage c))])
      else None)"

definition memory_writes :: "memory_stats \<Rightarrow> memory_collector \<Rightarrow> round_writes" where
  "memory_writes stats c =
     [(0, memory_total c, kb_to_mb (ms_total stats)), (1, memory_used c, kb_to_mb (ms_used stats)),
      (2, memory_free c, kb_to_mb (ms_free stats))] @
     (if ms_total stats > 0 then [(3, memory_usage_percent c, percent_of (ms_used stats) (ms_total stats))] else []) @
     [(4, swap_total c, kb_to_mb (ms_swap_total stats)), (5, swap_used c, kb_to_mb (ms_swap_used stats))] @
     (if ms_swap_total stats > 0
      then [(6, swap_usage_percent c, percent_of (ms_swap_used stats) (ms_swap_total stats))] else [])"

text \<open>The writes of a round together are the round.\<close>

lemma memory_round_writes:
  "memory_collect now junk f c h = perform_writes now (memory_writes (readMemoryStats junk f) c) h"
  by (simp add: memory_collect_def memory_writes_def perform_writes_def Let_def)

lemma core_writes:
  "length prev = length cur \<Longrightarrow> i + length ps < length cur \<Longrightarrow>
    collect_cores now prev cur i ps h =
      Some (perform_writes now (map (\<lambda>k. (Suc (i + k), ps ! k, calculateCpuUsage (prev ! Suc (i + k)) (cur ! Suc (i + k))))
        [0..<length ps]) h)"
proof (induction ps arbitrary: i h)
  case (Cons p ps)
  have "[0..<length (p # ps)] = 0 # map Suc [0..<length ps]" by (simp add: upt_conv_Cons map_Suc_upt del: upt_Suc)
  then show ?case using Cons by (simp add: perform_writes_def comp_def del: upt_Suc)
qed (simp add: perform_writes_def)

lemma cpu_round_writes:
  assumes "cpu_ok (h, c)"
  shows "cpu_collect now f (h, c) =
    map_option (\<lambda>ws. (perform_writes now ws h, c\<lparr>prev_stats := readCpuStats f\<rparr>)) (cpu_writes (readCpuStats f) c)"
proof (cases "length (readCpuStats f) = length (prev_stats c) \<and> length (core_usage c) < length (prev_stats c)")
  case True
  have "[0..<Suc (length (core_usage c))] = 0 # map Suc [0..<length (core_usage c)]"
    by (simp add: upt_conv_Cons map_Suc_upt del: upt_Suc)
  then show ?thesis using True core_writes [of "prev_stats c" "readCpuStats f" 0 "core_usage c" now]
    by (simp add: cpu_collect_def cpu_writes_def perform_writes_def comp_def Let_def del: upt_Suc)
next
  case False
  then show ?thesis using cpu_collect_none [OF _ assms, of f] cpu_collect_resize [of f c now h]
    by (cases "length (readCpuStats f) = length (prev_stats c)") (simp_all add: cpu_writes_def perform_writes_def)
qed

section \<open>The thread\<close>

text \<open>
  A round begins with what it reads, \<open>sample\<close>: the writes and the object afterwards. \<open>cg_round\<close> has
  what is left of the round while \<open>collect\<close> runs; \<open>cg_read\<close>, the inputs read so far, is there to
  state properties.
\<close>

record ('c, 'i) collecting =
  cg_life :: lifecycle
  cg_object :: 'c
  cg_round :: "((nat \<times> dbl) list \<times> 'c) option"
  cg_read :: "'i list"

type_synonym ('c, 'i) sample = "'i \<Rightarrow> 'c \<Rightarrow> ((nat \<times> dbl) list \<times> 'c) option"

definition cpu_sample :: "(cpu_collector, string option) sample" where
  "cpu_sample proc_stat c =
     (let cur = readCpuStats proc_stat in
      map_option (\<lambda>ws. (map snd ws, c\<lparr>prev_stats := cur\<rparr>)) (cpu_writes cur c))"

definition memory_sample :: "(memory_collector, (string \<Rightarrow> u64) \<times> string option) sample" where
  "memory_sample input c = Some (map snd (memory_writes (readMemoryStats (fst input) (snd input)) c), c)"

definition collecting_of :: "lifecycle \<Rightarrow> 'c \<Rightarrow> ('c, 'i) collecting" where
  "collecting_of l c = \<lparr>cg_life = l, cg_object = c, cg_round = None, cg_read = []\<rparr>"

text \<open>One step of the thread, with the gauge it writes if it does; none if the round would go out of bounds.\<close>

definition collect_step ::
    "('c, 'i) sample \<Rightarrow> bool \<Rightarrow> 'i \<Rightarrow> ('c, 'i) collecting \<Rightarrow> (('c, 'i) collecting \<times> (nat \<times> dbl) option) option" where
  "collect_step sample elapsed input g =
     (if worker (cg_life g) \<noteq> InCollect
      then map_option (\<lambda>l. (g\<lparr>cg_life := l\<rparr>, None)) (collectLoop elapsed (cg_life g))
      else case cg_round g of
        None \<Rightarrow> map_option (\<lambda>r. (g\<lparr>cg_round := Some r, cg_read := cg_read g @ [input]\<rparr>, None)) (sample input (cg_object g))
      | Some ((p, v) # ws, c) \<Rightarrow> Some (g\<lparr>cg_round := Some (ws, c)\<rparr>, Some (p, v))
      | Some ([], c) \<Rightarrow>
          map_option (\<lambda>l. (g\<lparr>cg_life := l, cg_object := c, cg_round := None\<rparr>, None)) (collectLoop elapsed (cg_life g)))"

section \<open>What a collector has written\<close>

text \<open>The object after the rounds that read these inputs, and the writes of the round that reads the next.\<close>

fun object_after :: "('c, 'i) sample \<Rightarrow> 'c \<Rightarrow> 'i list \<Rightarrow> 'c" where
  "object_after sample c [] = c"
| "object_after sample c (i # inputs) =
     (case sample i c of None \<Rightarrow> c | Some (ws, c') \<Rightarrow> object_after sample c' inputs)"

fun writes_after :: "('c, 'i) sample \<Rightarrow> 'c \<Rightarrow> 'i list \<Rightarrow> (nat \<times> dbl) list" where
  "writes_after sample c [] = []"
| "writes_after sample c (i # inputs) =
     (case sample i c of None \<Rightarrow> [] | Some (ws, c') \<Rightarrow> ws @ writes_after sample c' inputs)"

text \<open>Every input can be read.\<close>

fun inputs_fit :: "('c, 'i) sample \<Rightarrow> 'c \<Rightarrow> 'i list \<Rightarrow> bool" where
  "inputs_fit sample c [] = True"
| "inputs_fit sample c (i # inputs) = (case sample i c of None \<Rightarrow> False | Some (ws, c') \<Rightarrow> inputs_fit sample c' inputs)"

lemma inputs_append:
  "inputs_fit sample c (is @ js) \<longleftrightarrow> inputs_fit sample c is \<and> inputs_fit sample (object_after sample c is) js"
  "inputs_fit sample c is \<Longrightarrow> object_after sample c (is @ js) = object_after sample (object_after sample c is) js"
  "inputs_fit sample c is \<Longrightarrow>
    writes_after sample c (is @ js) = writes_after sample c is @ writes_after sample (object_after sample c is) js"
  by (induction "is" arbitrary: c) (auto split: option.splits)

text \<open>The thread agrees with what it has read: only the end of the writes may still be to come.\<close>

definition collecting_ok :: "('c, 'i) sample \<Rightarrow> 'c \<Rightarrow> ('c, 'i) collecting \<Rightarrow> bool" where
  "collecting_ok sample c g \<longleftrightarrow> inputs_fit sample c (cg_read g) \<and>
     (case cg_round g of
        None \<Rightarrow> cg_object g = object_after sample c (cg_read g)
      | Some (ws, c') \<Rightarrow> c' = object_after sample c (cg_read g) \<and> suffix ws (writes_after sample c (cg_read g)))"

lemma collecting_ok_start: "collecting_ok sample c (collecting_of l c)"
  by (simp add: collecting_ok_def collecting_of_def)

lemma collect_step_ok:
  assumes "collecting_ok sample c g" and "collect_step sample elapsed i g = Some (g', w)"
  shows "collecting_ok sample c g' \<and> prefix (cg_read g) (cg_read g') \<and>
    (\<forall>x. w = Some x \<longrightarrow> x \<in> set (writes_after sample c (cg_read g')))"
proof (cases "worker (cg_life g) = InCollect")
  case False
  then have "\<exists>l. g' = g\<lparr>cg_life := l\<rparr>" "w = None" using assms(2) by (auto simp: collect_step_def)
  then show ?thesis using assms(1) by (cases "cg_round g") (auto simp: collecting_ok_def)
next
  case True
  show ?thesis
  proof (cases "cg_round g")
    case None
    then obtain ws c' where s: "sample i (cg_object g) = Some (ws, c')"
      "g' = g\<lparr>cg_round := Some (ws, c'), cg_read := cg_read g @ [i]\<rparr>" "w = None"
      using assms(2) True by (auto simp: collect_step_def)
    then show ?thesis using assms(1) None by (simp add: collecting_ok_def inputs_append suffix_def)
  next
    case (Some r)
    obtain ws c' where r: "r = (ws, c')" by fastforce
    show ?thesis
    proof (cases ws)
      case Nil
      then show ?thesis using assms Some True by (auto simp: r collect_step_def collecting_ok_def)
    next
      case (Cons x xs)
      then have "g' = g\<lparr>cg_round := Some (xs, c')\<rparr>" "w = Some x"
        using assms(2) Some True by (cases x; simp add: r collect_step_def)+
      moreover have "suffix (x # xs) (writes_after sample c (cg_read g))"
        using assms(1) Some Cons by (simp add: r collecting_ok_def)
      then have "suffix xs (writes_after sample c (cg_read g))" "x \<in> set (writes_after sample c (cg_read g))"
        by (auto simp: suffix_def)
      ultimately show ?thesis using assms(1) Some by (simp add: r collecting_ok_def)
    qed
  qed
qed

lemma writes_after_mono:
  assumes "inputs_fit sample c js" and "prefix is js" and "x \<in> set (writes_after sample c is)"
  shows "x \<in> set (writes_after sample c js)"
  using assms by (auto simp: prefix_def inputs_append)

section \<open>The two collectors\<close>

text \<open>Every write of the CPU collector is the usage between two successive readings of one line.\<close>

lemma cpu_sample_object: "cpu_sample f c = Some (ws, c') \<Longrightarrow> c' = c\<lparr>prev_stats := readCpuStats f\<rparr>"
  by (auto simp: cpu_sample_def Let_def)

lemma cpu_sample_write:
  assumes "cpu_sample f c = Some (ws, c')" and "(p, v) \<in> set ws"
  shows "\<exists>i \<le> length (core_usage c). p = (cpu_usage c # core_usage c) ! i \<and>
    v = calculateCpuUsage (prev_stats c ! i) (readCpuStats f ! i)"
proof -
  have "ws = map (\<lambda>i. ((cpu_usage c # core_usage c) ! i, calculateCpuUsage (prev_stats c ! i) (readCpuStats f ! i)))
      [0..<Suc (length (core_usage c))]"
    using assms by (auto simp: cpu_sample_def cpu_writes_def Let_def simp del: upt_Suc split: if_splits)
  then show ?thesis using assms(2) by (auto simp: less_Suc_eq_le simp del: upt_Suc)
qed

lemma cpu_writes_after:
  assumes "(p, v) \<in> set (writes_after cpu_sample c fs)" and "prev_stats c = readCpuStats f0"
  shows "\<exists>k i. k < length fs \<and> i \<le> length (core_usage c) \<and> p = (cpu_usage c # core_usage c) ! i \<and>
    v = calculateCpuUsage (readCpuStats ((f0 # fs) ! k) ! i) (readCpuStats (fs ! k) ! i)"
  using assms
proof (induction fs arbitrary: c f0)
  case (Cons f fs)
  obtain ws c' where s: "cpu_sample f c = Some (ws, c')"
    using Cons.prems(1) by (cases "cpu_sample f c") auto
  have c': "c' = c\<lparr>prev_stats := readCpuStats f\<rparr>" by (rule cpu_sample_object [OF s])
  consider "(p, v) \<in> set ws" | "(p, v) \<in> set (writes_after cpu_sample c' fs)" using Cons.prems(1) s by auto
  then show ?case
  proof cases
    case 1
    then obtain i where "i \<le> length (core_usage c)" "p = (cpu_usage c # core_usage c) ! i"
      "v = calculateCpuUsage (readCpuStats f0 ! i) (readCpuStats f ! i)"
      using cpu_sample_write [OF s] Cons.prems(2) by auto
    then show ?thesis by (intro exI [of _ 0] exI [of _ i]) simp
  next
    case 2
    from Cons.IH [OF this, of f] c' obtain k i where "k < length fs" "i \<le> length (core_usage c)"
      "p = (cpu_usage c # core_usage c) ! i"
      "v = calculateCpuUsage (readCpuStats ((f # fs) ! k) ! i) (readCpuStats (fs ! k) ! i)" by auto
    then show ?thesis by (intro exI [of _ "Suc k"] exI [of _ i]) simp
  qed
qed simp

text \<open>Every write of the memory collector is of one reading.\<close>

lemma memory_object_after [simp]: "object_after memory_sample c is = c"
  by (induction "is") (simp_all add: memory_sample_def)

lemma memory_writes_after:
  "set (writes_after memory_sample c is) =
    (\<Union>i \<in> set is. snd ` set (memory_writes (readMemoryStats (fst i) (snd i)) c))"
  by (induction "is") (simp_all add: memory_sample_def)

end
