(* ===== verification/Capture_Threads.thy ===== *)
theory Capture_Threads
  imports Packet_Capture Event_Machine
begin

text \<open>
  \<^verbatim>\<open>network/packet_capture.cpp\<close>: the capture object under its two threads. The owner starts,
  stops and registers handlers; the capture thread runs \<open>captureThreadFunc\<close>. Every access to an
  atomic member, every call of libpcap and every block under the handler mutex is one step. The
  machine is then shown to refine the operations of the object taken one at a time.
\<close>

section \<open>State\<close>

text \<open>
  Where the capture thread stands. \<open>AtRest\<close> is a thread object that is not joinable; the packet of
  \<open>Counting\<close> is about to be counted, that of \<open>Sized\<close> is counted but its size is not, and that of
  \<open>Handling\<close> waits for the mutex.
\<close>

datatype capture_pc =
  AtRest | AtTest | AtRead | Counting packet_info | Sized packet_info | Handling packet_info | AtEnd

text \<open>
  \<open>stop_waits\<close>: the owner is in \<open>stopCapture\<close>, past the assignment to the flag. \<open>ended\<close> says how
  the process ended, if it did.
\<close>

record ('h, 'w) capture_system =
  the_object :: "('h, 'w) capture"
  handled :: 'w
  thread_at :: capture_pc
  stop_waits :: bool
  ended :: "crash option"

definition capture_system :: "packet_info \<Rightarrow> 'w \<Rightarrow> ('h, 'w) capture_system" where
  "capture_system d w =
     \<lparr>the_object = capture_init d, handled = w, thread_at = AtRest, stop_waits = False, ended = None\<rparr>"

section \<open>Steps\<close>

datatype ('h, 'w) capture_event =
  StartCall "string + 'h" | StopCall | JoinThread | RegisterCall "'w packet_handler" | ThreadStep packet_info int pcap_frame

text \<open>\<open>startCapture\<close>: a thread that is started begins with the test of the flag.\<close>

definition start_step :: "string + 'h \<Rightarrow> ('h, 'w) capture_system \<Rightarrow> ('h, 'w) capture_system" where
  "start_step opened s =
     (case startCapture opened (the_object s) of
        Inl e \<Rightarrow> s\<lparr>ended := Some e\<rparr>
      | Inr (err, c) \<Rightarrow>
          if \<not> is_capturing (the_object s) \<and> is_capturing c then s\<lparr>the_object := c, thread_at := AtTest\<rparr>
          else s\<lparr>the_object := c\<rparr>)"

text \<open>\<open>stopCapture\<close> up to the assignment to the flag ...\<close>

definition stop_step :: "('h, 'w) capture_system \<Rightarrow> ('h, 'w) capture_system" where
  "stop_step s =
     (if \<not> is_capturing (the_object s) then s
      else s\<lparr>the_object := (the_object s)\<lparr>is_capturing := False\<rparr>, stop_waits := True\<rparr>)"

text \<open>... and from the join, which waits for a joinable thread to leave its loop, to the end.\<close>

definition close_handle :: "'h option option \<Rightarrow> 'h option option" where
  "close_handle p = map_option (\<lambda>_. None) p"

definition join_step :: "('h, 'w) capture_system \<Rightarrow> ('h, 'w) capture_system option" where
  "join_step s =
     (if \<not> stop_waits s \<or> (capture_thread (the_object s) \<and> thread_at s \<noteq> AtEnd) then None
      else
        let s = s\<lparr>the_object := (the_object s)\<lparr>capture_thread := False\<rparr>, thread_at := AtRest, stop_waits := False\<rparr>
        in Some (if pimpl (the_object s) = None then s\<lparr>ended := Some NullPointer\<rparr>
                 else s\<lparr>the_object := (the_object s)\<lparr>pimpl := close_handle (pimpl (the_object s))\<rparr>\<rparr>))"

definition register_step :: "'w packet_handler \<Rightarrow> ('h, 'w) capture_system \<Rightarrow> ('h, 'w) capture_system" where
  "register_step h s = s\<lparr>the_object := registerHandler h (the_object s)\<rparr>"

text \<open>
  One step of \<open>captureThreadFunc\<close> and \<open>processPacket\<close>. A read on a null handle is a crash, and so is
  a read of the decoder outside the frame; nothing can be said of what follows.
\<close>

definition thread_step ::
    "(packet_info \<Rightarrow> packet_info) \<Rightarrow> packet_info \<Rightarrow> int \<Rightarrow> pcap_frame \<Rightarrow> ('h, 'w) capture_system
      \<Rightarrow> ('h, 'w) capture_system option" where
  "thread_step mv junk res fr s =
     (case thread_at s of
        AtTest \<Rightarrow> Some (s\<lparr>thread_at := if is_capturing (the_object s) then AtRead else AtEnd\<rparr>)
      | AtRead \<Rightarrow>
          (case pimpl (the_object s) of
             Some (Some h) \<Rightarrow>
               (case capturePacket junk res fr of
                  None \<Rightarrow> Some (s\<lparr>ended := Some OutOfBounds\<rparr>)
                | Some p \<Rightarrow> Some (s\<lparr>thread_at := if pk_size p > 0 then Counting p else AtTest\<rparr>))
           | _ \<Rightarrow> Some (s\<lparr>ended := Some NullPointer\<rparr>))
      | Counting p \<Rightarrow>
          Some (s\<lparr>the_object := (the_object s)\<lparr>packets_captured := packets_captured (the_object s) + 1\<rparr>, thread_at := Sized p\<rparr>)
      | Sized p \<Rightarrow>
          Some (s\<lparr>the_object := (the_object s)\<lparr>bytes_captured := bytes_captured (the_object s) + pk_size p\<rparr>,
                  thread_at := Handling p\<rparr>)
      | Handling p \<Rightarrow>
          (let w = foldl (\<lambda>w handler. handler p w) (handled s) (handlers (the_object s));
               (_, _, b) = cb_push_move mv 1024 p (packet_buffer (the_object s))
           in Some (s\<lparr>the_object := (the_object s)\<lparr>packet_buffer := b\<rparr>, handled := w, thread_at := AtTest\<rparr>))
      | _ \<Rightarrow> None)"

text \<open>The owner is one thread: it makes no call while it waits in \<open>stopCapture\<close>.\<close>

definition system_step ::
    "(packet_info \<Rightarrow> packet_info) \<Rightarrow> ('h, 'w) capture_event \<Rightarrow> ('h, 'w) capture_system
      \<Rightarrow> ('h, 'w) capture_system option" where
  "system_step mv e s =
     (if ended s \<noteq> None then None
      else case e of
        StartCall opened \<Rightarrow> (if stop_waits s then None else Some (start_step opened s))
      | StopCall \<Rightarrow> (if stop_waits s then None else Some (stop_step s))
      | JoinThread \<Rightarrow> join_step s
      | RegisterCall h \<Rightarrow> (if stop_waits s then None else Some (register_step h s))
      | ThreadStep junk res fr \<Rightarrow> thread_step mv junk res fr s)"

section \<open>Refinement of the object's operations\<close>

text \<open>
  The object as the operations one at a time would have it: a stop takes effect at its join, and a
  packet at its handling, with its share of the counters.
\<close>

definition settled :: "('h, 'w) capture_system \<Rightarrow> ('h, 'w) capture" where
  "settled s =
     (let c = the_object s; c = (if stop_waits s then c\<lparr>is_capturing := True\<rparr> else c) in
      case thread_at s of
        Sized p \<Rightarrow> c\<lparr>packets_captured := packets_captured c - 1\<rparr>
      | Handling p \<Rightarrow> c\<lparr>packets_captured := packets_captured c - 1, bytes_captured := bytes_captured c - pk_size p\<rparr>
      | _ \<Rightarrow> c)"

fun pending :: "capture_pc \<Rightarrow> packet_info option" where
  "pending (Counting p) = Some p"
| "pending (Sized p) = Some p"
| "pending (Handling p) = Some p"
| "pending _ = None"

definition system_ok :: "('h, 'w) capture_system \<Rightarrow> bool" where
  "system_ok s \<longleftrightarrow> ended s = None \<and> capture_inv (settled s) \<and>
     (thread_at s = AtRest \<longleftrightarrow> \<not> is_capturing (settled s)) \<and>
     (stop_waits s \<longrightarrow> \<not> is_capturing (the_object s)) \<and>
     (thread_at s = AtEnd \<longrightarrow> stop_waits s) \<and>
     (\<forall>p. pending (thread_at s) = Some p \<longrightarrow> 0 < pk_size p)"

text \<open>The operation a step completes.\<close>

definition completed ::
    "('h, 'w) capture_event \<Rightarrow> ('h, 'w) capture_system \<Rightarrow> ('h, 'w) capture_op list" where
  "completed e s =
     (case e of
        StartCall opened \<Rightarrow> [StartOp opened]
      | StopCall \<Rightarrow> (if is_capturing (the_object s) then [] else [StopOp])
      | JoinThread \<Rightarrow> [StopOp]
      | RegisterCall h \<Rightarrow> [RegisterOp h]
      | ThreadStep junk res fr \<Rightarrow> (case thread_at s of Handling p \<Rightarrow> [PacketOp p] | _ \<Rightarrow> []))"

abbreviation history ::
    "(packet_info \<Rightarrow> packet_info) \<Rightarrow> ('h, 'w) capture_event list \<Rightarrow> ('h, 'w) capture_system
      \<Rightarrow> ('h, 'w) capture_op list" where
  "history mv es s \<equiv> run_labels completed (system_step mv) es s"

text \<open>The operations of the object as a machine.\<close>

definition object_step ::
    "(packet_info \<Rightarrow> packet_info) \<Rightarrow> ('h, 'w) capture_op \<Rightarrow> ('h, 'w) capture \<times> 'w
      \<Rightarrow> (('h, 'w) capture \<times> 'w) option" where
  "object_step mv x s = (case capture_step mv x s of Inl e \<Rightarrow> None | Inr s' \<Rightarrow> Some s')"

lemma object_run: "run_events (object_step mv) xs s = Some s' \<longleftrightarrow> capture_ops mv xs s = Inr s'"
  by (induction xs arbitrary: s) (simp_all add: object_step_def split: sum.splits)

lemma system_ok_init: "system_ok (capture_system d w)"
  using capture_inv_init [of d]
  by (simp add: system_ok_def capture_system_def settled_def) (simp add: capture_init_def)

lemmas capture_inv_defs = capture_inv_def startCapture_def openInterface_def stopCapture_def registerHandler_def

lemma settled_fields:
  "is_capturing (settled s) \<longleftrightarrow> is_capturing (the_object s) \<or> stop_waits s"
  "pimpl (settled s) = pimpl (the_object s)"
  "capture_thread (settled s) = capture_thread (the_object s)"
  "packet_buffer (settled s) = packet_buffer (the_object s)"
  "handlers (settled s) = handlers (the_object s)"
  by (cases "thread_at s"; simp add: settled_def Let_def)+

lemma settled_quiet:
  "pending (thread_at s) = None \<Longrightarrow>
    settled s = (if stop_waits s then (the_object s)\<lparr>is_capturing := True\<rparr> else the_object s)"
  by (cases "thread_at s") (simp_all add: settled_def)

lemma system_ok_fields:
  "system_ok s \<longleftrightarrow> ended s = None \<and> pimpl (the_object s) \<noteq> None \<and>
     capture_thread (the_object s) = (thread_at s \<noteq> AtRest) \<and>
     (thread_at s \<noteq> AtRest \<longleftrightarrow> is_capturing (the_object s) \<or> stop_waits s) \<and>
     (thread_at s \<noteq> AtRest \<longleftrightarrow> (\<exists>h. pimpl (the_object s) = Some (Some h))) \<and>
     cb_inv 1024 (packet_buffer (the_object s)) \<and>
     (stop_waits s \<longrightarrow> \<not> is_capturing (the_object s)) \<and> (thread_at s = AtEnd \<longrightarrow> stop_waits s) \<and>
     (\<forall>p. pending (thread_at s) = Some p \<longrightarrow> 0 < pk_size p)"
  by (auto simp: system_ok_def capture_inv_def settled_fields)

lemma start_refines:
  assumes "system_ok s" and "\<not> stop_waits s"
  shows "system_ok (start_step opened s) \<and>
    capture_step mv (StartOp opened) (settled s, handled s) = Inr (settled (start_step opened s), handled (start_step opened s))"
proof (cases "is_capturing (the_object s)")
  case True
  then have "start_step opened s = s" by (simp add: start_step_def startCapture_def)
  moreover have "startCapture opened (settled s) = Inr (ALREADY_RUNNING, settled s)"
    using True by (simp add: startCapture_def settled_fields)
  ultimately show ?thesis using assms by simp
next
  case False
  then have r: "thread_at s = AtRest" using assms by (simp add: system_ok_fields)
  then have "settled s = the_object s" using assms(2) by (simp add: settled_quiet)
  then show ?thesis
    using assms False r
    by (cases opened) (auto simp: start_step_def system_ok_fields settled_quiet startCapture_def openInterface_def
        split: option.splits)
qed

lemma stop_refines:
  assumes "system_ok s" and "\<not> stop_waits s"
  shows "system_ok (stop_step s) \<and>
    capture_ops mv (completed StopCall s) (settled s, handled s) = Inr (settled (stop_step s), handled (stop_step s))"
proof (cases "is_capturing (the_object s)")
  case True
  then have "settled (stop_step s) = settled s"
    using assms(2) by (cases "thread_at s") (simp_all add: stop_step_def settled_def Let_def)
  then show ?thesis
    using assms True by (auto simp: completed_def system_ok_fields stop_step_def)
next
  case False
  then show ?thesis
    using assms by (simp add: stop_step_def completed_def stopCapture_def settled_fields)
qed

lemma join_refines:
  assumes "system_ok s" and "join_step s = Some s'"
  shows "system_ok s' \<and> capture_step mv StopOp (settled s, handled s) = Inr (settled s', handled s')"
proof -
  have w: "stop_waits s" "thread_at s = AtEnd" "\<not> is_capturing (the_object s)"
    using assms by (auto simp: join_step_def system_ok_fields split: if_splits)
  then have "settled s = (the_object s)\<lparr>is_capturing := True\<rparr>" by (simp add: settled_quiet)
  moreover obtain h where "pimpl (the_object s) = Some (Some h)"
    using assms(1) w by (auto simp: system_ok_fields)
  ultimately show ?thesis
    using assms w
    by (auto simp: join_step_def system_ok_fields settled_quiet stopCapture_def close_handle_def Let_def)
qed

lemma register_refines:
  assumes "system_ok s"
  shows "system_ok (register_step h s) \<and>
    capture_step mv (RegisterOp h) (settled s, handled s) = Inr (settled (register_step h s), handled (register_step h s))"
proof -
  have "settled (register_step h s) = registerHandler h (settled s)"
    by (cases "thread_at s") (simp_all add: settled_def register_step_def registerHandler_def Let_def)
  then show ?thesis
    using assms by (auto simp: system_ok_fields register_step_def registerHandler_def)
qed

text \<open>A step of the thread that is not the handling of a packet changes nothing that is settled.\<close>

lemma thread_refines:
  assumes "system_ok s" and "thread_step mv junk res fr s = Some s'"
    and "thread_at s = AtRead \<Longrightarrow> capturePacket junk res fr \<noteq> None"
  shows "system_ok s' \<and>
    capture_ops mv (completed (ThreadStep junk res fr) s) (settled s, handled s) = Inr (settled s', handled s')"
proof (cases "thread_at s")
  case (Handling p)
  have p: "0 < pk_size p" "is_capturing (settled s)"
    using assms(1) Handling by (auto simp: system_ok_fields settled_fields)
  let ?b = "snd (cb_push 1024 p (packet_buffer (the_object s)))"
  have s': "s' = s\<lparr>the_object := (the_object s)\<lparr>packet_buffer := ?b\<rparr>,
      handled := foldl (\<lambda>w h. h p w) (handled s) (handlers (the_object s)), thread_at := AtTest\<rparr>"
    using assms(2) Handling by (simp add: thread_step_def Let_def case_prod_beta snd_snd_push_move)
  have "settled s' = fst (capture_process mv p (settled s) (handled s))"
    unfolding capture_process_simps settled_fields
    by (cases "stop_waits s") (simp_all add: s' settled_def Handling Let_def)
  moreover have "handled s' = snd (capture_process mv p (settled s) (handled s))"
    unfolding capture_process_simps settled_fields by (simp add: s')
  moreover have "system_ok s'"
    using assms(1) Handling by (simp add: s' system_ok_fields cb_push_inv)
  ultimately show ?thesis using p by (simp add: completed_def Handling)
next
  case AtTest
  then show ?thesis
    using assms by (auto simp: thread_step_def completed_def system_ok_fields settled_quiet)
next
  case AtRead
  then obtain h where h: "pimpl (the_object s) = Some (Some h)" using assms(1) by (auto simp: system_ok_fields)
  then obtain p where "capturePacket junk res fr = Some p"
    "s' = s\<lparr>thread_at := if pk_size p > 0 then Counting p else AtTest\<rparr>"
    using assms(2,3) AtRead by (auto simp: thread_step_def)
  then show ?thesis
    using assms(1) AtRead h by (auto simp: completed_def system_ok_fields settled_def)
next
  case (Counting p)
  then show ?thesis
    using assms by (auto simp: thread_step_def completed_def system_ok_fields settled_def Let_def)
next
  case (Sized p)
  then show ?thesis
    using assms by (auto simp: thread_step_def completed_def system_ok_fields settled_def Let_def)
qed (use assms in \<open>simp_all add: thread_step_def\<close>)

text \<open>A step that makes the decoder read outside the frame; it ends the process, and changes nothing before.\<close>

definition over_reads :: "('h, 'w) capture_event \<Rightarrow> ('h, 'w) capture_system \<Rightarrow> bool" where
  "over_reads e s \<longleftrightarrow>
     (case e of ThreadStep junk res fr \<Rightarrow> thread_at s = AtRead \<and> capturePacket junk res fr = None | _ \<Rightarrow> False)"

lemma over_read_step:
  assumes "system_ok s" and "over_reads e s"
  shows "system_step mv e s = Some (s\<lparr>ended := Some OutOfBounds\<rparr>) \<and> completed e s = []"
  using assms by (cases e) (auto simp: over_reads_def system_step_def thread_step_def completed_def system_ok_fields)

lemma system_refines:
  assumes "system_ok s" and "system_step mv e s = Some s'" and "\<not> over_reads e s"
  shows "system_ok s' \<and> capture_ops mv (completed e s) (settled s, handled s) = Inr (settled s', handled s')"
proof (cases e)
  case (StartCall opened)
  then show ?thesis
    using assms start_refines [of s opened mv] by (auto simp: system_step_def completed_def split: if_splits)
next
  case StopCall
  then show ?thesis
    using assms stop_refines [of s mv] by (auto simp: system_step_def split: if_splits)
next
  case JoinThread
  then show ?thesis
    using assms join_refines [of s s' mv] by (auto simp: system_step_def completed_def split: if_splits)
next
  case (RegisterCall h)
  then show ?thesis
    using assms register_refines [of s h mv] by (auto simp: system_step_def completed_def split: if_splits)
next
  case (ThreadStep junk res fr)
  then show ?thesis
    using assms thread_refines [of s mv junk res fr s']
    by (auto simp: system_step_def over_reads_def split: if_splits)
qed

text \<open>With the process ended by such a read, the object is as it was.\<close>

definition system_inv :: "('h, 'w) capture_system \<Rightarrow> bool" where
  "system_inv s \<longleftrightarrow> (ended s = None \<or> ended s = Some OutOfBounds) \<and> system_ok (s\<lparr>ended := None\<rparr>)"

lemma system_inv_ok: "system_ok s \<Longrightarrow> system_inv s" "system_inv s \<Longrightarrow> ended s = None \<Longrightarrow> system_ok s"
  by (cases s, simp add: system_inv_def system_ok_def)+

lemma settled_ended: "settled (s\<lparr>ended := x\<rparr>) = settled s"
  by (cases "thread_at s") (simp_all add: settled_def Let_def)

lemma system_inv_step:
  assumes "system_inv s" and "system_step mv e s = Some s'"
  shows "system_inv s' \<and> capture_ops mv (completed e s) (settled s, handled s) = Inr (settled s', handled s')"
proof -
  have "ended s = None" using assms(2) by (simp add: system_step_def split: if_splits)
  then have ok: "system_ok s" using assms(1) by (rule system_inv_ok(2) [rotated])
  show ?thesis
  proof (cases "over_reads e s")
    case True
    then have "s' = s\<lparr>ended := Some OutOfBounds\<rparr>" "completed e s = []" using over_read_step [OF ok True, of mv] assms(2) by simp_all
    moreover have "s\<lparr>ended := None\<rparr> = s" using ok by (cases s) (simp add: system_ok_def)
    ultimately show ?thesis using ok by (simp add: system_inv_def settled_ended)
  next
    case False
    then show ?thesis using system_refines [OF ok assms(2)] system_inv_ok(1) by blast
  qed
qed

lemma system_inv_init: "system_inv (capture_system d w)"
  by (rule system_inv_ok(1) [OF system_ok_init])

interpretation capture_threads: started_machine "system_step mv" "\<lambda>e s. True" system_inv "capture_system d w"
  by unfold_locales (auto dest: system_inv_step intro: system_inv_init)

interpretation linearized: machine_simulation "system_step mv" "\<lambda>e s. True" system_inv
    "object_step mv" "\<lambda>x s. True" "\<lambda>s. (settled s, handled s)" completed
  by unfold_locales (auto simp: object_run dest: system_inv_step)

text \<open>The process has not ended but by the last step.\<close>

lemma ended_by_last:
  assumes "run_events (system_step mv) es (capture_system d w) = Some s" and "ended s \<noteq> None"
  shows "\<exists>es' e s0. es = es' @ [e] \<and> run_events (system_step mv) es' (capture_system d w) = Some s0 \<and> over_reads e s0"
proof -
  have "es \<noteq> []" using assms by (auto simp: capture_system_def)
  then obtain es' e where es: "es = es' @ [e]" by (metis rev_exhaust)
  then obtain s0 where s0: "run_events (system_step mv) es' (capture_system d w) = Some s0" "system_step mv e s0 = Some s"
    using assms(1) by (auto simp: run_events_append split: Option.bind_splits option.splits)
  have "system_inv s0" using s0(1) by (intro capture_threads.reachable) simp_all
  moreover have "ended s0 = None" using s0(2) by (simp add: system_step_def split: if_splits)
  ultimately have "system_ok s0" by (rule system_inv_ok(2))
  then have "over_reads e s0" using system_refines [OF _ s0(2)] assms(2) by (auto simp: system_ok_def)
  then show ?thesis using es s0(1) by blast
qed

lemma capture_system_settled: "settled (capture_system d w) = capture_init d \<and> handled (capture_system d w) = w"
  by (simp add: capture_system_def settled_def)

section \<open>Packets on their way\<close>

text \<open>The packets a step reads, empty ones left out; those in the hand of the thread; those it hands over.\<close>

definition read_packets :: "('h, 'w) capture_event \<Rightarrow> ('h, 'w) capture_system \<Rightarrow> packet_info list" where
  "read_packets e s =
     (case e of
        ThreadStep junk res fr \<Rightarrow>
          (case capturePacket junk res fr of
             Some p \<Rightarrow> if thread_at s = AtRead \<and> 0 < pk_size p then [p] else []
           | None \<Rightarrow> [])
      | _ \<Rightarrow> [])"

definition in_hand :: "('h, 'w) capture_system \<Rightarrow> packet_info list" where
  "in_hand s = (case pending (thread_at s) of None \<Rightarrow> [] | Some p \<Rightarrow> [p])"

definition handed_over :: "('h, 'w) capture_event \<Rightarrow> ('h, 'w) capture_system \<Rightarrow> packet_info list" where
  "handed_over e s =
     (case e of ThreadStep junk res fr \<Rightarrow> (case thread_at s of Handling p \<Rightarrow> [p] | _ \<Rightarrow> []) | _ \<Rightarrow> [])"

text \<open>Without further registrations: every packet read passes through the hand to the handlers, in order.\<close>

lemma packets_pass:
  assumes ok: "system_ok s" and ev: "\<And>h. e \<noteq> RegisterCall h" and step: "system_step mv e s = Some s'"
  shows "handlers (the_object s') = handlers (the_object s) \<and>
    handled s' = foldl (\<lambda>w p. foldl (\<lambda>w h. h p w) w (handlers (the_object s))) (handled s) (handed_over e s) \<and>
    in_hand s @ read_packets e s = handed_over e s @ in_hand s'"
proof (cases e)
  case (StartCall opened)
  then show ?thesis
    using step ok
    by (auto simp: system_step_def start_step_def startCapture_def openInterface_def system_ok_fields
        in_hand_def read_packets_def handed_over_def split: if_splits option.splits sum.splits)
next
  case StopCall
  then show ?thesis
    using step
    by (auto simp: system_step_def stop_step_def in_hand_def read_packets_def handed_over_def split: if_splits)
next
  case JoinThread
  then show ?thesis
    using step ok
    by (auto simp: system_step_def join_step_def system_ok_fields Let_def in_hand_def read_packets_def
        handed_over_def split: if_splits)
next
  case (RegisterCall h)
  then show ?thesis using ev by blast
next
  case (ThreadStep junk res fr)
  then have t: "thread_step mv junk res fr s = Some s'"
    using step by (auto simp: system_step_def split: if_splits)
  show ?thesis
  proof (cases "thread_at s")
    case (Handling p)
    then show ?thesis
      using t ThreadStep
      by (auto simp: thread_step_def case_prod_beta Let_def in_hand_def read_packets_def handed_over_def
          split: option.splits)
  next
    case AtRead
    then show ?thesis
      using t ok ThreadStep
      by (auto simp: thread_step_def system_ok_fields in_hand_def read_packets_def handed_over_def split: option.splits)
  qed (use t ThreadStep in \<open>auto simp: thread_step_def in_hand_def read_packets_def handed_over_def
        split: option.splits if_splits\<close>)
qed

section \<open>Properties\<close>

text \<open>
  C19: The capture object is linearizable. Under every interleaving of the owner's calls with the
  capture thread nothing crashes, but at a frame that makes the decoder read out of bounds, and
  libpcap is never called on a closed handle; the object, its
  counters, its ring and what the handlers have done are what the calls and packets taken one at a
  time give, a stop at the moment its join returns and a packet at the moment it is handled; and
  whenever no packet is in hand the handle is open and the thread joinable exactly while the object
  captures or a stop waits.
\<close>

theorem capture_threads_linearizable:
  assumes "run_events (system_step mv) es (capture_system d w) = Some s"
  shows "(ended s = None \<or> ended s = Some OutOfBounds \<and>
      (\<exists>es' e s0. es = es' @ [e] \<and> run_events (system_step mv) es' (capture_system d w) = Some s0 \<and> over_reads e s0)) \<and>
    capture_ops mv (history mv es (capture_system d w)) (capture_init d, w) = Inr (settled s, handled s) \<and>
    (pending (thread_at s) = None \<and> \<not> stop_waits s \<longrightarrow> settled s = the_object s \<and> capture_inv (the_object s))"
proof -
  have ok: "system_inv s" using assms by (intro capture_threads.reachable) simp_all
  have "capture_ops mv (history mv es (capture_system d w)) (capture_init d, w) = Inr (settled s, handled s)"
    using linearized.run_simulates [OF system_inv_init run_allowed_True assms]
    by (simp add: object_run capture_system_settled)
  moreover have "settled s = the_object s \<and> capture_inv (the_object s)"
    if "pending (thread_at s) = None" "\<not> stop_waits s"
    using ok that settled_quiet [of s] by (simp add: system_inv_def system_ok_def settled_ended)
  moreover have "ended s = None \<or> ended s = Some OutOfBounds" using ok by (simp add: system_inv_def)
  ultimately show ?thesis using ended_by_last [OF assms] by blast
qed

definition sample_schedule :: "(nat, nat) capture_event list" where
  "sample_schedule =
     (let go = ThreadStep junk_packet 1 sample_frame in
      [StartCall (Inr 1), go, go, go, StopCall, go, go, go, JoinThread])"

lemma sample_schedule_runs:
  assumes "capturePacket junk_packet 1 sample_frame = Some p" and "pk_size p = 54"
  shows "\<exists>s. run_events (system_step id) sample_schedule (capture_system junk_packet 0) = Some s \<and>
    history id sample_schedule (capture_system junk_packet 0) = [StartOp (Inr 1), PacketOp p, StopOp] \<and>
    pending (thread_at s) = None \<and> \<not> stop_waits s \<and> ended s = None"
  using assms
  by (simp add: sample_schedule_def system_step_def capture_system_def start_step_def startCapture_def
      openInterface_def capture_init_def thread_step_def stop_step_def join_step_def completed_def
      case_prod_beta Let_def)

theorem capture_threads_linearizable_witness:
  "\<exists>s p. run_events (system_step id) sample_schedule (capture_system junk_packet 0) = Some s \<and> ended s = None \<and>
    capture_ops id [StartOp (Inr 1), PacketOp p, StopOp] (capture_init junk_packet, 0) = Inr (the_object s, handled s)"
proof -
  obtain p where p: "capturePacket junk_packet 1 sample_frame = Some p" "pk_size p = 54"
    using sample_frame_decodes by blast
  obtain s where s: "run_events (system_step id) sample_schedule (capture_system junk_packet 0) = Some s"
    "history id sample_schedule (capture_system junk_packet 0) = [StartOp (Inr 1), PacketOp p, StopOp]"
    "pending (thread_at s) = None" "\<not> stop_waits s" "ended s = None"
    using sample_schedule_runs [OF p] by blast
  note t = capture_threads_linearizable [OF s(1)]
  then have "settled s = the_object s" using s(3,4) by blast
  then show ?thesis using t s(1,2,5) by (intro exI [of _ s] exI [of _ p]) simp
qed

text \<open>How many steps the thread is from its end, and whether it may still handle a packet.\<close>

fun steps_to_end :: "capture_pc \<Rightarrow> nat" where
  "steps_to_end AtRead = 5"
| "steps_to_end (Counting p) = 4"
| "steps_to_end (Sized p) = 3"
| "steps_to_end (Handling p) = 2"
| "steps_to_end AtTest = 1"
| "steps_to_end _ = 0"

definition may_handle :: "capture_pc \<Rightarrow> nat" where
  "may_handle pc = (if pc = AtTest \<or> pc = AtEnd then 0 else 1)"

lemma thread_towards_end:
  assumes "system_ok s" and "stop_waits s" and "thread_at s \<noteq> AtEnd" and "capturePacket junk res fr \<noteq> None"
  shows "\<exists>s1. system_step mv (ThreadStep junk res fr) s = Some s1 \<and> stop_waits s1 \<and>
    steps_to_end (thread_at s1) < steps_to_end (thread_at s) \<and>
    length (completed (ThreadStep junk res fr) s) + may_handle (thread_at s1) \<le> may_handle (thread_at s)"
  using assms
  by (intro exI [of _ "the (system_step mv (ThreadStep junk res fr) s)"], cases "thread_at s")
    (auto simp: system_step_def thread_step_def completed_def may_handle_def system_ok_fields Let_def case_prod_beta)

definition thread_events :: "(packet_info \<times> int \<times> pcap_frame) list \<Rightarrow> ('h, 'w) capture_event list" where
  "thread_events ins = map (\<lambda>(junk, res, fr). ThreadStep junk res fr) ins"

lemma thread_ends:
  "system_ok s \<Longrightarrow> stop_waits s \<Longrightarrow> steps_to_end (thread_at s) \<le> length ins \<Longrightarrow>
    \<forall>(junk, res, fr) \<in> set ins. capturePacket junk res fr \<noteq> None \<Longrightarrow>
    \<exists>k s'. run_events (system_step mv) (thread_events (take k ins)) s = Some s' \<and>
      system_ok s' \<and> stop_waits s' \<and> thread_at s' = AtEnd \<and>
      length (history mv (thread_events (take k ins)) s) \<le> may_handle (thread_at s)"
proof (induction ins arbitrary: s)
  case Nil
  then have "thread_at s = AtEnd" by (cases "thread_at s") (auto simp: system_ok_fields)
  then show ?case using Nil by (simp add: thread_events_def)
next
  case (Cons i ins)
  obtain junk res fr where i: "i = (junk, res, fr)" by (cases i)
  show ?case
  proof (cases "thread_at s = AtEnd")
    case True
    then show ?thesis using Cons.prems by (intro exI [of _ 0]) (simp add: thread_events_def)
  next
    case False
    obtain s1 where s1: "system_step mv (ThreadStep junk res fr) s = Some s1" "stop_waits s1"
      "steps_to_end (thread_at s1) < steps_to_end (thread_at s)"
      "length (completed (ThreadStep junk res fr) s) + may_handle (thread_at s1) \<le> may_handle (thread_at s)"
      using thread_towards_end [OF Cons.prems(1,2) False, of junk res fr mv] Cons.prems(4) by (auto simp: i)
    moreover have "\<not> over_reads (ThreadStep junk res fr) s" using Cons.prems(4) by (simp add: i over_reads_def)
    ultimately have "system_ok s1" using system_refines [OF Cons.prems(1)] by blast
    then obtain k s' where k: "run_events (system_step mv) (thread_events (take k ins)) s1 = Some s'"
      "system_ok s'" "stop_waits s'" "thread_at s' = AtEnd"
      "length (history mv (thread_events (take k ins)) s1) \<le> may_handle (thread_at s1)"
      using Cons.IH [of s1] s1(2,3) Cons.prems(3,4) by auto
    then show ?thesis using s1 by (intro exI [of _ "Suc k"]) (simp add: i thread_events_def)
  qed
qed

text \<open>
  C36: \<open>stopCapture\<close> returns. Once it has cleared the flag, whatever libpcap delivers next (as long
  as the frames decode), at most five steps of the capture thread let the join return; at most one
  more packet is handled on the way; then the thread is gone and the handle closed.
\<close>

theorem capture_stop_returns:
  assumes "run_events (system_step mv) es (capture_system d w) = Some s" and "ended s = None" and "stop_waits s"
    and "length ins = 5" and "\<forall>(junk, res, fr) \<in> set ins. capturePacket junk res fr \<noteq> None"
  shows "\<exists>k s'. run_events (system_step mv) (thread_events (take k ins) @ [JoinThread]) s = Some s' \<and>
    length (history mv (thread_events (take k ins)) s) \<le> 1 \<and>
    \<not> stop_waits s' \<and> thread_at s' = AtRest \<and> \<not> is_capturing (the_object s') \<and> \<not> capture_thread (the_object s') \<and>
    pimpl (the_object s') = Some None"
proof -
  have "system_inv s" using assms(1) by (intro capture_threads.reachable) simp_all
  then have ok: "system_ok s" using assms(2) by (rule system_inv_ok(2))
  have "steps_to_end (thread_at s) \<le> length ins" using assms(4) by (cases "thread_at s") simp_all
  then obtain k s' where k: "run_events (system_step mv) (thread_events (take k ins)) s = Some s'"
    "system_ok s'" "stop_waits s'" "thread_at s' = AtEnd"
    "length (history mv (thread_events (take k ins)) s) \<le> may_handle (thread_at s)"
    using thread_ends [OF ok assms(3) _ assms(5)] by blast
  then obtain t where t: "system_step mv JoinThread s' = Some t" "\<not> stop_waits t" "thread_at t = AtRest"
      "\<not> is_capturing (the_object t)" "\<not> capture_thread (the_object t)" "pimpl (the_object t) = Some None"
    by (auto simp: system_step_def join_step_def system_ok_fields close_handle_def Let_def)
  moreover have "run_events (system_step mv) (thread_events (take k ins) @ [JoinThread]) s = Some t"
    using k(1) t(1) by (simp add: run_events_append)
  moreover have "may_handle (thread_at s) \<le> 1" by (simp add: may_handle_def)
  ultimately show ?thesis using k(5) by (meson le_trans)
qed

theorem capture_stop_returns_witness:
  "\<exists>k s' s. run_events (system_step id) [StartCall (Inr (1 :: nat)), StopCall] (capture_system junk_packet (0 :: nat)) = Some s \<and>
    run_events (system_step id) (thread_events (take k (replicate 5 (junk_packet, 1, sample_frame))) @ [JoinThread]) s
      = Some s' \<and> pimpl (the_object s') = Some None"
proof -
  let ?es = "[StartCall (Inr (1 :: nat)), StopCall] :: (nat, nat) capture_event list"
  have "\<exists>s. run_events (system_step id) ?es (capture_system junk_packet 0) = Some s \<and> ended s = None \<and> stop_waits s"
    by (simp add: system_step_def capture_system_def start_step_def startCapture_def
        openInterface_def capture_init_def stop_step_def)
  then obtain s where s: "run_events (system_step id) ?es (capture_system junk_packet 0) = Some s" "ended s = None" "stop_waits s"
    by blast
  have "\<forall>(junk, res, fr) \<in> set (replicate 5 (junk_packet, 1 :: int, sample_frame)). capturePacket junk res fr \<noteq> None"
    using sample_frame_decodes [of junk_packet] by auto
  from capture_stop_returns [OF s(1-3) _ this] s(1) show ?thesis by auto
qed

end
