(* ===== verification/Network_System.thy ===== *)
theory Network_System
  imports Capture_Threads Packet_Pipeline
begin

text \<open>
  The network half of \<^verbatim>\<open>main.cpp\<close> as one machine: the owner of the capture, the capture thread with
  the packet handler, and \<open>n\<close> workers of the pool with their packet tasks, all interleaved, with calls
  on the database that return or throw. It joins the machines of \<open>Capture_Threads\<close> and
  \<open>Packet_Pipeline\<close>, from the frame to the database.
\<close>

section \<open>The machine\<close>

datatype 'h network_event = Net "('h, pipeline) capture_event" | Work bool nat

text \<open>\<open>main\<close> registers the packet handler before it starts the capture, and no other.\<close>

definition network_start :: "nat \<Rightarrow> packet_info \<Rightarrow> ('h, pipeline) capture_system" where
  "network_start n d = register_step enqueue_packet (capture_system d (pipeline_init n d))"

definition network_step ::
    "(packet_info \<Rightarrow> packet_info) \<Rightarrow> 'h network_event \<Rightarrow> ('h, pipeline) capture_system
      \<Rightarrow> ('h, pipeline) capture_system option" where
  "network_step mv e s =
     (case e of
        Net ev \<Rightarrow> system_step mv ev s
      | Work returns i \<Rightarrow> (if ended s \<noteq> None then None
                  else map_option (\<lambda>p. s\<lparr>handled := p\<rparr>) (advance returns i (handled s))))"

text \<open>
  What is asked of the environment: the owner registers nothing more, and the frames libpcap
  delivers decode to packets that the protocol parsers read without leaving the data.
\<close>

definition readable_frame :: "packet_info \<Rightarrow> int \<Rightarrow> pcap_frame \<Rightarrow> bool" where
  "readable_frame junk res fr =
     (case capturePacket junk res fr of Some p \<Rightarrow> 0 < pk_size p \<longrightarrow> readable p | None \<Rightarrow> False)"

definition network_event_ok :: "'h network_event \<Rightarrow> bool" where
  "network_event_ok e =
     (case e of
        Net (RegisterCall h) \<Rightarrow> False
      | Net (ThreadStep junk res fr) \<Rightarrow> readable_frame junk res fr
      | _ \<Rightarrow> True)"

text \<open>
  Enough for the parsers: the destination address of a frame does not begin with a TLS content type.
  The other parsers read only what is there.
\<close>

definition plain_frame :: "pcap_frame \<Rightarrow> bool" where
  "plain_frame fr \<longleftrightarrow> (case frame_bytes fr of [] \<Rightarrow> True | b # bs \<Rightarrow> b < 20 \<or> 23 < b)"

lemma plain_readable_frame:
  assumes "plain_frame fr" and "capturePacket junk res fr \<noteq> None"
  shows "readable_frame junk res fr"
proof -
  have "readable p" if p: "capturePacket junk res fr = Some p" for p
  proof -
    have "pk_data p = (if 0 < res then frame_bytes fr else [])"
      using capturePacket_data [OF _ p] capturePacket_timeout [OF _ p] by auto
    then have "isTlsPacket p = Some False"
      using assms(1) by (auto simp: isTlsPacket_reads plain_frame_def Let_def split: list.splits if_splits)
    then show ?thesis
      by (auto simp: readable_def createAllParsers_def tls_parse_def dns_parse_reads split: option.splits)
  qed
  then show ?thesis using assms(2) by (auto simp: readable_frame_def split: option.splits)
qed

lemma plain_frame_ok:
  "plain_frame fr \<Longrightarrow> capturePacket junk res fr \<noteq> None \<Longrightarrow> network_event_ok (Net (ThreadStep junk res fr))"
  by (simp add: network_event_ok_def plain_readable_frame)

section \<open>What is delivered and what is in hand\<close>

text \<open>The packets of the frames that the capture thread reads, in order, empty ones left out.\<close>

definition delivery :: "'h network_event \<Rightarrow> ('h, pipeline) capture_system \<Rightarrow> packet_info list" where
  "delivery e s = (case e of Net ev \<Rightarrow> read_packets ev s | Work returns i \<Rightarrow> [])"

abbreviation delivered ::
    "(packet_info \<Rightarrow> packet_info) \<Rightarrow> 'h network_event list \<Rightarrow> ('h, pipeline) capture_system
      \<Rightarrow> packet_info list" where
  "delivered mv es s \<equiv> run_labels delivery (network_step mv) es s"

text \<open>The packets that were handed to the pool or are in the hand of the capture thread.\<close>

definition taken :: "('h, pipeline) capture_system \<Rightarrow> packet_info list" where
  "taken s = map fst (pl_tasks (handled s)) @ in_hand s"

definition network_ok :: "packet_info \<Rightarrow> ('h, pipeline) capture_system \<Rightarrow> bool" where
  "network_ok d s \<longleftrightarrow> system_ok s \<and> handlers (the_object s) = [enqueue_packet] \<and> pipeline_ok d (handled s) \<and>
     (\<forall>p \<in> set (in_hand s). readable p)"

lemma network_ok_start: "network_ok d (network_start n d) \<and> taken (network_start n d) = []"
  using register_refines [OF system_ok_init [of d "pipeline_init n d"], of enqueue_packet id] pipeline_ok_init
  by (auto simp: network_ok_def network_start_def register_step_def capture_system_def in_hand_def taken_def
      registerHandler_def capture_init_def pipeline_init_def)

text \<open>A step of the capture under the one handler.\<close>

lemma read_packets_readable:
  "network_event_ok (Net ev) \<Longrightarrow> p \<in> set (read_packets ev s) \<Longrightarrow> readable p"
  by (auto simp: network_event_ok_def readable_frame_def read_packets_def split: capture_event.splits option.splits if_splits)

lemma enqueue_packets:
  "map fst (pl_tasks (foldl (\<lambda>w p. enqueue_packet p w) s ps)) = map fst (pl_tasks s) @ ps"
  by (induction ps arbitrary: s) (simp_all add: enqueue_packet_def)

lemma enqueue_packets_ok:
  "pipeline_ok d s \<Longrightarrow> \<forall>p \<in> set ps. readable p \<Longrightarrow> pipeline_ok d (foldl (\<lambda>w p. enqueue_packet p w) s ps)"
  by (induction ps arbitrary: s) (simp_all add: pipeline_ok_capture)

lemma capture_step_pipeline:
  assumes ok: "network_ok d s" and ev: "network_event_ok (Net ev)" and step: "system_step mv ev s = Some s'"
  shows "network_ok d s' \<and> taken s' = taken s @ delivery (Net ev) s"
proof -
  note ok' = ok [unfolded network_ok_def]
  have "\<not> over_reads ev s"
    using ev by (auto simp: over_reads_def network_event_ok_def readable_frame_def split: capture_event.splits option.splits)
  then have sys: "system_ok s'" using system_refines ok' step by blast
  have "ev \<noteq> RegisterCall h" for h using ev by (auto simp: network_event_ok_def)
  then have pass: "handlers (the_object s') = [enqueue_packet]"
      "handled s' = foldl (\<lambda>w p. enqueue_packet p w) (handled s) (handed_over ev s)"
      "in_hand s @ read_packets ev s = handed_over ev s @ in_hand s'"
    using packets_pass [of s ev mv s'] ok' step by simp_all
  have "readable p" if "p \<in> set (in_hand s @ read_packets ev s)" for p
    using that ok' read_packets_readable [OF ev] by auto
  then have rd: "\<forall>p \<in> set (handed_over ev s). readable p" "\<forall>p \<in> set (in_hand s'). readable p"
    unfolding pass(3) by auto
  then have "network_ok d s'" using sys pass(1,2) ok' enqueue_packets_ok by (simp add: network_ok_def)
  moreover have "taken s' = taken s @ delivery (Net ev) s"
    using pass(3) by (simp add: taken_def delivery_def pass(2) enqueue_packets)
  ultimately show ?thesis by blast
qed

lemma network_step_pipeline:
  assumes "network_ok d s" and "network_event_ok e" and "network_step mv e s = Some s'"
  shows "network_ok d s' \<and> taken s' = taken s @ delivery e s"
proof (cases e)
  case (Net ev)
  then show ?thesis using capture_step_pipeline [of d s ev mv s'] assms by (simp add: network_step_def)
next
  case (Work returns i)
  then obtain p where p: "advance returns i (handled s) = Some p" "s' = s\<lparr>handled := p\<rparr>"
    using assms(3) by (auto simp: network_step_def split: if_splits)
  then have "pipeline_ok d p" using assms(1) pipeline_ok_advance by (auto simp: network_ok_def)
  then show ?thesis
    using assms(1) p advance_tasks [OF p(1)] Work
    by (auto simp: network_ok_def taken_def in_hand_def delivery_def system_ok_fields)
qed

interpretation network_machine:
  started_machine "network_step mv" "\<lambda>e s. network_event_ok e" "network_ok d" "network_start n d"
  for mv n d
  using network_ok_start network_step_pipeline by unfold_locales blast+

text \<open>Towards the outside the machine appends what is delivered to what was taken.\<close>

interpretation taken_in_order:
  machine_simulation "network_step mv" "\<lambda>e s. network_event_ok e" "network_ok d"
    append_event "\<lambda>p ps. True" taken delivery
  for mv d
  by unfold_locales (metis network_step_pipeline run_allowed_True append_run)

lemma taken_run:
  assumes "network_ok d s" and "\<forall>e \<in> set es. network_event_ok e" and "run_events (network_step mv) es s = Some t"
  shows "network_ok d t \<and> taken t = taken s @ delivered mv es s"
  using taken_in_order.run_simulates [OF assms(1) run_allowed_events [OF assms(2)] assms(3)]
    network_machine.holds_after [OF assms(1) run_allowed_events [OF assms(2)] assms(3)]
  by simp

section \<open>Completion\<close>

text \<open>The thread finishes with the packet in its hand in at most three steps, whatever libpcap has next.\<close>

fun hand_left :: "capture_pc \<Rightarrow> nat" where
  "hand_left (Counting p) = 3"
| "hand_left (Sized p) = 2"
| "hand_left (Handling p) = 1"
| "hand_left _ = 0"

lemma hand_left_0: "hand_left pc = 0 \<longleftrightarrow> pending pc = None"
  by (cases pc) simp_all

lemma hand_step:
  assumes "system_ok s" and "hand_left (thread_at s) = Suc n"
  shows "\<exists>s1. network_step mv (Net (ThreadStep junk res fr)) s = Some s1 \<and> hand_left (thread_at s1) = n \<and>
    delivery (Net (ThreadStep junk res fr)) s = []"
  using assms
  by (cases "thread_at s")
    (auto simp: network_step_def system_step_def thread_step_def delivery_def read_packets_def system_ok_fields case_prod_beta Let_def
      split: option.splits)

lemma hand_finishes:
  "network_ok d (s :: ('h, pipeline) capture_system) \<Longrightarrow>
    network_event_ok (Net (ThreadStep junk res fr) :: 'h network_event) \<Longrightarrow>
    \<exists>s'. run_events (network_step mv) (replicate (hand_left (thread_at s)) (Net (ThreadStep junk res fr))) s = Some s' \<and>
      network_ok d s' \<and> in_hand s' = [] \<and> taken s' = taken s"
proof (induction "hand_left (thread_at s)" arbitrary: s)
  case 0
  then have "in_hand s = []" by (simp add: in_hand_def hand_left_0)
  with 0 show ?case by simp
next
  case (Suc n)
  let ?e = "Net (ThreadStep junk res fr)"
  have "system_ok s" using Suc.prems(1) by (simp add: network_ok_def)
  then obtain s1 where s1: "network_step mv ?e s = Some s1" "hand_left (thread_at s1) = n" "delivery ?e s = []"
    using hand_step [of s n mv junk res fr] Suc.hyps(2) by auto
  have "network_ok d s1 \<and> taken s1 = taken s"
    using network_step_pipeline [OF Suc.prems s1(1)] s1(3) by simp
  with Suc.hyps(1) [of s1] Suc.prems(2) s1 Suc.hyps(2) [symmetric] show ?case by simp
qed

abbreviation works :: "(nat \<Rightarrow> bool) \<Rightarrow> nat list \<Rightarrow> 'h network_event list" where
  "works returns is \<equiv> map (\<lambda>i. Work (returns i) i) is"

lemma work_run:
  "ended s = None \<Longrightarrow> run_events pipeline_step (work_events returns is) (handled s) = Some p \<Longrightarrow>
    run_events (network_step mv) (works returns is) s = Some (s\<lparr>handled := p\<rparr>)"
proof (induction "is" arbitrary: s)
  case (Cons i "is")
  obtain p1 where p1: "advance (returns i) i (handled s) = Some p1" "run_events pipeline_step (work_events returns is) p1 = Some p"
    using Cons.prems(2) by (auto split: option.splits)
  then show ?case using Cons.IH [of "s\<lparr>handled := p1\<rparr>"] Cons.prems(1) by (simp add: network_step_def)
qed simp

lemma work_left_bound: "work_left p \<le> 4 * length (pl_tasks p)"
proof -
  have "phase_left ph \<le> 4" for ph by (cases ph) simp_all
  then have "sum_list (map (phase_left \<circ> snd) ts) \<le> 4 * length ts" for ts :: "(packet_info \<times> task_phase) list"
    by (induction ts) (simp_all add: add_mono)
  then show ?thesis by (simp add: work_left_def)
qed

text \<open>The pool keeps its workers, and the capture thread only appends to the tasks.\<close>

lemma enqueue_packets_tasks:
  "pl_tasks (foldl (\<lambda>w p. enqueue_packet p w) s ps) = pl_tasks s @ map (\<lambda>p. (p, Queued)) ps \<and>
    pl_workers (foldl (\<lambda>w p. enqueue_packet p w) s ps) = pl_workers s"
  by (induction ps arbitrary: s) (simp_all add: enqueue_packet_def)

lemma network_step_tasks:
  assumes "network_ok d s" and "network_event_ok e" and "network_step mv e s = Some s'"
  shows "pl_workers (handled s') = pl_workers (handled s)"
    and "\<And>ev. e = Net ev \<Longrightarrow> \<exists>ps. pl_tasks (handled s') = pl_tasks (handled s) @ map (\<lambda>p. (p, Queued)) ps"
proof -
  have net: "pl_workers (handled s') = pl_workers (handled s) \<and>
      (\<exists>ps. pl_tasks (handled s') = pl_tasks (handled s) @ map (\<lambda>p. (p, Queued)) ps)" if e: "e = Net ev" for ev
  proof -
    have "ev \<noteq> RegisterCall h" for h using assms(2) e by (auto simp: network_event_ok_def)
    then have "handled s' = foldl (\<lambda>w p. enqueue_packet p w) (handled s) (handed_over ev s)"
      using packets_pass [of s ev mv s'] assms e by (simp add: network_ok_def network_step_def)
    then show ?thesis using enqueue_packets_tasks by metis
  qed
  show "pl_workers (handled s') = pl_workers (handled s)"
  proof (cases e)
    case (Work returns i)
    then show ?thesis using assms(3) advance_tasks by (auto simp: network_step_def split: if_splits)
  qed (use net in blast)
  show "\<And>ev. e = Net ev \<Longrightarrow> \<exists>ps. pl_tasks (handled s') = pl_tasks (handled s) @ map (\<lambda>p. (p, Queued)) ps"
    using net by blast
qed

definition has_workers :: "nat \<Rightarrow> ('h, pipeline) capture_system \<Rightarrow> bool" where
  "has_workers n s \<longleftrightarrow> pl_workers (handled s) = n"

lemma has_workers_start: "has_workers n (network_start n d)"
  by (simp add: has_workers_def network_start_def register_step_def capture_system_def pipeline_init_def)

interpretation pool_workers:
  started_machine "network_step mv" "\<lambda>e s. network_event_ok e" "\<lambda>s. network_ok d s \<and> has_workers n s" "network_start n d"
  for mv n d
proof unfold_locales
  fix s e s'
  assume "network_ok d s \<and> has_workers n s" and "network_event_ok e" and "network_step mv e s = Some s'"
  then show "network_ok d s' \<and> has_workers n s'"
    using network_step_pipeline network_step_tasks(1) unfolding has_workers_def by metis
next
  show "network_ok d (network_start n d) \<and> has_workers n (network_start n d)"
    using network_ok_start has_workers_start by blast
qed

lemma net_run_tasks:
  "network_ok d s \<Longrightarrow> \<forall>e \<in> set es. network_event_ok e \<and> (\<exists>ev. e = Net ev) \<Longrightarrow>
    run_events (network_step mv) es s = Some t \<Longrightarrow>
    \<exists>ps. pl_tasks (handled t) = pl_tasks (handled s) @ map (\<lambda>p. (p, Queued)) ps \<and>
      pl_workers (handled t) = pl_workers (handled s)"
proof (induction es arbitrary: s)
  case (Cons e es)
  obtain s1 where s1: "network_step mv e s = Some s1" "run_events (network_step mv) es s1 = Some t"
    using Cons.prems(3) unfolding run_events_Cons by blast
  obtain ev where ev: "network_event_ok e" "e = Net ev" using Cons.prems(2) by auto
  obtain ps where "pl_tasks (handled s1) = pl_tasks (handled s) @ map (\<lambda>p. (p, Queued)) ps"
    using network_step_tasks(2) [OF Cons.prems(1) ev(1) s1(1) ev(2)] by blast
  moreover have "pl_workers (handled s1) = pl_workers (handled s)" by (rule network_step_tasks(1) [OF Cons.prems(1) ev(1) s1(1)])
  moreover have "network_ok d s1" using network_step_pipeline [OF Cons.prems(1) ev(1) s1(1)] by blast
  then obtain qs where "pl_tasks (handled t) = pl_tasks (handled s1) @ map (\<lambda>p. (p, Queued)) qs"
    "pl_workers (handled t) = pl_workers (handled s1)"
    using Cons.IH [OF _ _ s1(2)] Cons.prems(2) by auto
  ultimately show ?case by (intro exI [of _ "ps @ qs"]) simp
qed simp

section \<open>Properties\<close>

text \<open>
  C17: From the wire to the database. Whatever the owner, the capture thread and the workers do, and
  in whatever order, whether the calls on the database return or throw, as long as the delivered
  frames are readable: nothing crashes; the packets
  handed to the pool, with the one in the hand of the capture thread, are exactly the nonempty
  packets of the frames that were read, in order; the analyzer is the summary of those processed,
  in one order; and every update of the database belongs to one stored packet and is the exact
  summary of its connection over an initial part of that order: the two ends of the connection, the
  lower first, the bytes and packets sent by the first and by the second, and the times of its first
  and its last packet.
\<close>

theorem network_end_to_end:
  assumes "\<forall>e \<in> set es. network_event_ok e" and "run_events (network_step mv) es (network_start n d) = Some s"
  shows "\<exists>hist qs. ended s = None \<and>
    map fst (pl_tasks (handled s)) @ in_hand s = delivered mv es (network_start n d) \<and>
    pl_analyzer (handled s) = analyzer_after d hist \<and> mset hist = processed_packets (pl_tasks (handled s)) \<and>
    mset qs = stored_packets (pl_tasks (handled s)) \<and>
    list_all2 (\<lambda>p c. \<exists>pre post. hist = pre @ post \<and> p \<in> set pre \<and> c = UpdateConnection (record_after pre p))
      qs (pl_db (handled s))"
proof -
  have ok: "network_ok d s" and taken: "taken s = delivered mv es (network_start n d)"
    using taken_run [OF _ assms] network_ok_start by fastforce+
  obtain hist qs where h: "pl_analyzer (handled s) = analyzer_after d hist"
    "mset hist = processed_packets (pl_tasks (handled s))" "mset qs = stored_packets (pl_tasks (handled s))"
    "list_all2 (\<lambda>p c. \<exists>r. c = UpdateConnection r \<and> prefix_record hist p r) qs (pl_db (handled s))"
    using ok unfolding network_ok_def pipeline_ok_def by blast
  have "list_all2 (\<lambda>p c. \<exists>pre post. hist = pre @ post \<and> p \<in> set pre \<and> c = UpdateConnection (record_after pre p))
      qs (pl_db (handled s))"
    by (rule list_all2_mono [OF h(4)]) (auto simp: prefix_record_def)
  then show ?thesis using ok taken h(1-3) unfolding network_ok_def system_ok_def taken_def by blast
qed

lemma sample_plain: "plain_frame sample_frame"
proof -
  have "replicate 14 (1 :: u8) = 1 # replicate 13 1" by (simp add: numeral_eq_Suc)
  then show ?thesis by (simp add: plain_frame_def sample_frame_def)
qed

definition sample_capture :: "nat network_event list" where
  "sample_capture =
     (let go = Net (ThreadStep junk_packet 1 sample_frame) in [Net (StartCall (Inr 1)), go, go, go, go, go])"

lemma sample_capture_ok: "\<forall>e \<in> set sample_capture. network_event_ok e"
  using plain_frame_ok [OF sample_plain, of junk_packet 1] sample_frame_decodes [of junk_packet]
  by (auto simp: sample_capture_def network_event_ok_def Let_def)

lemma sample_capture_runs:
  assumes "capturePacket junk_packet 1 sample_frame = Some p" and "pk_size p = 54"
  shows "\<exists>s. run_events (network_step id) sample_capture (network_start n junk_packet) = Some s \<and>
    handled s = enqueue_packet p (pipeline_init n junk_packet) \<and> in_hand s = [] \<and> ended s = None \<and>
    delivered id sample_capture (network_start n junk_packet) = [p]"
  using assms
  by (simp add: sample_capture_def network_start_def network_step_def register_step_def registerHandler_def
      system_step_def capture_system_def start_step_def startCapture_def openInterface_def capture_init_def
      thread_step_def delivery_def read_packets_def in_hand_def case_prod_beta Let_def)

theorem network_end_to_end_witness:
  "\<exists>s p r. run_events (network_step id) (sample_capture @ map (Work True) [0, 0, 0, 0]) (network_start 1 junk_packet) = Some s \<and>
    ended s = None \<and> map fst (pl_tasks (handled s)) = [p] \<and> pl_analyzer (handled s) = analyzer_after junk_packet [p] \<and>
    pl_db (handled s) = [UpdateConnection (record_after [p] p)] \<and> pk_size p = 54"
proof -
  obtain p where p: "capturePacket junk_packet 1 sample_frame = Some p" "pk_size p = 54"
    using sample_frame_decodes by blast
  obtain s where s: "run_events (network_step id) sample_capture (network_start 1 junk_packet) = Some s"
    "handled s = enqueue_packet p (pipeline_init 1 junk_packet)" "in_hand s = []" "ended s = None"
    "delivered id sample_capture (network_start 1 junk_packet) = [p]"
    using sample_capture_runs [OF p, of 1] by blast
  have "readable p"
    using plain_readable_frame [OF sample_plain, of junk_packet 1] p by (simp add: readable_frame_def)
  note r = run_one_packet [OF this zero_less_one, of junk_packet]
  let ?w = "\<lparr>pl_workers = 1, pl_analyzer = analyzer_after junk_packet [p], pl_tasks = [(p, Stored)],
    pl_db = [UpdateConnection (record_after [p] p)]\<rparr>"
  have "run_events pipeline_step (work_events (\<lambda>i. True) [0, 0, 0, 0]) (handled s) = Some ?w" using r s(2) by simp
  from work_run [OF s(4) this, of id]
  have run: "run_events (network_step id) (sample_capture @ map (Work True) [0, 0, 0, 0]) (network_start 1 junk_packet) =
      Some (s\<lparr>handled := ?w\<rparr>)"
    using s(1) by (simp add: run_events_append)
  have "\<forall>e \<in> set (sample_capture @ map (Work True) [0, 0, 0, 0]). network_event_ok e"
    using sample_capture_ok by (auto simp: network_event_ok_def)
  from network_end_to_end [OF this run]
  have "ended (s\<lparr>handled := ?w\<rparr>) = None" by blast
  then show ?thesis using run p(2) by (intro exI [of _ "s\<lparr>handled := ?w\<rparr>"] exI [of _ p]) simp
qed

text \<open>
  C18: No frame is lost on the way. With at least one worker, from every state the network half can
  reach, whichever calls on the database return and whichever throw: every step of a worker uses up
  some of the work; and at most three steps of the capture thread and four of a worker for every
  packet complete it, without a further frame: then the analyzer summarises all the packets ever
  delivered, every packet's task is over, none has failed but by its own call, and the database has
  got exactly one update for each of the others.
\<close>

theorem network_completes:
  assumes "\<forall>e \<in> set es. network_event_ok e" and "run_events (network_step mv) es (network_start n d) = Some s"
    and "0 < n" and "network_event_ok (Net (ThreadStep junk res fr) :: 'h network_event)"
  defines "ps \<equiv> delivered mv es (network_start n d :: ('h, pipeline) capture_system)"
  shows "(\<forall>returns i t. network_step mv (Work returns i) s = Some t \<longrightarrow> work_left (handled t) < work_left (handled s)) \<and>
    (\<forall>returns. \<exists>k is t hist.
      run_events (network_step mv) (replicate k (Net (ThreadStep junk res fr)) @ works returns is) s = Some t \<and>
      k \<le> 3 \<and> length is \<le> 4 * length ps \<and>
      pl_analyzer (handled t) = analyzer_after d hist \<and> mset hist = mset ps \<and>
      map fst (pl_tasks (handled t)) = ps \<and> (\<forall>x \<in> set (pl_tasks (handled t)). snd x = Stored \<or> snd x = Failed) \<and>
      (\<forall>i < length ps. snd (pl_tasks (handled t) ! i) = Failed \<longrightarrow>
         \<not> returns i \<or> i < length (pl_tasks (handled s)) \<and> snd (pl_tasks (handled s) ! i) = Failed) \<and>
      (\<exists>qs. mset qs = stored_packets (pl_tasks (handled t)) \<and>
         list_all2 (\<lambda>p c. \<exists>r. c = UpdateConnection r \<and> prefix_record hist p r) qs (pl_db (handled t))))"
proof (intro conjI allI impI)
  fix returns i t
  assume "network_step mv (Work returns i) s = Some t"
  then obtain p where "advance returns i (handled s) = Some p" "handled t = p"
    by (auto simp: network_step_def split: if_splits)
  then show "work_left (handled t) < work_left (handled s)" using advance_uses_up by fastforce
next
  fix returns
  have ok: "network_ok d s" and taken: "taken s = ps"
    using taken_run [OF _ assms(1,2)] network_ok_start unfolding ps_def by fastforce+
  have workers: "pl_workers (handled s) = n"
    using pool_workers.reachable [OF run_allowed_events [OF assms(1)] assms(2)] by (simp add: has_workers_def)
  let ?k = "hand_left (thread_at s)" and ?e = "Net (ThreadStep junk res fr) :: 'h network_event"
  obtain s1 where s1: "run_events (network_step mv) (replicate ?k ?e) s = Some s1"
    "network_ok d s1" "in_hand s1 = []" "taken s1 = taken s"
    using hand_finishes [OF ok assms(4)] by blast
  then have tasks: "map fst (pl_tasks (handled s1)) = ps" using taken by (simp add: taken_def)
  have ok1: "pipeline_ok d (handled s1)" "ended s1 = None"
    using s1(2) by (simp_all add: network_ok_def system_ok_def)
  have "\<forall>e \<in> set (replicate ?k ?e). network_event_ok e \<and> (\<exists>ev. e = Net ev)" using assms(4) by simp
  from net_run_tasks [OF ok this s1(1)] obtain qs where
    more: "pl_tasks (handled s1) = pl_tasks (handled s) @ map (\<lambda>p. (p, Queued)) qs" "pl_workers (handled s1) = n"
    using workers by auto
  obtain "is" p where p: "run_events pipeline_step (work_events returns is) (handled s1) = Some p"
    "length is = work_left (handled s1)" "\<forall>x \<in> set (pl_tasks p). task_over (snd x)"
    "map fst (pl_tasks p) = map fst (pl_tasks (handled s1))" "pipeline_ok d p"
    "\<forall>k < length (pl_tasks (handled s1)). snd (pl_tasks p ! k) = Failed \<longrightarrow>
       snd (pl_tasks (handled s1) ! k) = Failed \<or> \<not> returns k"
    using drain [OF ok1(1), of returns] more(2) assms(3) by auto
  have len: "length (pl_tasks (handled s1)) = length ps" using tasks by (metis length_map)
  have failed: "\<not> returns i \<or> i < length (pl_tasks (handled s)) \<and> snd (pl_tasks (handled s) ! i) = Failed"
    if i: "i < length ps" "snd (pl_tasks p ! i) = Failed" for i
  proof (cases "i < length (pl_tasks (handled s))")
    case True
    then show ?thesis using p(6) [rule_format, of i] i len more(1) by (auto simp: nth_append)
  next
    case False
    then have "snd (pl_tasks (handled s1) ! i) = Queued" using i len more(1) by (simp add: nth_append)
    then show ?thesis using p(6) i len by fastforce
  qed
  have "filter (\<lambda>x. snd x \<noteq> Queued \<and> snd x \<noteq> Taken) (pl_tasks p) = pl_tasks p"
    using p(3) by (intro filter_True) (auto simp: task_over_def)
  then have processed: "processed_packets (pl_tasks p) = mset ps" unfolding processed_packets_def by (simp only: p(4) tasks)
  obtain hist rs where h: "pl_analyzer p = analyzer_after d hist" "mset hist = processed_packets (pl_tasks p)"
    "mset rs = stored_packets (pl_tasks p)"
    "list_all2 (\<lambda>p c. \<exists>r. c = UpdateConnection r \<and> prefix_record hist p r) rs (pl_db p)"
    using p(5) unfolding pipeline_ok_def by blast
  let ?t = "s1\<lparr>handled := p\<rparr>"
  have run: "run_events (network_step mv) (replicate ?k ?e @ works returns is) s = Some ?t"
    using s1(1) work_run [OF ok1(2) p(1)] by (simp add: run_events_append)
  have k: "?k \<le> 3" by (cases "thread_at s") simp_all
  have l: "length is \<le> 4 * length ps" using p(2) work_left_bound [of "handled s1"] len by simp
  have over: "\<forall>x \<in> set (pl_tasks p). snd x = Stored \<or> snd x = Failed" using p(3) by (simp add: task_over_def)
  show "\<exists>k is t hist. run_events (network_step mv) (replicate k ?e @ works returns is) s = Some t \<and>
      k \<le> 3 \<and> length is \<le> 4 * length ps \<and>
      pl_analyzer (handled t) = analyzer_after d hist \<and> mset hist = mset ps \<and>
      map fst (pl_tasks (handled t)) = ps \<and> (\<forall>x \<in> set (pl_tasks (handled t)). snd x = Stored \<or> snd x = Failed) \<and>
      (\<forall>i < length ps. snd (pl_tasks (handled t) ! i) = Failed \<longrightarrow>
         \<not> returns i \<or> i < length (pl_tasks (handled s)) \<and> snd (pl_tasks (handled s) ! i) = Failed) \<and>
      (\<exists>qs. mset qs = stored_packets (pl_tasks (handled t)) \<and>
         list_all2 (\<lambda>p c. \<exists>r. c = UpdateConnection r \<and> prefix_record hist p r) qs (pl_db (handled t)))"
    using run k l over failed h processed p(4) tasks
    by (intro exI [of _ ?k] exI [of _ "is"] exI [of _ ?t] exI [of _ hist]) auto
qed

theorem network_completes_witness:
  "\<exists>es k t. run_events (network_step id) (es @ k) (network_start 1 junk_packet) = Some (t :: (nat, pipeline) capture_system) \<and>
    (\<exists>p hist. delivered id es (network_start 1 junk_packet :: (nat, pipeline) capture_system) = [p] \<and>
      pl_analyzer (handled t) = analyzer_after junk_packet hist \<and> mset hist = {#p#} \<and> pl_tasks (handled t) = [(p, Stored)] \<and>
      length (pl_db (handled t)) = 1)"
proof -
  obtain p where p: "capturePacket junk_packet 1 sample_frame = Some p" "pk_size p = 54"
    using sample_frame_decodes by blast
  obtain s where s: "run_events (network_step id) sample_capture (network_start 1 junk_packet) = Some s"
    "handled s = enqueue_packet p (pipeline_init 1 junk_packet)" "delivered id sample_capture (network_start 1 junk_packet) = [p]"
    using sample_capture_runs [OF p, of 1] by blast
  have frame: "network_event_ok (Net (ThreadStep junk_packet 1 sample_frame) :: nat network_event)"
    by (rule plain_frame_ok [OF sample_plain]) (simp add: p(1))
  obtain k "is" t hist qs where t: "run_events (network_step id)
      (replicate k (Net (ThreadStep junk_packet 1 sample_frame)) @ works (\<lambda>i. True) is) s = Some t"
    "pl_analyzer (handled t) = analyzer_after junk_packet hist" "mset hist = mset [p]" "map fst (pl_tasks (handled t)) = [p]"
    "\<forall>x \<in> set (pl_tasks (handled t)). snd x = Stored \<or> snd x = Failed"
    "\<forall>i < length [p]. snd (pl_tasks (handled t) ! i) = Failed \<longrightarrow>
       i < length (pl_tasks (handled s)) \<and> snd (pl_tasks (handled s) ! i) = Failed"
    "mset qs = stored_packets (pl_tasks (handled t))"
    "list_all2 (\<lambda>p c. \<exists>r. c = UpdateConnection r \<and> prefix_record hist p r) qs (pl_db (handled t))"
    using network_completes [OF sample_capture_ok s(1) zero_less_one frame, THEN conjunct2, THEN spec, of "\<lambda>i. True"]
    unfolding s(3) by auto
  obtain x where x: "pl_tasks (handled t) = [x]" "fst x = p" using t(4) by (cases "pl_tasks (handled t)") auto
  moreover have "snd x \<noteq> Failed" using t(6) s(2) x by (auto simp: enqueue_packet_def pipeline_init_def)
  ultimately have tasks: "pl_tasks (handled t) = [(p, Stored)]" using t(5) by (cases x) auto
  then have "mset qs = {#p#}" using t(7) by (simp add: stored_packets_def)
  then have "length qs = 1" by (metis size_mset size_single)
  then have "length (pl_db (handled t)) = 1" using list_all2_lengthD [OF t(8)] by simp
  then show ?thesis using s t(1-3) tasks
    by (intro exI [of _ sample_capture]
        exI [of _ "replicate k (Net (ThreadStep junk_packet 1 sample_frame)) @ works (\<lambda>i. True) is"]
        exI [of _ t]) (simp add: run_events_append)
qed

end
