(* ===== verification/Rest_Server.thy ===== *)
theory Rest_Server
  imports Prelude Event_Machine
begin

text \<open>
  \<^verbatim>\<open>api/rest_api.cpp\<close>: the threads of the server. \<open>RestApi\<close> starts a thread that runs
  \<open>ServerImpl::run\<close>, which opens the listener and spawns the I/O threads; \<open>stop\<close> stops the
  I/O context and joins. The calls of the owner and the server thread interleave; a step is
  what one of them does between two points where the other can see it.
\<close>

section \<open>State\<close>

text \<open>
  The thread object of \<open>RestApi\<close>: none, not yet past the listener, past \<open>running_ = true\<close>
  with the I/O threads still to be spawned, or finished and to be joined.
\<close>

datatype server_thread = NoServer | Opening | Spawning | Finished

text \<open>
  The flags of \<open>RestApi\<close> and of \<open>ServerImpl\<close>, the I/O context (stopped, and whether an accept
  is pending), the number of joinable I/O threads, and whether \<open>RestApi::stop\<close> is past
  \<open>ServerImpl::stop\<close> and waits in its join.
\<close>

record rest_server =
  api_running :: bool
  impl_running :: bool
  ioc_stopped :: bool
  accepting :: bool
  io_threads :: nat
  server_thread :: server_thread
  in_join :: bool

definition new_server :: rest_server where
  "new_server = \<lparr>api_running = False, impl_running = False, ioc_stopped = False, accepting = False,
     io_threads = 0, server_thread = NoServer, in_join = False\<rparr>"

section \<open>Operations\<close>

text \<open>
  The call of \<open>start\<close>. The thread object is free whenever the flag is off: \<open>stop\<close> clears the flag
  after the join.
\<close>

definition api_start :: "rest_server \<Rightarrow> rest_server" where
  "api_start s = (if api_running s then s else s\<lparr>server_thread := Opening, api_running := True\<rparr>)"

text \<open>\<open>ServerImpl::run\<close>: the listener, whose constructor throws when the port is taken ...\<close>

definition run_listen :: "bool \<Rightarrow> rest_server \<Rightarrow> rest_server option" where
  "run_listen bound s =
     (if server_thread s \<noteq> Opening then None
      else if bound then Some (s\<lparr>accepting := True, impl_running := True, server_thread := Spawning\<rparr>)
      else Some (s\<lparr>impl_running := False, server_thread := Finished\<rparr>))"

text \<open>... and the I/O threads: \<open>hardware_concurrency\<close>, or 2 when that is 0.\<close>

definition run_spawn :: "nat \<Rightarrow> rest_server \<Rightarrow> rest_server option" where
  "run_spawn cpus s =
     (if server_thread s \<noteq> Spawning then None
      else Some (s\<lparr>io_threads := io_threads s + (if 0 < cpus then cpus else 2), server_thread := Finished\<rparr>))"

text \<open>
  \<open>ServerImpl::stop\<close>: the I/O threads leave a stopped context, so the joins return; then
  \<open>RestApi::stop\<close> joins the server thread.
\<close>

definition impl_stop :: "rest_server \<Rightarrow> rest_server" where
  "impl_stop s = (if impl_running s then s\<lparr>ioc_stopped := True, io_threads := 0, impl_running := False\<rparr> else s)"

definition api_stop :: "rest_server \<Rightarrow> rest_server" where
  "api_stop s = (if api_running s then (impl_stop s)\<lparr>in_join := True\<rparr> else s)"

definition api_join :: "rest_server \<Rightarrow> rest_server option" where
  "api_join s =
     (if in_join s \<and> server_thread s = Finished
      then Some (s\<lparr>server_thread := NoServer, api_running := False, in_join := False\<rparr>) else None)"

text \<open>
  The destructor after a last \<open>stop\<close>: it destroys the thread object and the vector of I/O
  threads; a joinable thread among them terminates the process.
\<close>

definition destroyed_cleanly :: "rest_server \<Rightarrow> bool" where
  "destroyed_cleanly s \<longleftrightarrow> \<not> in_join s \<and> server_thread s = NoServer \<and> io_threads s = 0"

text \<open>An I/O thread runs the context and an accept is pending.\<close>

definition serving :: "rest_server \<Rightarrow> bool" where
  "serving s \<longleftrightarrow> accepting s \<and> \<not> ioc_stopped s \<and> 0 < io_threads s"

section \<open>Interleavings\<close>

datatype server_event = ApiStart | RunListen bool | RunSpawn nat | ApiStop | ApiJoin

text \<open>The owner makes no call while it waits in \<open>stop\<close>.\<close>

fun server_step :: "server_event \<Rightarrow> rest_server \<Rightarrow> rest_server option" where
  "server_step ApiStart s = (if in_join s then None else Some (api_start s))"
| "server_step (RunListen b) s = run_listen b s"
| "server_step (RunSpawn n) s = run_spawn n s"
| "server_step ApiStop s = (if in_join s then None else Some (api_stop s))"
| "server_step ApiJoin s = api_join s"

abbreviation server_run :: "server_event list \<Rightarrow> rest_server \<Rightarrow> rest_server option" where
  "server_run \<equiv> run_events server_step"

text \<open>A patient owner calls \<open>stop\<close> only when \<open>run\<close> has returned, or was never started.\<close>

definition patient :: "server_event \<Rightarrow> rest_server \<Rightarrow> bool" where
  "patient e s \<longleftrightarrow> e = ApiStop \<longrightarrow> server_thread s \<in> {NoServer, Finished}"

section \<open>Invariant\<close>

definition server_ok :: "rest_server \<Rightarrow> bool" where
  "server_ok s \<longleftrightarrow> (api_running s \<longleftrightarrow> server_thread s \<noteq> NoServer)
     \<and> (in_join s \<longrightarrow> server_thread s = Finished \<and> \<not> impl_running s)
     \<and> (0 < io_threads s \<longleftrightarrow> impl_running s \<and> server_thread s = Finished)
     \<and> (impl_running s \<longrightarrow> accepting s \<and> server_thread s \<in> {Spawning, Finished})
     \<and> (server_thread s = Spawning \<longrightarrow> impl_running s)"

lemmas server_defs = api_start_def run_listen_def run_spawn_def impl_stop_def api_stop_def api_join_def

lemma server_ok_new: "server_ok new_server"
  by (simp add: server_ok_def new_server_def)

lemma server_ok_step:
  assumes "server_ok s" and "server_step e s = Some s'"
    and "patient e s"
  shows "server_ok s'"
proof (cases e)
  case ApiStart
  then show ?thesis using assms by (auto simp: server_ok_def server_defs patient_def split: if_splits)
next
  case (RunListen b)
  then show ?thesis using assms by (auto simp: server_ok_def server_defs patient_def split: if_splits)
next
  case (RunSpawn n)
  then show ?thesis using assms by (auto simp: server_ok_def server_defs patient_def split: if_splits)
next
  case ApiStop
  then show ?thesis using assms by (auto simp: server_ok_def server_defs patient_def split: if_splits)
next
  case ApiJoin
  then show ?thesis using assms by (auto simp: server_ok_def server_defs patient_def split: if_splits)
qed

interpretation patient_server: started_machine server_step patient server_ok new_server
  by unfold_locales (auto intro: server_ok_step server_ok_new)

interpretation stopped_server: machine_invariant server_step "\<lambda>e s. True" ioc_stopped
proof unfold_locales
  fix s e s'
  assume "ioc_stopped s" and "server_step e s = Some s'"
  then show "ioc_stopped s'" by (cases e) (auto simp: server_defs split: if_splits)
qed

section \<open>Properties\<close>

text \<open>
  Life of the server when every \<open>stop\<close> comes after \<open>run\<close> has returned: while the server
  serves its flag is up, and \<open>stop\<close> joins every thread, so that it returns to a server that
  is not running, serves nothing and can be destroyed.
\<close>

theorem server_patient_stop:
  assumes "run_allowed patient server_step es new_server" and "server_run es new_server = Some s"
  shows "(serving s \<longrightarrow> api_running s) \<and>
    (server_thread s \<in> {NoServer, Finished} \<and> \<not> in_join s \<longrightarrow>
      (let s1 = api_stop s; s2 = (if in_join s1 then the (api_join s1) else s1) in
       (in_join s1 \<longrightarrow> api_join s1 \<noteq> None) \<and> destroyed_cleanly s2 \<and> \<not> api_running s2 \<and> \<not> serving s2))"
proof -
  have ok: "server_ok s" using assms by (rule patient_server.reachable)
  then have "serving s \<longrightarrow> api_running s"
    by (auto simp: server_ok_def serving_def)
  moreover have "destroyed_cleanly s2 \<and> \<not> api_running s2 \<and> \<not> serving s2 \<and> (in_join s1 \<longrightarrow> api_join s1 \<noteq> None)"
    if "server_thread s \<in> {NoServer, Finished}" "\<not> in_join s" "s1 = api_stop s"
      "s2 = (if in_join s1 then the (api_join s1) else s1)" for s1 s2
    using ok that by (cases "impl_running s")
      (auto simp: server_ok_def server_defs destroyed_cleanly_def serving_def split: if_splits)
  ultimately show ?thesis by (simp add: Let_def)
qed

theorem server_patient_stop_witness:
  "let s = the (server_run [ApiStart, RunListen True, RunSpawn 4] new_server) in
   serving s \<and> destroyed_cleanly (the (api_join (api_stop s)))"
proof -
  let ?s = "the (server_run [ApiStart, RunListen True, RunSpawn 4] new_server)"
  have r: "server_run [ApiStart, RunListen True, RunSpawn 4] new_server = Some ?s"
    by (simp add: new_server_def server_defs)
  have "run_allowed patient server_step [ApiStart, RunListen True, RunSpawn 4] new_server"
    by (simp add: patient_def new_server_def server_defs)
  from server_patient_stop [OF this r] show ?thesis
    by (simp add: new_server_def server_defs serving_def Let_def)
qed

text \<open>
  A \<open>stop\<close> that comes before the server thread has opened its listener does not stop the
  server: \<open>ServerImpl::stop\<close> does nothing, the join lets \<open>run\<close> finish, and the object that
  reports it is not running serves requests and terminates the process when it is destroyed.
  A \<open>stop\<close> that comes between the listener and the I/O threads leaves those unjoined, with the
  same end.
\<close>

theorem server_early_stop:
  "\<exists>s t. server_run [ApiStart, ApiStop, RunListen True, RunSpawn n, ApiJoin] new_server = Some s \<and>
      \<not> api_running s \<and> serving s \<and> \<not> destroyed_cleanly (api_stop s) \<and>
    server_run [ApiStart, RunListen True, ApiStop, RunSpawn n, ApiJoin] new_server = Some t \<and>
      \<not> api_running t \<and> \<not> serving t \<and> \<not> destroyed_cleanly (api_stop t)"
  by (simp add: new_server_def server_defs serving_def destroyed_cleanly_def)

text \<open>
  A server that was stopped never serves again. Nothing restarts the stopped I/O context, so
  after any further starts, with whatever outcome and number of threads, \<open>start\<close> makes
  \<open>isRunning\<close> true and no request is ever accepted.
\<close>

theorem server_no_restart:
  assumes "ioc_stopped s" and "server_run es s = Some s'"
  shows "\<not> serving s'"
proof -
  have "ioc_stopped s'" using assms stopped_server.holds_after by simp
  then show ?thesis by (simp add: serving_def)
qed

theorem server_no_restart_witness:
  "\<exists>s s'. server_run [ApiStart, RunListen True, RunSpawn 2, ApiStop, ApiJoin] new_server = Some s \<and>
    server_run [ApiStart, RunListen True, RunSpawn 2] s = Some s' \<and> api_running s' \<and> 0 < io_threads s' \<and>
    \<not> serving s'"
proof -
  let ?s = "the (server_run [ApiStart, RunListen True, RunSpawn 2, ApiStop, ApiJoin] new_server)"
  let ?s' = "the (server_run [ApiStart, RunListen True, RunSpawn 2] ?s)"
  have r: "server_run [ApiStart, RunListen True, RunSpawn 2, ApiStop, ApiJoin] new_server = Some ?s"
    "server_run [ApiStart, RunListen True, RunSpawn 2] ?s = Some ?s'" "ioc_stopped ?s"
    "api_running ?s'" "0 < io_threads ?s'"
    by (simp_all add: new_server_def server_defs)
  with server_no_restart [OF r(3,2)] show ?thesis by blast
qed

end
