(* ===== verification/Startup.thy ===== *)
theory Startup
  imports Main_Loop Cpu_Collector Memory_Collector Rest_Server
begin

text \<open>
  \<^verbatim>\<open>main.cpp\<close> as a whole: from the arguments to the running program or the exit code, and the
  shutdown. What the machine answers is one record.
\<close>

section \<open>State\<close>

text \<open>
  The files, \<^verbatim>\<open>hardware_concurrency()\<close>, whether the database initialises, \<^verbatim>\<open>/proc/stat\<close>, the clock
  at the two constructors, libpcap's answer for an interface, and the default packet.
\<close>

record 'h environment =
  en_files :: "string \<Rightarrow> string option"
  en_threads :: u32
  en_database_ready :: bool
  en_proc_stat :: "string option"
  en_cpu_time :: int
  en_memory_time :: int
  en_opened :: "string \<Rightarrow> string + 'h"
  en_packet :: packet_info

text \<open>The program when the main loop begins; the dashboard is its port only.\<close>

record 'h program =
  pg_config :: config
  pg_logger :: "logger option"
  pg_pool :: "main_task thread_pool"
  pg_database :: "database_type \<times> string"
  pg_store :: mstore
  pg_cpu :: cpu_collector
  pg_memory :: memory_collector
  pg_threads :: "lifecycle list"
  pg_network :: "(('h, pipeline) capture \<times> analyzer) option"
  pg_alerts :: manager
  pg_api :: "(u16 \<times> rest_server) option"
  pg_web :: "u16 option"

datatype 'h outcome = ExitCode int | Terminates | Started "'h program"

section \<open>Operations\<close>

definition start_program :: "'h environment \<Rightarrow> config \<Rightarrow> 'h outcome" where
  "start_program e c =
     (if \<not> en_database_ready e then ExitCode 1
      else
        let (h1, cpu) = CpuCollector (en_cpu_time e) (en_proc_stat e) [];
            (h2, memory) = MemoryCollector (en_memory_time e) h1
        in case network_setup c (en_opened e) (en_packet e) of
             Inl _ \<Rightarrow> Terminates
           | Inr network \<Rightarrow> Started
               \<lparr>pg_config = c, pg_logger = init_logger c None, pg_pool = ThreadPool (unat (en_threads e)),
                pg_database = database_setting c, pg_store = h2, pg_cpu = cpu, pg_memory = memory,
                pg_threads = [collector_start new_collector, collector_start new_collector],
                pg_network = network,
                pg_alerts = alert_setup c (getMetric ''cpu.usage'' (cpu_metrics cpu))
                              (getMetric ''memory.usage_percent'' (mem_metrics memory)),
                pg_api = (if cfg_bool ''enable_api'' False c
                          then Some (cfg_u16 ''api_port'' 8080 c, api_start new_server) else None),
                pg_web = (if cfg_bool ''enable_web'' False c then Some (cfg_u16 ''web_port'' 9090 c) else None)\<rparr>)"

definition startup :: "'h environment \<Rightarrow> string list \<Rightarrow> 'h outcome" where
  "startup e args =
     (case parse_args (en_files e) args ConfigManager of
        Usage \<Rightarrow> ExitCode 0
      | LoadFailed f \<Rightarrow> ExitCode 1
      | Uncaught err \<Rightarrow> Terminates
      | Configured c \<Rightarrow> start_program e c)"

text \<open>
  The shutdown after the loop: the server, the collectors, the capture. Each \<open>stop\<close> of a
  collector and of the server also joins its threads, which the machines of those components
  describe.
\<close>

definition shutdown :: "'h program \<Rightarrow> crash + 'h program" where
  "shutdown p =
     (let p = p\<lparr>pg_api := map_option (\<lambda>(port, s). (port, api_stop s)) (pg_api p),
                pg_threads := map stop_locked (pg_threads p)\<rparr>
      in case pg_network p of
           None \<Rightarrow> Inr p
         | Some (cap, a) \<Rightarrow>
             if is_capturing cap
             then (case stopCapture cap of Inl err \<Rightarrow> Inl err | Inr cap' \<Rightarrow> Inr (p\<lparr>pg_network := Some (cap', a)\<rparr>))
             else Inr p)"

section \<open>Lemmas\<close>

lemma network_setup_total:
  "network_setup c opened d = Inr
    (if cfg_bool ''enable_packet_capture'' False c
     then (case opened (cfg_string ''capture_interface'' ''eth0'' c) of
             Inl _ \<Rightarrow> None
           | Inr hnd \<Rightarrow> Some (\<lparr>pimpl = Some (Some hnd), is_capturing = True, packets_captured = 0, bytes_captured = 0,
               capture_thread = True, packet_buffer = cb_init 1024 d, handlers = [enqueue_packet]\<rparr>, analyzer_init d))
     else None)"
  by (auto simp: network_setup_def Let_def startCapture_def openInterface_def capture_init_def registerHandler_def
      split: sum.splits)

lemma started_shape:
  assumes "startup e args = Started p"
  defines "n \<equiv> length (readCpuStats (en_proc_stat e)) - 1"
  shows "parse_args (en_files e) args ConfigManager = Configured (pg_config p)"
    and "pg_store p = GaugeMetric ''cpu.usage'' (en_cpu_time e) # map (\<lambda>j. GaugeMetric (core_name j) (en_cpu_time e)) [0 ..< n]
          @ map (\<lambda>m. GaugeMetric m (en_memory_time e)) memory_names"
    and "cpu_usage (pg_cpu p) = 0" and "core_usage (pg_cpu p) = [1 ..< 1 + n]"
    and "prev_stats (pg_cpu p) = readCpuStats (en_proc_stat e)" and "cpu_ok (pg_store p, pg_cpu p)"
    and "pg_alerts p = alert_setup (pg_config p) (Some 0) (Some (n + 4))"
    and "Inr (pg_network p) = network_setup (pg_config p) (en_opened e) (en_packet e)"
    and "pg_pool p = ThreadPool (unat (en_threads e))"
    and "pg_threads p = [collector_start new_collector, collector_start new_collector]"
    and "pg_api p = (if cfg_bool ''enable_api'' False (pg_config p)
           then Some (cfg_u16 ''api_port'' 8080 (pg_config p), api_start new_server) else None)"
    and "om_ok (cpu_metrics (pg_cpu p)) \<and> om_ok (mem_metrics (pg_memory p))"
    and "pg_web p = (if cfg_bool ''enable_web'' False (pg_config p) then Some (cfg_u16 ''web_port'' 9090 (pg_config p)) else None)"
proof -
  obtain c where c: "parse_args (en_files e) args ConfigManager = Configured c" "start_program e c = Started p"
    using assms(1) by (auto simp: startup_def split: cli_result.splits)
  obtain reg where cpu: "CpuCollector (en_cpu_time e) (en_proc_stat e) [] =
      (GaugeMetric ''cpu.usage'' (en_cpu_time e) # map (\<lambda>j. GaugeMetric (core_name j) (en_cpu_time e)) [0 ..< n],
       \<lparr>cpu_metrics = reg, cpu_usage = 0, core_usage = [1 ..< 1 + n], prev_stats = readCpuStats (en_proc_stat e)\<rparr>)"
    and reg: "om_ok reg" "getMetric ''cpu.usage'' reg = Some 0"
    using CpuCollector_shape [of "en_cpu_time e" "en_proc_stat e" "[]"] unfolding n_def [symmetric] by auto
  let ?h1 = "fst (CpuCollector (en_cpu_time e) (en_proc_stat e) [])"
  obtain h2 memory where mem: "MemoryCollector (en_memory_time e) ?h1 = (h2, memory)" by fastforce
  note shape = MemoryCollector_shape [OF mem]
  obtain network where net: "network_setup c (en_opened e) (en_packet e) = Inr network"
    using network_setup_total by blast
  have "length ?h1 + 3 = n + 4" using cpu by simp
  then have usage: "getMetric ''memory.usage_percent'' (mem_metrics memory) = Some (n + 4)"
    using shape(3) by (simp only:)
  note parts = cpu [THEN arg_cong [where f = snd]] mem usage net reg(2)
  have p: "p = \<lparr>pg_config = c, pg_logger = init_logger c None, pg_pool = ThreadPool (unat (en_threads e)),
                pg_database = database_setting c, pg_store = h2, pg_cpu = snd (CpuCollector (en_cpu_time e) (en_proc_stat e) []),
                pg_memory = memory,
                pg_threads = [collector_start new_collector, collector_start new_collector],
                pg_network = network,
                pg_alerts = alert_setup c (Some 0) (Some (n + 4)),
                pg_api = (if cfg_bool ''enable_api'' False c
                          then Some (cfg_u16 ''api_port'' 8080 c, api_start new_server) else None),
                pg_web = (if cfg_bool ''enable_web'' False c then Some (cfg_u16 ''web_port'' 9090 c) else None)\<rparr>"
    using c(2) unfolding start_program_def Let_def case_prod_beta
    by (simp add: parts split: if_splits)
  have "cpu_ok (?h1, snd (CpuCollector (en_cpu_time e) (en_proc_stat e) []))" using CpuCollector_ok by simp
  then have "cpu_ok (h2, snd (CpuCollector (en_cpu_time e) (en_proc_stat e) []))"
    unfolding shape(1) by (rule cpu_ok_extend)
  then show "cpu_ok (pg_store p, pg_cpu p)" unfolding p by simp
  show "parse_args (en_files e) args ConfigManager = Configured (pg_config p)"
    "pg_store p = GaugeMetric ''cpu.usage'' (en_cpu_time e) # map (\<lambda>j. GaugeMetric (core_name j) (en_cpu_time e)) [0 ..< n]
          @ map (\<lambda>m. GaugeMetric m (en_memory_time e)) memory_names"
    "cpu_usage (pg_cpu p) = 0" "core_usage (pg_cpu p) = [1 ..< 1 + n]"
    "prev_stats (pg_cpu p) = readCpuStats (en_proc_stat e)"
    "pg_alerts p = alert_setup (pg_config p) (Some 0) (Some (n + 4))"
    "Inr (pg_network p) = network_setup (pg_config p) (en_opened e) (en_packet e)"
    "pg_pool p = ThreadPool (unat (en_threads e))"
    "pg_threads p = [collector_start new_collector, collector_start new_collector]"
    "pg_api p = (if cfg_bool ''enable_api'' False (pg_config p)
           then Some (cfg_u16 ''api_port'' 8080 (pg_config p), api_start new_server) else None)"
    "om_ok (cpu_metrics (pg_cpu p)) \<and> om_ok (mem_metrics (pg_memory p))"
    "pg_web p = (if cfg_bool ''enable_web'' False (pg_config p) then Some (cfg_u16 ''web_port'' 9090 (pg_config p)) else None)"
    unfolding p using c(1) shape(1,2) cpu net reg(1) by simp_all
qed

lemma started_names:
  assumes "startup e args = Started p"
  defines "n \<equiv> length (readCpuStats (en_proc_stat e)) - 1"
  shows "pg_store p ! 0 = GaugeMetric ''cpu.usage'' (en_cpu_time e)"
    and "pg_store p ! (n + 4) = GaugeMetric ''memory.usage_percent'' (en_memory_time e)"
    and "n + 4 < length (pg_store p)"
proof -
  note store = started_shape(2) [OF assms(1), folded n_def]
  show "pg_store p ! 0 = GaugeMetric ''cpu.usage'' (en_cpu_time e)" unfolding store by simp
  show "pg_store p ! (n + 4) = GaugeMetric ''memory.usage_percent'' (en_memory_time e)"
    unfolding store by (simp add: nth_append memory_names_def)
  show "n + 4 < length (pg_store p)" unfolding store by (simp add: memory_names_def)
qed

section \<open>Properties\<close>

text \<open>
  C23: The outcome of \<^verbatim>\<open>main\<close>'s start, in every case. An exception ends it exactly for a port that is
  no number; it exits with 0 exactly for the usage text, and with 1 exactly for a file that cannot be
  read and, when the arguments are good, for a database that does not initialise; otherwise it
  starts. A program that starts has the settings of its arguments, a pool of as many workers as
  the machine reports, both collectors running, four alerts on the CPU and the memory usage
  metric of its own store, a capture together with its analyzer exactly when capturing is
  enabled and the interface opens, and an API server and a dashboard exactly when they are enabled.
\<close>

theorem startup_outcome:
  "(startup e args = Terminates \<longleftrightarrow> (\<exists>err. parse_args (en_files e) args ConfigManager = Uncaught err)) \<and>
   (startup e args = ExitCode k \<longleftrightarrow>
     k = 0 \<and> parse_args (en_files e) args ConfigManager = Usage \<or>
     k = 1 \<and> ((\<exists>f. parse_args (en_files e) args ConfigManager = LoadFailed f) \<or>
       (\<exists>c. parse_args (en_files e) args ConfigManager = Configured c) \<and> \<not> en_database_ready e)) \<and>
   ((\<exists>p. startup e args = Started p) \<longleftrightarrow>
     (\<exists>c. parse_args (en_files e) args ConfigManager = Configured c) \<and> en_database_ready e) \<and>
   (startup e args = Started p \<longrightarrow>
     parse_args (en_files e) args ConfigManager = Configured (pg_config p) \<and>
     getThreadCount (pg_pool p) = unat (en_threads e) \<and> (\<forall>l \<in> set (pg_threads p). running l) \<and>
     map (\<lambda>a. map_option (\<lambda>m. m_name (pg_store p ! m)) (cond_metric (al_condition a))) (mgr_alerts (pg_alerts p)) =
       [Some ''cpu.usage'', Some ''cpu.usage'', Some ''memory.usage_percent'', Some ''memory.usage_percent''] \<and>
     (pg_network p \<noteq> None \<longleftrightarrow> cfg_bool ''enable_packet_capture'' False (pg_config p) \<and>
        (\<exists>hnd. en_opened e (cfg_string ''capture_interface'' ''eth0'' (pg_config p)) = Inr hnd)) \<and>
     (pg_api p \<noteq> None \<longleftrightarrow> cfg_bool ''enable_api'' False (pg_config p)) \<and>
     (pg_web p \<noteq> None \<longleftrightarrow> cfg_bool ''enable_web'' False (pg_config p)))"
proof (intro conjI impI)
  show "startup e args = Terminates \<longleftrightarrow> (\<exists>err. parse_args (en_files e) args ConfigManager = Uncaught err)"
    "startup e args = ExitCode k \<longleftrightarrow>
     k = 0 \<and> parse_args (en_files e) args ConfigManager = Usage \<or>
     k = 1 \<and> ((\<exists>f. parse_args (en_files e) args ConfigManager = LoadFailed f) \<or>
       (\<exists>c. parse_args (en_files e) args ConfigManager = Configured c) \<and> \<not> en_database_ready e)"
    "(\<exists>p. startup e args = Started p) \<longleftrightarrow>
     (\<exists>c. parse_args (en_files e) args ConfigManager = Configured c) \<and> en_database_ready e"
    by (cases "parse_args (en_files e) args ConfigManager";
      auto simp: startup_def start_program_def network_setup_total case_prod_beta Let_def)+
next
  assume st: "startup e args = Started p"
  note shape = started_shape [OF st] and names = started_names [OF st]
  show "parse_args (en_files e) args ConfigManager = Configured (pg_config p)" by (rule shape(1))
  show "getThreadCount (pg_pool p) = unat (en_threads e)"
    unfolding shape(9) by (simp add: getThreadCount_def ThreadPool_def)
  show "\<forall>l \<in> set (pg_threads p). running l"
    unfolding shape(10) by (simp add: new_collector_def collector_start_def Let_def)
  show "map (\<lambda>a. map_option (\<lambda>m. m_name (pg_store p ! m)) (cond_metric (al_condition a))) (mgr_alerts (pg_alerts p)) =
       [Some ''cpu.usage'', Some ''cpu.usage'', Some ''memory.usage_percent'', Some ''memory.usage_percent'']"
    unfolding shape(7) using names
    by (simp add: alerts_of_setup MetricThresholdCondition_def GaugeMetric_def new_metric_def)
  show "pg_network p \<noteq> None \<longleftrightarrow> cfg_bool ''enable_packet_capture'' False (pg_config p) \<and>
        (\<exists>hnd. en_opened e (cfg_string ''capture_interface'' ''eth0'' (pg_config p)) = Inr hnd)"
    using shape(8) by (auto simp: network_setup_total split: sum.splits)
  show "pg_api p \<noteq> None \<longleftrightarrow> cfg_bool ''enable_api'' False (pg_config p)" unfolding shape(11) by simp
  show "pg_web p \<noteq> None \<longleftrightarrow> cfg_bool ''enable_web'' False (pg_config p)" unfolding shape(13) by simp
qed

definition sample_environment :: "nat environment" where
  "sample_environment = \<lparr>en_files = (\<lambda>f. None), en_threads = 4, en_database_ready = True, en_proc_stat = None,
     en_cpu_time = 0, en_memory_time = 0, en_opened = (\<lambda>i. Inr 1), en_packet = blank_packet\<rparr>"

theorem startup_outcome_witness:
  "startup sample_environment [''--help''] = ExitCode 0 \<and> startup sample_environment [''--config'', ''x''] = ExitCode 1 \<and>
   startup sample_environment [''--web-port'', ''x''] = Terminates \<and>
   startup (sample_environment\<lparr>en_database_ready := False\<rparr>) [] = ExitCode 1"
proof -
  have "stoi ''x'' = Inl InvalidArgument" by (simp add: stoi_def scan_int_def is_space_def is_digit_def char_code_def)
  then have p: "parse_args (en_files sample_environment) [''--help''] ConfigManager = Usage"
    "parse_args (en_files sample_environment) [''--config'', ''x''] ConfigManager = LoadFailed ''x''"
    "parse_args (en_files sample_environment) [''--web-port'', ''x''] ConfigManager = Uncaught InvalidArgument"
    by (simp_all only: parse_last parse_bad_config sample_environment_def environment.simps if_True simp_thms)
      (subst parse_args.simps(2), simp)
  then have "startup sample_environment [''--web-port'', ''x''] = Terminates"
    using startup_outcome [of sample_environment "[''--web-port'', ''x'']"] by blast
  moreover have "startup (sample_environment\<lparr>en_database_ready := False\<rparr>) [] = ExitCode 1"
    using startup_outcome [of "sample_environment\<lparr>en_database_ready := False\<rparr>" "[]" 1] by simp
  ultimately show ?thesis using p by (simp add: startup_def)
qed

text \<open>
  From \<^verbatim>\<open>/proc/stat\<close> to the database. In a program started without arguments, when a round of
  the CPU collector measures a usage of \<open>x\<close> percent, the next check of the alerts inserts into the
  database the warning exactly when \<open>x\<close> is above 80 and after it the critical alert exactly when
  \<open>x\<close> is above 90, and nothing else.
\<close>

theorem cpu_usage_reaches_database:
  assumes "startup e [] = Started p" and "length (readCpuStats f) = length (readCpuStats (en_proc_stat e))"
    and "calculateCpuUsage (readCpuStats (en_proc_stat e) ! 0) (readCpuStats f ! 0) = Fin x"
    and "length moments = 4"
  shows "\<exists>h cpu. cpu_collect now f (pg_store p, pg_cpu p) = Some (h, cpu) \<and>
    ((\<forall>m \<in> set moments. fst m = h) \<longrightarrow>
      (let due = (if 80 < x then [(''High CPU Usage (Warning)'', ''cpu.usage > '' @ dbl_to_string (Fin 80), 1)] else []) @
         (if 90 < x then [(''High CPU Usage (Critical)'', ''cpu.usage > '' @ dbl_to_string (Fin 90), 3)] else [])
       in snd (check_task t h moments (pg_alerts p) []) =
         map (\<lambda>k. case due ! k of (n, d, sev) \<Rightarrow> InsertAlert \<lparr>ar_name = n, ar_description = d, ar_severity = sev,
           ar_timestamp = t k, ar_acknowledged = False\<rparr>) [0..<length due]))"
proof -
  let ?n = "length (readCpuStats (en_proc_stat e)) - 1"
  note shape = started_shape [OF assms(1)] and names = started_names [OF assms(1)]
  have conf: "pg_config p = ConfigManager" using shape(1) by simp
  have ne: "readCpuStats (en_proc_stat e) \<noteq> []" by (simp add: readCpuStats_def Let_def)
  obtain h where h: "cpu_collect now f (pg_store p, pg_cpu p) = Some (h, (pg_cpu p)\<lparr>prev_stats := readCpuStats f\<rparr>)"
    "h ! 0 = update (now 0) (Fin x) (pg_store p ! 0)"
    "h ! (?n + 4) = pg_store p ! (?n + 4)"
    using cpu_collect_some [of f "pg_cpu p" "pg_store p" now] assms(2,3) shape(3-6) ne by auto
  have cur: "getCurrentValue (h ! 0) = Fin x" "m_name (h ! 0) = ''cpu.usage''"
    unfolding h(2) names(1)
    by (simp_all add: getCurrentValue_def counter_getCurrentValue_def gauge_getCurrentValue_def writers_record
        GaugeMetric_def new_metric_def record_sample_def)
  have mem: "getCurrentValue (h ! (?n + 4)) = Fin 0"
    unfolding h(3) names(2)
    by (simp add: getCurrentValue_def counter_getCurrentValue_def gauge_getCurrentValue_def GaugeMetric_def new_metric_def)
  show ?thesis
  proof (intro exI conjI impI)
    show "cpu_collect now f (pg_store p, pg_cpu p) = Some (h, (pg_cpu p)\<lparr>prev_stats := readCpuStats f\<rparr>)" by (rule h(1))
    assume m: "\<forall>m \<in> set moments. fst m = h"
    show "let due = (if 80 < x then [(''High CPU Usage (Warning)'', ''cpu.usage > '' @ dbl_to_string (Fin 80), 1)] else []) @
         (if 90 < x then [(''High CPU Usage (Critical)'', ''cpu.usage > '' @ dbl_to_string (Fin 90), 3)] else [])
       in snd (check_task t h moments (pg_alerts p) []) =
         map (\<lambda>k. case due ! k of (n, d, sev) \<Rightarrow> InsertAlert \<lparr>ar_name = n, ar_description = d, ar_severity = sev,
           ar_timestamp = t k, ar_acknowledged = False\<rparr>) [0..<length due]"
      unfolding shape(7) conf first_alert_records [OF assms(4) m cur(1) mem] using cur(2)
      by (cases "80 < x"; cases "90 < x") (simp_all add: Let_def)
  qed
qed

theorem cpu_usage_reaches_database_witness:
  "\<exists>p h cpu. startup sample_environment [] = Started p \<and>
    cpu_collect (\<lambda>k. 5) (Some (unlines [cpu_line ('''', zero_stats\<lparr>cs_user := 100\<rparr>)])) (pg_store p, pg_cpu p) = Some (h, cpu) \<and>
    length (snd (check_task (\<lambda>k. 9) h (replicate 4 (h, 7, 8)) (pg_alerts p) [])) = 2"
proof -
  let ?cur = "zero_stats\<lparr>cs_user := 100\<rparr>"
  let ?f = "Some (unlines [cpu_line ('''', ?cur)])"
  obtain p where p: "startup sample_environment [] = Started p"
    by (simp add: startup_def start_program_def network_setup_total sample_environment_def case_prod_beta Let_def)
  have f: "readCpuStats ?f = [?cur]" using read_printed_stats [of "[('''', ?cur)]" "[]"] by simp
  have e: "readCpuStats (en_proc_stat sample_environment) = [zero_stats]"
    by (simp add: sample_environment_def readCpuStats_def)
  have r: "rnd 0 = Fin 0" "rnd 1 = Fin 1" "rnd 100 = Fin 100"
    using rnd_of_nat [of 0] rnd_of_nat [of 1] rnd_of_nat [of 100] by simp_all
  have u: "calculateCpuUsage (readCpuStats (en_proc_stat sample_environment) ! 0) (readCpuStats ?f ! 0) = Fin 100"
    unfolding e f
    by (simp add: calculateCpuUsage_def cpu_total_def cpu_idle_total_def zero_stats_def dbl_of_u64_def dsub_def r)
  have "length (readCpuStats ?f) = length (readCpuStats (en_proc_stat sample_environment))" using e f by simp
  note all = cpu_usage_reaches_database [OF p this u, of _ "\<lambda>k. 5" "\<lambda>k. 9"]
  obtain h cpu where h: "cpu_collect (\<lambda>k. 5) ?f (pg_store p, pg_cpu p) = Some (h, cpu)"
    using all [of "replicate 4 ([], 0, 0)"] by auto
  have "length (snd (check_task (\<lambda>k. 9) h (replicate 4 (h, 7, 8)) (pg_alerts p) [])) = 2"
    using all [of "replicate 4 (h, 7, 8)"] h by (simp add: Let_def)
  with p h show ?thesis by blast
qed

end
