(* ===== verification/Monitor_System.thy ===== *)
theory Monitor_System
  imports Task_Order Task_Progress Collector_Threads Network_System Startup
begin

text \<open>
  \<^verbatim>\<open>main.cpp\<close> as one machine, from the moment the main loop begins to the end of the block: the main
  thread, the capture thread with its handler, the workers of the pool with the tasks of both, and the
  threads of the collectors, all interleaved.
\<close>

section \<open>State\<close>

text \<open>
  The main thread is in its loop, with the time of the last cleanup and the tasks of the round that
  are still to be queued; or past the loop, with the number of collectors it has stopped, or waiting
  in the \<open>stop\<close> of one; or it leaves the block, with the objects that are still alive; or it waits in
  the destructor of the pool.
\<close>

datatype main_position =
  InLoop int "main_task list" | Leaving nat | Joining nat | Unwinding "main_object list" | PoolStopped

text \<open>\<open>mo_dangling\<close>: a task has used an object that is destroyed; nothing can be said of what follows.\<close>

record 'h monitor =
  mo_net :: "('h, shared) capture_system"
  mo_cpu :: "(cpu_collector, string option) collecting"
  mo_memory :: "(memory_collector, (string \<Rightarrow> u64) \<times> string option) collecting"
  mo_main :: main_position
  mo_dangling :: bool

abbreviation world :: "'h monitor \<Rightarrow> shared" where
  "world s \<equiv> handled (mo_net s)"

definition set_world :: "shared \<Rightarrow> 'h monitor \<Rightarrow> 'h monitor" where
  "set_world w s = s\<lparr>mo_net := (mo_net s)\<lparr>handled := w\<rparr>\<rparr>"

section \<open>Steps\<close>

text \<open>The handler of the capture; an exception would leave the capture thread and end the process.\<close>

definition queue_packet :: "packet_info \<Rightarrow> shared \<Rightarrow> shared" where
  "queue_packet packet w =
     (case submit (HandlePacket packet) w of Some w' \<Rightarrow> w' | None \<Rightarrow> w\<lparr>sh_terminated := True\<rparr>)"

text \<open>
  \<open>Round\<close>: the loop test with the flag still set, up to the reading \<open>now\<close> of the steady clock. \<open>Queue\<close>:
  one \<open>enqueue\<close>; an exception leaves the loop, for destructors that make the same stops. \<open>Signal\<close>: the
  loop test after a signal.
\<close>

datatype 'h monitor_event =
  Round int | Queue | Signal | StopCollector | JoinCollector | StopCapture | JoinCapture
| CaptureStep packet_info int pcap_frame | PoolWorker nat task_input
| CpuThread bool int "string option" | MemoryThread bool int "(string \<Rightarrow> u64) \<times> string option"
| DestroyObject | StopPool

definition main_round :: "int \<Rightarrow> 'h monitor \<Rightarrow> 'h monitor option" where
  "main_round now s =
     (case mo_main s of
        InLoop last_time [] \<Rightarrow>
          (let (enable_auto_cleanup, cleanup_interval) = loop_settings (sh_config (world s));
               (ts, last_time) = loop_round enable_auto_cleanup cleanup_interval now last_time
           in Some (s\<lparr>mo_main := InLoop last_time ts\<rparr>))
      | _ \<Rightarrow> None)"

definition main_queue :: "'h monitor \<Rightarrow> 'h monitor option" where
  "main_queue s =
     (case mo_main s of
        InLoop last_time (t # ts) \<Rightarrow>
          Some (case submit t (world s) of
                  Some w \<Rightarrow> (set_world w s)\<lparr>mo_main := InLoop last_time ts\<rparr>
                | None \<Rightarrow> s\<lparr>mo_main := Leaving 0\<rparr>)
      | _ \<Rightarrow> None)"

definition main_signal :: "'h monitor \<Rightarrow> 'h monitor option" where
  "main_signal s = (case mo_main s of InLoop last_time [] \<Rightarrow> Some (s\<lparr>mo_main := Leaving 0\<rparr>) | _ \<Rightarrow> None)"

text \<open>Past the loop each collector is stopped, which waits for its thread, ...\<close>

definition collector_life :: "nat \<Rightarrow> 'h monitor \<Rightarrow> lifecycle" where
  "collector_life n s = (if n = 0 then cg_life (mo_cpu s) else cg_life (mo_memory s))"

definition set_life :: "nat \<Rightarrow> lifecycle \<Rightarrow> 'h monitor \<Rightarrow> 'h monitor" where
  "set_life n l s = (if n = 0 then s\<lparr>mo_cpu := (mo_cpu s)\<lparr>cg_life := l\<rparr>\<rparr> else s\<lparr>mo_memory := (mo_memory s)\<lparr>cg_life := l\<rparr>\<rparr>)"

definition stop_collector :: "'h monitor \<Rightarrow> 'h monitor option" where
  "stop_collector s =
     (case mo_main s of
        Leaving n \<Rightarrow>
          if 2 \<le> n then None
          else if running (collector_life n s)
          then Some ((set_life n (stop_locked (collector_life n s)) s)\<lparr>mo_main := Joining n\<rparr>)
          else Some (s\<lparr>mo_main := Leaving (Suc n)\<rparr>)
      | _ \<Rightarrow> None)"

definition join_collector :: "'h monitor \<Rightarrow> 'h monitor option" where
  "join_collector s =
     (case mo_main s of
        Joining n \<Rightarrow>
          map_option (\<lambda>l. (set_life n l s)\<lparr>mo_main := Leaving (Suc n)\<rparr>) (stop_join (collector_life n s))
      | _ \<Rightarrow> None)"

text \<open>... and then the capture.\<close>

definition capture_call ::
    "(packet_info \<Rightarrow> packet_info) \<Rightarrow> ('h, shared) capture_event \<Rightarrow> 'h monitor \<Rightarrow> 'h monitor option" where
  "capture_call mv e s = map_option (\<lambda>net. s\<lparr>mo_net := net\<rparr>) (system_step mv e (mo_net s))"

text \<open>
  The end of the block destroys the objects from the last to the first, once the capture is stopped;
  the destructor of the pool, which was declared first, sets its flag, notifies its workers and waits.
\<close>

definition destroy_object :: "'h monitor \<Rightarrow> 'h monitor option" where
  "destroy_object s =
     (case mo_main s of
        Leaving n \<Rightarrow>
          if n < 2 \<or> is_capturing (the_object (mo_net s)) \<or> stop_waits (mo_net s) then None
          else Some (s\<lparr>mo_main := Unwinding (butlast declaration_order)\<rparr>)
      | Unwinding (x # y # objs) \<Rightarrow> Some (s\<lparr>mo_main := Unwinding (butlast (x # y # objs))\<rparr>)
      | _ \<Rightarrow> None)"

definition stop_pool_step :: "'h monitor \<Rightarrow> 'h monitor option" where
  "stop_pool_step s =
     (if mo_main s = Unwinding [ThreadPoolObject] then Some ((set_world (stop_workers (world s)) s)\<lparr>mo_main := PoolStopped\<rparr>)
      else None)"

fun alive_objects :: "main_position \<Rightarrow> main_object set" where
  "alive_objects (Unwinding objs) = set objs"
| "alive_objects PoolStopped = {}"
| "alive_objects _ = set declaration_order"

text \<open>Nothing is left but the pool.\<close>

definition objects_gone :: "'h monitor \<Rightarrow> bool" where
  "objects_gone s \<longleftrightarrow> alive_objects (mo_main s) \<subseteq> {ThreadPoolObject}"

text \<open>What the next step of a running task touches.\<close>

fun step_uses :: "main_task \<Rightarrow> job_position \<Rightarrow> main_object set" where
  "step_uses (HandlePacket p) Begun = {PacketAnalyzerObject}"
| "step_uses CheckAlerts Begun = {AlertManagerObject}"
| "step_uses StoreMetrics Begun = {Collectors}"
| "step_uses Cleanup Begun = {}"
| "step_uses t PacketProcessed = {PacketAnalyzerObject}"
| "step_uses t (PacketFetched None) = {}"
| "step_uses t (PacketFetched (Some r)) = {DatabaseObject}"
| "step_uses t (Checking as) = {AlertManagerObject}"
| "step_uses t (Calling a [] as) = {AlertManagerObject}"
| "step_uses t (Calling a (cb # cbs) as) = {AlertManagerObject, DatabaseObject}"
| "step_uses t (Reading now (r # todo) points) = {Collectors}"
| "step_uses t (Reading now [] points) = {DatabaseObject}"
| "step_uses t (Pruning []) = {}"
| "step_uses t (Pruning (c # cs)) = {DatabaseObject}"

definition touches_gone :: "nat \<Rightarrow> 'h monitor \<Rightarrow> bool" where
  "touches_gone k s \<longleftrightarrow> k < length (workers (sh_pool (world s))) \<and>
     (case workers (sh_pool (world s)) ! k of
        Running j \<Rightarrow>
          (case sh_jobs (world s) ! j of
             (t, Active pos) \<Rightarrow> \<not> step_uses t pos \<subseteq> alive_objects (mo_main s)
           | _ \<Rightarrow> False)
      | _ \<Rightarrow> False)"

definition worker_call :: "task_input \<Rightarrow> nat \<Rightarrow> 'h monitor \<Rightarrow> 'h monitor option" where
  "worker_call i k s =
     (if touches_gone k s then Some (s\<lparr>mo_dangling := True\<rparr>)
      else map_option (\<lambda>w. set_world w s) (worker_step i k (world s)))"

text \<open>A step of a collector's thread; the gauge it writes, if any, is one of the shared metrics.\<close>

definition written :: "int \<Rightarrow> (nat \<times> dbl) option \<Rightarrow> shared \<Rightarrow> shared" where
  "written now w s = (case w of None \<Rightarrow> s | Some (p, v) \<Rightarrow> collector_writes p now v s)"

definition cpu_thread :: "bool \<Rightarrow> int \<Rightarrow> string option \<Rightarrow> 'h monitor \<Rightarrow> 'h monitor option" where
  "cpu_thread elapsed now file s =
     map_option (\<lambda>(g, w). (set_world (written now w (world s)) s)\<lparr>mo_cpu := g\<rparr>)
       (collect_step cpu_sample elapsed file (mo_cpu s))"

definition memory_thread :: "bool \<Rightarrow> int \<Rightarrow> (string \<Rightarrow> u64) \<times> string option \<Rightarrow> 'h monitor \<Rightarrow> 'h monitor option" where
  "memory_thread elapsed now input s =
     map_option (\<lambda>(g, w). (set_world (written now w (world s)) s)\<lparr>mo_memory := g\<rparr>)
       (collect_step memory_sample elapsed input (mo_memory s))"

definition monitor_step ::
    "(packet_info \<Rightarrow> packet_info) \<Rightarrow> 'h monitor_event \<Rightarrow> 'h monitor \<Rightarrow> 'h monitor option" where
  "monitor_step mv e s =
     (if mo_dangling s \<or> sh_terminated (world s) \<or> ended (mo_net s) \<noteq> None then None
      else case e of
        Round now \<Rightarrow> main_round now s
      | Queue \<Rightarrow> main_queue s
      | Signal \<Rightarrow> main_signal s
      | StopCollector \<Rightarrow> stop_collector s
      | JoinCollector \<Rightarrow> join_collector s
      | StopCapture \<Rightarrow> (if mo_main s = Leaving 2 then capture_call mv StopCall s else None)
      | JoinCapture \<Rightarrow> (if mo_main s = Leaving 2 then capture_call mv JoinThread s else None)
      | CaptureStep junk res fr \<Rightarrow> capture_call mv (ThreadStep junk res fr) s
      | PoolWorker k i \<Rightarrow> worker_call i k s
      | CpuThread elapsed now file \<Rightarrow> cpu_thread elapsed now file s
      | MemoryThread elapsed now input \<Rightarrow> memory_thread elapsed now input s
      | DestroyObject \<Rightarrow> destroy_object s
      | StopPool \<Rightarrow> stop_pool_step s)"

text \<open>
  The program that \<open>startup\<close> has started; \<open>t0\<close> is the steady clock before the loop. Without a capture
  the object is there but never started.
\<close>

definition monitor_of :: "'h environment \<Rightarrow> int \<Rightarrow> 'h program \<Rightarrow> 'h monitor" where
  "monitor_of e t0 p =
     (let w = shared_start (unat (en_threads e)) (en_packet e) (pg_store p)
                [cpu_metrics (pg_cpu p), mem_metrics (pg_memory p)] (pg_config p) (pg_alerts p);
          net = register_step queue_packet (capture_system (en_packet e) w)
      in \<lparr>mo_net = (if pg_network p = None then net
                    else start_step (en_opened e (cfg_string ''capture_interface'' ''eth0'' (pg_config p))) net),
          mo_cpu = collecting_of (pg_threads p ! 0) (pg_cpu p), mo_memory = collecting_of (pg_threads p ! 1) (pg_memory p),
          mo_main = InLoop t0 [], mo_dangling = False\<rparr>)"

section \<open>The machine of the pool inside it\<close>

definition the_writes :: "('g \<times> 'w option) option \<Rightarrow> 'w list" where
  "the_writes r = (case r of Some (g, Some w) \<Rightarrow> [w] | _ \<Rightarrow> [])"

definition shared_events :: "'h monitor_event \<Rightarrow> 'h monitor \<Rightarrow> pool_event list" where
  "shared_events e s =
     (case e of
        Queue \<Rightarrow> (case mo_main s of InLoop last_time (t # ts) \<Rightarrow> [Submit t] | _ \<Rightarrow> [])
      | CaptureStep junk res fr \<Rightarrow> map (Submit \<circ> HandlePacket) (handed_over (ThreadStep junk res fr) (mo_net s))
      | PoolWorker k i \<Rightarrow> if touches_gone k s then [] else [Worker k i]
      | CpuThread elapsed now file \<Rightarrow>
          map (\<lambda>(p, v). Measure p now v) (the_writes (collect_step cpu_sample elapsed file (mo_cpu s)))
      | MemoryThread elapsed now input \<Rightarrow>
          map (\<lambda>(p, v). Measure p now v) (the_writes (collect_step memory_sample elapsed input (mo_memory s)))
      | StopPool \<Rightarrow> [StopWorkers]
      | _ \<Rightarrow> [])"

text \<open>
  What is asked of the environment: frames that the parsers can read and a steady clock that does not
  go back; and of the values the collectors write, what \<open>P\<close> says.
\<close>

definition monitor_env :: "(nat \<Rightarrow> dbl \<Rightarrow> bool) \<Rightarrow> 'h monitor_event \<Rightarrow> 'h monitor \<Rightarrow> bool" where
  "monitor_env P e s =
     (case e of
        CaptureStep junk res fr \<Rightarrow> readable_frame junk res fr
      | PoolWorker k i \<Rightarrow> sh_steady (world s) \<le> fst (ti_steady i) \<and> fst (ti_steady i) \<le> snd (ti_steady i)
      | CpuThread elapsed now file \<Rightarrow> (\<forall>(p, v) \<in> set (the_writes (collect_step cpu_sample elapsed file (mo_cpu s))). P p v)
      | MemoryThread elapsed now input \<Rightarrow>
          (\<forall>(p, v) \<in> set (the_writes (collect_step memory_sample elapsed input (mo_memory s))). P p v)
      | _ \<Rightarrow> True)"

definition pool_env :: "(nat \<Rightarrow> dbl \<Rightarrow> bool) \<Rightarrow> pool_event \<Rightarrow> shared \<Rightarrow> bool" where
  "pool_env P e w \<longleftrightarrow> readable_events e w \<and> steady_events P e w"

definition periodic :: "main_task \<Rightarrow> bool" where
  "periodic t \<longleftrightarrow> (\<forall>p. t \<noteq> HandlePacket p)"

definition leaves_block :: "main_position \<Rightarrow> bool" where
  "leaves_block m \<longleftrightarrow> m = PoolStopped \<or> (\<exists>objs. m = Unwinding objs)"

lemma leaves_block_simps [simp]:
  "leaves_block PoolStopped" "leaves_block (Unwinding objs)" "\<not> leaves_block (Leaving n)" "\<not> leaves_block (Joining n)" "\<not> leaves_block (InLoop l ts)"
  by (simp_all add: leaves_block_def)

lemma alive_all: "\<not> leaves_block m \<Longrightarrow> step_uses t pos \<subseteq> alive_objects m"
  by (cases m; cases "(t, pos)" rule: step_uses.cases) (simp_all add: declaration_order_def)

lemma touches_goneE:
  assumes "touches_gone k s"
  obtains j t pos where "k < length (workers (sh_pool (world s)))" and "workers (sh_pool (world s)) ! k = Running j"
    and "sh_jobs (world s) ! j = (t, Active pos)" and "\<not> step_uses t pos \<subseteq> alive_objects (mo_main s)"
proof -
  obtain j where j: "workers (sh_pool (world s)) ! k = Running j" "k < length (workers (sh_pool (world s)))"
    using assms by (auto simp: touches_gone_def split: worker_state.splits)
  obtain t st where t: "sh_jobs (world s) ! j = (t, st)" by fastforce
  show ?thesis using assms j t that by (cases st) (auto simp: touches_gone_def)
qed

lemma touches_alive: "\<not> leaves_block (mo_main s) \<Longrightarrow> \<not> touches_gone k s"
  using alive_all by (blast elim: touches_goneE)

definition monitor_inv :: "'h monitor \<Rightarrow> bool" where
  "monitor_inv s \<longleftrightarrow> system_ok (mo_net s) \<and> handlers (the_object (mo_net s)) = [queue_packet] \<and>
     \<not> sh_terminated (world s) \<and> (\<forall>p \<in> set (in_hand (mo_net s)). readable p) \<and>
     (stopping (sh_pool (world s)) \<longleftrightarrow> mo_main s = PoolStopped) \<and>
     (leaves_block (mo_main s) \<longrightarrow> thread_at (mo_net s) = AtRest) \<and>
     (\<forall>last_time ts. mo_main s = InLoop last_time ts \<longrightarrow> (\<forall>t \<in> set ts. periodic t))"

lemma submit_runs: "\<not> stopping (sh_pool w) \<Longrightarrow> \<exists>w'. submit t w = Some w' \<and> \<not> stopping (sh_pool w') \<and>
    sh_terminated w' = sh_terminated w \<and> sh_jobs w' = sh_jobs w @ [(t, InQueue)]"
  by (simp add: submit_def enqueue_def notify_one_def)

lemma queue_packet_submits:
  "\<not> stopping (sh_pool w) \<Longrightarrow> submit (HandlePacket p) w = Some (queue_packet p w) \<and> \<not> stopping (sh_pool (queue_packet p w)) \<and>
    sh_terminated (queue_packet p w) = sh_terminated w \<and> sh_jobs (queue_packet p w) = sh_jobs w @ [(HandlePacket p, InQueue)]"
  using submit_runs [of w "HandlePacket p"] by (auto simp: queue_packet_def)

lemma queue_packets_submit:
  "\<not> stopping (sh_pool w) \<Longrightarrow>
    run_events pool_event_step (map (Submit \<circ> HandlePacket) ps) w = Some (foldl (\<lambda>w p. queue_packet p w) w ps) \<and>
    \<not> stopping (sh_pool (foldl (\<lambda>w p. queue_packet p w) w ps)) \<and>
    sh_terminated (foldl (\<lambda>w p. queue_packet p w) w ps) = sh_terminated w \<and>
    sh_jobs (foldl (\<lambda>w p. queue_packet p w) w ps) = sh_jobs w @ map (\<lambda>p. (HandlePacket p, InQueue)) ps"
proof (induction ps arbitrary: w)
  case (Cons p ps)
  note q = queue_packet_submits [OF Cons.prems, of p]
  then show ?case using Cons.IH [of "queue_packet p w"] by (simp add: pool_event_step_def)
qed simp

lemma queue_packets_allowed:
  "\<forall>p \<in> set ps. readable p \<Longrightarrow> run_allowed (pool_env P) pool_event_step (map (Submit \<circ> HandlePacket) ps) w"
  by (induction ps arbitrary: w)
    (auto simp: pool_env_def readable_events_def steady_events_def measured_values_def split: option.splits)

lemma worker_step_pool:
  assumes "worker_step i k w = Some w'"
  shows "stopping (sh_pool w') = stopping (sh_pool w) \<and> sh_terminated w' = sh_terminated w \<and>
    map fst (sh_jobs w') = map fst (sh_jobs w) \<and> sh_config w' = sh_config w"
proof (cases "\<exists>j. workers (sh_pool w) ! k = Running j")
  case True
  then obtain j where j: "workers (sh_pool w) ! k = Running j" by blast
  then have run: "worker_run i k j w = Some w'" using assms by (auto simp: worker_step_def split: if_splits)
  obtain t st where t: "sh_jobs w ! j = (t, st)" by fastforce
  show ?thesis
  proof (cases st)
    case (Active pos)
    then obtain st' w1 where w1: "job_step i j t pos w = Some (st', w1)" "w' = set_job j st' w1"
      using run t by (auto simp: worker_run_def)
    then show ?thesis using job_step_frame [OF w1(1)] by simp
  qed (use run t in \<open>auto simp: worker_run_def worker_finish_def split: if_splits\<close>)
next
  case False
  then have "workers (sh_pool w) ! k \<in> {Waiting, Asleep, Exited}" by (intro not_running) blast
  then have take: "worker_take (ti_spurious i) k w = Some w'" using assms by (auto simp: worker_step_def split: if_splits)
  then obtain p where p: "worker_wake (ti_spurious i) k (sh_pool w) = Some p"
    by (auto simp: worker_take_def split: option.splits)
  then have "stopping p = stopping (sh_pool w)"
    by (cases rule: worker_wake_cases) simp_all
  then show ?thesis using take p by (auto simp: worker_take_def split: worker_state.splits)
qed

lemma capture_call_inv:
  assumes inv: "monitor_inv s" and ev: "\<forall>h. e \<noteq> RegisterCall h" and st: "\<forall>opened. e \<noteq> StartCall opened"
    and rd: "\<forall>p \<in> set (read_packets e (mo_net s)). readable p" and over: "\<not> over_reads e (mo_net s)"
    and step: "capture_call mv e s = Some s'"
  shows "monitor_inv s' \<and> run_events pool_event_step (map (Submit \<circ> HandlePacket) (handed_over e (mo_net s))) (world s) = Some (world s') \<and>
    (\<forall>p \<in> set (handed_over e (mo_net s)). readable p) \<and>
    in_hand (mo_net s) @ read_packets e (mo_net s) = handed_over e (mo_net s) @ in_hand (mo_net s') \<and>
    mo_main s' = mo_main s \<and> mo_dangling s' = mo_dangling s \<and>
    sh_jobs (world s') = sh_jobs (world s) @ map (\<lambda>p. (HandlePacket p, InQueue)) (handed_over e (mo_net s))"
proof -
  note inv' = inv [unfolded monitor_inv_def]
  obtain net where net: "system_step mv e (mo_net s) = Some net" "s' = s\<lparr>mo_net := net\<rparr>"
    using step by (auto simp: capture_call_def)
  have pass: "handlers (the_object net) = [queue_packet]"
    "handled net = foldl (\<lambda>w p. queue_packet p w) (world s) (handed_over e (mo_net s))"
    "in_hand (mo_net s) @ read_packets e (mo_net s) = handed_over e (mo_net s) @ in_hand net"
    using packets_pass [OF _ _ net(1)] inv' ev by simp_all
  have "readable p" if "p \<in> set (in_hand (mo_net s) @ read_packets e (mo_net s))" for p
    using that inv' rd by auto
  then have r: "\<forall>p \<in> set (handed_over e (mo_net s)). readable p" "\<forall>p \<in> set (in_hand net). readable p"
    unfolding pass(3) by auto
  have ok: "system_ok net" using system_refines [OF _ net(1) over] inv' by blast
  have none: "handed_over e (mo_net s) = []" if "thread_at (mo_net s) = AtRest"
    using that by (auto simp: handed_over_def split: capture_event.splits)
  have rest: "thread_at net = AtRest" if "thread_at (mo_net s) = AtRest" "leaves_block (mo_main s)"
    using net(1) that st ev
    by (cases e) (auto simp: system_step_def stop_step_def join_step_def thread_step_def Let_def split: if_splits)
  show ?thesis
  proof (cases "stopping (sh_pool (world s))")
    case True
    then have "leaves_block (mo_main s)" "thread_at (mo_net s) = AtRest" using inv' by (auto simp:)
    then show ?thesis using inv' pass r ok none rest net(2) by (simp add: monitor_inv_def)
  next
    case False
    note q = queue_packets_submit [OF False, of "handed_over e (mo_net s)"]
    then show ?thesis using False inv' pass r ok rest net(2) by (auto simp: monitor_inv_def)
  qed
qed

lemma capture_quiet:
  assumes inv: "monitor_inv s" and e: "e = StopCall \<or> e = JoinThread" and step: "capture_call mv e s = Some s'"
  shows "in_hand (mo_net s') = in_hand (mo_net s) \<and> mo_main s' = mo_main s \<and> sh_jobs (world s') = sh_jobs (world s)"
proof -
  have none: "read_packets e (mo_net s) = []" "handed_over e (mo_net s) = []"
    using e by (auto simp: read_packets_def handed_over_def)
  have over: "\<not> over_reads e (mo_net s)" using e by (auto simp: over_reads_def)
  have "\<forall>p \<in> set (read_packets e (mo_net s)). readable p" "\<forall>h. e \<noteq> RegisterCall h" "\<forall>opened. e \<noteq> StartCall opened"
    using none e by auto
  from capture_call_inv [OF inv this(2,3,1) over step] show ?thesis
    unfolding none append_Nil append_Nil2 list.map by metis
qed

lemma system_ok_handled: "system_ok (c\<lparr>handled := w\<rparr>) = system_ok c"
proof -
  have "settled (c\<lparr>handled := w\<rparr>) = settled c" by (cases "thread_at c") (simp_all add: settled_def Let_def)
  then show ?thesis by (simp add: system_ok_def)
qed

lemma worker_call_inv:
  assumes inv: "monitor_inv s" and step: "worker_call i k s = Some s'"
  shows "monitor_inv s' \<and> mo_net s' = (mo_net s)\<lparr>handled := world s'\<rparr> \<and> mo_main s' = mo_main s \<and>
    (if touches_gone k s then world s' = world s \<and> mo_dangling s'
     else worker_step i k (world s) = Some (world s') \<and> mo_dangling s' = mo_dangling s)"
proof (cases "touches_gone k s")
  case True
  then show ?thesis using assms by (auto simp: worker_call_def monitor_inv_def)
next
  case False
  then obtain w where w: "worker_step i k (world s) = Some w" "s' = set_world w s"
    using step by (auto simp: worker_call_def split: if_splits)
  have "system_ok ((mo_net s)\<lparr>handled := w\<rparr>)" using inv by (simp add: monitor_inv_def system_ok_handled)
  then show ?thesis using inv False w worker_step_pool [OF w(1)]
    by (auto simp: monitor_inv_def set_world_def in_hand_def)
qed

lemma main_queue_inv:
  assumes inv: "monitor_inv s" and step: "main_queue s = Some s'"
  shows "\<exists>last_time t ts. mo_main s = InLoop last_time (t # ts) \<and> periodic t \<and> submit t (world s) = Some (world s') \<and>
    mo_main s' = InLoop last_time ts \<and> monitor_inv s' \<and> mo_net s' = (mo_net s)\<lparr>handled := world s'\<rparr> \<and>
    mo_dangling s' = mo_dangling s"
proof -
  obtain l t ts where m: "mo_main s = InLoop l (t # ts)"
    using step by (auto simp: main_queue_def split: main_position.splits list.splits)
  then have "\<not> stopping (sh_pool (world s))" using inv by (simp add: monitor_inv_def)
  from submit_runs [OF this, of t] obtain w where w: "submit t (world s) = Some w" "\<not> stopping (sh_pool w)"
    "sh_terminated w = sh_terminated (world s)" by blast
  have s': "s' = (set_world w s)\<lparr>mo_main := InLoop l ts\<rparr>" using step m w(1) by (simp add: main_queue_def)
  have "system_ok ((mo_net s)\<lparr>handled := w\<rparr>)" using inv by (simp add: monitor_inv_def system_ok_handled)
  then have "monitor_inv s'" using inv m w by (auto simp: monitor_inv_def s' set_world_def in_hand_def)
  moreover have "periodic t" using inv m by (auto simp: monitor_inv_def)
  ultimately show ?thesis using m w s' by (auto simp: set_world_def)
qed

lemma loop_round_periodic: "\<forall>t \<in> set (fst (loop_round auto interval now l)). periodic t"
  by (simp add: loop_round_def periodic_def)

lemma capture_at_rest:
  assumes "system_ok c" and "\<not> is_capturing (the_object c)" and "\<not> stop_waits c"
  shows "thread_at c = AtRest"
  using assms by (simp add: system_ok_fields)

lemma destroy_object_shape:
  assumes "destroy_object s = Some s'"
  obtains objs where "s' = s\<lparr>mo_main := Unwinding objs\<rparr>"
    and "(\<exists>n. mo_main s = Leaving n) \<and> \<not> is_capturing (the_object (mo_net s)) \<and> \<not> stop_waits (mo_net s) \<or> (\<exists>os. mo_main s = Unwinding os)"
  using assms
  by (auto simp: destroy_object_def split: main_position.splits list.splits if_splits)

lemma monitor_inv_cpu:
  "monitor_inv (s\<lparr>mo_cpu := g\<rparr>) = monitor_inv s" "monitor_inv (s\<lparr>mo_memory := g'\<rparr>) = monitor_inv s"
  by (simp_all add: monitor_inv_def)

lemma world_set_world: "world (set_world w s) = w" "world (s\<lparr>mo_cpu := g\<rparr>) = world s" "world (s\<lparr>mo_memory := g'\<rparr>) = world s"
  by (simp_all add: set_world_def)

lemma written_inv:
  assumes "monitor_inv s"
  shows "monitor_inv (set_world (written now w (world s)) s) \<and>
    run_events pool_event_step (map (\<lambda>(p, v). Measure p now v) (the_writes (Some (g, w)))) (world s) =
      Some (written now w (world s)) \<and>
    ((\<forall>(p, v) \<in> set (the_writes (Some (g, w))). P p v) \<longrightarrow>
      run_allowed (pool_env P) pool_event_step (map (\<lambda>(p, v). Measure p now v) (the_writes (Some (g, w)))) (world s))"
proof -
  have "system_ok ((mo_net s)\<lparr>handled := w\<rparr>)" for w using assms by (simp add: monitor_inv_def system_ok_handled)
  then show ?thesis using assms
    by (auto simp: monitor_inv_def set_world_def in_hand_def written_def collector_writes_def the_writes_def
        pool_event_step_def pool_env_def readable_events_def steady_events_def measured_values_def split: option.splits)
qed

text \<open>One step, seen from the pool.\<close>

lemma monitor_step_shared:
  assumes inv: "monitor_inv s" and env: "monitor_env P e s" and step: "monitor_step mv e s = Some s'"
  shows "monitor_inv s' \<and> run_events pool_event_step (shared_events e s) (world s) = Some (world s') \<and>
    run_allowed (pool_env P) pool_event_step (shared_events e s) (world s)"
proof -
  have running: "\<not> mo_dangling s" "\<not> sh_terminated (world s)" "ended (mo_net s) = None"
    using step by (auto simp: monitor_step_def split: if_splits)
  show ?thesis
  proof (cases e)
    case (Round now)
    then have r: "main_round now s = Some s'" using step running by (simp add: monitor_step_def)
    then obtain l l' ts where "mo_main s = InLoop l []" "s' = s\<lparr>mo_main := InLoop l' ts\<rparr>"
        "ts = fst (loop_round (fst (loop_settings (sh_config (world s)))) (snd (loop_settings (sh_config (world s)))) now l)"
      by (auto simp: main_round_def case_prod_beta Let_def split: main_position.splits list.splits)
    then show ?thesis using inv Round loop_round_periodic
      by (auto simp: monitor_inv_def shared_events_def)
  next
    case Queue
    then have "main_queue s = Some s'" using step running by (simp add: monitor_step_def)
    from main_queue_inv [OF inv this] Queue show ?thesis
      by (auto simp: shared_events_def pool_event_step_def pool_env_def readable_events_def steady_events_def
          measured_values_def periodic_def split: main_task.splits)
  next
    case Signal
    then have "main_signal s = Some s'" using step running by (simp add: monitor_step_def)
    then show ?thesis using inv Signal
      by (auto simp: main_signal_def monitor_inv_def shared_events_def
          split: main_position.splits list.splits)
  next
    case StopCapture
    then have "capture_call mv StopCall s = Some s'" using step running by (simp add: monitor_step_def split: if_splits)
    from capture_call_inv [OF inv _ _ _ _ this] StopCapture show ?thesis
      by (simp add: shared_events_def handed_over_def read_packets_def over_reads_def)
  next
    case JoinCapture
    then have "capture_call mv JoinThread s = Some s'" using step running by (simp add: monitor_step_def split: if_splits)
    from capture_call_inv [OF inv _ _ _ _ this] JoinCapture show ?thesis
      by (simp add: shared_events_def handed_over_def read_packets_def over_reads_def)
  next
    case (CaptureStep junk res fr)
    then have c: "capture_call mv (ThreadStep junk res fr) s = Some s'" using step running by (simp add: monitor_step_def)
    have rd: "\<forall>p \<in> set (read_packets (ThreadStep junk res fr) (mo_net s)). readable p"
      using env CaptureStep
      by (auto simp: monitor_env_def readable_frame_def read_packets_def split: option.splits if_splits)
    have over: "\<not> over_reads (ThreadStep junk res fr) (mo_net s)"
      using env CaptureStep by (simp add: monitor_env_def readable_frame_def over_reads_def split: option.splits)
    from capture_call_inv [OF inv _ _ rd over c] queue_packets_allowed [of _ P "world s"] CaptureStep show ?thesis
      by (simp add: shared_events_def)
  next
    case (PoolWorker k i)
    then have c: "worker_call i k s = Some s'" using step running by (simp add: monitor_step_def)
    show ?thesis using worker_call_inv [OF inv c] PoolWorker env
      by (auto simp: shared_events_def pool_event_step_def pool_env_def readable_events_def steady_events_def
          measured_values_def monitor_env_def)
  next
    case StopCollector
    then have "stop_collector s = Some s'" using step running by (simp add: monitor_step_def)
    then show ?thesis using inv StopCollector
      by (auto simp: stop_collector_def set_life_def monitor_inv_def shared_events_def split: main_position.splits if_splits)
  next
    case JoinCollector
    then have "join_collector s = Some s'" using step running by (simp add: monitor_step_def)
    then show ?thesis using inv JoinCollector
      by (auto simp: join_collector_def set_life_def monitor_inv_def shared_events_def split: main_position.splits if_splits)
  next
    case (CpuThread elapsed now f)
    then have "cpu_thread elapsed now f s = Some s'" using step running by (simp add: monitor_step_def)
    then obtain g w where g: "collect_step cpu_sample elapsed f (mo_cpu s) = Some (g, w)"
      "s' = (set_world (written now w (world s)) s)\<lparr>mo_cpu := g\<rparr>" by (auto simp: cpu_thread_def)
    then show ?thesis using written_inv [OF inv, of now w] CpuThread env
      by (auto simp: monitor_inv_cpu world_set_world shared_events_def the_writes_def monitor_env_def)
  next
    case (MemoryThread elapsed now input)
    then have "memory_thread elapsed now input s = Some s'" using step running by (simp add: monitor_step_def)
    then obtain g w where g: "collect_step memory_sample elapsed input (mo_memory s) = Some (g, w)"
      "s' = (set_world (written now w (world s)) s)\<lparr>mo_memory := g\<rparr>" by (auto simp: memory_thread_def)
    then show ?thesis using written_inv [OF inv, of now w] MemoryThread env
      by (auto simp: monitor_inv_cpu world_set_world shared_events_def the_writes_def monitor_env_def)
  next
    case DestroyObject
    then have d: "destroy_object s = Some s'" using step running by (simp add: monitor_step_def)
    obtain objs where s': "s' = s\<lparr>mo_main := Unwinding objs\<rparr>" and m: "(\<exists>n. mo_main s = Leaving n) \<and>
        \<not> is_capturing (the_object (mo_net s)) \<and> \<not> stop_waits (mo_net s) \<or> (\<exists>os. mo_main s = Unwinding os)"
      using destroy_object_shape [OF d] .
    have ok: "system_ok (mo_net s)" and rest: "leaves_block (mo_main s) \<longrightarrow> thread_at (mo_net s) = AtRest"
      using inv by (simp_all add: monitor_inv_def)
    have "thread_at (mo_net s) = AtRest" using m capture_at_rest [OF ok] rest by (elim disjE exE) simp_all
    moreover have "mo_main s \<noteq> PoolStopped" using m by auto
    ultimately have "monitor_inv s'" using inv by (simp add: monitor_inv_def s')
    then show ?thesis using DestroyObject by (simp add: shared_events_def s')
  next
    case StopPool
    then have m: "mo_main s = Unwinding [ThreadPoolObject]" and s': "s' = (set_world (stop_workers (world s)) s)\<lparr>mo_main := PoolStopped\<rparr>"
      using step running by (simp_all add: monitor_step_def stop_pool_step_def split: if_splits)
    have "system_ok ((mo_net s)\<lparr>handled := w\<rparr>)" for w using inv by (simp add: monitor_inv_def system_ok_handled)
    then show ?thesis using inv m StopPool
      by (auto simp: s' monitor_inv_def set_world_def in_hand_def stop_workers_def stop_pool_def notify_all_def
          shared_events_def pool_event_step_def pool_env_def readable_events_def steady_events_def measured_values_def)
  qed
qed

interpretation pool_in_monitor:
  machine_simulation "monitor_step mv" "monitor_env P" monitor_inv pool_event_step "pool_env P" world shared_events
  for mv P
  using monitor_step_shared by unfold_locales blast+

section \<open>The readings of the clock\<close>

text \<open>The times that the tasks read, as the events of the program have them.\<close>

definition task_readings :: "'h monitor_event \<Rightarrow> 'h monitor \<Rightarrow> (nat \<times> int) list" where
  "task_readings e s =
     (case e of PoolWorker k i \<Rightarrow> if touches_gone k s then [] else clock_reads (Worker k i) (world s) | _ \<Rightarrow> [])"

lemma no_readings: "\<forall>x \<in> set xs. \<forall>k i. x \<noteq> Worker k i \<Longrightarrow> run_labels clock_reads step xs w = []"
  by (induction xs arbitrary: w) (auto simp: clock_reads_def split: pool_event.splits option.splits)

lemma task_readings_shared:
  "task_readings e s = run_labels clock_reads pool_event_step (shared_events e s) (world s)"
proof (cases "\<exists>k i. e = PoolWorker k i")
  case True
  then show ?thesis by (auto simp: task_readings_def shared_events_def split: option.splits)
next
  case False
  then have "\<forall>x \<in> set (shared_events e s). \<forall>k i. x \<noteq> Worker k i"
    by (auto simp: shared_events_def split: monitor_event.splits main_position.splits list.splits)
  then show ?thesis using False no_readings by (simp add: task_readings_def split: monitor_event.splits)
qed

section \<open>The order of the tasks\<close>

definition submitted_task :: "pool_event \<Rightarrow> main_task list" where
  "submitted_task e = (case e of Submit t \<Rightarrow> [t] | _ \<Rightarrow> [])"

definition queued_tasks :: "shared \<Rightarrow> main_task list" where
  "queued_tasks w = map fst (sh_jobs w)"

lemma pool_event_tasks:
  "pool_event_step e w = Some w' \<Longrightarrow> queued_tasks w' = queued_tasks w @ submitted_task e \<and> sh_config w' = sh_config w"
  by (cases e) (auto simp: pool_event_step_def queued_tasks_def submitted_task_def submit_def collector_writes_def
      stop_workers_def dest: worker_step_pool)

interpretation tasks_in_order:
  machine_simulation pool_event_step "\<lambda>e w. True" "\<lambda>w. True" append_event "\<lambda>t ts. True" queued_tasks
    "\<lambda>e w. submitted_task e"
  by unfold_locales (simp_all add: pool_event_tasks)

lemma labels_of_events: "run_events step es s = Some t \<Longrightarrow> run_labels (\<lambda>e s. f e) step es s = concat (map f es)"
proof (induction es arbitrary: s)
  case (Cons e es)
  obtain s1 where "step e s = Some s1" "run_events step es s1 = Some t"
    using Cons.prems unfolding run_events_Cons by blast
  then show ?case using Cons.IH [of s1] by simp
qed simp

lemma config_kept:
  "run_events pool_event_step es w = Some w' \<Longrightarrow> sh_config w' = sh_config w"
proof (induction es arbitrary: w)
  case (Cons e es)
  obtain w1 where w1: "pool_event_step e w = Some w1" "run_events pool_event_step es w1 = Some w'"
    using Cons.prems unfolding run_events_Cons by blast
  then show ?case using Cons.IH [OF w1(2)] pool_event_tasks [OF w1(1)] by simp
qed simp

lemma monitor_step_tasks:
  assumes "monitor_inv s" and "monitor_env P e s" and "monitor_step mv e s = Some s'"
  shows "queued_tasks (world s') = queued_tasks (world s) @ concat (map submitted_task (shared_events e s)) \<and>
    sh_config (world s') = sh_config (world s)"
proof -
  have r: "run_events pool_event_step (shared_events e s) (world s) = Some (world s')"
    using monitor_step_shared [OF assms] by blast
  show ?thesis
    using tasks_in_order.run_simulates [OF _ run_allowed_True r] config_kept [OF r]
      labels_of_events [OF r, of submitted_task]
    by simp
qed

text \<open>The packets captured: those of the tasks queued and the one in the hand of the capture thread.\<close>

definition task_packet :: "main_task \<Rightarrow> packet_info list" where
  "task_packet t = (case t of HandlePacket p \<Rightarrow> [p] | _ \<Rightarrow> [])"

definition captured :: "'h monitor \<Rightarrow> packet_info list" where
  "captured s = concat (map task_packet (queued_tasks (world s))) @ in_hand (mo_net s)"

definition frames_read :: "'h monitor_event \<Rightarrow> 'h monitor \<Rightarrow> packet_info list" where
  "frames_read e s = (case e of CaptureStep junk res fr \<Rightarrow> read_packets (ThreadStep junk res fr) (mo_net s) | _ \<Rightarrow> [])"

text \<open>The periodic tasks: those queued and those of the round that are still to be.\<close>

definition main_pending :: "main_position \<Rightarrow> main_task list" where
  "main_pending m = (case m of InLoop last_time ts \<Rightarrow> ts | _ \<Rightarrow> [])"

definition planned :: "'h monitor \<Rightarrow> main_task list" where
  "planned s = filter periodic (queued_tasks (world s)) @ main_pending (mo_main s)"

definition round_tasks :: "'h monitor_event \<Rightarrow> 'h monitor \<Rightarrow> main_task list" where
  "round_tasks e s =
     (case (e, mo_main s) of
        (Round now, InLoop last_time []) \<Rightarrow>
          (let (auto, interval) = loop_settings (sh_config (world s)) in fst (loop_round auto interval now last_time))
      | _ \<Rightarrow> [])"

lemma in_hand_handled: "in_hand (c\<lparr>handled := w\<rparr>) = in_hand c"
  by (simp add: in_hand_def)

lemma submitted_packets: "concat (map submitted_task (map (Submit \<circ> HandlePacket) ps)) = map HandlePacket ps"
  by (induction ps) (simp_all add: submitted_task_def)

lemma task_packets: "concat (map (task_packet \<circ> HandlePacket) ps) = ps" "filter periodic (map HandlePacket ps) = []"
  by (induction ps) (simp_all add: task_packet_def periodic_def)

text \<open>Every step adds to both what it reads and plans.\<close>

lemma monitor_step_order:
  assumes inv: "monitor_inv s" and env: "monitor_env P e s" and step: "monitor_step mv e s = Some s'"
  shows "captured s' = captured s @ frames_read e s \<and> planned s' = planned s @ round_tasks e s"
proof -
  have running: "\<not> mo_dangling s" "\<not> sh_terminated (world s)" "ended (mo_net s) = None"
    using step by (auto simp: monitor_step_def split: if_splits)
  note tasks = monitor_step_tasks [OF inv env step, THEN conjunct1]
  show ?thesis
  proof (cases e)
    case (Round now)
    then have "main_round now s = Some s'" using step running by (simp add: monitor_step_def)
    then obtain l where "mo_main s = InLoop l []" "mo_net s' = mo_net s"
        "main_pending (mo_main s') = round_tasks e s"
      by (auto simp: Round main_round_def round_tasks_def main_pending_def case_prod_beta Let_def
          split: main_position.splits list.splits)
    then show ?thesis using Round by (simp add: captured_def planned_def frames_read_def main_pending_def)
  next
    case Queue
    then have "main_queue s = Some s'" using step running by (simp add: monitor_step_def)
    from main_queue_inv [OF inv this] obtain l t ts where m: "mo_main s = InLoop l (t # ts)" "periodic t"
      "mo_main s' = InLoop l ts" "mo_net s' = (mo_net s)\<lparr>handled := world s'\<rparr>" by blast
    then have "queued_tasks (world s') = queued_tasks (world s) @ [t]"
      using tasks Queue by (simp add: shared_events_def submitted_task_def)
    moreover have "in_hand (mo_net s') = in_hand (mo_net s)" using m(4) in_hand_handled by metis
    moreover have "task_packet t = []" using m(2) by (auto simp: task_packet_def periodic_def split: main_task.splits)
    ultimately show ?thesis using m Queue
      by (simp add: captured_def planned_def frames_read_def round_tasks_def main_pending_def)
  next
    case Signal
    then have "main_signal s = Some s'" using step running by (simp add: monitor_step_def)
    then show ?thesis using Signal
      by (auto simp: main_signal_def captured_def planned_def frames_read_def round_tasks_def main_pending_def
          split: main_position.splits list.splits)
  next
    case StopCapture
    then have c: "capture_call mv StopCall s = Some s'" using step running by (simp add: monitor_step_def split: if_splits)
    have "in_hand (mo_net s') = in_hand (mo_net s)" "mo_main s' = mo_main s" "sh_jobs (world s') = sh_jobs (world s)"
      using capture_quiet [OF inv _ c] by simp_all
    then show ?thesis using StopCapture
      by (simp add: captured_def planned_def frames_read_def round_tasks_def queued_tasks_def)
  next
    case JoinCapture
    then have c: "capture_call mv JoinThread s = Some s'" using step running by (simp add: monitor_step_def split: if_splits)
    have "in_hand (mo_net s') = in_hand (mo_net s)" "mo_main s' = mo_main s" "sh_jobs (world s') = sh_jobs (world s)"
      using capture_quiet [OF inv _ c] by simp_all
    then show ?thesis using JoinCapture
      by (simp add: captured_def planned_def frames_read_def round_tasks_def queued_tasks_def)
  next
    case (CaptureStep junk res fr)
    let ?ev = "ThreadStep junk res fr :: ('a, shared) capture_event"
    have c: "capture_call mv ?ev s = Some s'" using step running CaptureStep by (simp add: monitor_step_def)
    have rd: "\<forall>p \<in> set (read_packets ?ev (mo_net s)). readable p"
      using env CaptureStep
      by (auto simp: monitor_env_def readable_frame_def read_packets_def split: option.splits if_splits)
    have over: "\<not> over_reads ?ev (mo_net s)"
      using env CaptureStep by (simp add: monitor_env_def readable_frame_def over_reads_def split: option.splits)
    have q: "queued_tasks (world s') = queued_tasks (world s) @ map HandlePacket (handed_over ?ev (mo_net s))"
      using tasks unfolding CaptureStep shared_events_def monitor_event.case submitted_packets .
    have "in_hand (mo_net s) @ read_packets ?ev (mo_net s) = handed_over ?ev (mo_net s) @ in_hand (mo_net s')"
      "mo_main s' = mo_main s"
      using capture_call_inv [OF inv _ _ rd over c] by auto
    then show ?thesis using CaptureStep
      by (simp add: captured_def planned_def frames_read_def round_tasks_def q task_packets)
  next
    case (PoolWorker k i)
    then have c: "worker_call i k s = Some s'" using step running by (simp add: monitor_step_def)
    have "queued_tasks (world s') = queued_tasks (world s)"
      using tasks PoolWorker by (simp add: shared_events_def submitted_task_def split: if_splits)
    moreover have "mo_main s' = mo_main s" "in_hand (mo_net s') = in_hand (mo_net s)"
      using worker_call_inv [OF inv c] by (blast, metis in_hand_handled)
    ultimately show ?thesis using PoolWorker by (simp add: captured_def planned_def frames_read_def round_tasks_def)
  next
    case StopCollector
    then have "stop_collector s = Some s'" using step running by (simp add: monitor_step_def)
    then show ?thesis using StopCollector
      by (auto simp: stop_collector_def set_life_def captured_def planned_def frames_read_def round_tasks_def main_pending_def
          split: main_position.splits if_splits)
  next
    case JoinCollector
    then have "join_collector s = Some s'" using step running by (simp add: monitor_step_def)
    then show ?thesis using JoinCollector
      by (auto simp: join_collector_def set_life_def captured_def planned_def frames_read_def round_tasks_def main_pending_def
          split: main_position.splits if_splits)
  next
    case (CpuThread elapsed now f)
    then have "cpu_thread elapsed now f s = Some s'" using step running by (simp add: monitor_step_def)
    then show ?thesis using CpuThread
      by (auto simp: cpu_thread_def captured_def planned_def frames_read_def round_tasks_def queued_tasks_def set_world_def
          written_def collector_writes_def in_hand_def split: option.splits)
  next
    case (MemoryThread elapsed now input)
    then have "memory_thread elapsed now input s = Some s'" using step running by (simp add: monitor_step_def)
    then show ?thesis using MemoryThread
      by (auto simp: memory_thread_def captured_def planned_def frames_read_def round_tasks_def queued_tasks_def set_world_def
          written_def collector_writes_def in_hand_def split: option.splits)
  next
    case DestroyObject
    then have d: "destroy_object s = Some s'" using step running by (simp add: monitor_step_def)
    obtain objs where "s' = s\<lparr>mo_main := Unwinding objs\<rparr>" "\<forall>l ts. mo_main s \<noteq> InLoop l ts"
      using destroy_object_shape [OF d] by (metis main_position.distinct(1,5))
    then show ?thesis using DestroyObject
      by (cases "mo_main s") (simp_all add: captured_def planned_def frames_read_def round_tasks_def main_pending_def)
  next
    case StopPool
    then have "mo_main s = Unwinding [ThreadPoolObject]" "s' = (set_world (stop_workers (world s)) s)\<lparr>mo_main := PoolStopped\<rparr>"
      using step running by (simp_all add: monitor_step_def stop_pool_step_def split: if_splits)
    then show ?thesis using StopPool
      by (simp add: captured_def planned_def frames_read_def round_tasks_def queued_tasks_def set_world_def
          stop_workers_def in_hand_def main_pending_def)
  qed
qed

interpretation captured_in_order:
  machine_simulation "monitor_step mv" "monitor_env P" monitor_inv append_event "\<lambda>p ps. True" captured frames_read
  for mv P
  by unfold_locales (simp add: monitor_step_order)

interpretation planned_in_order:
  machine_simulation "monitor_step mv" "monitor_env P" monitor_inv append_event "\<lambda>t ts. True" planned round_tasks
  for mv P
  by unfold_locales (simp add: monitor_step_order)

end
