(* ===== verification/Monitor_Properties.thy ===== *)
theory Monitor_Properties
  imports Monitor_System
begin

text \<open>
  What the program does from its start to its end, as a whole: the properties of the machine of
  \<open>Monitor_System\<close>, for every program that \<open>startup\<close> starts and every interleaving of its threads.
\<close>

section \<open>The program that has started\<close>

text \<open>The entries of a registry point to metrics of these names.\<close>

definition registry_in :: "mstore \<Rightarrow> registry \<Rightarrow> bool" where
  "registry_in h reg \<longleftrightarrow> (\<forall>e \<in> set reg. snd e < length h \<and> fst e = m_name (h ! snd e))"

lemma registry_in_extend: "registry_in h reg \<Longrightarrow> registry_in (h @ k) reg"
  by (auto simp: registry_in_def nth_append)

lemma registry_in_register: "registry_in h reg \<Longrightarrow> p < length h \<Longrightarrow> registry_in h (registerMetric h p reg)"
  by (auto simp: registry_in_def registerMetric_def dest!: set_om_put)

lemma registry_in_cores:
  "registry_in h reg \<Longrightarrow> make_cores now i n (h, reg) = (ps, h', reg') \<Longrightarrow> registry_in h' reg'"
proof (induction n arbitrary: i h reg ps)
  case (Suc n)
  let ?h = "h @ [GaugeMetric (core_name i) now]"
  have "registry_in ?h (registerMetric ?h (length h) reg)"
    by (rule registry_in_register [OF registry_in_extend [OF Suc.prems(1)]]) simp
  then show ?case using Suc by (auto simp: make_shared_def split: prod.splits)
qed simp

lemma registry_in_cpu: "CpuCollector now f h = (h', c) \<Longrightarrow> registry_in h' (cpu_metrics c)"
proof -
  assume c: "CpuCollector now f h = (h', c)"
  let ?h = "h @ [GaugeMetric ''cpu.usage'' now]"
  have "registry_in ?h (registerMetric ?h (length h) [])" by (rule registry_in_register) (simp_all add: registry_in_def)
  then show ?thesis using c registry_in_cores by (fastforce simp: CpuCollector_def make_shared_def Let_def split: prod.splits)
qed

lemma registry_in_registers:
  "registry_in h reg \<Longrightarrow> \<forall>p \<in> set ps. p < length h \<Longrightarrow> registry_in h (foldl (\<lambda>r p. registerMetric h p r) reg ps)"
  by (induction ps arbitrary: reg) (simp_all add: registry_in_register)

lemma registry_in_memory: "MemoryCollector now h = (h', c) \<Longrightarrow> registry_in h' (mem_metrics c)"
proof -
  assume c: "MemoryCollector now h = (h', c)"
  have r: "mem_metrics c = foldl (\<lambda>r p. registerMetric h' p r) [] (map ((+) (length h)) [0, 1, 2, 3, 4, 5, 6])"
    using c by (auto simp: MemoryCollector_def make_shared_def eval_nat_numeral)
  have l: "length h' = length h + 7" using c by (auto simp: MemoryCollector_def make_shared_def)
  show ?thesis unfolding r by (rule registry_in_registers) (auto simp: registry_in_def l)
qed

definition registries :: "'h program \<Rightarrow> registry list" where
  "registries p = [cpu_metrics (pg_cpu p), mem_metrics (pg_memory p)]"

lemma started_registries:
  assumes "startup e args = Started p"
  shows "\<forall>reg \<in> set (registries p). om_ok reg \<and> registry_in (pg_store p) reg"
proof -
  obtain c where c: "start_program e c = Started p"
    using assms by (auto simp: startup_def split: cli_result.splits)
  obtain h1 cpu where cpu: "CpuCollector (en_cpu_time e) (en_proc_stat e) [] = (h1, cpu)" by fastforce
  obtain h2 mem where mem: "MemoryCollector (en_memory_time e) h1 = (h2, mem)" by fastforce
  have p: "pg_store p = h2" "pg_cpu p = cpu" "pg_memory p = mem"
    using c by (auto simp: start_program_def cpu mem Let_def split: if_splits sum.splits)
  have "registry_in h2 (cpu_metrics cpu)"
    using registry_in_extend [OF registry_in_cpu [OF cpu]] MemoryCollector_shape(1) [OF mem] by simp
  then show ?thesis
    using started_shape(12) [OF assms] registry_in_memory [OF mem] by (simp add: registries_def p)
qed

lemma started_metrics:
  assumes "startup e args = Started p" and "q < length (pg_store p)"
  shows "getCurrentValue (pg_store p ! q) = Fin 0"
proof -
  have "\<forall>m \<in> set (pg_store p). getCurrentValue m = Fin 0"
    unfolding started_shape(2) [OF assms(1)] by (auto simp: GaugeMetric_def new_metric_def)
  then show ?thesis using assms(2) by simp
qed

section \<open>The first state\<close>

definition start_world :: "'h environment \<Rightarrow> 'h program \<Rightarrow> shared" where
  "start_world e p =
     shared_start (unat (en_threads e)) (en_packet e) (pg_store p) (registries p) (pg_config p) (pg_alerts p)"

lemma monitor_of_start:
  fixes e :: "'h environment"
  shows "monitor_inv (monitor_of e t0 p) \<and> world (monitor_of e t0 p) = start_world e p \<and>
   captured (monitor_of e t0 p) = [] \<and> planned (monitor_of e t0 p) = [] \<and> mo_main (monitor_of e t0 p) = InLoop t0 [] \<and>
   \<not> mo_dangling (monitor_of e t0 p)"
proof -
  let ?net = "register_step queue_packet (capture_system (en_packet e) (start_world e p)) :: ('h, shared) capture_system"
  let ?opened = "en_opened e (cfg_string ''capture_interface'' ''eth0'' (pg_config p))"
  have ok: "system_ok ?net" by (rule register_refines [OF system_ok_init, THEN conjunct1])
  have rest: "\<not> is_capturing (the_object ?net)" "handlers (the_object ?net) = [queue_packet]" "handled ?net = start_world e p"
    "thread_at ?net = AtRest" "\<not> stop_waits ?net"
    by (simp_all add: register_step_def capture_system_def capture_init_def registerHandler_def)
  have "system_ok (start_step ?opened ?net)" by (rule start_refines [OF ok rest(5), THEN conjunct1])
  moreover have "system_step id (StartCall ?opened) ?net = Some (start_step ?opened ?net)"
    using ok rest(5) by (simp add: system_step_def system_ok_def)
  from packets_pass [OF ok _ this] rest
  have "handlers (the_object (start_step ?opened ?net)) = [queue_packet]" "handled (start_step ?opened ?net) = start_world e p"
    "in_hand (start_step ?opened ?net) = []"
    by (simp_all add: handed_over_def read_packets_def in_hand_def)
  moreover have "monitor_of e t0 p = \<lparr>mo_net = (if pg_network p = None then ?net else start_step ?opened ?net),
      mo_cpu = collecting_of (pg_threads p ! 0) (pg_cpu p), mo_memory = collecting_of (pg_threads p ! 1) (pg_memory p),
      mo_main = InLoop t0 [], mo_dangling = False\<rparr>"
    by (simp add: monitor_of_def start_world_def registries_def Let_def)
  moreover have "\<not> stopping (sh_pool (start_world e p))" "\<not> sh_terminated (start_world e p)" "sh_jobs (start_world e p) = []"
    by (simp_all add: start_world_def shared_start_def ThreadPool_def)
  moreover have "in_hand ?net = []" using rest(4) by (simp add: in_hand_def)
  ultimately show ?thesis
    using ok rest by (simp add: monitor_inv_def captured_def planned_def main_pending_def queued_tasks_def)
qed

lemma start_inv:
  assumes st: "startup e args = Started p" and P: "\<And>q. P q (Fin 0)"
  defines "w \<equiv> start_world e p"
  shows "pool_part (unat (en_threads e)) w" and "lock_inv w" and "fit_inv w" and "packet_inv (en_packet e) [] w"
    and "periodic_inv P T (registries p) (pg_config p) w" and "manager_inv P (pg_alerts p) w"
    and "told_inv (pg_store p) w" and "serial_inv (en_packet e) w"
    and "checks_inv P T (pg_alerts p) (pg_store p) w"
proof -
  let ?n = "length (readCpuStats (en_proc_stat e)) - 1"
  note shape = started_shape [OF st]
  have cb: "mgr_callbacks (pg_alerts p) = [0]" and cd: "mgr_cooldown (pg_alerts p) = CooldownPolicy (60 * 10 ^ 9)"
    unfolding shape(7) by (rule alert_setup_rest)+
  have m: "\<forall>a \<in> set (mgr_alerts (pg_alerts p)). \<forall>q. cond_metric (al_condition a) = Some q \<longrightarrow> q < length (pg_store p)"
    unfolding shape(7) using started_names(3) [OF st] by (auto simp: alerts_of_setup MetricThresholdCondition_def)
  have v: "\<forall>q < length (pg_store p). P q (getCurrentValue (pg_store p ! q))" using started_metrics [OF st] P by simp
  show "pool_part (unat (en_threads e)) w" unfolding w_def start_world_def by (rule pool_part_start)
  show "lock_inv w" unfolding w_def start_world_def by (rule lock_inv_start)
  show "fit_inv w" by (simp add: w_def start_world_def shared_start_def fit_inv_def)
  show "packet_inv (en_packet e) [] w"
    by (rule packet_invI [of _ "[]" "[]"])
      (simp_all add: w_def start_world_def shared_start_def calls_known_def analyzer_after_Nil begun_packets_def)
  show "periodic_inv P T (registries p) (pg_config p) w"
    using started_registries [OF st] v
    by (simp add: periodic_inv_def w_def start_world_def shared_start_def calls_known_def registry_in_def)
  show manager: "manager_inv P (pg_alerts p) w"
    using m v by (simp add: manager_inv_def fired_ok_def ahead_ok_def w_def start_world_def shared_start_def log_inv_def cd
        CooldownPolicy_def spaced_def)
  show told: "told_inv (pg_store p) w"
    by (simp add: told_inv_def w_def start_world_def shared_start_def lock_inv_def cb told_def alert_calls_def)
  show "checks_inv P T (pg_alerts p) (pg_store p) w"
    using manager told by (simp add: checks_inv_def calls_known_def w_def start_world_def shared_start_def)
  show "serial_inv (en_packet e) w"
    by (rule serial_invI)
      (simp_all add: w_def start_world_def shared_start_def one_at_a_time_def calls_known_def analyzer_after_Nil
        begun_packets_def)
qed

section \<open>From the pool to the program\<close>

text \<open>
  A gauge has the value it was made with or one that a collector has computed from the files it has
  read: the CPU collector from two successive readings, the memory collector from one.
\<close>

definition sampled :: "'h program \<Rightarrow> 'h monitor \<Rightarrow> nat \<Rightarrow> dbl \<Rightarrow> bool" where
  "sampled p s q v \<longleftrightarrow> v = Fin 0 \<or> (q, v) \<in> set (writes_after cpu_sample (pg_cpu p) (cg_read (mo_cpu s))) \<or>
     (q, v) \<in> set (writes_after memory_sample (pg_memory p) (cg_read (mo_memory s)))"

definition collectors_ok :: "'h program \<Rightarrow> 'h monitor \<Rightarrow> bool" where
  "collectors_ok p s \<longleftrightarrow> collecting_ok cpu_sample (pg_cpu p) (mo_cpu s) \<and> collecting_ok memory_sample (pg_memory p) (mo_memory s)"

lemma start_collectors: "collectors_ok p (monitor_of e t0 p)"
  by (simp add: collectors_ok_def monitor_of_def collecting_ok_start Let_def)

definition read_before :: "'h monitor \<Rightarrow> 'h monitor \<Rightarrow> bool" where
  "read_before s s' \<longleftrightarrow> prefix (cg_read (mo_cpu s)) (cg_read (mo_cpu s')) \<and> prefix (cg_read (mo_memory s)) (cg_read (mo_memory s'))"

lemma read_before_simps: "read_before s s" "read_before s t \<Longrightarrow> read_before t u \<Longrightarrow> read_before s u"
  unfolding read_before_def by (blast intro: prefix_order.trans)+

lemma sampled_mono: "collectors_ok p t \<Longrightarrow> read_before s t \<Longrightarrow> sampled p s q v \<Longrightarrow> sampled p t q v"
  by (auto simp: sampled_def collectors_ok_def read_before_def collecting_ok_def intro: writes_after_mono)

text \<open>Most steps leave what the collectors have read as it is.\<close>

lemma collecting_ok_life: "collecting_ok sample c (g\<lparr>cg_life := l\<rparr>) = collecting_ok sample c g"
  by (cases "cg_round g") (simp_all add: collecting_ok_def)

lemma set_life_collectors:
  "collectors_ok p ((set_life n l s)\<lparr>mo_main := m\<rparr>) = collectors_ok p s" "read_before s ((set_life n l s)\<lparr>mo_main := m\<rparr>)"
  by (simp_all add: set_life_def collectors_ok_def read_before_def collecting_ok_life)

lemma same_collectors:
  "mo_cpu s' = mo_cpu s \<Longrightarrow> mo_memory s' = mo_memory s \<Longrightarrow> collectors_ok p s' = collectors_ok p s \<and> read_before s s'"
  by (simp add: collectors_ok_def read_before_def)

definition event_writes :: "'h monitor_event \<Rightarrow> 'h monitor \<Rightarrow> (nat \<times> dbl) list" where
  "event_writes e s =
     (case e of
        CpuThread elapsed now f \<Rightarrow> the_writes (collect_step cpu_sample elapsed f (mo_cpu s))
      | MemoryThread elapsed now i \<Rightarrow> the_writes (collect_step memory_sample elapsed i (mo_memory s))
      | _ \<Rightarrow> [])"

lemma monitor_step_collectors:
  assumes ok: "collectors_ok p s" and step: "monitor_step mv e s = Some s'"
  shows "collectors_ok p s' \<and> read_before s s' \<and> (\<forall>(q, v) \<in> set (event_writes e s). sampled p s' q v)"
proof -
  have running: "\<not> mo_dangling s" "\<not> sh_terminated (world s)" "ended (mo_net s) = None"
    using step by (auto simp: monitor_step_def split: if_splits)
  show ?thesis
  proof (cases e)
    case (CpuThread elapsed now f)
    then have "cpu_thread elapsed now f s = Some s'" using step running by (simp add: monitor_step_def)
    then obtain g w where g: "collect_step cpu_sample elapsed f (mo_cpu s) = Some (g, w)" "mo_cpu s' = g" "mo_memory s' = mo_memory s"
      by (auto simp: cpu_thread_def set_world_def)
    have "collecting_ok cpu_sample (pg_cpu p) (mo_cpu s)" using ok by (simp add: collectors_ok_def)
    from collect_step_ok [OF this g(1)] show ?thesis using ok g CpuThread
      by (auto simp: collectors_ok_def read_before_def event_writes_def the_writes_def sampled_def split: option.splits)
  next
    case (MemoryThread elapsed now i)
    then have "memory_thread elapsed now i s = Some s'" using step running by (simp add: monitor_step_def)
    then obtain g w where g: "collect_step memory_sample elapsed i (mo_memory s) = Some (g, w)" "mo_memory s' = g" "mo_cpu s' = mo_cpu s"
      by (auto simp: memory_thread_def set_world_def)
    have "collecting_ok memory_sample (pg_memory p) (mo_memory s)" using ok by (simp add: collectors_ok_def)
    from collect_step_ok [OF this g(1)] show ?thesis using ok g MemoryThread
      by (auto simp: collectors_ok_def read_before_def event_writes_def the_writes_def sampled_def split: option.splits)
  next
    case StopCollector
    then have "stop_collector s = Some s'" using step running by (simp add: monitor_step_def)
    then obtain n l m where "s' = (set_life n l s)\<lparr>mo_main := m\<rparr> \<or> s' = s\<lparr>mo_main := m\<rparr>"
      by (auto simp: stop_collector_def split: main_position.splits if_splits)
    then show ?thesis using StopCollector ok same_collectors [of s' s p]
      by (auto simp: event_writes_def set_life_collectors)
  next
    case JoinCollector
    then have "join_collector s = Some s'" using step running by (simp add: monitor_step_def)
    then obtain n l m where "s' = (set_life n l s)\<lparr>mo_main := m\<rparr>"
      by (auto simp: join_collector_def split: main_position.splits if_splits)
    then show ?thesis using JoinCollector ok by (simp add: event_writes_def set_life_collectors)
  next
    case DestroyObject
    then have "destroy_object s = Some s'" using step running by (simp add: monitor_step_def)
    then obtain objs where "s' = s\<lparr>mo_main := Unwinding objs\<rparr>" by (rule destroy_object_shape)
    then show ?thesis using DestroyObject ok same_collectors [of s' s p] by (simp add: event_writes_def)
  next
    case (PoolWorker k i)
    then have "worker_call i k s = Some s'" using step running by (simp add: monitor_step_def)
    then have "mo_cpu s' = mo_cpu s" "mo_memory s' = mo_memory s"
      by (auto simp: worker_call_def set_world_def split: if_splits)
    then show ?thesis using PoolWorker ok same_collectors [of s' s p] by (simp add: event_writes_def)
  qed (use step running ok same_collectors [of s' s p] in
    \<open>auto simp: monitor_step_def event_writes_def main_round_def main_queue_def main_signal_def capture_call_def
      stop_pool_step_def set_world_def case_prod_beta Let_def
      split: main_position.splits list.splits option.splits if_splits\<close>)
qed

text \<open>The environment: readable frames and a steady clock that does not go back.\<close>

definition environment_ok :: "'h monitor_event \<Rightarrow> 'h monitor \<Rightarrow> bool" where
  "environment_ok = monitor_env (\<lambda>q v. True)"

lemma monitor_env_writes: "monitor_env P e s \<longleftrightarrow> environment_ok e s \<and> (\<forall>(q, v) \<in> set (event_writes e s). P q v)"
  by (cases e) (auto simp: environment_ok_def monitor_env_def event_writes_def)

lemma env_sampled:
  assumes "run_allowed environment_ok (monitor_step mv) es s" and "run_events (monitor_step mv) es s = Some t"
    and "collectors_ok p s"
  shows "run_allowed (monitor_env (sampled p t)) (monitor_step mv) es s \<and> collectors_ok p t \<and> read_before s t"
  using assms
proof (induction es arbitrary: s)
  case Nil
  then show ?case by (simp add: read_before_simps)
next
  case (Cons e es)
  obtain s1 where s1: "monitor_step mv e s = Some s1" "run_events (monitor_step mv) es s1 = Some t"
    using Cons.prems(2) unfolding run_events_Cons by blast
  note st = monitor_step_collectors [OF Cons.prems(3) s1(1)]
  have IH: "run_allowed (monitor_env (sampled p t)) (monitor_step mv) es s1" "collectors_ok p t" "read_before s1 t"
    using Cons.IH [of s1] Cons.prems(1) s1 st by auto
  have "environment_ok e s" using Cons.prems(1) by simp
  moreover have "\<forall>(q, v) \<in> set (event_writes e s). sampled p t q v" using st sampled_mono [OF IH(2,3)] by blast
  ultimately have "monitor_env (sampled p t) e s" by (simp add: monitor_env_writes)
  then show ?case using IH s1(1) st read_before_simps(2) [of s s1 t] by auto
qed

lemma program_inv:
  assumes "run_allowed environment_ok (monitor_step mv) es (monitor_of e t0 p)"
    and "run_events (monitor_step mv) es (monitor_of e t0 p) = Some s"
  shows "monitor_inv s"
  by (rule pool_in_monitor.holds_after [OF _ assms(1) [unfolded environment_ok_def] assms(2)]) (simp add: monitor_of_start)

text \<open>The times that task \<open>j\<close> has read in a run of the program.\<close>

definition time_read ::
    "(packet_info \<Rightarrow> packet_info) \<Rightarrow> 'h monitor_event list \<Rightarrow> 'h monitor \<Rightarrow> nat \<Rightarrow> int \<Rightarrow> bool" where
  "time_read mv es s j now \<longleftrightarrow> (j, now) \<in> set (run_labels task_readings (monitor_step mv) es s)"

lemma program_keeps:
  assumes inv: "job_invariant n A I"
    and A: "\<And>x w. pool_env (sampled p s) x w \<Longrightarrow> clock_events (time_read mv es (monitor_of e t0 p)) x w \<Longrightarrow> A x w"
    and start: "pool_part n (start_world e p)" "I (start_world e p)"
    and env: "run_allowed environment_ok (monitor_step mv) es (monitor_of e t0 p)"
    and run: "run_events (monitor_step mv) es (monitor_of e t0 p) = Some s"
  shows "pool_part n (world s) \<and> I (world s)"
proof -
  let ?s0 = "monitor_of e t0 p" and ?P = "pool_env (sampled p s)" and ?T = "time_read mv es (monitor_of e t0 p)"
  let ?xs = "run_labels shared_events (monitor_step mv) es ?s0"
  have start0: "monitor_inv ?s0" "world ?s0 = start_world e p" by (simp_all add: monitor_of_start)
  note env' = env_sampled [OF env run start_collectors, THEN conjunct1]
  note sim = pool_in_monitor.run_simulates [OF start0(1) env' run]
  have "run_labels clock_reads pool_event_step ?xs (world ?s0) = run_labels task_readings (monitor_step mv) es ?s0"
    using pool_in_monitor.run_labels_compose [OF start0(1) env' run, of clock_reads]
    by (simp flip: task_readings_shared)
  then have "run_allowed (\<lambda>x w. set (clock_reads x w) \<subseteq> set (run_labels task_readings (monitor_step mv) es ?s0))
      pool_event_step ?xs (world ?s0)"
    using run_allowed_labels [of clock_reads pool_event_step ?xs "world ?s0"] by simp
  then have "run_allowed (\<lambda>x w. ?P x w \<and> clock_events ?T x w) pool_event_step ?xs (world ?s0)"
    using sim unfolding run_allowed_conj
    by (intro conjI) (simp, erule run_allowed_mono, auto simp: clock_events_def time_read_def)
  then have allowed: "run_allowed A pool_event_step ?xs (world ?s0)" by (rule run_allowed_mono) (use A in blast)
  have "machine_invariant pool_event_step A (\<lambda>w. pool_part n w \<and> I w)"
    by unfold_locales (use pool_part_step job_invariant.step_keeps [OF inv] in blast)
  from machine_invariant.holds_after [OF this _ allowed] show ?thesis using sim start start0(2) by simp
qed

text \<open>All invariants at once, for a program that has started.\<close>

lemma program_state:
  assumes st: "startup e args = Started p" and env: "run_allowed environment_ok (monitor_step mv) es (monitor_of e t0 p)"
    and run: "run_events (monitor_step mv) es (monitor_of e t0 p) = Some s"
  defines "n \<equiv> unat (en_threads e)" and "w \<equiv> world s"
  shows "pool_part n w" and "lock_inv w" and "fit_inv w" and "packet_inv (en_packet e) [] w"
    and "periodic_inv (sampled p s) (time_read mv es (monitor_of e t0 p)) (registries p) (pg_config p) w"
    and "manager_inv (sampled p s) (pg_alerts p) w"
    and "told_inv (pg_store p) w" and "n = 1 \<Longrightarrow> serial_inv (en_packet e) w"
    and "checks_inv (sampled p s) (time_read mv es (monitor_of e t0 p)) (pg_alerts p) (pg_store p) w"
proof -
  have zero: "sampled p s q (Fin 0)" for q by (simp add: sampled_def)
  let ?T = "time_read mv es (monitor_of e t0 p)"
  note start = start_inv [OF st, of "sampled p s", OF zero, folded n_def]
  have keep: "pool_part n w \<and> I w"
    if "job_invariant n A I" "\<And>x w. pool_env (sampled p s) x w \<Longrightarrow> clock_events ?T x w \<Longrightarrow> A x w" "I (start_world e p)"
    for A I
    unfolding w_def by (rule program_keeps [OF that(1,2) start(1) that(3) env run])
  show "pool_part n w" "lock_inv w" using keep [OF alert_lock.job_invariant_axioms _ start(2)] by simp_all
  show "fit_inv w" using keep [OF task_positions.job_invariant_axioms _ start(3)] by simp
  show "packet_inv (en_packet e) [] w"
    using keep [OF packet_tasks.job_invariant_axioms _ start(4)] by (simp add: pool_env_def)
  show "periodic_inv (sampled p s) ?T (registries p) (pg_config p) w"
    using keep [OF periodic_tasks.job_invariant_axioms _ start(5)] by (simp add: pool_env_def steady_events_def)
  show "checks_inv (sampled p s) ?T (pg_alerts p) (pg_store p) w"
    using keep [OF checks_told.job_invariant_axioms _ start(9)] by (simp add: pool_env_def)
  show "manager_inv (sampled p s) (pg_alerts p) w"
    using keep [OF fired_alerts.job_invariant_axioms _ start(6)] by (simp add: pool_env_def)
  show "told_inv (pg_store p) w" using keep [OF told_alerts.job_invariant_axioms _ start(7)] by simp
  show "serial_inv (en_packet e) w" if "n = 1"
    using keep [unfolded that, OF one_worker.job_invariant_axioms _ start(8)] by (simp add: pool_env_def)
qed

section \<open>What the alerts watch\<close>

text \<open>A CPU usage between two successive readings of \<^verbatim>\<open>/proc/stat\<close>, a memory usage of one of \<^verbatim>\<open>/proc/meminfo\<close>.\<close>

definition cpu_usage_read :: "string option list \<Rightarrow> dbl \<Rightarrow> bool" where
  "cpu_usage_read files v \<longleftrightarrow>
     (\<exists>k. Suc k < length files \<and> v = calculateCpuUsage (readCpuStats (files ! k) ! 0) (readCpuStats (files ! Suc k) ! 0))"

definition memory_usage_read :: "((string \<Rightarrow> u64) \<times> string option) list \<Rightarrow> dbl \<Rightarrow> bool" where
  "memory_usage_read inputs v \<longleftrightarrow>
     (\<exists>(junk, file) \<in> set inputs. 0 < ms_total (readMemoryStats junk file) \<and>
        v = percent_of (ms_used (readMemoryStats junk file)) (ms_total (readMemoryStats junk file)))"

lemma started_memory:
  assumes "startup e args = Started p"
  defines "n \<equiv> length (readCpuStats (en_proc_stat e)) - 1"
  shows "memory_ptrs (pg_memory p) = [n + 1, n + 2, n + 3, n + 4, n + 5, n + 6, n + 7]"
proof -
  obtain c where c: "start_program e c = Started p"
    using assms(1) by (auto simp: startup_def split: cli_result.splits)
  obtain h1 cpu where cpu: "CpuCollector (en_cpu_time e) (en_proc_stat e) [] = (h1, cpu)" by fastforce
  obtain h2 mem where mem: "MemoryCollector (en_memory_time e) h1 = (h2, mem)" by fastforce
  have "pg_memory p = mem"
    using c by (auto simp: start_program_def cpu mem Let_def split: if_splits sum.splits)
  moreover have "length h1 = n + 1" using CpuCollector_shape [of "en_cpu_time e" "en_proc_stat e" "[]"] cpu by (auto simp: n_def)
  moreover have "memory_ptrs mem = map ((+) (length h1)) [0, 1, 2, 3, 4, 5, 6]"
    using mem by (auto simp: MemoryCollector_def make_shared_def memory_ptrs_def)
  ultimately show ?thesis by simp
qed

lemma sampled_usage:
  assumes st: "startup e args = Started p" and s: "sampled p s q v" and "v \<noteq> Fin 0"
  defines "n \<equiv> length (readCpuStats (en_proc_stat e)) - 1"
  shows "q = 0 \<Longrightarrow> cpu_usage_read (en_proc_stat e # cg_read (mo_cpu s)) v"
    and "q = n + 4 \<Longrightarrow> memory_usage_read (cg_read (mo_memory s)) v"
proof -
  note shape = started_shape [OF st, folded n_def]
  let ?c = "pg_cpu p" and ?m = "pg_memory p"
  have ptrs: "memory_ptrs ?m = [n + 1, n + 2, n + 3, n + 4, n + 5, n + 6, n + 7]"
    using started_memory [OF st] by (simp only: n_def)
  have cpu: "i = 0 \<and> q = 0 \<or> 0 < q \<and> q \<le> n" if "i \<le> length (core_usage ?c)" "q = (cpu_usage ?c # core_usage ?c) ! i" for i
    using that by (cases i) (simp_all add: shape(3,4) del: upt_Suc)
  have mem: "(n + 4 = q \<longrightarrow> 0 < ms_total stats \<and> v = percent_of (ms_used stats) (ms_total stats)) \<and> n < q"
    if "(q, v) \<in> snd ` set (memory_writes stats ?m)" for stats
    using that ptrs by (auto simp: memory_writes_def memory_ptrs_def split: if_splits)
  consider "(q, v) \<in> set (writes_after cpu_sample ?c (cg_read (mo_cpu s)))"
    | "(q, v) \<in> set (writes_after memory_sample ?m (cg_read (mo_memory s)))"
    using s assms(3) by (auto simp: sampled_def)
  then have "(q = 0 \<longrightarrow> cpu_usage_read (en_proc_stat e # cg_read (mo_cpu s)) v) \<and>
      (q = n + 4 \<longrightarrow> memory_usage_read (cg_read (mo_memory s)) v)"
  proof cases
    case 1
    from cpu_writes_after [OF this shape(5)] obtain k i where ki: "k < length (cg_read (mo_cpu s))"
        "i \<le> length (core_usage ?c)" "q = (cpu_usage ?c # core_usage ?c) ! i"
        "v = calculateCpuUsage (readCpuStats ((en_proc_stat e # cg_read (mo_cpu s)) ! k) ! i) (readCpuStats (cg_read (mo_cpu s) ! k) ! i)"
      by blast
    then show ?thesis using cpu [OF ki(2,3)] by (auto simp: cpu_usage_read_def intro!: exI [of _ k])
  next
    case 2
    then obtain i where "i \<in> set (cg_read (mo_memory s))"
        "(q, v) \<in> snd ` set (memory_writes (readMemoryStats (fst i) (snd i)) ?m)"
      unfolding memory_writes_after by blast
    then show ?thesis using mem [of "readMemoryStats (fst i) (snd i)"] by (fastforce simp: memory_usage_read_def)
  qed
  then show "q = 0 \<Longrightarrow> cpu_usage_read (en_proc_stat e # cg_read (mo_cpu s)) v"
    "q = n + 4 \<Longrightarrow> memory_usage_read (cg_read (mo_memory s)) v" by blast+
qed

text \<open>The alerts compare one of the two usages with a threshold that 0 does not exceed.\<close>

definition exceeded :: "'h environment \<Rightarrow> 'h monitor \<Rightarrow> alert \<Rightarrow> bool" where
  "exceeded e s a \<longleftrightarrow> (\<exists>v. dlt (cond_threshold (al_condition a)) v \<and>
     (if cond_metric (al_condition a) = Some 0 then cpu_usage_read (en_proc_stat e # cg_read (mo_cpu s)) v
      else memory_usage_read (cg_read (mo_memory s)) v))"

lemma held_exceeded:
  assumes st: "startup e args = Started p" and a: "a \<in> set (mgr_alerts (pg_alerts p))" and held: "held (sampled p s) a"
  shows "exceeded e s a"
proof -
  let ?n = "length (readCpuStats (en_proc_stat e)) - 1"
  obtain q v where h: "cond_metric (al_condition a) = Some q" "sampled p s q v"
    "compareValues (cond_comparator (al_condition a)) v (cond_threshold (al_condition a))"
    using held by (auto simp: held_def)
  have w: "\<not> dlt (dbl_of_u32 w) (Fin 0)" for w
    unfolding dbl_of_u32_exact by (simp only: dlt.simps not_less of_nat_0_le_iff)
  have al: "(q = 0 \<or> q = ?n + 4) \<and> cond_comparator (al_condition a) = GREATER_THAN \<and>
      \<not> dlt (cond_threshold (al_condition a)) (Fin 0)"
    using a h(1) unfolding started_shape(7) [OF st]
    by (auto simp: alerts_of_setup MetricThresholdCondition_def w)
  then have v: "dlt (cond_threshold (al_condition a)) v" "v \<noteq> Fin 0" using h(3) by auto
  then show ?thesis using al h(1) sampled_usage [OF st h(2)] unfolding exceeded_def by auto
qed

section \<open>The rounds of the main loop\<close>

definition readings_of :: "'h monitor_event list \<Rightarrow> int list" where
  "readings_of es = concat (map (\<lambda>e. case e of Round now \<Rightarrow> [now] | _ \<Rightarrow> []) es)"

lemma main_position_step:
  assumes "monitor_inv s" and "monitor_step mv e s = Some s'"
  shows "case mo_main s of
      InLoop l ts \<Rightarrow> (case e of
          Round now \<Rightarrow> ts = [] \<and> (\<exists>ts'. mo_main s' = InLoop (snd (loop_round (fst (loop_settings (sh_config (world s))))
              (snd (loop_settings (sh_config (world s)))) now l)) ts')
        | _ \<Rightarrow> (\<exists>ts'. mo_main s' = InLoop l ts') \<or> (\<exists>n. mo_main s' = Leaving n))
    | _ \<Rightarrow> (\<forall>now. e \<noteq> Round now) \<and> (\<forall>l ts. mo_main s' \<noteq> InLoop l ts)"
proof -
  have running: "\<not> mo_dangling s" "\<not> sh_terminated (world s)" "ended (mo_net s) = None"
    using assms(2) by (auto simp: monitor_step_def split: if_splits)
  have same: "mo_main s' = mo_main s" if "capture_call mv x s = Some s'" for x
    using that by (auto simp: capture_call_def)
  have same': "mo_main s' = mo_main s" if "worker_call i k s = Some s'" for i k
    using worker_call_inv [OF assms(1) that] by blast
  show ?thesis
    using assms(2) running
    by (cases e)
      (auto simp: monitor_step_def main_round_def main_queue_def main_signal_def destroy_object_def stop_pool_step_def
        stop_collector_def join_collector_def cpu_thread_def memory_thread_def set_life_def set_world_def
        case_prod_beta Let_def dest!: same same'
        split: main_position.splits list.splits if_splits option.splits)
qed

lemma rounds_over:
  "monitor_inv s \<Longrightarrow> run_allowed (monitor_env P) (monitor_step mv) es s \<Longrightarrow> run_events (monitor_step mv) es s = Some t \<Longrightarrow>
    \<forall>l ts. mo_main s \<noteq> InLoop l ts \<Longrightarrow> readings_of es = [] \<and> run_labels round_tasks (monitor_step mv) es s = []"
proof (induction es arbitrary: s)
  case (Cons e es)
  obtain s1 where s1: "monitor_step mv e s = Some s1" "run_events (monitor_step mv) es s1 = Some t"
    using Cons.prems(3) unfolding run_events_Cons by blast
  have env: "monitor_env P e s" "run_allowed (monitor_env P) (monitor_step mv) es s1" using Cons.prems(2) s1(1) by simp_all
  have m: "(\<forall>now. e \<noteq> Round now) \<and> (\<forall>l ts. mo_main s1 \<noteq> InLoop l ts)"
    using main_position_step [OF Cons.prems(1) s1(1)] Cons.prems(4) by (simp split: main_position.splits)
  have "monitor_inv s1" using monitor_step_shared [OF Cons.prems(1) env(1) s1(1)] by blast
  then have IH: "readings_of es = [] \<and> run_labels round_tasks (monitor_step mv) es s1 = []"
    using Cons.IH env(2) s1(2) m by blast
  have "readings_of (e # es) = readings_of es" using m by (auto simp: readings_of_def split: monitor_event.splits)
  moreover have "round_tasks e s = []" using m by (auto simp: round_tasks_def split: monitor_event.splits)
  ultimately show ?case using IH s1(1) by simp
qed (simp add: readings_of_def)

lemma rounds_main_loop:
  "monitor_inv s \<Longrightarrow> run_allowed (monitor_env P) (monitor_step mv) es s \<Longrightarrow> run_events (monitor_step mv) es s = Some t \<Longrightarrow>
    mo_main s = InLoop l ts \<Longrightarrow> loop_settings (sh_config (world s)) = (auto, interval) \<Longrightarrow>
    run_labels round_tasks (monitor_step mv) es s =
      concat (map (\<lambda>r. fst (snd r)) (main_loop auto interval l (readings_of es)))"
proof (induction es arbitrary: s l ts)
  case (Cons e es)
  obtain s1 where s1: "monitor_step mv e s = Some s1" "run_events (monitor_step mv) es s1 = Some t"
    using Cons.prems(3) unfolding run_events_Cons by blast
  have env: "monitor_env P e s" "run_allowed (monitor_env P) (monitor_step mv) es s1" using Cons.prems(2) s1(1) by simp_all
  have inv: "monitor_inv s1" using monitor_step_shared [OF Cons.prems(1) env(1) s1(1)] by blast
  have c: "loop_settings (sh_config (world s1)) = (auto, interval)"
    using monitor_step_tasks [OF Cons.prems(1) env(1) s1(1)] Cons.prems(5) by simp
  note pos = main_position_step [OF Cons.prems(1) s1(1), unfolded Cons.prems(4) Cons.prems(5)]
  have labels: "run_labels round_tasks (monitor_step mv) (e # es) s =
      round_tasks e s @ run_labels round_tasks (monitor_step mv) es s1" using s1(1) by simp
  show ?case
  proof (cases "\<exists>now. e = Round now")
    case True
    then obtain now where e: "e = Round now" by blast
    obtain ts' where m: "ts = []" "mo_main s1 = InLoop (snd (loop_round auto interval now l)) ts'" using pos e by auto
    have "round_tasks e s = fst (loop_round auto interval now l)"
      using e m(1) Cons.prems(4,5) by (simp add: round_tasks_def)
    moreover have "readings_of (e # es) = now # readings_of es" by (simp add: readings_of_def e)
    ultimately show ?thesis
      using Cons.IH [OF inv env(2) s1(2) m(2) c] labels by (simp add: case_prod_beta Let_def)
  next
    case False
    then have r: "round_tasks e s = []" "readings_of (e # es) = readings_of es"
      by (auto simp: round_tasks_def readings_of_def split: monitor_event.splits)
    consider ts' where "mo_main s1 = InLoop l ts'" | n where "mo_main s1 = Leaving n"
      using pos False by (auto split: monitor_event.splits)
    then show ?thesis
    proof cases
      case 1
      then show ?thesis using Cons.IH [OF inv env(2) s1(2) 1 c] labels r by simp
    next
      case 2
      then have "readings_of es = [] \<and> run_labels round_tasks (monitor_step mv) es s1 = []"
        using rounds_over [OF inv env(2) s1(2)] by simp
      then show ?thesis using labels r by simp
    qed
  qed
qed (simp add: readings_of_def)

end
