(* ===== verification/Program_Samples.thy ===== *)
theory Program_Samples
  imports Monitor_Properties
begin

text \<open>
  Runs of the program on concrete inputs, on a machine with \<open>n\<close> processors: one without a capture,
  which fires an alert, one that is ended with tasks in the queue, and one with a packet.
\<close>

section \<open>Settings\<close>

lemmas settings_simps = cfg_getOrDefault_def cfg_get_def ConfigManager_def setDefaultConfig_def default_settings_def

lemma default_loop: "loop_settings ConfigManager = (True, 3600)"
  by (simp add: loop_settings_def cfg_bool_def cfg_u32_def settings_simps)

lemma default_no_capture: "\<not> cfg_bool ''enable_packet_capture'' False ConfigManager"
  by (simp add: cfg_bool_def settings_simps)

text \<open>With an interface on the command line.\<close>

definition interface_config :: config where
  "interface_config = set_interface ''eth0'' ConfigManager"

lemma interface_settings:
  "loop_settings interface_config = (True, 3600)" "cfg_bool ''enable_packet_capture'' False interface_config"
  "cfg_string ''capture_interface'' ''eth0'' interface_config = ''eth0''"
  by (simp_all add: interface_config_def set_interface_def loop_settings_def cfg_bool_def cfg_u32_def cfg_string_def
      cfg_set_def settings_simps)

lemma interface_parsed: "parse_args files [''--interface'', ''eth0''] ConfigManager = Configured interface_config"
  using parse_option [of files "OInterface ''eth0''" "[]"]
  by (simp add: interface_config_def set_interface_def apply_settings_def)

section \<open>The programs\<close>

abbreviation sample_machine :: "u32 \<Rightarrow> nat environment" where
  "sample_machine n \<equiv> sample_environment\<lparr>en_threads := n\<rparr>"

lemma sample_stat: "readCpuStats (en_proc_stat (sample_machine n)) = [zero_stats]"
  by (simp add: sample_environment_def readCpuStats_def)

lemma sample_starts: "parse_args (en_files e) args ConfigManager = Configured c \<Longrightarrow> en_database_ready e \<Longrightarrow>
    \<exists>p. startup e args = Started p"
  by (simp add: startup_def start_program_def network_setup_total case_prod_beta Let_def)

lemma quiet_program:
  obtains p where "startup (sample_machine n) [] = Started p" and "pg_config p = ConfigManager" and "pg_network p = None"
    and "pg_alerts p = alert_setup ConfigManager (Some 0) (Some 4)" and "cpu_usage (pg_cpu p) = 0"
    and "core_usage (pg_cpu p) = []" and "prev_stats (pg_cpu p) = [zero_stats]"
    and "pg_threads p = [collector_start new_collector, collector_start new_collector]"
proof -
  obtain p where p: "startup (sample_machine n) [] = Started p"
    using sample_starts [of "sample_machine n" "[]" ConfigManager] by (auto simp: sample_environment_def)
  note shape = started_shape [OF p]
  have conf: "pg_config p = ConfigManager" using shape(1) by simp
  show ?thesis
    by (rule that [OF p conf])
      (use shape(3-5,7,8,10) sample_stat [of n] conf default_no_capture in \<open>simp_all add: network_setup_total memory_names_def\<close>)
qed

lemma capturing_program:
  obtains p where "startup (sample_machine n) [''--interface'', ''eth0''] = Started p" and "pg_config p = interface_config"
    and "pg_network p \<noteq> None"
proof -
  obtain p where p: "startup (sample_machine n) [''--interface'', ''eth0''] = Started p"
    using sample_starts [OF interface_parsed, of "sample_machine n"] by (auto simp: sample_environment_def)
  note shape = started_shape [OF p]
  have conf: "pg_config p = interface_config" using shape(1) by (simp add: interface_parsed)
  show ?thesis
    by (rule that [OF p conf]) (use shape(8) conf interface_settings in
      \<open>simp add: network_setup_total sample_environment_def\<close>)
qed

section \<open>The runs\<close>

definition sample_input :: task_input where
  "sample_input = \<lparr>ti_wall = 9, ti_steady = (7, 7), ti_returns = True, ti_spurious = False\<rparr>"

abbreviation turn :: "nat \<Rightarrow> nat monitor_event" where
  "turn k \<equiv> PoolWorker k sample_input"

abbreviation sample_start :: "u32 \<Rightarrow> nat program \<Rightarrow> nat monitor" where
  "sample_start n p \<equiv> monitor_of (sample_machine n) 0 p"

lemma quiet_shape:
  assumes "pg_network p = None"
  shows "sample_start n p = \<lparr>mo_net = \<lparr>the_object = registerHandler queue_packet (capture_init blank_packet),
      handled = shared_start (unat n) blank_packet (pg_store p) (registries p) (pg_config p) (pg_alerts p),
      thread_at = AtRest, stop_waits = False, ended = None\<rparr>,
      mo_cpu = collecting_of (pg_threads p ! 0) (pg_cpu p), mo_memory = collecting_of (pg_threads p ! 1) (pg_memory p), mo_main = InLoop 0 [], mo_dangling = False\<rparr>"
  using assms by (simp add: monitor_of_def register_step_def capture_system_def registries_def sample_environment_def Let_def)

lemma capturing_shape:
  assumes "pg_network p \<noteq> None"
  shows "sample_start n p = \<lparr>mo_net = \<lparr>the_object = (registerHandler queue_packet (capture_init blank_packet))
        \<lparr>pimpl := Some (Some 1), is_capturing := True, capture_thread := True\<rparr>,
      handled = shared_start (unat n) blank_packet (pg_store p) (registries p) (pg_config p) (pg_alerts p),
      thread_at = AtTest, stop_waits = False, ended = None\<rparr>,
      mo_cpu = collecting_of (pg_threads p ! 0) (pg_cpu p), mo_memory = collecting_of (pg_threads p ! 1) (pg_memory p), mo_main = InLoop 0 [], mo_dangling = False\<rparr>"
  using assms by (simp add: monitor_of_def register_step_def capture_system_def registries_def sample_environment_def Let_def
      start_step_def startCapture_def openInterface_def capture_init_def registerHandler_def)

lemma workers_4: "replicate 4 Waiting = [Waiting, Waiting, Waiting, Waiting]"
  by (simp add: numeral_eq_Suc)

lemmas run_simps = monitor_step_def main_round_def main_queue_def main_signal_def destroy_object_def stop_pool_step_def
  worker_call_def touches_gone_def declaration_order_def set_world_def submit_def enqueue_def shared_start_def ThreadPool_def
  default_loop interface_settings loop_round_def duration_seconds_def registerHandler_def capture_init_def
  stop_workers_def stop_pool_def worker_step_def worker_take_def worker_wake_def worker_go_def condition_holds_def notify_one_def notify_all_def asleep_def worker_run_def worker_finish_def
  set_job_def job_step_def workers_4 sample_input_def monitor_env_def environment_ok_def

lemmas job_simps = packet_job_def alerts_job_def metrics_job_def cleanup_job_def call_database_def check_one_def
  release_alerts_def collector_writes_def cleanup_task_def

abbreviation sample_run :: "nat monitor_event list \<Rightarrow> u32 \<Rightarrow> nat program \<Rightarrow> nat monitor option" where
  "sample_run es n p \<equiv> run_events (monitor_step id) es (sample_start n p)"

abbreviation sample_allowed :: "nat monitor_event list \<Rightarrow> u32 \<Rightarrow> nat program \<Rightarrow> bool" where
  "sample_allowed es n p \<equiv> run_allowed environment_ok (monitor_step id) es (sample_start n p)"

lemmas thread_simps = cpu_thread_def memory_thread_def collect_step_def collectLoop_def collecting_of_def collector_start_def
  new_collector_def the_writes_def written_def stop_collector_def join_collector_def set_life_def collector_life_def
  stop_locked_def stop_join_def

text \<open>The CPU is busy for 100 ticks; then a check of the alerts, up to the call on the database.\<close>

definition busy_stat :: "string option" where
  "busy_stat = Some (unlines [cpu_line ('''', zero_stats\<lparr>cs_user := 100\<rparr>)])"

lemma busy_sample:
  assumes "cpu_usage c = 0" and "core_usage c = []" and "prev_stats c = [zero_stats]"
  shows "cpu_sample busy_stat c = Some ([(0, Fin 100)], c\<lparr>prev_stats := [zero_stats\<lparr>cs_user := 100\<rparr>]\<rparr>)"
proof -
  have f: "readCpuStats busy_stat = [zero_stats\<lparr>cs_user := 100\<rparr>]"
    using read_printed_stats [of "[('''', zero_stats\<lparr>cs_user := 100\<rparr>)]" "[]"] by (simp add: busy_stat_def)
  have r: "rnd 0 = Fin 0" "rnd 1 = Fin 1" "rnd 100 = Fin 100"
    using rnd_of_nat [of 0] rnd_of_nat [of 1] rnd_of_nat [of 100] by simp_all
  have "calculateCpuUsage zero_stats (zero_stats\<lparr>cs_user := 100\<rparr>) = Fin 100"
    by (simp add: calculateCpuUsage_def cpu_total_def cpu_idle_total_def zero_stats_def dbl_of_u64_def dsub_def r)
  then show ?thesis using assms by (simp add: cpu_sample_def cpu_writes_def f)
qed

definition alert_schedule :: "nat monitor_event list" where
  "alert_schedule =
     (let collect = CpuThread False 5 busy_stat in
      [collect, collect, collect, Round 0, Queue, turn 0, turn 0, turn 0, turn 0])"

lemma alert_run:
  assumes "pg_network p = None" and "pg_config p = ConfigManager" and "pg_alerts p = alert_setup ConfigManager (Some 0) (Some 4)"
    and "cpu_usage (pg_cpu p) = 0" and "core_usage (pg_cpu p) = []" and "prev_stats (pg_cpu p) = [zero_stats]"
    and "pg_threads p = [collector_start new_collector, collector_start new_collector]"
    and "pg_store p = GaugeMetric m t # st"
  shows "\<exists>s f. sample_run alert_schedule 4 p = Some s \<and> sample_allowed alert_schedule 4 p \<and>
    sh_fired (world s) = [f] \<and> told (world s) = [f] \<and> \<not> alert_threw (world s) \<and> cond_metric (al_condition (fst f)) = Some 0 \<and>
    cg_read (mo_cpu s) = [busy_stat] \<and>
    \<not> leaves_block (mo_main s) \<and> \<not> mo_dangling s \<and> length (sh_jobs (world s)) = 1 \<and> \<not> job_over (job_at (world s) 0)"
  using assms busy_sample [OF assms(4-6)]
  by (simp add: alert_schedule_def quiet_shape run_simps job_simps thread_simps alerts_of_setup alert_setup_rest default_thresholds
      dbl_of_u32_exact alert_check_def evaluate_def MetricThresholdCondition_def shouldSuppressAlert_def recordAlertFired_def
      CooldownPolicy_def getCurrentValue_def counter_getCurrentValue_def gauge_getCurrentValue_def writers_record
      record_sample_def GaugeMetric_def new_metric_def told_def alert_threw_def job_at_def Let_def)

text \<open>The exit, with two tasks in the queue and a worker inside the first, and with none.\<close>

definition leaving_schedule :: "nat monitor_event list" where
  "leaving_schedule =
     [Signal, StopCollector, CpuThread False 0 None, JoinCollector, StopCollector, MemoryThread False 0 (\<lambda>l. 0, None),
      JoinCollector] @ replicate 7 DestroyObject"

lemma all_destroyed: "replicate 7 DestroyObject = [DestroyObject, DestroyObject, DestroyObject,
    DestroyObject, DestroyObject, DestroyObject, DestroyObject]"
  by (simp add: numeral_eq_Suc)

definition hasty_schedule :: "nat monitor_event list" where
  "hasty_schedule = [Round 0, Queue, Queue] @ leaving_schedule @ [StopPool, turn 0]"

lemma hasty_run:
  assumes "pg_network p = None" and "pg_config p = ConfigManager"
    and "pg_threads p = [collector_start new_collector, collector_start new_collector]"
  shows "\<exists>s. sample_run hasty_schedule 4 p = Some s \<and> sample_allowed hasty_schedule 4 p \<and>
    sh_jobs (world s) = [(CheckAlerts, Active Begun), (StoreMetrics, InQueue)] \<and> objects_gone s \<and> \<not> mo_dangling s \<and>
    monitor_step id (turn 0) s = Some (s\<lparr>mo_dangling := True\<rparr>) \<and> environment_ok (turn 0) s"
  using assms
  by (simp add: hasty_schedule_def leaving_schedule_def all_destroyed quiet_shape run_simps thread_simps objects_gone_def Let_def)

lemma idle_run:
  assumes "pg_network p = None" and "pg_config p = ConfigManager"
    and "pg_threads p = [collector_start new_collector, collector_start new_collector]"
  shows "\<exists>s t. sample_run leaving_schedule 4 p = Some s \<and> sample_allowed leaving_schedule 4 p \<and>
    sh_jobs (world s) = [] \<and> objects_gone s \<and> \<not> mo_dangling s \<and>
    run_events (monitor_step id) (StopPool # map turn [0, 1, 2, 3]) s = Some t \<and>
    run_allowed environment_ok (monitor_step id) (StopPool # map turn [0, 1, 2, 3]) s \<and> can_join (sh_pool (world t))"
  using assms
  by (simp add: leaving_schedule_def all_destroyed quiet_shape run_simps thread_simps objects_gone_def can_join_def Let_def)

text \<open>A packet from the interface to the database, on one processor and on four; then a round of the loop.\<close>

lemma packet_first:
  "readable q \<Longrightarrow> process_step q (analyzer_init d) = Some (analyzer_after d [q]) \<and>
    fetch_step q (analyzer_after d [q]) = Some (record_after [q] q)"
  using processPacket_step [of q d "[]"] fetch_step_after [of q "[q]" d]
  by (simp add: process_step_def analyzer_after_Nil readable_def)

definition packet_schedule :: "nat monitor_event list" where
  "packet_schedule =
     (let go = CaptureStep junk_packet 1 sample_frame in [go, go, go, go, go, turn 0, turn 0, turn 0, turn 0, turn 0])"

definition round_schedule :: "nat monitor_event list" where
  "round_schedule = packet_schedule @ [Round (3600 * 10 ^ 9), Queue, Queue, Queue]"

lemma packet_run:
  assumes "pg_network p \<noteq> None" and "pg_config p = interface_config" and "n = 1 \<or> n = 4"
    and "capturePacket junk_packet 1 sample_frame = Some q" and "pk_size q = 54"
  shows "\<exists>s. sample_run packet_schedule n p = Some s \<and> sample_allowed packet_schedule n p \<and>
    sh_jobs (world s) = [(HandlePacket q, Completed)] \<and> captured s = [q]"
proof -
  have fr: "readable_frame junk_packet 1 sample_frame" by (rule plain_readable_frame [OF sample_plain]) (simp add: assms)
  then have "readable q" using assms(4,5) by (simp add: readable_frame_def)
  then show ?thesis using packet_first [of q blank_packet] assms fr
    by (auto simp: packet_schedule_def capturing_shape run_simps capture_call_def system_step_def thread_step_def
        queue_packet_def job_simps captured_def queued_tasks_def task_packet_def in_hand_def case_prod_beta Let_def)
qed

text \<open>A round of the loop with a cleanup; a worker runs it while two others have the other tasks.\<close>

definition cleanup_schedule :: "nat monitor_event list" where
  "cleanup_schedule =
     [Round (3600 * 10 ^ 9), Queue, Queue, Queue, turn 0, turn 1, turn 2, turn 2, turn 2, turn 2, turn 2, turn 2]"

lemma cleanup_run:
  assumes "pg_network p = None" and "pg_config p = ConfigManager"
  shows "\<exists>s. sample_run cleanup_schedule 4 p = Some s \<and> sample_allowed cleanup_schedule 4 p \<and>
    sh_jobs (world s) = [(CheckAlerts, Active Begun), (StoreMetrics, Active Begun), (Cleanup, Completed)] \<and>
    run_labels task_readings (monitor_step id) cleanup_schedule (sample_start 4 p) = [(2, 9)]"
  using assms
  by (simp add: cleanup_schedule_def quiet_shape run_simps job_simps task_readings_def clock_reads_def job_at_def job_task_def Let_def)

text \<open>A packet whose call on the database throws.\<close>

definition failing_schedule :: "nat monitor_event list" where
  "failing_schedule =
     (let go = CaptureStep junk_packet 1 sample_frame; fail = PoolWorker 0 (sample_input\<lparr>ti_returns := False\<rparr>) in
      [go, go, go, go, go, turn 0, turn 0, turn 0, fail, turn 0])"

lemma failing_run:
  assumes "pg_network p \<noteq> None" and "pg_config p = interface_config"
    and "capturePacket junk_packet 1 sample_frame = Some q" and "pk_size q = 54"
  shows "\<exists>s. sample_run failing_schedule 4 p = Some s \<and> sample_allowed failing_schedule 4 p \<and>
    sh_jobs (world s) = [(HandlePacket q, Thrown (PacketFetched (Some (record_after [q] q))))]"
proof -
  have fr: "readable_frame junk_packet 1 sample_frame" by (rule plain_readable_frame [OF sample_plain]) (simp add: assms)
  then have "readable q" using assms(3,4) by (simp add: readable_frame_def)
  then show ?thesis using packet_first [of q blank_packet] assms fr
    by (auto simp: failing_schedule_def capturing_shape run_simps capture_call_def system_step_def thread_step_def
        queue_packet_def job_simps case_prod_beta Let_def)
qed

lemma round_run:
  assumes "pg_network p \<noteq> None" and "pg_config p = interface_config"
    and "capturePacket junk_packet 1 sample_frame = Some q" and "pk_size q = 54"
  shows "\<exists>s. sample_run round_schedule 4 p = Some s \<and> sample_allowed round_schedule 4 p"
proof -
  have fr: "readable_frame junk_packet 1 sample_frame" by (rule plain_readable_frame [OF sample_plain]) (simp add: assms)
  then have "readable q" using assms(3,4) by (simp add: readable_frame_def)
  then show ?thesis using packet_first [of q blank_packet] assms fr
    by (simp add: round_schedule_def packet_schedule_def capturing_shape run_simps capture_call_def system_step_def
        thread_step_def queue_packet_def job_simps case_prod_beta Let_def)
qed

end
