(* ===== verification/Program.thy ===== *)
theory Program
  imports Program_Samples
begin

text \<open>
  The properties of the program as a whole, from its arguments to the calls on its database.
\<close>

section \<open>Lemmas\<close>

text \<open>With one worker the packets processed are an initial part of those captured.\<close>

lemma begun_prefix:
  assumes "one_at_a_time w"
  shows "prefix (begun_packets w) (concat (map task_packet (queued_tasks w)))"
proof -
  have p: "packet_of = task_packet \<circ> fst"
  proof
    fix x
    show "packet_of x = (task_packet \<circ> fst) x" by (cases x rule: packet_of.cases) (simp_all add: task_packet_def)
  qed
  have all: "concat (map task_packet (queued_tasks w)) = first_packets (length (sh_jobs w)) w"
    unfolding queued_tasks_def first_packets_def p map_map by simp
  have pre: "prefix (first_packets k w) (first_packets (length (sh_jobs w)) w)" for k
    unfolding first_packets_def
    by (metis append_take_drop_id concat_append map_append order_refl prefixI take_all)
  show ?thesis
  proof (cases "\<exists>j < length (sh_jobs w). job_at w j \<noteq> InQueue \<and> \<not> job_over (job_at w j)")
    case True
    then obtain j where j: "j < length (sh_jobs w)" "job_at w j \<noteq> InQueue" "\<not> job_over (job_at w j)" by blast
    have "begun_packets w = first_packets j w @ begun_packet (sh_jobs w ! j)" by (rule begun_alone [OF assms j])
    moreover have "begun_packet (sh_jobs w ! j) = [] \<or> begun_packet (sh_jobs w ! j) = packet_of (sh_jobs w ! j)"
      by (simp add: begun_cases)
    moreover have "first_packets (Suc j) w = first_packets j w @ packet_of (sh_jobs w ! j)"
      using j(1) by (simp add: first_packets_def take_Suc_conv_app_nth)
    ultimately show ?thesis unfolding all using pre [of j] pre [of "Suc j"] by auto
  next
    case False
    then have over: "job_at w j = InQueue \<or> job_over (job_at w j)" if "j < length (sh_jobs w)" for j using that by blast
    have b: "begun_packet x = (if snd x = InQueue then [] else packet_of x)" if x: "x \<in> set (sh_jobs w)" for x
    proof -
      obtain i where i: "i < length (sh_jobs w)" "x = sh_jobs w ! i" using x by (metis in_set_conv_nth)
      show ?thesis using over [OF i(1)] begun_cases [of x] i(2) by (auto simp: job_at_def)
    qed
    have "\<exists>k. begun_packets w = concat (map packet_of (take k js))"
      if js: "sh_jobs w = js" "\<And>i j. i < j \<Longrightarrow> j < length js \<Longrightarrow> snd (js ! j) \<noteq> InQueue \<Longrightarrow> snd (js ! i) \<noteq> InQueue" for js
    proof -
      define k where "k = length (takeWhile (\<lambda>x. snd x \<noteq> InQueue) js)"
      have t: "take k js = takeWhile (\<lambda>x. snd x \<noteq> InQueue) js" unfolding k_def by (metis takeWhile_eq_take)
      have q: "snd x = InQueue" if x: "x \<in> set (drop k js)" for x
      proof (rule ccontr)
        assume n: "snd x \<noteq> InQueue"
        obtain i where i: "i < length (drop k js)" "x = drop k js ! i" using x by (metis in_set_conv_nth)
        then have k: "k < length js" by simp
        then have "snd (js ! k) = InQueue" using nth_length_takeWhile [of "\<lambda>x. snd x \<noteq> InQueue" js] by (simp add: k_def)
        then have "0 < i" using i n by (cases i) auto
        moreover have "k + i < length js" using i(1) k by simp
        ultimately show False using js(2) [of k "k + i"] i n k \<open>snd (js ! k) = InQueue\<close> by simp
      qed
      have "concat (map begun_packet js) = concat (map begun_packet (take k js)) @ concat (map begun_packet (drop k js))"
        by (metis append_take_drop_id concat_append map_append)
      moreover have "map begun_packet (take k js) = map packet_of (take k js)"
      proof (rule map_cong [OF refl])
        fix x assume "x \<in> set (take k js)"
        then have "x \<in> set js" "snd x \<noteq> InQueue" unfolding t by (auto dest: set_takeWhileD)
        then show "begun_packet x = packet_of x" using b js(1) by simp
      qed
      moreover have "begun_packet x = []" if "x \<in> set (drop k js)" for x
        using q [OF that] b [of x] in_set_dropD [OF that] js(1) by simp
      then have "concat (map begun_packet (drop k js)) = []" by simp
      ultimately show ?thesis using js(1) by (auto simp: begun_packets_def)
    qed
    moreover have "snd (sh_jobs w ! i) \<noteq> InQueue"
      if "i < j" "j < length (sh_jobs w)" "snd (sh_jobs w ! j) \<noteq> InQueue" for i j
      using assms that unfolding one_at_a_time_def job_at_def by fastforce
    ultimately obtain k where "begun_packets w = first_packets k w" unfolding first_packets_def by blast
    then show ?thesis unfolding all using pre by simp
  qed
qed

section \<open>Properties\<close>

text \<open>
  C1: What every task has done. In a program that has started, under every interleaving of the main
  thread, the capture thread, the collectors and the workers, with calls on the database that return
  or throw as they like: no thread is ended by an exception; there is one order of the packets
  processed that the analyzer is the summary of; every packet task that has completed has told the
  database once, the exact summary of its connection over an initial part of that order with its own
  packet; every metrics task has stored one point for each registered metric, in order, stamped with
  the time that this task has read, and each 0 or a value that a collector has computed from what it
  has read; every cleanup has made the three prunings of the time that this task has read; and every
  alert check has told the database of alerts that have fired only, in the order of the manager's
  list, each at a time that this check has read. The times are those of the events of the run.
\<close>

theorem program_tasks_exact:
  assumes "startup e args = Started p" and "run_allowed environment_ok (monitor_step mv) es (monitor_of e t0 p)"
    and "run_events (monitor_step mv) es (monitor_of e t0 p) = Some s"
  shows "ended (mo_net s) = None \<and> \<not> sh_terminated (world s) \<and>
    (\<exists>hist. sh_analyzer (world s) = analyzer_after (en_packet e) hist \<and> mset hist = mset (begun_packets (world s)) \<and>
      (\<forall>j < length (sh_jobs (world s)). job_at (world s) j = Completed \<longrightarrow>
        (\<forall>q. job_task (world s) j = HandlePacket q \<longrightarrow>
           (\<exists>pre post. hist = pre @ post \<and> q \<in> set pre \<and> task_calls j (world s) = [UpdateConnection (record_after pre q)])) \<and>
        (job_task (world s) j = StoreMetrics \<longrightarrow>
           (\<exists>now points. time_read mv es (monitor_of e t0 p) j now \<and> task_calls j (world s) = [InsertMetrics points] \<and>
              points_for (sampled p s) now (metric_names (registries p)) points)) \<and>
        (job_task (world s) j = Cleanup \<longrightarrow>
           (\<exists>now. time_read mv es (monitor_of e t0 p) j now \<and> task_calls j (world s) = cleanup_task now (pg_config p) [])) \<and>
        (job_task (world s) j = CheckAlerts \<longrightarrow>
           (\<exists>as. subseq as (mgr_alerts (pg_alerts p)) \<and> set as \<subseteq> fst ` set (sh_fired (world s)) \<and>
              list_all2 (\<lambda>a c. \<exists>now. time_read mv es (monitor_of e t0 p) j now \<and> c = alert_callback (pg_store p) now a)
                as (task_calls j (world s))))))"
proof -
  note st = program_state [OF assms]
  have inv: "monitor_inv s" by (rule program_inv [OF assms(2,3)])
  obtain hist where h: "sh_analyzer (world s) = analyzer_after (en_packet e) hist" "mset hist = mset (begun_packets (world s))"
    "\<And>j q. j < length (sh_jobs (world s)) \<Longrightarrow> job_task (world s) j = HandlePacket q \<Longrightarrow>
      packet_calls hist q (job_at (world s) j) (task_calls j (world s))"
    using st(4) unfolding packet_inv_def by blast
  let ?T = "time_read mv es (monitor_of e t0 p)"
  have per: "periodic_calls (sampled p s) (?T j) (registries p) (pg_config p) (job_task (world s) j) (job_at (world s) j)
      (task_calls j (world s))" if "j < length (sh_jobs (world s))" for j
    using st(5) that by (simp add: periodic_inv_def)
  have "(\<forall>q. job_task (world s) j = HandlePacket q \<longrightarrow>
         (\<exists>pre post. hist = pre @ post \<and> q \<in> set pre \<and> task_calls j (world s) = [UpdateConnection (record_after pre q)])) \<and>
      (job_task (world s) j = StoreMetrics \<longrightarrow>
         (\<exists>now points. ?T j now \<and> task_calls j (world s) = [InsertMetrics points] \<and>
            points_for (sampled p s) now (metric_names (registries p)) points)) \<and>
      (job_task (world s) j = Cleanup \<longrightarrow> (\<exists>now. ?T j now \<and> task_calls j (world s) = cleanup_task now (pg_config p) []))"
    if j: "j < length (sh_jobs (world s))" "job_at (world s) j = Completed" for j
    using h(3) [OF j(1)] per [OF j(1)] j(2) by (auto simp: periodic_calls_def prefix_record_def)
  moreover have "\<exists>as. subseq as (mgr_alerts (pg_alerts p)) \<and> set as \<subseteq> fst ` set (sh_fired (world s)) \<and>
      list_all2 (\<lambda>a c. \<exists>now. ?T j now \<and> c = alert_callback (pg_store p) now a) as (task_calls j (world s))"
    if j: "j < length (sh_jobs (world s))" "job_at (world s) j = Completed" "job_task (world s) j = CheckAlerts" for j
  proof -
    have "check_calls (?T j) (pg_store p) (mgr_alerts (pg_alerts p)) (sh_fired (world s)) Completed (task_calls j (world s))"
      using st(9) j by (auto simp: checks_inv_def)
    then show ?thesis by (simp add: told_of_def tells_at_def [abs_def])
  qed
  moreover have "ended (mo_net s) = None" "\<not> sh_terminated (world s)" using inv by (simp_all add: monitor_inv_def system_ok_def)
  ultimately show ?thesis using h(1,2) by blast
qed

theorem program_tasks_exact_witness:
  "(\<exists>p s. startup (sample_machine 4) [] = Started p \<and> sample_run cleanup_schedule 4 p = Some s \<and>
    task_calls 2 (world s) = cleanup_task 9 ConfigManager []) \<and>
   (\<exists>p s q. startup (sample_machine 4) [''--interface'', ''eth0''] = Started p \<and> sample_run packet_schedule 4 p = Some s \<and>
    sh_jobs (world s) = [(HandlePacket q, Completed)] \<and> sh_analyzer (world s) = analyzer_after blank_packet [q] \<and>
    task_calls 0 (world s) = [UpdateConnection (record_after [q] q)])"
proof
  obtain p where p: "startup (sample_machine 4) [] = Started p" "pg_config p = ConfigManager" "pg_network p = None"
    by (rule quiet_program)
  obtain s where s: "sample_run cleanup_schedule 4 p = Some s" "sample_allowed cleanup_schedule 4 p"
    "sh_jobs (world s) = [(CheckAlerts, Active Begun), (StoreMetrics, Active Begun), (Cleanup, Completed)]"
    "run_labels task_readings (monitor_step id) cleanup_schedule (sample_start 4 p) = [(2, 9)]"
    using cleanup_run [OF p(3,2)] by blast
  have "2 < length (sh_jobs (world s)) \<and> job_at (world s) 2 = Completed \<and> job_task (world s) 2 = Cleanup"
    by (simp add: s(3) job_at_def job_task_def)
  then have "task_calls 2 (world s) = cleanup_task 9 (pg_config p) []"
    using program_tasks_exact [OF p(1) s(2,1)] s(4) by (auto simp: time_read_def)
  then show "\<exists>p s. startup (sample_machine 4) [] = Started p \<and> sample_run cleanup_schedule 4 p = Some s \<and>
      task_calls 2 (world s) = cleanup_task 9 ConfigManager []" using p(1,2) s(1) by auto
next
  obtain q where q: "capturePacket junk_packet 1 sample_frame = Some q" "pk_size q = 54" using sample_frame_decodes by blast
  obtain p where p: "startup (sample_machine 4) [''--interface'', ''eth0''] = Started p" "pg_config p = interface_config"
    "pg_network p \<noteq> None" by (rule capturing_program)
  obtain s where s: "sample_run packet_schedule 4 p = Some s" "sample_allowed packet_schedule 4 p"
    "sh_jobs (world s) = [(HandlePacket q, Completed)]" using packet_run [OF p(3,2) _ q] by blast
  obtain hist where h: "sh_analyzer (world s) = analyzer_after (en_packet (sample_machine 4)) hist"
      "mset hist = mset (begun_packets (world s))"
      "\<exists>pre post. hist = pre @ post \<and> q \<in> set pre \<and> task_calls 0 (world s) = [UpdateConnection (record_after pre q)]"
    using program_tasks_exact [OF p(1) s(2,1)] s(3) by (auto simp: job_at_def job_task_def)
  have "hist = [q]" using h(2) s(3) by (simp add: begun_packets_def)
  then have "task_calls 0 (world s) = [UpdateConnection (record_after [q] q)]" using h(3) by (auto simp: Cons_eq_append_conv)
  then show "\<exists>p s q. startup (sample_machine 4) [''--interface'', ''eth0''] = Started p \<and>
      sample_run packet_schedule 4 p = Some s \<and> sh_jobs (world s) = [(HandlePacket q, Completed)] \<and>
      sh_analyzer (world s) = analyzer_after blank_packet [q] \<and>
      task_calls 0 (world s) = [UpdateConnection (record_after [q] q)]"
    using p(1) s(1,3) h(1) \<open>hist = [q]\<close> by (auto simp: sample_environment_def)
qed

text \<open>
  C2: The alerts of the program. However many checks are queued at once, and although a check that a
  throwing database call ends leaves the rest of the alerts unchecked, and although a check can see
  the round of a collector half done: an alert on the CPU is fired only if between two successive
  readings of \<^verbatim>\<open>/proc/stat\<close> the usage was above its threshold, one on the memory only if at one reading
  of \<^verbatim>\<open>/proc/meminfo\<close> it was; two firings of one name are at least 60 seconds apart; and the database
  is told of firings only, in their order, each once, and of all of them (but the one whose callback
  is still to be called) as long as no check has thrown.
\<close>

theorem program_alerts:
  assumes "startup e args = Started p" and "run_allowed environment_ok (monitor_step mv) es (monitor_of e t0 p)"
    and "run_events (monitor_step mv) es (monitor_of e t0 p) = Some s"
  shows "spaced (60 * 10 ^ 9) (sh_fired (world s)) \<and>
    (\<forall>f \<in> set (sh_fired (world s)). fst f \<in> set (mgr_alerts (pg_alerts p)) \<and> exceeded e s (fst f)) \<and>
    (\<exists>fs. subseq fs (told (world s)) \<and> (\<not> alert_threw (world s) \<longrightarrow> fs = told (world s)) \<and>
      list_all2 (tells (pg_store p)) fs (alert_calls (world s)))"
proof -
  note st = program_state [OF assms]
  have "mgr_cooldown (pg_alerts p) = CooldownPolicy (60 * 10 ^ 9)"
    unfolding started_shape(7) [OF assms(1)] by (rule alert_setup_rest)
  then have "cooldown_duration (mgr_cooldown (pg_alerts p)) = 60 * 10 ^ 9" by (simp add: CooldownPolicy_def)
  then have "spaced (60 * 10 ^ 9) (sh_fired (world s))"
    using st(6) unfolding manager_inv_def fired_ok_def log_inv_def by metis
  moreover have "\<forall>f \<in> set (sh_fired (world s)). fst f \<in> set (mgr_alerts (pg_alerts p)) \<and> exceeded e s (fst f)"
    using st(6) held_exceeded [OF assms(1)] by (simp add: manager_inv_def fired_ok_def)
  ultimately show ?thesis using st(7) unfolding told_inv_def by blast
qed

theorem program_alerts_witness:
  "\<exists>p s f c. startup (sample_machine 4) [] = Started p \<and> sample_run alert_schedule 4 p = Some s \<and>
    sh_fired (world s) = [f] \<and> cond_metric (al_condition (fst f)) = Some 0 \<and>
    (\<exists>v. dlt (cond_threshold (al_condition (fst f))) v \<and> cpu_usage_read [None, busy_stat] v) \<and>
    alert_calls (world s) = [c] \<and> tells (pg_store p) f c"
proof -
  obtain p where p: "startup (sample_machine 4) [] = Started p" "pg_config p = ConfigManager" "pg_network p = None"
    "pg_alerts p = alert_setup ConfigManager (Some 0) (Some 4)" "cpu_usage (pg_cpu p) = 0" "core_usage (pg_cpu p) = []"
    "prev_stats (pg_cpu p) = [zero_stats]" "pg_threads p = [collector_start new_collector, collector_start new_collector]"
    by (rule quiet_program)
  obtain m t st where "pg_store p = GaugeMetric m t # st" using started_shape(2) [OF p(1)] by blast
  then obtain s f where s: "sample_run alert_schedule 4 p = Some s" "sample_allowed alert_schedule 4 p" "sh_fired (world s) = [f]"
    "told (world s) = [f]" "\<not> alert_threw (world s)" "cond_metric (al_condition (fst f)) = Some 0"
    "cg_read (mo_cpu s) = [busy_stat]" using alert_run [OF p(3,2,4-8)] by blast
  have "list_all2 (tells (pg_store p)) [f] (alert_calls (world s))" "exceeded (sample_machine 4) s (fst f)"
    using program_alerts [OF p(1) s(2,1)] s(3-5) by auto
  moreover from this(2) have "\<exists>v. dlt (cond_threshold (al_condition (fst f))) v \<and> cpu_usage_read [None, busy_stat] v"
    using s(6,7) by (simp add: exceeded_def sample_environment_def)
  moreover from calculation(1) obtain c where "alert_calls (world s) = [c]" "tells (pg_store p) f c" by (auto simp: list_all2_Cons1)
  ultimately show ?thesis using p(1) s(1,3,6) by blast
qed

text \<open>
  C7: The order of the work. The packet tasks queued, with the packet in the hand of the capture thread,
  are the packets of the frames read, in order; the periodic tasks queued, with those the round still
  has to queue, are those of the rounds of the main loop, in order; tasks start in the order in which
  they were queued; and of the packets of the tasks started all but as many as there are workers have
  been processed, so that no packet is overtaken by more.
\<close>

theorem program_order:
  assumes "startup e args = Started p" and "run_allowed environment_ok (monitor_step mv) es (monitor_of e t0 p)"
    and "run_events (monitor_step mv) es (monitor_of e t0 p) = Some s"
  shows "captured s = run_labels frames_read (monitor_step mv) es (monitor_of e t0 p) \<and>
    planned s = concat (map (\<lambda>r. fst (snd r)) (main_loop (fst (loop_settings (pg_config p))) (snd (loop_settings (pg_config p)))
      t0 (readings_of es))) \<and>
    (\<exists>k \<le> length (sh_jobs (world s)).
      (\<forall>j < length (sh_jobs (world s)). job_at (world s) j = InQueue \<longleftrightarrow> k \<le> j) \<and>
      mset (begun_packets (world s)) \<subseteq># mset (first_packets k (world s)) \<and>
      length (first_packets k (world s)) \<le> length (begun_packets (world s)) + unat (en_threads e))"
proof -
  let ?s0 = "monitor_of e t0 p" and ?env = "monitor_env (\<lambda>q v. True)"
  note env = assms(2) [unfolded environment_ok_def]
  have inv: "monitor_inv ?s0" by (simp add: monitor_of_start)
  have "captured s = run_labels frames_read (monitor_step mv) es ?s0"
    using captured_in_order.run_simulates [OF inv env assms(3)] by (simp add: monitor_of_start)
  moreover have "planned s = run_labels round_tasks (monitor_step mv) es ?s0"
    using planned_in_order.run_simulates [OF inv env assms(3)] by (simp add: monitor_of_start)
  moreover have "sh_config (world ?s0) = pg_config p"
    by (simp add: monitor_of_start start_world_def shared_start_def)
  then have "loop_settings (sh_config (world ?s0)) =
      (fst (loop_settings (pg_config p)), snd (loop_settings (pg_config p)))" by simp
  from rounds_main_loop [OF inv env assms(3) _ this]
  have "run_labels round_tasks (monitor_step mv) es ?s0 = concat (map (\<lambda>r. fst (snd r))
      (main_loop (fst (loop_settings (pg_config p))) (snd (loop_settings (pg_config p))) t0 (readings_of es)))"
    by (simp add: monitor_of_start)
  ultimately show ?thesis using packets_started [OF program_state(1) [OF assms]] by metis
qed

theorem program_order_witness:
  "\<exists>p s q. startup (sample_machine 4) [''--interface'', ''eth0''] = Started p \<and> sample_run round_schedule 4 p = Some s \<and>
    planned s = [CheckAlerts, StoreMetrics, Cleanup] \<and>
    captured s = run_labels frames_read (monitor_step id) round_schedule (sample_start 4 p)"
proof -
  obtain q where q: "capturePacket junk_packet 1 sample_frame = Some q" "pk_size q = 54" using sample_frame_decodes by blast
  obtain p where p: "startup (sample_machine 4) [''--interface'', ''eth0''] = Started p" "pg_config p = interface_config"
    "pg_network p \<noteq> None" by (rule capturing_program)
  obtain s where s: "sample_run round_schedule 4 p = Some s" "sample_allowed round_schedule 4 p"
    using round_run [OF p(3,2) q] by blast
  have "readings_of round_schedule = [3600 * 10 ^ 9]"
    by (simp add: readings_of_def round_schedule_def packet_schedule_def Let_def)
  then show ?thesis using program_order [OF p(1) s(2,1)] p(1) s(1)
    by (auto simp: p(2) interface_settings loop_round_def duration_seconds_def)
qed

text \<open>
  C13: With one worker the program is sequential. The packets processed are then an initial part of
  those captured, in the order of capture; the calls on the database are in the order of the tasks;
  and a packet's update is the summary of its connection over exactly the packets captured up to it,
  so that no update is out of date.
\<close>

theorem one_worker_in_order:
  assumes "startup e args = Started p" and "run_allowed environment_ok (monitor_step mv) es (monitor_of e t0 p)"
    and "run_events (monitor_step mv) es (monitor_of e t0 p) = Some s" and "en_threads e = 1"
  shows "sh_analyzer (world s) = analyzer_after (en_packet e) (begun_packets (world s)) \<and>
    prefix (begun_packets (world s)) (captured s) \<and> sorted (map fst (sh_db (world s))) \<and>
    (\<forall>j q. j < length (sh_jobs (world s)) \<and> job_task (world s) j = HandlePacket q \<and> job_at (world s) j = Completed \<longrightarrow>
      task_calls j (world s) = [UpdateConnection (record_after (first_packets (Suc j) (world s)) q)])"
proof -
  have inv: "serial_inv (en_packet e) (world s)" using program_state(8) [OF assms(1-3)] assms(4) by simp
  then have one: "one_at_a_time (world s)" by (simp add: serial_inv_def)
  then have "prefix (begun_packets (world s)) (captured s)"
    unfolding captured_def by (rule prefix_order.trans [OF begun_prefix]) simp
  moreover have "task_calls j (world s) = [UpdateConnection (record_after (first_packets (Suc j) (world s)) q)]"
    if "j < length (sh_jobs (world s))" "job_task (world s) j = HandlePacket q" "job_at (world s) j = Completed" for j q
  proof -
    have "serial_calls (record_here j (world s) q) (job_at (world s) j) (task_calls j (world s))"
      using inv that(1,2) unfolding serial_inv_def by blast
    then show ?thesis using that(3) by (simp add: record_here_def)
  qed
  ultimately show ?thesis using inv unfolding serial_inv_def by blast
qed

theorem one_worker_in_order_witness:
  "\<exists>p s q. startup (sample_machine 1) [''--interface'', ''eth0''] = Started p \<and> sample_run packet_schedule 1 p = Some s \<and>
    captured s = [q] \<and> task_calls 0 (world s) = [UpdateConnection (record_after [q] q)] \<and>
    prefix (begun_packets (world s)) [q] \<and> sh_analyzer (world s) = analyzer_after blank_packet (begun_packets (world s))"
proof -
  obtain q where q: "capturePacket junk_packet 1 sample_frame = Some q" "pk_size q = 54" using sample_frame_decodes by blast
  obtain p where p: "startup (sample_machine 1) [''--interface'', ''eth0''] = Started p" "pg_config p = interface_config"
    "pg_network p \<noteq> None" by (rule capturing_program)
  obtain s where s: "sample_run packet_schedule 1 p = Some s" "sample_allowed packet_schedule 1 p"
    "sh_jobs (world s) = [(HandlePacket q, Completed)]" "captured s = [q]" using packet_run [OF p(3,2) _ q] by blast
  have "first_packets 1 (world s) = [q]" using s(3) by (simp add: first_packets_def)
  then show ?thesis using one_worker_in_order [OF p(1) s(2,1)] p(1) s
    by (auto simp: job_at_def job_task_def sample_environment_def)
qed

text \<open>
  C14: The tasks never deadlock. In every state the program can reach before it leaves the block, as
  long as a task is not over, with at least one worker, some worker can take a step whatever the
  clocks read and whether the database returns or throws; every step of a worker uses up some of the
  work left; so the work that is there ends under every schedule of the workers.
\<close>

theorem program_never_stuck:
  assumes "startup e args = Started p" and "run_allowed environment_ok (monitor_step mv) es (monitor_of e t0 p)"
    and "run_events (monitor_step mv) es (monitor_of e t0 p) = Some s" and "\<not> leaves_block (mo_main s)" and "\<not> mo_dangling s"
  shows "(0 < unat (en_threads e) \<and> (\<exists>j < length (sh_jobs (world s)). \<not> job_over (job_at (world s) j)) \<longrightarrow>
      (\<exists>k < unat (en_threads e). \<forall>i. monitor_step mv (PoolWorker k i) s \<noteq> None)) \<and>
    (\<forall>k i s'. monitor_step mv (PoolWorker k i) s = Some s' \<longrightarrow> total_left (world s') < total_left (world s))"
proof -
  note st = program_state [OF assms(1-3)]
  have inv: "monitor_inv s" by (rule program_inv [OF assms(2,3)])
  then have step: "monitor_step mv (PoolWorker k i) s = map_option (\<lambda>w. set_world w s) (worker_step i k (world s))" for k i
    using assms(5) touches_alive [OF assms(4)] by (simp add: monitor_step_def worker_call_def monitor_inv_def system_ok_def)
  have "total_left (world s') < total_left (world s)" if "monitor_step mv (PoolWorker k i) s = Some s'" for k i s'
    using that worker_step_left [OF st(1)] by (auto simp: step set_world_def)
  moreover have "\<exists>k < unat (en_threads e). \<forall>i. monitor_step mv (PoolWorker k i) s \<noteq> None"
    if "0 < unat (en_threads e)" "\<exists>j < length (sh_jobs (world s)). \<not> job_over (job_at (world s) j)"
    using progress [OF st(1) that(1) st(2,3,4)] that(2) by (simp add: step)
  ultimately show ?thesis by blast
qed

theorem program_never_stuck_witness:
  "\<exists>p s k s'. startup (sample_machine 4) [] = Started p \<and> sample_run alert_schedule 4 p = Some s \<and> k < 4 \<and>
    monitor_step id (turn k) s = Some s' \<and> total_left (world s') < total_left (world s)"
proof -
  obtain p where p: "startup (sample_machine 4) [] = Started p" "pg_config p = ConfigManager" "pg_network p = None"
    "pg_alerts p = alert_setup ConfigManager (Some 0) (Some 4)" "cpu_usage (pg_cpu p) = 0" "core_usage (pg_cpu p) = []"
    "prev_stats (pg_cpu p) = [zero_stats]" "pg_threads p = [collector_start new_collector, collector_start new_collector]"
    by (rule quiet_program)
  obtain m t st where "pg_store p = GaugeMetric m t # st" using started_shape(2) [OF p(1)] by blast
  then obtain s where s: "sample_run alert_schedule 4 p = Some s" "sample_allowed alert_schedule 4 p" "\<not> leaves_block (mo_main s)"
    "\<not> mo_dangling s" "length (sh_jobs (world s)) = 1" "\<not> job_over (job_at (world s) 0)" using alert_run [OF p(3,2,4-8)] by blast
  note stuck = program_never_stuck [OF p(1) s(2,1,3,4)]
  have "0 < unat (en_threads (sample_machine 4)) \<and> (\<exists>j < length (sh_jobs (world s)). \<not> job_over (job_at (world s) j))"
    using s(5,6) by auto
  then obtain k where "k < 4" "\<forall>i. monitor_step id (PoolWorker k i) s \<noteq> None" using stuck by auto
  then show ?thesis using p(1) s(1) stuck by blast
qed

lemma thrown_packet: "packet_calls hist q (Thrown pos) calls \<Longrightarrow> calls = []"
  by (cases pos) simp_all

lemma thrown_metrics: "metrics_calls P T cs (Thrown pos) calls \<Longrightarrow> calls = []"
  by (cases pos) simp_all

lemma thrown_cleanup: "cleanup_calls T c (Thrown pos) calls \<Longrightarrow> \<exists>now. T now \<and> prefix calls (cleanup_task now c [])"
  by (cases pos) (auto intro: prefixI [OF sym])

text \<open>
  C8: An error of the database stays in its task. Whatever calls throw, and under every interleaving:
  no thread is ended by it; a packet task or a metrics task that has thrown has told the database
  nothing, a cleanup the first of its prunings, of the time it has read; and none holds the mutex of the alerts, which is
  held by a task that is still running, if by any.
\<close>

theorem database_errors_contained:
  assumes "startup e args = Started p" and "run_allowed environment_ok (monitor_step mv) es (monitor_of e t0 p)"
    and "run_events (monitor_step mv) es (monitor_of e t0 p) = Some s"
  shows "ended (mo_net s) = None \<and> \<not> sh_terminated (world s) \<and>
    (\<forall>j pos. j < length (sh_jobs (world s)) \<and> job_at (world s) j = Thrown pos \<longrightarrow>
      ((\<exists>q. job_task (world s) j = HandlePacket q) \<or> job_task (world s) j = StoreMetrics \<longrightarrow> task_calls j (world s) = []) \<and>
      (job_task (world s) j = Cleanup \<longrightarrow> (\<exists>now. time_read mv es (monitor_of e t0 p) j now \<and>
         prefix (task_calls j (world s)) (cleanup_task now (pg_config p) []))) \<and>
      sh_checking (world s) \<noteq> Some j) \<and>
    (\<forall>j. sh_checking (world s) = Some j \<longrightarrow> (\<exists>pos. job_at (world s) j = Active pos))"
proof -
  let ?T = "time_read mv es (monitor_of e t0 p)"
  note st = program_state [OF assms]
  have inv: "monitor_inv s" by (rule program_inv [OF assms(2,3)])
  have lock: "holds_alerts (job_at (world s) j) \<longleftrightarrow> sh_checking (world s) = Some j" if "j < length (sh_jobs (world s))" for j
    using st(2) that by (simp add: lock_inv_def)
  have "(\<exists>q. job_task (world s) j = HandlePacket q) \<or> job_task (world s) j = StoreMetrics \<longrightarrow> task_calls j (world s) = []"
    "job_task (world s) j = Cleanup \<longrightarrow> (\<exists>now. ?T j now \<and> prefix (task_calls j (world s)) (cleanup_task now (pg_config p) []))"
    if j: "j < length (sh_jobs (world s))" "job_at (world s) j = Thrown pos" for j pos
  proof -
    have "periodic_calls (sampled p s) (?T j) (registries p) (pg_config p) (job_task (world s) j) (Thrown pos) (task_calls j (world s))"
      using st(5) j by (auto simp: periodic_inv_def)
    moreover have "\<exists>hist. packet_calls hist q (Thrown pos) (task_calls j (world s))" if "job_task (world s) j = HandlePacket q" for q
      using st(4) j that unfolding packet_inv_def by metis
    ultimately show "(\<exists>q. job_task (world s) j = HandlePacket q) \<or> job_task (world s) j = StoreMetrics \<longrightarrow> task_calls j (world s) = []"
      "job_task (world s) j = Cleanup \<longrightarrow> (\<exists>now. ?T j now \<and> prefix (task_calls j (world s)) (cleanup_task now (pg_config p) []))"
      using thrown_packet thrown_metrics thrown_cleanup unfolding periodic_calls_def by (blast, blast)
  qed
  moreover have "\<exists>pos. job_at (world s) j = Active pos" if "sh_checking (world s) = Some j" for j
    using that lock [of j] st(2) by (cases "job_at (world s) j") (auto simp: lock_inv_def holds_alerts_def)
  moreover from this have "sh_checking (world s) \<noteq> Some j" if "job_at (world s) j = Thrown pos" for j pos
    using that by (metis job_state.distinct(9))
  moreover have "ended (mo_net s) = None" "\<not> sh_terminated (world s)" using inv by (simp_all add: monitor_inv_def system_ok_def)
  ultimately show ?thesis by blast
qed

theorem database_errors_contained_witness:
  "\<exists>p s q r. startup (sample_machine 4) [''--interface'', ''eth0''] = Started p \<and> sample_run failing_schedule 4 p = Some s \<and>
    sh_jobs (world s) = [(HandlePacket q, Thrown (PacketFetched r))] \<and> task_calls 0 (world s) = [] \<and> \<not> sh_terminated (world s)"
proof -
  obtain q where q: "capturePacket junk_packet 1 sample_frame = Some q" "pk_size q = 54" using sample_frame_decodes by blast
  obtain p where p: "startup (sample_machine 4) [''--interface'', ''eth0''] = Started p" "pg_config p = interface_config"
    "pg_network p \<noteq> None" by (rule capturing_program)
  obtain s where s: "sample_run failing_schedule 4 p = Some s" "sample_allowed failing_schedule 4 p"
    "sh_jobs (world s) = [(HandlePacket q, Thrown (PacketFetched (Some (record_after [q] q))))]" using failing_run [OF p(3,2) q] by blast
  have "task_calls 0 (world s) = []" "\<not> sh_terminated (world s)"
    using database_errors_contained [OF p(1) s(2,1)] s(3) by (auto simp: job_at_def job_task_def)
  then show ?thesis using p(1) s(1,3) by blast
qed

section \<open>The exit\<close>

text \<open>A task that still has an object to touch; all but two of the positions of a running one.\<close>

definition needs_objects :: "job_state \<Rightarrow> bool" where
  "needs_objects st \<longleftrightarrow> \<not> job_over st \<and> st \<noteq> Active (PacketFetched None) \<and> st \<noteq> Active (Pruning [])"

lemma step_uses_nothing:
  assumes "step_uses t pos \<subseteq> {ThreadPoolObject}"
  shows "t = Cleanup \<and> pos = Begun \<or> pos = PacketFetched None \<or> pos = Pruning []"
  using assms by (cases "(t, pos)" rule: step_uses.cases) simp_all

lemma step_uses_something: "step_uses t pos \<noteq> {} \<Longrightarrow> needs_objects (Active pos)"
  by (cases "(t, pos)" rule: step_uses.cases) (simp_all add: needs_objects_def)

text \<open>Once the objects are gone such a task stays one: the step that would end it touches what is gone.\<close>

lemma gone_job_step:
  assumes "step_uses t pos \<subseteq> {ThreadPoolObject}" and "job_step i j t pos s = Some (st, s')"
  shows "needs_objects st = needs_objects (Active pos)"
  using assms(2) step_uses_nothing [OF assms(1)]
  by (cases t) (auto simp: job_step_def packet_job_def alerts_job_def metrics_job_def cleanup_job_def cleanup_task_def
      needs_objects_def Let_def)

lemma gone_step:
  assumes "monitor_inv s" and "objects_gone s" and pool: "pool_part n (world s)" and "monitor_step mv e s = Some s'"
  shows "objects_gone s' \<and> length (sh_jobs (world s')) = length (sh_jobs (world s)) \<and>
    (\<forall>j < length (sh_jobs (world s)). needs_objects (job_at (world s') j) = needs_objects (job_at (world s) j)) \<and>
    ((\<forall>j < length (sh_jobs (world s)). \<not> needs_objects (job_at (world s) j)) \<longrightarrow> \<not> mo_dangling s')"
proof -
  have running: "\<not> mo_dangling s" "\<not> sh_terminated (world s)" "ended (mo_net s) = None"
    using assms(4) by (auto simp: monitor_step_def split: if_splits)
  obtain objs where main: "mo_main s = PoolStopped \<or> mo_main s = Unwinding objs \<and> set objs \<subseteq> {ThreadPoolObject}"
    using assms(2) by (cases "mo_main s") (auto simp: objects_gone_def declaration_order_def)
  then have rest: "thread_at (mo_net s) = AtRest" using assms(1) by (auto simp: monitor_inv_def)
  have less: "set (butlast xs) \<subseteq> {ThreadPoolObject}" if "set xs \<subseteq> {ThreadPoolObject}" for xs
    using that by (meson in_set_butlastD subset_iff)
  consider (worker) k i where "e = PoolWorker k i" "worker_call i k s = Some s'"
    | (stop) "s' = (set_world (stop_workers (world s)) s)\<lparr>mo_main := PoolStopped\<rparr>"
    | (collector) now w where "world s' = written now w (world s)" "mo_main s' = mo_main s" "mo_dangling s' = mo_dangling s"
    | (unwind) objs' where "s' = s\<lparr>mo_main := Unwinding objs'\<rparr>" "set objs' \<subseteq> {ThreadPoolObject}"
    using assms(4) main running rest less
    by (cases e) (auto simp: monitor_step_def main_round_def main_queue_def main_signal_def capture_call_def system_step_def
        thread_step_def destroy_object_def stop_pool_step_def stop_collector_def join_collector_def cpu_thread_def memory_thread_def
        set_world_def split: if_splits list.splits)
  then show ?thesis
  proof cases
    case worker
    note c = worker_call_inv [OF assms(1) worker(2)]
    have gone: "objects_gone s'" using c assms(2) by (simp add: objects_gone_def)
    show ?thesis
    proof (cases "touches_gone k s")
      case True
      then obtain j t pos where j: "k < length (workers (sh_pool (world s)))" "workers (sh_pool (world s)) ! k = Running j"
          "sh_jobs (world s) ! j = (t, Active pos)" "\<not> step_uses t pos \<subseteq> alive_objects (mo_main s)"
        by (rule touches_goneE)
      obtain r where r: "pool_view n (world s) r" using pool by (auto simp: pool_part_def)
      have "j < length (sh_jobs (world s))" using pool_view_running(4) [OF r] j(1,2) by (metis nth_mem)
      moreover have "needs_objects (job_at (world s) j)" using step_uses_something [of t pos] j(3,4) by (auto simp: job_at_def)
      ultimately show ?thesis using gone c True by auto
    next
      case False
      then have w: "worker_step i k (world s) = Some (world s')" "\<not> mo_dangling s'" using c running(1) by auto
      have "length (sh_jobs (world s')) = length (sh_jobs (world s)) \<and>
          (\<forall>j < length (sh_jobs (world s)). needs_objects (job_at (world s') j) = needs_objects (job_at (world s) j))"
        using pool w(1)
      proof (cases rule: worker_step_cases)
        case (Take j q)
        then show ?thesis
          by (auto simp: job_at_set_job job_cong [of "(world s)\<lparr>sh_pool := q\<rparr>" "world s"] needs_objects_def)
      next
        case (Run j pos st s1)
        have "step_uses (job_task (world s) j) pos \<subseteq> {ThreadPoolObject}"
          using False Run(1,2,4) assms(2) by (auto simp: touches_gone_def objects_gone_def job_pair)
        from gone_job_step [OF this Run(5)] job_step_frame [OF Run(5)] show ?thesis
          by (auto simp: Run(4,6) job_at_set_job job_cong [of s1 "world s"])
      qed (simp_all add: job_at_def)
      then show ?thesis using gone w(2) by auto
    qed
  next
    case stop
    then show ?thesis using running(1) by (simp add: objects_gone_def set_world_def stop_workers_def job_at_def)
  next
    case collector
    then show ?thesis using running(1) assms(2)
      by (simp add: objects_gone_def written_def collector_writes_def job_at_def split: option.splits prod.splits)
  next
    case unwind
    then show ?thesis using running(1) by (simp add: objects_gone_def)
  qed
qed

lemma gone_run:
  "monitor_inv s \<Longrightarrow> objects_gone s \<Longrightarrow> \<not> mo_dangling s \<Longrightarrow> pool_part n (world s) \<Longrightarrow>
    run_allowed (monitor_env P) (monitor_step mv) es s \<Longrightarrow> run_events (monitor_step mv) es s = Some t \<Longrightarrow>
    pool_part n (world t) \<and> length (sh_jobs (world t)) = length (sh_jobs (world s)) \<and>
    (\<forall>j < length (sh_jobs (world s)). needs_objects (job_at (world t) j) = needs_objects (job_at (world s) j)) \<and>
    ((\<forall>j < length (sh_jobs (world s)). \<not> needs_objects (job_at (world s) j)) \<longrightarrow> \<not> mo_dangling t)"
proof (induction es arbitrary: s)
  case (Cons e es)
  obtain s1 where s1: "monitor_step mv e s = Some s1" "run_events (monitor_step mv) es s1 = Some t"
    using Cons.prems(6) unfolding run_events_Cons by blast
  have env: "monitor_env P e s" "run_allowed (monitor_env P) (monitor_step mv) es s1" using Cons.prems(5) s1(1) by simp_all
  note g = gone_step [OF Cons.prems(1,2,4) s1(1)]
  note sh = monitor_step_shared [OF Cons.prems(1) env(1) s1(1)]
  have p: "pool_part n (world s1)"
    using pool_order.holds_after [OF Cons.prems(4) run_allowed_True] sh by blast
  show ?case
  proof (cases "mo_dangling s1")
    case True
    then have "es = []" using s1(2) by (cases es) (auto simp: monitor_step_def)
    then have "t = s1" using s1(2) by simp
    then show ?thesis using g p by simp
  next
    case False
    then show ?thesis using Cons.IH [OF _ _ False p env(2) s1(2)] g sh by simp
  qed
qed simp

text \<open>
  C5: The exit is safe exactly when no task has anything left to touch. The objects of the block are
  destroyed in the opposite order of their declarations while the workers run on. From the moment
  only the pool is left: if no task still needs an object, none ever touches one that is destroyed;
  and if one does, the destructor of the pool, which waits for all workers, cannot return, so that
  the process either hangs there or touches what is gone.
\<close>

theorem exit_safe_iff_idle:
  assumes "startup e args = Started p" and "run_allowed environment_ok (monitor_step mv) es (monitor_of e t0 p)"
    and "run_events (monitor_step mv) es (monitor_of e t0 p) = Some s" and "objects_gone s" and "\<not> mo_dangling s"
    and "run_allowed environment_ok (monitor_step mv) es' s" and "run_events (monitor_step mv) es' s = Some t"
    and "0 < unat (en_threads e)"
  shows "((\<forall>j < length (sh_jobs (world s)). \<not> needs_objects (job_at (world s) j)) \<longrightarrow> \<not> mo_dangling t) \<and>
    ((\<exists>j < length (sh_jobs (world s)). needs_objects (job_at (world s) j)) \<longrightarrow> \<not> can_join (sh_pool (world t)))"
proof -
  have inv: "monitor_inv s" by (rule program_inv [OF assms(2,3)])
  note g = gone_run [OF inv assms(4,5) program_state(1) [OF assms(1-3)] assms(6) [unfolded environment_ok_def] assms(7)]
  have "\<not> can_join (sh_pool (world t))"
    if j: "j < length (sh_jobs (world s))" "needs_objects (job_at (world s) j)" for j
  proof -
    have "needs_objects (job_at (world t) j)" using g j by blast
    then have "\<not> job_over (job_at (world t) j)" by (simp add: needs_objects_def)
    then show ?thesis using joined_over [of _ "world t" j] g j(1) assms(8) by auto
  qed
  then show ?thesis using g by blast
qed

theorem exit_safe_iff_idle_witness:
  "\<exists>p s t s' t'. startup (sample_machine 4) [] = Started p \<and>
    sample_run leaving_schedule 4 p = Some s \<and> run_events (monitor_step id) (StopPool # map turn [0, 1, 2, 3]) s = Some t \<and>
    can_join (sh_pool (world t)) \<and> \<not> mo_dangling t \<and>
    sample_run hasty_schedule 4 p = Some s' \<and> run_events (monitor_step id) [turn 0] s' = Some t' \<and>
    mo_dangling t' \<and> \<not> can_join (sh_pool (world t'))"
proof -
  obtain p where p: "startup (sample_machine 4) [] = Started p" "pg_config p = ConfigManager" "pg_network p = None"
    "pg_alerts p = alert_setup ConfigManager (Some 0) (Some 4)" "cpu_usage (pg_cpu p) = 0" "core_usage (pg_cpu p) = []"
    "prev_stats (pg_cpu p) = [zero_stats]" "pg_threads p = [collector_start new_collector, collector_start new_collector]"
    by (rule quiet_program)
  obtain s t where s: "sample_run leaving_schedule 4 p = Some s" "sample_allowed leaving_schedule 4 p" "sh_jobs (world s) = []"
    "objects_gone s" "\<not> mo_dangling s" "run_events (monitor_step id) (StopPool # map turn [0, 1, 2, 3]) s = Some t"
    "run_allowed environment_ok (monitor_step id) (StopPool # map turn [0, 1, 2, 3]) s" "can_join (sh_pool (world t))"
    using idle_run [OF p(3,2,8)] by blast
  obtain s' where s': "sample_run hasty_schedule 4 p = Some s'" "sample_allowed hasty_schedule 4 p"
    "sh_jobs (world s') = [(CheckAlerts, Active Begun), (StoreMetrics, InQueue)]" "objects_gone s'" "\<not> mo_dangling s'"
    "monitor_step id (turn 0) s' = Some (s'\<lparr>mo_dangling := True\<rparr>)" "environment_ok (turn 0) s'"
    using hasty_run [OF p(3,2,8)] by blast
  have n: "0 < unat (en_threads (sample_machine 4))" by simp
  have "\<not> mo_dangling t" using exit_safe_iff_idle [OF p(1) s(2,1,4,5,7,6) n] s(3) by simp
  moreover have r: "run_events (monitor_step id) [turn 0] s' = Some (s'\<lparr>mo_dangling := True\<rparr>)"
    "run_allowed environment_ok (monitor_step id) [turn 0] s'" using s'(6,7) by simp_all
  have "\<not> can_join (sh_pool (world (s'\<lparr>mo_dangling := True\<rparr>)))"
    using exit_safe_iff_idle [OF p(1) s'(2,1,4,5) r(2,1) n] s'(3) by (auto simp: job_at_def needs_objects_def)
  ultimately show ?thesis using p(1) s(1,6,8) s'(1) r(1)
    by (intro exI [of _ p] exI [of _ s] exI [of _ t] exI [of _ s'] exI [of _ "s'\<lparr>mo_dangling := True\<rparr>"]) simp
qed

end
