(* ===== verification/Exit_Progress.thy ===== *)
theory Exit_Progress
  imports Program_Samples
begin

text \<open>
  The exit of the program: past the loop the main thread waits for the collectors, the capture and the
  workers in turn. Whatever it waits for can go on, and each step brings the end nearer.
\<close>

section \<open>What the main thread waits for\<close>

text \<open>The objects left at the end are the first ones of the declarations, the pool at least.\<close>

definition unwinds :: "main_position \<Rightarrow> bool" where
  "unwinds m \<longleftrightarrow> (\<forall>objs. m = Unwinding objs \<longrightarrow> objs \<noteq> [] \<and> prefix objs declaration_order)"

definition in_loop :: "main_position \<Rightarrow> bool" where
  "in_loop m \<longleftrightarrow> (\<exists>l ts. m = InLoop l ts)"

lemma in_loop_simps [simp]:
  "in_loop (InLoop l ts)" "\<not> in_loop (Leaving n)" "\<not> in_loop (Joining n)" "\<not> in_loop (Unwinding objs)" "\<not> in_loop PoolStopped"
  by (simp_all add: in_loop_def)

text \<open>The steps of the main thread and of the threads it waits for.\<close>

definition awaited :: "'h monitor \<Rightarrow> 'h monitor_event \<Rightarrow> bool" where
  "awaited s e \<longleftrightarrow>
     (case mo_main s of
        InLoop l ts \<Rightarrow> False
      | Leaving n \<Rightarrow>
          if n < 2 then e = StopCollector
          else if is_capturing (the_object (mo_net s)) then e = StopCapture
          else if stop_waits (mo_net s) then e = JoinCapture \<or> (\<exists>junk res fr. e = CaptureStep junk res fr)
          else e = DestroyObject
      | Joining n \<Rightarrow>
          e = JoinCollector \<or> (if n = 0 then \<exists>b now f. e = CpuThread b now f else \<exists>b now i. e = MemoryThread b now i)
      | Unwinding objs \<Rightarrow> e = (if objs = [ThreadPoolObject] then StopPool else DestroyObject)
      | PoolStopped \<Rightarrow> \<exists>k i. e = PoolWorker k i)"

text \<open>The end: the destructor of the pool returns.\<close>

definition exited :: "'h monitor \<Rightarrow> bool" where
  "exited s \<longleftrightarrow> mo_main s = PoolStopped \<and> can_join (sh_pool (world s))"

section \<open>How far it is to the end\<close>

definition thread_left :: "('c, 'i) collecting \<Rightarrow> nat \<times> nat" where
  "thread_left g =
     (case cg_round g of
        None \<Rightarrow> (if worker (cg_life g) = InCollect then 4 else steps_left (worker (cg_life g)), 0)
      | Some (ws, c) \<Rightarrow> (steps_left (worker (cg_life g)), length ws))"

definition exit_left :: "'h monitor \<Rightarrow> nat \<times> nat \<times> nat" where
  "exit_left s =
     (case mo_main s of
        InLoop l ts \<Rightarrow> (31, 0, 0)
      | Leaving n \<Rightarrow>
          if n < 2 then (30 - 2 * n, 0, 0)
          else if is_capturing (the_object (mo_net s)) then (22, 0, 0)
          else if stop_waits (mo_net s) then (21, steps_to_end (thread_at (mo_net s)), 0)
          else (20, 0, 0)
      | Joining n \<Rightarrow> (29 - 2 * n, if n = 0 then thread_left (mo_cpu s) else thread_left (mo_memory s))
      | Unwinding objs \<Rightarrow> (Suc (length objs), 0, 0)
      | PoolStopped \<Rightarrow> (0, total_left (world s), 0))"

definition exit_order :: "((nat \<times> nat \<times> nat) \<times> nat \<times> nat \<times> nat) set" where
  "exit_order = less_than <*lex*> less_than <*lex*> less_than"

lemma wf_exit_order: "wf exit_order"
  by (simp add: exit_order_def wf_lex_prod)

section \<open>Invariant\<close>

definition exit_inv :: "'h monitor \<Rightarrow> bool" where
  "exit_inv s \<longleftrightarrow> unwinds (mo_main s) \<and> life_ok (cg_life (mo_cpu s)) \<and> life_ok (cg_life (mo_memory s)) \<and>
     joining (cg_life (mo_cpu s)) = (if mo_main s = Joining 0 then 1 else 0) \<and>
     joining (cg_life (mo_memory s)) = (if mo_main s = Joining 1 then 1 else 0) \<and>
     (\<forall>n. mo_main s = Leaving n \<longrightarrow> n \<le> 2) \<and> (\<forall>n. mo_main s = Joining n \<longrightarrow> n \<le> 1) \<and>
     (stop_waits (mo_net s) \<longrightarrow> mo_main s = Leaving 2)"

lemma prefix_butlast: "prefix xs ys \<Longrightarrow> prefix (butlast xs) ys"
  by (meson prefix_order.trans prefixeq_butlast)

lemma loop_life:
  assumes "collectLoop b c = Some c'"
  shows "(life_ok c \<longrightarrow> life_ok c') \<and> joining c' = joining c \<and> running c' = running c"
  using assms by (auto simp: collectLoop_def life_ok_def split: worker_pc.splits if_splits)

lemma collect_step_life:
  assumes "collect_step sample b i g = Some (g', w)"
  shows "(life_ok (cg_life g) \<longrightarrow> life_ok (cg_life g')) \<and> joining (cg_life g') = joining (cg_life g) \<and>
    running (cg_life g') = running (cg_life g)"
proof -
  have "cg_life g' = cg_life g \<or> collectLoop b (cg_life g) = Some (cg_life g')"
    using assms by (auto simp: collect_step_def split: if_splits option.splits list.splits)
  then show ?thesis using loop_life by auto
qed

text \<open>A thread whose flag is cleared comes nearer to its end with every step ...\<close>

lemma collect_step_left:
  assumes "collect_step sample b i g = Some (g', w)" and "\<not> running (cg_life g)"
  shows "(thread_left g', thread_left g) \<in> less_than <*lex*> less_than"
proof (cases "worker (cg_life g) = InCollect")
  case False
  then obtain l where l: "collectLoop b (cg_life g) = Some l" "g' = g\<lparr>cg_life := l\<rparr>"
    using assms(1) by (auto simp: collect_step_def)
  then have "steps_left (worker l) < steps_left (worker (cg_life g))" "worker l \<noteq> InCollect"
    using assms(2) False by (auto simp: collectLoop_def split: worker_pc.splits if_splits)
  then show ?thesis using False l(2) by (cases "cg_round g") (auto simp: thread_left_def)
next
  case True
  show ?thesis
  proof (cases "cg_round g")
    case None
    then obtain ws c where "g' = g\<lparr>cg_round := Some (ws, c), cg_read := cg_read g @ [i]\<rparr>"
      using assms(1) True by (auto simp: collect_step_def)
    then show ?thesis using None True by (simp add: thread_left_def)
  next
    case (Some r)
    obtain ws c where r: "r = (ws, c)" by fastforce
    show ?thesis
    proof (cases ws)
      case Nil
      then show ?thesis using assms(1) Some True by (auto simp: r collect_step_def collectLoop_def thread_left_def)
    next
      case (Cons x xs)
      then have "g' = g\<lparr>cg_round := Some (xs, c)\<rparr>" using assms(1) Some True by (cases x; simp add: r collect_step_def)
      then show ?thesis using Some True Cons by (simp add: r thread_left_def)
    qed
  qed
qed

text \<open>... and can take one until it has returned, if there is something to read.\<close>

lemma collect_can_step:
  assumes "life_ok (cg_life g)" and "joining (cg_life g) = 1" and "worker (cg_life g) \<noteq> Returned"
    and "sample i (cg_object g) \<noteq> None"
  shows "collect_step sample b i g \<noteq> None"
  using assms by (cases "worker (cg_life g)")
    (auto simp: life_ok_def collect_step_def collectLoop_def split: option.splits list.splits)

lemma cpu_can_read: "\<exists>f. cpu_sample f c \<noteq> None"
proof -
  let ?two = "Some (unlines (map cpu_line [('''', zero_stats), (''0'', zero_stats)] @ []))"
  have "readCpuStats ?two = map snd [('''', zero_stats), (''0'', zero_stats)]"
    by (rule read_printed_stats) (simp_all add: is_space_def char_code_def)
  moreover have "readCpuStats None = [zero_stats]" by (simp add: readCpuStats_def)
  ultimately have "length (readCpuStats None) \<noteq> length (prev_stats c) \<or> length (readCpuStats ?two) \<noteq> length (prev_stats c)" by simp
  moreover have "cpu_sample f c \<noteq> None" if "length (readCpuStats f) \<noteq> length (prev_stats c)" for f
    using that by (simp add: cpu_sample_def cpu_writes_def Let_def)
  ultimately show ?thesis by blast
qed

section \<open>The steps\<close>

lemma total_left_written: "total_left (written now w s) = total_left s"
proof -
  have "job_left (written now w s) x = job_left s x" for x
    by (rule same_job_left) (simp add: same_lengths_def written_def collector_writes_def split: option.splits)
  then have "job_left (written now w s) = job_left s" by blast
  then show ?thesis by (simp add: total_left_def written_def collector_writes_def split: option.splits prod.splits)
qed

lemma exit_inv_start:
  assumes "startup e args = Started p"
  shows "exit_inv (monitor_of e t0 p)"
proof -
  note t = started_shape(10) [OF assms]
  have "stop_waits (start_step x c) = stop_waits c" for x and c :: "('a, shared) capture_system"
    by (simp add: start_step_def split: sum.splits prod.splits)
  then have "\<not> stop_waits (mo_net (monitor_of e t0 p))"
    by (simp add: monitor_of_def register_step_def capture_system_def Let_def)
  then show ?thesis
    by (simp add: exit_inv_def monitor_of_start unwinds_def)
      (simp add: monitor_of_def t collecting_of_def collector_start_def new_collector_def life_ok_def Let_def)
qed

text \<open>The invariant, and that nothing returns to the loop.\<close>

lemma exit_inv_step:
  assumes mi: "monitor_inv s" and inv: "exit_inv s" and env: "environment_ok e s" and step: "monitor_step mv e s = Some s'"
  shows "exit_inv s' \<and> (\<not> in_loop (mo_main s) \<longrightarrow> \<not> in_loop (mo_main s'))"
proof -
  have running: "\<not> mo_dangling s" "\<not> sh_terminated (world s)" "ended (mo_net s) = None"
    using step by (auto simp: monitor_step_def split: if_splits)
  show ?thesis
  proof (cases e)
    case (CaptureStep junk res fr)
    then obtain net where net: "thread_step mv junk res fr (mo_net s) = Some net" "s' = s\<lparr>mo_net := net\<rparr>"
      using step running by (auto simp: monitor_step_def capture_call_def system_step_def)
    then have "stop_waits net = stop_waits (mo_net s)"
      by (auto simp: thread_step_def Let_def split: capture_pc.splits option.splits prod.splits)
    then show ?thesis using net inv by (simp add: exit_inv_def)
  next
    case StopCapture
    then have "mo_main s = Leaving 2" "s' = s\<lparr>mo_net := stop_step (mo_net s)\<rparr>"
      using step running by (auto simp: monitor_step_def capture_call_def system_step_def split: if_splits)
    then show ?thesis using inv by (simp add: exit_inv_def)
  next
    case JoinCapture
    then obtain net where "mo_main s = Leaving 2" "s' = s\<lparr>mo_net := net\<rparr>" 
      using step running by (auto simp: monitor_step_def capture_call_def split: if_splits)
    then show ?thesis using inv by (simp add: exit_inv_def)
  next
    case (PoolWorker k i)
    then have "worker_call i k s = Some s'" using step running by (simp add: monitor_step_def)
    then have "mo_main s' = mo_main s" "mo_cpu s' = mo_cpu s" "mo_memory s' = mo_memory s" "stop_waits (mo_net s') = stop_waits (mo_net s)"
      by (auto simp: worker_call_def set_world_def split: if_splits)
    then show ?thesis using inv by (simp add: exit_inv_def)
  next
    case (CpuThread b now f)
    then obtain g w where g: "collect_step cpu_sample b f (mo_cpu s) = Some (g, w)" "s' = (set_world (written now w (world s)) s)\<lparr>mo_cpu := g\<rparr>"
      using step running by (auto simp: monitor_step_def cpu_thread_def)
    then show ?thesis using inv collect_step_life [OF g(1)] by (simp add: exit_inv_def set_world_def)
  next
    case (MemoryThread b now i)
    then obtain g w where g: "collect_step memory_sample b i (mo_memory s) = Some (g, w)"
        "s' = (set_world (written now w (world s)) s)\<lparr>mo_memory := g\<rparr>"
      using step running by (auto simp: monitor_step_def memory_thread_def)
    then show ?thesis using inv collect_step_life [OF g(1)] by (simp add: exit_inv_def set_world_def)
  next
    case DestroyObject
    then have "destroy_object s = Some s'" using step running by (simp add: monitor_step_def)
    then consider n where "mo_main s = Leaving n" "\<not> stop_waits (mo_net s)" "s' = s\<lparr>mo_main := Unwinding (butlast declaration_order)\<rparr>"
      | x y objs where "mo_main s = Unwinding (x # y # objs)" "s' = s\<lparr>mo_main := Unwinding (butlast (x # y # objs))\<rparr>"
      by (auto simp: destroy_object_def split: main_position.splits list.splits if_splits)
    then show ?thesis
    proof cases
      case 1
      have "prefix (butlast declaration_order) declaration_order" by (rule prefixeq_butlast)
      then show ?thesis using 1 inv by (simp add: exit_inv_def unwinds_def) (simp add: declaration_order_def)
    next
      case 2
      have "prefix (butlast (x # y # objs)) declaration_order"
        using 2(1) inv by (intro prefix_butlast) (simp add: exit_inv_def unwinds_def)
      then show ?thesis using 2 inv by (simp add: exit_inv_def unwinds_def)
    qed
  next
    case StopCollector
    then have "stop_collector s = Some s'" using step running by (simp add: monitor_step_def)
    then consider n where "mo_main s = Leaving n" "n < 2" "running (collector_life n s)"
        "s' = (set_life n (stop_locked (collector_life n s)) s)\<lparr>mo_main := Joining n\<rparr>"
      | n where "mo_main s = Leaving n" "n < 2" "s' = s\<lparr>mo_main := Leaving (Suc n)\<rparr>"
      by (auto simp: stop_collector_def split: main_position.splits if_splits)
    then show ?thesis
    proof cases
      case 1
      then show ?thesis using inv
        by (cases "n = 0") (auto simp: exit_inv_def set_life_def collector_life_def stop_locked_def life_ok_def unwinds_def less_2_cases_iff)
    next
      case 2
      then show ?thesis using inv by (auto simp: exit_inv_def unwinds_def)
    qed
  next
    case JoinCollector
    then have "join_collector s = Some s'" using step running by (simp add: monitor_step_def)
    then obtain n l where "mo_main s = Joining n" "stop_join (collector_life n s) = Some l"
        "s' = (set_life n l s)\<lparr>mo_main := Leaving (Suc n)\<rparr>"
      by (auto simp: join_collector_def split: main_position.splits)
    moreover from this inv have "n = 0 \<or> n = 1" by (auto simp: exit_inv_def)
    ultimately show ?thesis using inv
      by (auto simp: exit_inv_def set_life_def collector_life_def stop_join_def life_ok_def unwinds_def split: if_splits)
  qed (use step running inv in \<open>auto simp: monitor_step_def main_round_def main_queue_def main_signal_def stop_pool_step_def
      set_world_def exit_inv_def unwinds_def case_prod_beta Let_def
      split: main_position.splits list.splits option.splits if_splits\<close>)
qed

text \<open>What is awaited brings the end nearer, everything else leaves it where it is.\<close>

lemma exit_left_cong:
  "mo_main s' = mo_main s \<Longrightarrow> mo_cpu s' = mo_cpu s \<Longrightarrow> mo_memory s' = mo_memory s \<Longrightarrow>
    is_capturing (the_object (mo_net s')) = is_capturing (the_object (mo_net s)) \<Longrightarrow> stop_waits (mo_net s') = stop_waits (mo_net s) \<Longrightarrow>
    (mo_main s = Leaving 2 \<longrightarrow> stop_waits (mo_net s) \<longrightarrow> thread_at (mo_net s') = thread_at (mo_net s)) \<Longrightarrow>
    (mo_main s = PoolStopped \<longrightarrow> total_left (world s') = total_left (world s)) \<Longrightarrow>
    (\<forall>n. mo_main s = Leaving n \<longrightarrow> n \<le> 2) \<Longrightarrow> exit_left s' = exit_left s"
  by (cases "mo_main s") (auto simp: exit_left_def)

lemma capture_step_left:
  assumes ok: "system_ok c" and step: "thread_step mv junk res fr c = Some c'"
    and over: "\<not> over_reads (ThreadStep junk res fr) c"
  shows "is_capturing (the_object c') = is_capturing (the_object c) \<and> stop_waits c' = stop_waits c \<and> thread_at c \<noteq> AtRest \<and>
    (stop_waits c \<longrightarrow> steps_to_end (thread_at c') < steps_to_end (thread_at c))"
  using assms
  by (cases "thread_at c") (auto simp: thread_step_def system_ok_fields over_reads_def Let_def split: option.splits prod.splits)

lemma readable_not_over: "readable_frame junk res fr \<Longrightarrow> \<not> over_reads (ThreadStep junk res fr) c"
  by (auto simp: readable_frame_def over_reads_def split: option.splits)

lemma exit_left_step:
  assumes env: "environment_ok e s" and mi: "monitor_inv s" and inv: "exit_inv s" and pool: "pool_part n (world s)" and step: "monitor_step mv e s = Some s'"
    and past: "\<not> in_loop (mo_main s)"
  shows "if awaited s e then mo_dangling s' \<or> (exit_left s', exit_left s) \<in> exit_order else exit_left s' = exit_left s"
proof -
  have running: "\<not> mo_dangling s" "\<not> sh_terminated (world s)" "ended (mo_net s) = None"
    using step by (auto simp: monitor_step_def split: if_splits)
  have ok: "system_ok (mo_net s)" using mi by (simp add: monitor_inv_def)
  have two: "\<forall>n. mo_main s = Leaving n \<longrightarrow> n \<le> 2" using inv by (simp add: exit_inv_def)
  have once: "\<not> (is_capturing (the_object (mo_net s)) \<and> stop_waits (mo_net s))" using ok by (auto simp: system_ok_fields)
  show ?thesis
  proof (cases e)
    case (CaptureStep junk res fr)
    then obtain net where net: "thread_step mv junk res fr (mo_net s) = Some net" "s' = s\<lparr>mo_net := net\<rparr>"
      using step running by (auto simp: monitor_step_def capture_call_def system_step_def)
    have "readable_frame junk res fr" using env CaptureStep by (simp add: environment_ok_def monitor_env_def)
    note c = capture_step_left [OF ok net(1) readable_not_over [OF this]]
    have rest: "mo_main s \<noteq> PoolStopped" using mi c by (auto simp: monitor_inv_def)
    show ?thesis
    proof (cases "stop_waits (mo_net s)")
      case True
      then have "mo_main s = Leaving 2" using inv by (simp add: exit_inv_def)
      then show ?thesis using True c once net(2) CaptureStep by (auto simp: awaited_def exit_left_def exit_order_def)
    next
      case False
      have "exit_left s' = exit_left s" by (rule exit_left_cong) (use False c net(2) rest two in simp_all)
      moreover have "\<not> awaited s e"
        using False CaptureStep by (auto simp: awaited_def split: main_position.splits if_splits)
      ultimately show ?thesis by simp
    qed
  next
    case StopCapture
    then have m: "mo_main s = Leaving 2" "s' = s\<lparr>mo_net := stop_step (mo_net s)\<rparr>"
      using step running by (auto simp: monitor_step_def capture_call_def system_step_def split: if_splits)
    have w: "\<not> stop_waits (mo_net s)"
      using step StopCapture running by (auto simp: monitor_step_def capture_call_def system_step_def split: if_splits)
    then show ?thesis using m StopCapture
      by (auto simp: awaited_def exit_left_def exit_order_def stop_step_def)
  next
    case JoinCapture
    then obtain net where m: "mo_main s = Leaving 2" "join_step (mo_net s) = Some net" "s' = s\<lparr>mo_net := net\<rparr>"
      using step running by (auto simp: monitor_step_def capture_call_def system_step_def split: if_splits)
    then have "stop_waits (mo_net s)" "\<not> stop_waits net" "is_capturing (the_object net) = is_capturing (the_object (mo_net s))"
      by (auto simp: join_step_def Let_def split: if_splits)
    then show ?thesis using m once JoinCapture by (auto simp: awaited_def exit_left_def exit_order_def)
  next
    case (PoolWorker k i)
    then have c: "worker_call i k s = Some s'" using step running by (simp add: monitor_step_def)
    have same: "mo_cpu s' = mo_cpu s" "mo_memory s' = mo_memory s"
      using c by (auto simp: worker_call_def set_world_def split: if_splits)
    note w = worker_call_inv [OF mi c]
    show ?thesis
    proof (cases "mo_main s = PoolStopped")
      case True
      have "total_left (world s') < total_left (world s)" if "\<not> mo_dangling s'"
        using w that worker_step_left [OF pool, of i k "world s'"] by (auto split: if_splits)
      then show ?thesis using True w PoolWorker by (auto simp: awaited_def exit_left_def exit_order_def)
    next
      case False
      have "exit_left s' = exit_left s"
      proof (rule exit_left_cong)
        have "mo_net s' = (mo_net s)\<lparr>handled := world s'\<rparr>" using w by blast
        then obtain x where "mo_net s' = (mo_net s)\<lparr>handled := x\<rparr>" by blast
        then show "is_capturing (the_object (mo_net s')) = is_capturing (the_object (mo_net s))"
          "stop_waits (mo_net s') = stop_waits (mo_net s)"
          "mo_main s = Leaving 2 \<longrightarrow> stop_waits (mo_net s) \<longrightarrow> thread_at (mo_net s') = thread_at (mo_net s)" by simp_all
      qed (use w same False two in simp_all)
      moreover have "\<not> awaited s e" using False PoolWorker by (auto simp: awaited_def split: main_position.splits if_splits)
      ultimately show ?thesis by simp
    qed
  next
    case (CpuThread b now f)
    then obtain g w where g: "collect_step cpu_sample b f (mo_cpu s) = Some (g, w)" "s' = (set_world (written now w (world s)) s)\<lparr>mo_cpu := g\<rparr>"
      using step running by (auto simp: monitor_step_def cpu_thread_def)
    show ?thesis
    proof (cases "mo_main s = Joining 0")
      case True
      then have "\<not> running (cg_life (mo_cpu s))" using inv by (auto simp: exit_inv_def life_ok_def)
      from collect_step_left [OF g(1) this] show ?thesis using True g(2) CpuThread
        by (auto simp: awaited_def exit_left_def exit_order_def set_world_def)
    next
      case False
      then show ?thesis using g(2) CpuThread
        by (cases "mo_main s") (auto simp: awaited_def exit_left_def set_world_def total_left_written)
    qed
  next
    case (MemoryThread b now i)
    then obtain g w where g: "collect_step memory_sample b i (mo_memory s) = Some (g, w)"
        "s' = (set_world (written now w (world s)) s)\<lparr>mo_memory := g\<rparr>"
      using step running by (auto simp: monitor_step_def memory_thread_def)
    show ?thesis
    proof (cases "\<exists>n. mo_main s = Joining n \<and> n \<noteq> 0")
      case True
      then have m: "mo_main s = Joining 1" using inv by (auto simp: exit_inv_def le_Suc_eq)
      then have "\<not> running (cg_life (mo_memory s))" using inv by (auto simp: exit_inv_def life_ok_def)
      from collect_step_left [OF g(1) this] show ?thesis using m g(2) MemoryThread
        by (auto simp: awaited_def exit_left_def exit_order_def set_world_def)
    next
      case False
      then show ?thesis using g(2) MemoryThread
        by (cases "mo_main s") (auto simp: awaited_def exit_left_def set_world_def total_left_written)
    qed
  next
    case StopCollector
    then have "stop_collector s = Some s'" using step running by (simp add: monitor_step_def)
    then obtain n where n: "mo_main s = Leaving n" "n < 2" "mo_main s' = Joining n \<or> mo_main s' = Leaving (Suc n)"
      by (auto simp: stop_collector_def split: main_position.splits if_splits)
    then have "fst (exit_left s') < 30 - 2 * n" by (auto simp: exit_left_def less_2_cases_iff)
    then show ?thesis using n StopCollector by (cases "exit_left s'") (auto simp: awaited_def exit_order_def exit_left_def [of s])
  next
    case JoinCollector
    then have "join_collector s = Some s'" using step running by (simp add: monitor_step_def)
    then obtain n where n: "mo_main s = Joining n" "mo_main s' = Leaving (Suc n)"
      by (auto simp: join_collector_def split: main_position.splits)
    moreover have "n \<le> 1" using n(1) inv by (simp add: exit_inv_def)
    ultimately have "fst (exit_left s') < 29 - 2 * n" by (auto simp: exit_left_def le_Suc_eq)
    then show ?thesis using n JoinCollector by (cases "exit_left s'") (auto simp: awaited_def exit_order_def exit_left_def [of s])
  next
    case DestroyObject
    then have d: "destroy_object s = Some s'" using step running by (simp add: monitor_step_def)
    then consider n where "mo_main s = Leaving n" "2 \<le> n" "\<not> is_capturing (the_object (mo_net s))" "\<not> stop_waits (mo_net s)"
        "s' = s\<lparr>mo_main := Unwinding (butlast declaration_order)\<rparr>"
      | x y objs where "mo_main s = Unwinding (x # y # objs)" "s' = s\<lparr>mo_main := Unwinding (butlast (x # y # objs))\<rparr>"
      by (auto simp: destroy_object_def split: main_position.splits list.splits if_splits)
    then show ?thesis using DestroyObject
      by cases (simp_all add: awaited_def exit_left_def exit_order_def declaration_order_def)
  next
    case StopPool
    then have m: "mo_main s = Unwinding [ThreadPoolObject]" "s' = (set_world (stop_workers (world s)) s)\<lparr>mo_main := PoolStopped\<rparr>"
      using step running by (auto simp: monitor_step_def stop_pool_step_def split: if_splits)
    then show ?thesis using StopPool by (simp add: awaited_def exit_left_def exit_order_def)
  qed (use step running past in \<open>auto simp: monitor_step_def main_round_def main_queue_def main_signal_def
      split: main_position.splits\<close>)
qed

section \<open>Progress\<close>

text \<open>The thread that is waited for, or the main thread itself, can take a step.\<close>

lemma sample_read: "environment_ok (CaptureStep junk 1 sample_frame) s \<and> capturePacket junk 1 sample_frame \<noteq> None"
  using plain_readable_frame [OF sample_plain, of junk 1] sample_frame_decodes [of junk]
  by (auto simp: environment_ok_def monitor_env_def)

lemma exit_can_go_on:
  assumes mi: "monitor_inv s" and inv: "exit_inv s" and past: "\<not> in_loop (mo_main s)" and alive: "\<not> mo_dangling s" and "\<not> exited s"
    and pool: "mo_main s = PoolStopped \<Longrightarrow> \<not> can_join (sh_pool (world s)) \<Longrightarrow> \<exists>k. \<forall>i. worker_step i k (world s) \<noteq> None"
  shows "\<exists>e. awaited s e \<and> environment_ok e s \<and> monitor_step mv e s \<noteq> None"
proof -
  have go: "monitor_step mv e s = (case e of
        Round now \<Rightarrow> main_round now s
      | Queue \<Rightarrow> main_queue s
      | Signal \<Rightarrow> main_signal s
      | StopCollector \<Rightarrow> stop_collector s
      | JoinCollector \<Rightarrow> join_collector s
      | StopCapture \<Rightarrow> (if mo_main s = Leaving 2 then capture_call mv StopCall s else None)
      | JoinCapture \<Rightarrow> (if mo_main s = Leaving 2 then capture_call mv JoinThread s else None)
      | CaptureStep junk res fr \<Rightarrow> capture_call mv (ThreadStep junk res fr) s
      | PoolWorker k i \<Rightarrow> worker_call i k s
      | CpuThread elapsed now file \<Rightarrow> cpu_thread elapsed now file s
      | MemoryThread elapsed now input \<Rightarrow> memory_thread elapsed now input s
      | DestroyObject \<Rightarrow> destroy_object s
      | StopPool \<Rightarrow> stop_pool_step s)" for e
    using mi alive by (simp add: monitor_step_def monitor_inv_def system_ok_def)
  have ok: "system_ok (mo_net s)" using mi by (simp add: monitor_inv_def)
  have envs: "environment_ok StopCollector s" "environment_ok JoinCollector s" "environment_ok StopCapture s" "environment_ok JoinCapture s"
    "environment_ok DestroyObject s" "environment_ok StopPool s" "environment_ok (CpuThread b now f) s" "environment_ok (MemoryThread b now i) s"
    for b now f i by (auto simp: environment_ok_def monitor_env_def)
  show ?thesis
  proof (cases "mo_main s")
    case (InLoop l ts)
    then show ?thesis using past by simp
  next
    case (Leaving n)
    show ?thesis
    proof (cases "n < 2")
      case True
      then show ?thesis using Leaving envs(1)
        by (intro exI [of _ StopCollector]) (simp add: awaited_def go stop_collector_def)
    next
      case False
      then have n: "n = 2" using Leaving inv by (auto simp: exit_inv_def)
      show ?thesis
      proof (cases "is_capturing (the_object (mo_net s))")
        case True
        then have "\<not> stop_waits (mo_net s)" using ok by (auto simp: system_ok_fields)
        then show ?thesis using Leaving n True envs(3) ok
          by (intro exI [of _ StopCapture]) (simp add: awaited_def go capture_call_def system_step_def system_ok_def)
      next
        case idle: False
        show ?thesis
        proof (cases "stop_waits (mo_net s)")
          case False
          then show ?thesis using Leaving n idle envs(5)
            by (intro exI [of _ DestroyObject]) (simp add: awaited_def go destroy_object_def)
        next
          case waits: True
          show ?thesis
          proof (cases "thread_at (mo_net s) = AtEnd")
            case True
            then show ?thesis using Leaving n idle waits envs(4) ok
              by (intro exI [of _ JoinCapture]) (simp add: awaited_def go capture_call_def system_step_def system_ok_def join_step_def Let_def)
          next
            case False
            obtain c where "system_step mv (ThreadStep junk_packet 1 sample_frame) (mo_net s) = Some c"
              using thread_towards_end [OF ok waits False, of junk_packet 1 sample_frame] sample_read by blast
            then show ?thesis using Leaving n idle waits sample_read [THEN conjunct1]
              by (intro exI [of _ "CaptureStep junk_packet 1 sample_frame"]) (simp add: awaited_def go capture_call_def)
          qed
        qed
      qed
    qed
  next
    case (Joining n)
    then have n: "n = 0 \<or> n = 1" using inv by (auto simp: exit_inv_def le_Suc_eq)
    show ?thesis
    proof (cases "worker (collector_life n s) = Returned")
      case True
      then have "stop_join (collector_life n s) \<noteq> None"
        using n Joining inv by (auto simp: stop_join_def collector_life_def exit_inv_def)
      then show ?thesis using Joining envs(2)
        by (intro exI [of _ JoinCollector]) (auto simp: awaited_def go join_collector_def)
    next
      case False
      from n show ?thesis
      proof
        assume z: "n = 0"
        obtain f where "cpu_sample f (cg_object (mo_cpu s)) \<noteq> None" using cpu_can_read by blast
        from collect_can_step [of "mo_cpu s" cpu_sample f False, OF _ _ _ this] have "collect_step cpu_sample False f (mo_cpu s) \<noteq> None"
          using z False Joining inv by (simp add: exit_inv_def collector_life_def)
        then show ?thesis using z Joining envs(7)
          by (intro exI [of _ "CpuThread False 0 f"]) (auto simp: awaited_def go cpu_thread_def)
      next
        assume z: "n = 1"
        have "memory_sample ((\<lambda>l. 0), None) (cg_object (mo_memory s)) \<noteq> None" by (simp add: memory_sample_def)
        from collect_can_step [of "mo_memory s" memory_sample "(\<lambda>l. 0, None)" False, OF _ _ _ this] have "collect_step memory_sample False ((\<lambda>l. 0), None) (mo_memory s) \<noteq> None"
          using z False Joining inv by (simp add: exit_inv_def collector_life_def)
        then show ?thesis using z Joining envs(8)
          by (intro exI [of _ "MemoryThread False 0 ((\<lambda>l. 0), None)"]) (auto simp: awaited_def go memory_thread_def)
      qed
    qed
  next
    case (Unwinding objs)
    then obtain rest where d: "declaration_order = objs @ rest" "objs \<noteq> []"
      using inv by (auto simp: exit_inv_def unwinds_def prefix_def)
    then have "hd objs = ThreadPoolObject" by (cases objs) (simp_all add: declaration_order_def)
    then show ?thesis
    proof (cases objs)
      case (Cons x xs)
      then show ?thesis using Unwinding \<open>hd objs = ThreadPoolObject\<close> envs(5,6)
        by (cases xs; intro exI [of _ "if xs = [] then StopPool else DestroyObject"])
          (simp_all add: awaited_def go destroy_object_def stop_pool_step_def)
    qed (use d in simp)
  next
    case PoolStopped
    then obtain k where k: "\<forall>i. worker_step i k (world s) \<noteq> None" using assms(5) pool by (auto simp: exited_def)
    let ?i = "\<lparr>ti_wall = 0, ti_steady = (sh_steady (world s), sh_steady (world s)), ti_returns = True, ti_spurious = False\<rparr>"
    have "worker_call ?i k s \<noteq> None" using k by (simp add: worker_call_def)
    moreover have "environment_ok (PoolWorker k ?i) s" by (simp add: environment_ok_def monitor_env_def)
    ultimately show ?thesis using PoolStopped by (intro exI [of _ "PoolWorker k ?i"]) (simp add: awaited_def go)
  qed
qed

definition leaving_ok :: "nat \<Rightarrow> 'h monitor \<Rightarrow> bool" where
  "leaving_ok n s \<longleftrightarrow> monitor_inv s \<and> exit_inv s \<and> pool_part n (world s) \<and> \<not> in_loop (mo_main s)"

lemma leaving_ok_step:
  assumes "leaving_ok n s" and "environment_ok e s" and "monitor_step mv e s = Some s'"
  shows "leaving_ok n s'"
proof -
  have l: "monitor_inv s" "exit_inv s" "pool_part n (world s)" "\<not> in_loop (mo_main s)" using assms(1) by (simp_all add: leaving_ok_def)
  note sh = monitor_step_shared [OF l(1) assms(2) [unfolded environment_ok_def] assms(3)]
  have "pool_part n (world s')" using pool_order.holds_after [OF l(3) run_allowed_True] sh by blast
  then show ?thesis using sh exit_inv_step [OF l(1,2) assms(2,3)] l(4) by (simp add: leaving_ok_def)
qed

text \<open>An infinite run has only finitely many awaited steps.\<close>

lemma awaited_finite:
  assumes "leaving_ok n (st 0)"
    and "\<forall>i. environment_ok (ev i) (st i) \<and> monitor_step mv (ev i) (st i) = Some (st (Suc i))"
  shows "finite {i. awaited (st i) (ev i)}"
  using assms
proof (induction "exit_left (st 0)" arbitrary: st ev rule: wf_induct_rule [OF wf_exit_order])
  case (1 st ev)
  have ok: "leaving_ok n (st i)" for i using 1(2,3) leaving_ok_step by (induction i) blast+
  have left: "if awaited (st i) (ev i) then (exit_left (st (Suc i)), exit_left (st i)) \<in> exit_order
      else exit_left (st (Suc i)) = exit_left (st i)" for i
  proof -
    have "\<not> mo_dangling (st (Suc i))" using 1(3) [rule_format, of "Suc i"] by (auto simp: monitor_step_def split: if_splits)
    then show ?thesis using exit_left_step [of "ev i" "st i" n mv "st (Suc i)"] ok [of i] 1(3)
      by (auto simp: leaving_ok_def split: if_splits)
  qed
  show ?case
  proof (cases "\<exists>i. awaited (st i) (ev i)")
    case True
    define i where "i = (LEAST i. awaited (st i) (ev i))"
    have i: "awaited (st i) (ev i)" "\<And>j. j < i \<Longrightarrow> \<not> awaited (st j) (ev j)"
      unfolding i_def by (rule LeastI_ex [OF True], rule not_less_Least)
    have before: "exit_left (st j) = exit_left (st 0)" if "j \<le> i" for j
      using that
    proof (induction j)
      case (Suc j)
      then show ?case using left [of j] i(2) [of j] by simp
    qed simp
    have less: "(exit_left (st (0 + Suc i)), exit_left (st 0)) \<in> exit_order"
      using left [of i] i(1) before [OF order_refl] by simp
    have run: "\<forall>j. environment_ok (ev (j + Suc i)) (st (j + Suc i)) \<and>
        monitor_step mv (ev (j + Suc i)) (st (j + Suc i)) = Some (st (Suc j + Suc i))" using 1(3) by simp
    have "finite {j. awaited (st (j + Suc i)) (ev (j + Suc i))}"
      by (rule 1(1) [of "\<lambda>j. st (j + Suc i)" "\<lambda>j. ev (j + Suc i)", OF less ok run])
    moreover have "{j. awaited (st j) (ev j)} \<subseteq> {..i} \<union> (\<lambda>j. j + Suc i) ` {j. awaited (st (j + Suc i)) (ev (j + Suc i))}"
    proof
      fix j assume "j \<in> {j. awaited (st j) (ev j)}"
      then show "j \<in> {..i} \<union> (\<lambda>j. j + Suc i) ` {j. awaited (st (j + Suc i)) (ev (j + Suc i))}"
        by (cases "j \<le> i") (auto intro!: image_eqI [of _ _ "j - Suc i"])
    qed
    ultimately show ?thesis by (meson finite_UnI finite_atMost finite_imageI finite_subset)
  qed simp
qed

interpretation exit_machine: machine_invariant "monitor_step mv" environment_ok "\<lambda>s. monitor_inv s \<and> exit_inv s" for mv
proof unfold_locales
  fix s e s'
  assume "monitor_inv s \<and> exit_inv s" and "environment_ok e s" and "monitor_step mv e s = Some s'"
  then show "monitor_inv s' \<and> exit_inv s'"
    using exit_inv_step monitor_step_shared unfolding environment_ok_def by blast
qed

lemma program_leaving:
  assumes "startup e args = Started p" and "run_allowed environment_ok (monitor_step mv) es (monitor_of e t0 p)"
    and "run_events (monitor_step mv) es (monitor_of e t0 p) = Some s" and "\<not> in_loop (mo_main s)"
  shows "leaving_ok (unat (en_threads e)) s"
  using exit_machine.holds_after [OF _ assms(2,3)] exit_inv_start [OF assms(1)] monitor_of_start [of e t0 p]
    program_state(1) [OF assms(1-3)] assms(4)
  by (simp add: leaving_ok_def)

lemma leaving_end:
  assumes "pg_network p = None" and "pg_config p = ConfigManager"
    and "pg_threads p = [collector_start new_collector, collector_start new_collector]"
  shows "\<exists>s t. sample_run leaving_schedule 4 p = Some s \<and>
    run_events (monitor_step id) (StopPool # map turn [0, 1, 2, 3]) s = Some t \<and> can_join (sh_pool (world t)) \<and> mo_main t = PoolStopped"
  using assms
  by (simp add: leaving_schedule_def all_destroyed quiet_shape run_simps thread_simps can_join_def Let_def)

section \<open>Properties\<close>

text \<open>
  C6: The exit comes to an end. After the signal, whatever the threads were doing and in whatever
  order they go on: until the destructor of the pool has returned, the main thread or the thread that it
  waits for, be it a collector, the capture or a worker, can take a step; and an execution of any
  length has only finitely many of these steps. So nothing is waited for in vain, and the main thread
  reaches the end under every schedule that does not stop serving it and what it waits for, unless a
  task touches an object that is gone.
\<close>

theorem exit_returns:
  assumes "startup e args = Started p" and "run_allowed environment_ok (monitor_step mv) es (monitor_of e t0 p)"
    and "run_events (monitor_step mv) es (monitor_of e t0 p) = Some s" and "\<not> in_loop (mo_main s)" and "\<not> mo_dangling s"
    and "0 < unat (en_threads e)"
  shows "(\<not> exited s \<longrightarrow> (\<exists>x. awaited s x \<and> environment_ok x s \<and> monitor_step mv x s \<noteq> None)) \<and>
    (\<forall>st ev. st 0 = s \<and> (\<forall>i. environment_ok (ev i) (st i) \<and> monitor_step mv (ev i) (st i) = Some (st (Suc i))) \<longrightarrow>
      finite {i. awaited (st i) (ev i)})"
proof -
  have ok: "leaving_ok (unat (en_threads e)) s" by (rule program_leaving [OF assms(1-4)])
  then have l: "monitor_inv s" "exit_inv s" by (simp_all add: leaving_ok_def)
  note st = program_state [OF assms(1-3)]
  have "\<exists>k. \<forall>i. worker_step i k (world s) \<noteq> None" if "mo_main s = PoolStopped" "\<not> can_join (sh_pool (world s))"
    using progress [OF st(1) assms(6) st(2-4)] that l(1) by (auto simp: monitor_inv_def)
  from exit_can_go_on [OF l assms(4,5) _ this]
  have "\<exists>x. awaited s x \<and> environment_ok x s \<and> monitor_step mv x s \<noteq> None" if "\<not> exited s" using that by blast
  then show ?thesis using awaited_finite ok by blast
qed

theorem exit_returns_witness:
  "\<exists>p s x s' t. startup (sample_machine 4) [] = Started p \<and> sample_run [Signal] 4 p = Some s \<and>
    awaited s x \<and> monitor_step id x s = Some s' \<and>
    sample_run (leaving_schedule @ StopPool # map turn [0, 1, 2, 3]) 4 p = Some t \<and> exited t"
proof -
  obtain p where p: "startup (sample_machine 4) [] = Started p" "pg_config p = ConfigManager" "pg_network p = None"
    "pg_threads p = [collector_start new_collector, collector_start new_collector]" by (rule quiet_program)
  obtain s where s: "sample_run [Signal] 4 p = Some s" "sample_allowed [Signal] 4 p" "mo_main s = Leaving 0" "\<not> mo_dangling s"
    using p(3) by (auto simp: quiet_shape run_simps)
  have "\<not> in_loop (mo_main s)" "\<not> exited s" "0 < unat (en_threads (sample_machine 4))" using s(3) by (simp_all add: exited_def)
  then obtain x where x: "awaited s x" "monitor_step id x s \<noteq> None" using exit_returns [OF p(1) s(2,1)] s(4) by blast
  obtain a t where a: "sample_run leaving_schedule 4 p = Some a"
    "run_events (monitor_step id) (StopPool # map turn [0, 1, 2, 3]) a = Some t" "can_join (sh_pool (world t))" "mo_main t = PoolStopped"
    using leaving_end [OF p(3,2,4)] by blast
  have "sample_run (leaving_schedule @ StopPool # map turn [0, 1, 2, 3]) 4 p = Some t" using a(1,2) by (simp only: run_events_append bind.bind_lunit)
  then show ?thesis using p(1) s(1) x a(3,4) unfolding exited_def by (metis not_None_eq)
qed

end
