(* ===== verification/Rest_Api.thy ===== *)
theory Rest_Api
  imports Packet_Analyzer Collector_Base
begin

text \<open>
  \<^verbatim>\<open>api/rest_api\<close>: parsing of the query, routing of a request, the six handlers and their JSON
  text. Boost.Beast and Asio are outside: a request is
  what Beast has parsed, a response is the sequence of calls made on the response object.
  The state the handlers read is their argument.
\<close>

section \<open>Requests and responses\<close>

datatype http_method = GET | POST | PUT | DELETE | OPTIONS

record http_request =
  rq_method :: http_method
  rq_path :: string
  rq_headers :: "string \<rightharpoonup> string"
  rq_query :: "string \<rightharpoonup> string"
  rq_body :: string

record http_response =
  status_code :: int
  rs_headers :: "string \<rightharpoonup> string"
  rs_body :: string

definition new_response :: http_response where
  "new_response = \<lparr>status_code = 200, rs_headers = Map.empty, rs_body = []\<rparr>"

text \<open>A parsed request; \<open>None\<close> for the method is any other verb.\<close>

record wire_request =
  wr_method :: "http_method option"
  wr_target :: string
  wr_fields :: "(string \<times> string) list"
  wr_content :: string

text \<open>What is set on the response: the status, the fields, the body.\<close>

record wire_response =
  ws_status :: int
  ws_set :: "string \<rightharpoonup> string"
  ws_content :: string

section \<open>Query parameters\<close>

definition add_param :: "string \<Rightarrow> (string \<rightharpoonup> string) \<Rightarrow> (string \<rightharpoonup> string)" where
  "add_param param m =
     (case str_find param ''='' 0 of None \<Rightarrow> m
      | Some eq_pos \<Rightarrow> m(substr param 0 eq_pos \<mapsto> substr_from param (eq_pos + 1)))"

text \<open>The loop of \<open>parseQueryParams\<close>; \<open>None\<close> for \<open>stop\<close> is \<open>npos\<close>.\<close>

partial_function (option) query_loop ::
    "string \<Rightarrow> nat \<Rightarrow> nat option \<Rightarrow> (string \<rightharpoonup> string) \<Rightarrow> (string \<rightharpoonup> string) option" where
  "query_loop query start stop params =
     (if start < length query then
        (case stop of
           None \<Rightarrow> Some (add_param (substr_from query start) params)
         | Some e \<Rightarrow>
             query_loop query (e + 1)
               (case str_find query ''&'' (e + 1) of None \<Rightarrow> Some (length query) | Some i \<Rightarrow> Some i)
               (add_param (substr query start (e - start)) params))
      else Some params)"

definition parseQueryParams :: "string \<Rightarrow> (string \<rightharpoonup> string) \<Rightarrow> (string \<rightharpoonup> string) option" where
  "parseQueryParams query params = query_loop query 0 (str_find query ''&'' 0) params"

text \<open>Specification: the parts between ampersands, one after the other.\<close>

function split_on :: "char \<Rightarrow> string \<Rightarrow> string list" where
  "split_on c s = (if c \<in> set s
     then takeWhile (\<lambda>x. x \<noteq> c) s # split_on c (tl (dropWhile (\<lambda>x. x \<noteq> c) s)) else [s])"
  by auto

termination split_on
proof (relation "measure (length \<circ> snd)")
  fix c :: char and s :: string
  assume "c \<in> set s"
  then have "0 < length s" by (cases s) auto
  then have "length (dropWhile (\<lambda>x. x \<noteq> c) s) - 1 < length s"
    using length_dropWhile_le [of "\<lambda>x. x \<noteq> c" s] by linarith
  then show "((c, tl (dropWhile (\<lambda>x. x \<noteq> c) s)), (c, s)) \<in> measure (length \<circ> snd)" by simp
qed simp

declare split_on.simps [simp del]

definition query_spec :: "string \<Rightarrow> (string \<rightharpoonup> string) \<Rightarrow> (string \<rightharpoonup> string)" where
  "query_spec query params = foldl (\<lambda>m p. add_param p m) params (split_on (CHR ''&'') query)"

lemma split_on_none: "c \<notin> set s \<Longrightarrow> split_on c s = [s]"
  by (simp add: split_on.simps)

lemma split_on_char: "c \<notin> set xs \<Longrightarrow> split_on c (xs @ c # ys) = xs # split_on c ys"
proof -
  assume c: "c \<notin> set xs"
  then have "takeWhile (\<lambda>x. x \<noteq> c) (xs @ c # ys) = xs" "dropWhile (\<lambda>x. x \<noteq> c) (xs @ c # ys) = c # ys"
    by (auto simp: takeWhile_append dropWhile_append)
  then show ?thesis by (subst split_on.simps) simp
qed

lemma add_param_Nil [simp]: "add_param [] m = m"
  by (simp add: add_param_def)

text \<open>The rest of the query from \<open>start\<close>, when \<open>stop\<close> is the next ampersand or the end.\<close>

lemma query_loop_suffix:
  "query = pre @ rest \<Longrightarrow> stop = (case find_sub ''&'' rest of None \<Rightarrow> length query | Some i \<Rightarrow> length pre + i) \<Longrightarrow>
    query_loop query (length pre) (Some stop) params = Some (query_spec rest params)"
proof (induction "length rest" arbitrary: pre rest stop params rule: less_induct)
  case less
  show ?case
  proof (cases "find_sub ''&'' rest")
    case None
    then have stop: "stop = length query" using less.prems(2) by simp
    have n: "CHR ''&'' \<notin> set rest" using None find_char_none_iff by blast
    have nf: "str_find query ''&'' (Suc (length query)) = None" by (simp add: str_find_def)
    show ?thesis
    proof (cases "rest = []")
      case True
      then show ?thesis
        using less.prems(1) by (subst query_loop.simps) (simp add: query_spec_def split_on_none)
    next
      case False
      have s: "substr query (length pre) (length query - length pre) = rest"
        using less.prems(1) by (simp add: substr_def)
      have e: "query_loop query (Suc (length query)) (Some (length query)) m = Some m" for m
        by (subst query_loop.simps) simp
      have lt: "length pre < length query" using False less.prems(1) by simp
      have "query_loop query (length pre) (Some (length query)) params
          = query_loop query (Suc (length query)) (Some (length query)) (add_param rest params)"
        by (subst query_loop.simps) (simp only: lt if_True option.case nf s Suc_eq_plus1 [symmetric])
      then show ?thesis unfolding stop e by (simp add: query_spec_def split_on_none [OF n])
    qed
  next
    case (Some i)
    then obtain xs ys where r: "rest = xs @ CHR ''&'' # ys" "length xs = i" "CHR ''&'' \<notin> set xs"
      using find_char_some [OF Some] id_take_nth_drop [of i rest] by force
    have stop: "stop = length (pre @ xs)" using less.prems(2) Some r(2) by simp
    let ?pre = "pre @ xs @ ''&''"
    have q: "query = ?pre @ ys" using less.prems(1) r(1) by simp
    have sub: "substr query (length pre) (stop - length pre) = xs"
      using less.prems(1) r(1) by (simp add: stop substr_def)
    have nxt: "str_find query ''&'' (Suc stop) = map_option (\<lambda>i. length ?pre + i) (find_sub ''&'' ys)"
      using str_find_append [of ?pre ys "''&''"] unfolding q stop by simp
    have IH: "query_loop query (length ?pre)
        (Some (case find_sub ''&'' ys of None \<Rightarrow> length query | Some i \<Rightarrow> length ?pre + i)) m =
        Some (query_spec ys m)" for m
      by (rule less.hyps [OF _ q refl]) (simp add: r(1))
    have "(case str_find query ''&'' (Suc stop) of None \<Rightarrow> Some (length query) | Some i \<Rightarrow> Some i) =
        Some (case find_sub ''&'' ys of None \<Rightarrow> length query | Some i \<Rightarrow> length ?pre + i)"
      unfolding nxt by (cases "find_sub ''&'' ys") simp_all
    then have "query_loop query (length pre) (Some stop) params =
        query_loop query (length ?pre)
          (Some (case find_sub ''&'' ys of None \<Rightarrow> length query | Some i \<Rightarrow> length ?pre + i)) (add_param xs params)"
      using less.prems(1) r(1) sub by (subst query_loop.simps) (simp add: stop)
    then show ?thesis unfolding IH by (simp add: query_spec_def r(1) split_on_char [OF r(3)])
  qed
qed

lemma parseQueryParams_spec: "parseQueryParams query params = Some (query_spec query params)"
proof (cases "find_sub ''&'' query")
  case None
  then have n: "CHR ''&'' \<notin> set query" using find_char_none_iff by blast
  show ?thesis
    by (cases "query = []"; subst parseQueryParams_def; subst query_loop.simps)
      (simp_all add: None substr_from_def query_spec_def split_on_none [OF n] split_on_none [of _ "[]"])
next
  case (Some i)
  have "query_loop query (length []) (Some i) params = Some (query_spec query params)"
    using query_loop_suffix [of query "[]" query i params] by (simp add: Some)
  then show ?thesis by (simp add: parseQueryParams_def Some)
qed

text \<open>A list of parameters as the client writes it.\<close>

fun render_query :: "(string \<times> string) list \<Rightarrow> string" where
  "render_query [] = []"
| "render_query [p] = fst p @ ''='' @ snd p"
| "render_query (p # ps) = (fst p @ ''='' @ snd p) @ ''&'' @ render_query ps"

lemma add_param_pair: "CHR ''='' \<notin> set k \<Longrightarrow> add_param (k @ CHR ''='' # v) m = m(k \<mapsto> v)"
  by (simp add: add_param_def find_char_append substr_def substr_from_def)

lemma query_spec_render:
  "\<forall>p \<in> set ps. CHR ''='' \<notin> set (fst p) \<and> CHR ''&'' \<notin> set (fst p) \<union> set (snd p) \<Longrightarrow>
    query_spec (render_query ps) m = m ++ map_of (rev ps)"
proof (induction ps arbitrary: m rule: render_query.induct)
  case 1
  then show ?case by (simp add: query_spec_def split_on_none)
next
  case (2 p)
  then show ?case
    by (cases p) (simp add: query_spec_def split_on_none add_param_pair fun_eq_iff map_add_def)
next
  case (3 p q ps)
  let ?e = "fst p @ CHR ''='' # snd p" and ?r = "render_query (q # ps)"
  have "split_on (CHR ''&'') (render_query (p # q # ps)) = ?e # split_on (CHR ''&'') ?r"
    using "3.prems" split_on_char [of "CHR ''&''" ?e ?r] by simp
  then have "query_spec (render_query (p # q # ps)) m = query_spec ?r (add_param ?e m)"
    by (simp add: query_spec_def)
  also have "\<dots> = m(fst p \<mapsto> snd p) ++ map_of (rev (q # ps))"
    using "3.IH" "3.prems" by (simp add: add_param_pair)
  finally show ?case by (cases p) (simp add: map_add_def fun_eq_iff split: option.splits)
qed

section \<open>What the handlers read\<close>

text \<open>
  The collectors' registries and the metrics they point to, the analyzer (a null pointer when
  capturing is off), the orders in which its two hash maps are visited, the answers of the
  operating system: the host name (\<open>None\<close> when \<open>gethostname\<close> fails), the number of threads, and
  the number read from \<^verbatim>\<open>/proc/uptime\<close>, 0 when there is none.
\<close>

record api_env =
  av_collectors :: "registry list"
  av_store :: mstore
  av_analyzer :: "analyzer option"
  av_conn_order :: "(connection_key \<times> connection_stats) list"
  av_host_order :: "(string \<times> u64) list"
  av_hostname :: "string option"
  av_num_cpus :: u32
  av_uptime :: rat

type_synonym route_handler = "api_env \<Rightarrow> http_request \<Rightarrow> http_response"
type_synonym routes = "string \<rightharpoonup> (http_method \<rightharpoonup> route_handler)"

section \<open>JSON text\<close>

definition json_str :: "string \<Rightarrow> string" where
  "json_str s = dquote # s @ [dquote]"

definition indent :: "nat \<Rightarrow> string" where
  "indent n = replicate n (CHR '' '')"

definition json_field :: "nat \<Rightarrow> string \<Rightarrow> string \<Rightarrow> string" where
  "json_field n name v = indent n @ json_str name @ '': '' @ v"

text \<open>The fields of an object, a comma and a new line between them.\<close>

fun json_lines :: "string list \<Rightarrow> string" where
  "json_lines [] = []"
| "json_lines [l] = l @ [nl]"
| "json_lines (l # ls) = l @ '','' @ [nl] @ json_lines ls"

definition json_object :: "nat \<Rightarrow> (string \<times> string) list \<Rightarrow> string" where
  "json_object n fs =
     indent n @ ''{'' @ [nl] @ json_lines (map (\<lambda>f. json_field (n + 2) (fst f) (snd f)) fs) @ indent n @ ''}''"

text \<open>The body of the loops over entries: \<open>json\<close> and \<open>first\<close>.\<close>

definition append_entry :: "string \<times> bool \<Rightarrow> string \<Rightarrow> string \<times> bool" where
  "append_entry st e = (fst st @ (if snd st then [] else '','' @ [nl]) @ e, False)"

definition list_open :: "string \<Rightarrow> string" where
  "list_open name = ''{'' @ [nl] @ json_field 2 name ''['' @ [nl]"

definition list_close :: string where
  "list_close = [nl] @ ''  ]'' @ [nl] @ ''}''"

definition json_response :: http_response where
  "json_response = new_response\<lparr>rs_headers := [''Content-Type'' \<mapsto> ''application/json'']\<rparr>"

section \<open>The handlers\<close>

definition metric_fields :: "string \<Rightarrow> metric \<Rightarrow> (string \<times> string) list" where
  "metric_fields name m = [(''name'', json_str name), (''value'', dbl_to_string (getCurrentValue m))]"

definition handleGetMetrics :: route_handler where
  "handleGetMetrics env request =
     (let st = foldl (\<lambda>st reg. foldl (\<lambda>st name.
               case getMetric name reg of
                 None \<Rightarrow> st
               | Some p \<Rightarrow> append_entry st (json_object 4 (metric_fields name (av_store env ! p))))
             st (getMetricNames reg))
           (list_open ''metrics'', True) (av_collectors env)
      in json_response\<lparr>rs_body := fst st @ list_close\<rparr>)"

text \<open>\<^verbatim>\<open>path.substr(path.find_last_of('/') + 1)\<close>\<close>

definition last_segment :: "string \<Rightarrow> string" where
  "last_segment path = rev (takeWhile (\<lambda>c. c \<noteq> CHR ''/'') (rev path))"

fun find_metric :: "string \<Rightarrow> registry list \<Rightarrow> nat option" where
  "find_metric name [] = None"
| "find_metric name (reg # regs) =
     (case getMetric name reg of None \<Rightarrow> find_metric name regs | Some p \<Rightarrow> Some p)"

definition error_body :: "string \<Rightarrow> string" where
  "error_body msg = json_object 0 [(''error'', json_str msg)]"

definition handleGetMetric :: route_handler where
  "handleGetMetric env request =
     (let metric_name = last_segment (rq_path request) in
      case find_metric metric_name (av_collectors env) of
        Some p \<Rightarrow> json_response\<lparr>rs_body := json_object 0 (metric_fields metric_name (av_store env ! p))\<rparr>
      | None \<Rightarrow> json_response\<lparr>status_code := 404, rs_body := error_body ''Metric not found''\<rparr>)"

definition analyzer_missing :: http_response where
  "analyzer_missing = json_response\<lparr>status_code := 503,
     rs_body := error_body ''Network packet analyzer not available''\<rparr>"

definition handleGetNetworkStats :: route_handler where
  "handleGetNetworkStats env request =
     (case av_analyzer env of
        None \<Rightarrow> analyzer_missing
      | Some a \<Rightarrow> json_response\<lparr>rs_body := json_object 0
          [(''status'', json_str ''Active''),
           (''connections'', nat_str (length (getTopConnections (av_conn_order env) 1000)))]\<rparr>)"

definition request_limit :: "http_request \<Rightarrow> nat" where
  "request_limit request =
     (case rq_query request ''limit'' of
        None \<Rightarrow> 10
      | Some v \<Rightarrow> (case stoul v of Inr limit \<Rightarrow> limit | Inl _ \<Rightarrow> 10))"

definition connection_json :: "connection_key \<times> connection_stats \<Rightarrow> string" where
  "connection_json conn =
     (let key = fst conn; stats = snd conn in json_object 4
        [(''source'', json_str (ck_source_ip key @ '':'' @ nat_str (unat (ck_source_port key)))),
         (''destination'', json_str (ck_dest_ip key @ '':'' @ nat_str (unat (ck_dest_port key)))),
         (''protocol'', nat_str (unat (ck_protocol key))),
         (''bytes_sent'', nat_str (unat (bytes_sent stats))),
         (''bytes_received'', nat_str (unat (bytes_received stats))),
         (''packets_sent'', nat_str (unat (packets_sent stats))),
         (''packets_received'', nat_str (unat (packets_received stats)))])"

definition handleGetConnections :: route_handler where
  "handleGetConnections env request =
     (case av_analyzer env of
        None \<Rightarrow> analyzer_missing
      | Some a \<Rightarrow>
          let connections = getTopConnections (av_conn_order env) (request_limit request);
              st = foldl (\<lambda>st conn. append_entry st (connection_json conn))
                     (list_open ''connections'', True) connections
          in json_response\<lparr>rs_body := fst st @ list_close\<rparr>)"

definition host_order :: "string \<times> u64 \<Rightarrow> string \<times> u64 \<Rightarrow> bool" where
  "host_order a b \<longleftrightarrow> snd a > snd b"

definition host_json :: "string \<times> u64 \<Rightarrow> string" where
  "host_json h = json_object 4 [(''ip'', json_str (fst h)), (''bytes'', nat_str (unat (snd h)))]"

definition handleGetTopHosts :: route_handler where
  "handleGetTopHosts env request =
     (case av_analyzer env of
        None \<Rightarrow> analyzer_missing
      | Some a \<Rightarrow>
          let limit = request_limit request;
              sorted_hosts = std_sort host_order (av_host_order env);
              st = foldl (\<lambda>st i. append_entry st (host_json (sorted_hosts ! i)))
                     (list_open ''hosts'', True) [0..<min limit (length sorted_hosts)]
          in json_response\<lparr>rs_body := fst st @ list_close\<rparr>)"

definition getSystemHostname :: "api_env \<Rightarrow> string" where
  "getSystemHostname env = (case av_hostname env of None \<Rightarrow> ''unknown'' | Some s \<Rightarrow> s)"

definition getSystemPlatform :: string where
  "getSystemPlatform = ''Linux''"

definition getSystemUptime :: "api_env \<Rightarrow> u64" where
  "getSystemUptime env = of_int (if av_uptime env < 0 then \<lceil>av_uptime env\<rceil> else \<lfloor>av_uptime env\<rfloor>)"

definition handleGetSystemInfo :: route_handler where
  "handleGetSystemInfo env request =
     json_response\<lparr>rs_body := json_object 0
       [(''hostname'', json_str (getSystemHostname env)),
        (''platform'', json_str getSystemPlatform),
        (''num_cpus'', nat_str (unat (av_num_cpus env))),
        (''uptime'', nat_str (unat (getSystemUptime env)))]\<rparr>"

section \<open>Routing\<close>

definition addRoute :: "string \<Rightarrow> http_method \<Rightarrow> route_handler \<Rightarrow> routes \<Rightarrow> routes" where
  "addRoute path m h rt =
     rt(path \<mapsto> (case rt path of None \<Rightarrow> Map.empty | Some r \<Rightarrow> r)(m \<mapsto> h))"

definition api_routes :: "(string \<times> route_handler) list" where
  "api_routes =
     [(''/api/v1/metrics'', handleGetMetrics),
      (''/api/v1/metrics/{name}'', handleGetMetric),
      (''/api/v1/network/stats'', handleGetNetworkStats),
      (''/api/v1/network/connections'', handleGetConnections),
      (''/api/v1/network/hosts'', handleGetTopHosts),
      (''/api/v1/system/info'', handleGetSystemInfo)]"

definition setupRoutes :: routes where
  "setupRoutes = foldl (\<lambda>rt r. addRoute (fst r) GET (snd r) rt) Map.empty api_routes"

definition make_request :: "http_method \<Rightarrow> wire_request \<Rightarrow> http_request option" where
  "make_request m wr =
     (let target = wr_target wr;
          (path, query) = (case str_find target ''?'' 0 of
             None \<Rightarrow> (target, [])
           | Some pos \<Rightarrow> (substr target 0 pos, substr_from target (pos + 1)));
          headers = foldl (\<lambda>m field. m(fst field \<mapsto> snd field)) Map.empty (wr_fields wr)
      in map_option (\<lambda>params. \<lparr>rq_method = m, rq_path = path, rq_headers = headers,
            rq_query = params, rq_body = wr_content wr\<rparr>)
          (if query \<noteq> [] then parseQueryParams query Map.empty else Some Map.empty))"

definition text_response :: "int \<Rightarrow> string \<Rightarrow> wire_response" where
  "text_response code msg =
     \<lparr>ws_status = code, ws_set = [''Content-Type'' \<mapsto> ''text/plain''], ws_content = msg\<rparr>"

definition processRequest :: "routes \<Rightarrow> api_env \<Rightarrow> wire_request \<Rightarrow> wire_response option" where
  "processRequest rt env wr =
     (case wr_method wr of
        None \<Rightarrow> Some (text_response 405 ''Method not allowed'')
      | Some m \<Rightarrow>
          map_option (\<lambda>request.
            case rt (rq_path request) of
              None \<Rightarrow> text_response 404 ''Not found''
            | Some r \<Rightarrow>
                (case r m of
                   None \<Rightarrow> text_response 404 ''Not found''
                 | Some handler \<Rightarrow>
                     let response = handler env request in
                     \<lparr>ws_status = status_code response,
                      ws_set = (if rs_headers response ''Content-Type'' = None
                                then (rs_headers response)(''Content-Type'' \<mapsto> ''application/json'')
                                else rs_headers response),
                      ws_content = rs_body response\<rparr>))
            (make_request m wr))"

section \<open>Laws\<close>

text \<open>Entries with a comma and a new line between them.\<close>

fun json_entries :: "string list \<Rightarrow> string" where
  "json_entries [] = []"
| "json_entries [e] = e"
| "json_entries (e # es) = e @ '','' @ [nl] @ json_entries es"

lemma append_entries_rest:
  "es \<noteq> [] \<Longrightarrow> fst (foldl append_entry (t, False) es) = t @ '','' @ [nl] @ json_entries es"
proof (induction es arbitrary: t)
  case (Cons e es)
  then show ?case by (cases "es = []") (auto simp: append_entry_def neq_Nil_conv)
qed simp

lemma append_entries: "fst (foldl append_entry (t, True) es) = t @ json_entries es"
proof (cases es)
  case (Cons e es')
  then show ?thesis
    by (cases "es' = []") (auto simp: append_entry_def append_entries_rest neq_Nil_conv)
qed simp

lemma foldl_append_map:
  "foldl (\<lambda>st x. append_entry st (f x)) st xs = foldl append_entry st (map f xs)"
  by (induction xs arbitrary: st) simp_all

text \<open>The target is cut at the first question mark.\<close>

definition target_path :: "string \<Rightarrow> string" where
  "target_path target = takeWhile (\<lambda>c. c \<noteq> CHR ''?'') target"

definition target_query :: "string \<Rightarrow> string" where
  "target_query target = tl (dropWhile (\<lambda>c. c \<noteq> CHR ''?'') target)"

definition request_of :: "http_method \<Rightarrow> wire_request \<Rightarrow> http_request" where
  "request_of m wr = \<lparr>rq_method = m, rq_path = target_path (wr_target wr),
     rq_headers = foldl (\<lambda>m field. m(fst field \<mapsto> snd field)) Map.empty (wr_fields wr),
     rq_query = query_spec (target_query (wr_target wr)) Map.empty, rq_body = wr_content wr\<rparr>"

lemma query_spec_Nil [simp]: "query_spec [] m = m"
  by (simp add: query_spec_def split_on_none)

lemma target_parts:
  "c \<notin> set xs \<Longrightarrow> takeWhile (\<lambda>x. x \<noteq> c) (xs @ c # ys) = xs \<and> dropWhile (\<lambda>x. x \<noteq> c) (xs @ c # ys) = c # ys"
  by (auto simp: takeWhile_append dropWhile_append)

lemma make_request_total: "make_request m wr = Some (request_of m wr)"
proof (cases "find_sub ''?'' (wr_target wr)")
  case None
  then have n: "CHR ''?'' \<notin> set (wr_target wr)" using find_char_none_iff by blast
  then have tw: "takeWhile (\<lambda>c. c \<noteq> CHR ''?'') (wr_target wr) = wr_target wr"
    and dw: "dropWhile (\<lambda>c. c \<noteq> CHR ''?'') (wr_target wr) = []"
    by (auto simp: takeWhile_eq_all_conv)
  show ?thesis
    unfolding make_request_def request_of_def target_path_def target_query_def tw dw
    by (simp add: None)
next
  case (Some i)
  obtain xs ys where t: "wr_target wr = xs @ CHR ''?'' # ys" "length xs = i" "CHR ''?'' \<notin> set xs"
    using find_char_some [OF Some] id_take_nth_drop [of i "wr_target wr"] by force
  have "substr (wr_target wr) 0 i = xs" "substr_from (wr_target wr) (Suc i) = ys"
    using t(1,2) by (simp_all add: substr_def substr_from_def)
  with Some target_parts [OF t(3), of ys] show ?thesis
    by (simp add: make_request_def request_of_def target_path_def target_query_def Let_def t(1)
        parseQueryParams_spec)
qed

lemma setupRoutes_paths:
  "(case setupRoutes path of None \<Rightarrow> None | Some r \<Rightarrow> r m) =
     (if m = GET then map_of api_routes path else None)"
  by (simp add: setupRoutes_def addRoute_def api_routes_def)

lemma handlers_json:
  assumes "map_of api_routes path = Some h"
  shows "rs_headers (h env request) = [''Content-Type'' \<mapsto> ''application/json'']"
proof -
  have "h \<in> {handleGetMetrics, handleGetMetric, handleGetNetworkStats, handleGetConnections,
      handleGetTopHosts, handleGetSystemInfo}"
    using assms by (auto simp: api_routes_def split: if_splits)
  then show ?thesis
    by (auto simp: handleGetMetrics_def handleGetMetric_def handleGetNetworkStats_def
        handleGetConnections_def handleGetTopHosts_def handleGetSystemInfo_def json_response_def
        analyzer_missing_def new_response_def Let_def split: option.splits)
qed

definition dispatch_spec :: "api_env \<Rightarrow> wire_request \<Rightarrow> wire_response" where
  "dispatch_spec env wr =
     (case wr_method wr of
        None \<Rightarrow> text_response 405 ''Method not allowed''
      | Some m \<Rightarrow>
          (case map_of api_routes (target_path (wr_target wr)) of
             None \<Rightarrow> text_response 404 ''Not found''
           | Some h \<Rightarrow>
               if m \<noteq> GET then text_response 404 ''Not found''
               else let response = h env (request_of GET wr) in
                 \<lparr>ws_status = status_code response, ws_set = [''Content-Type'' \<mapsto> ''application/json''],
                  ws_content = rs_body response\<rparr>))"

lemma processRequest_dispatch: "processRequest setupRoutes env wr = Some (dispatch_spec env wr)"
proof (cases "wr_method wr")
  case (Some m)
  let ?path = "target_path (wr_target wr)"
  have p: "rq_path (request_of m' wr) = ?path" for m' by (simp add: request_of_def)
  have r: "(case setupRoutes ?path of None \<Rightarrow> None | Some r \<Rightarrow> r m) =
      (if m = GET then map_of api_routes ?path else None)" by (rule setupRoutes_paths)
  show ?thesis
  proof (cases "m = GET \<and> map_of api_routes ?path \<noteq> None")
    case True
    then obtain h where h: "m = GET" "map_of api_routes ?path = Some h" by auto
    then obtain rt where rt: "setupRoutes ?path = Some rt" "rt GET = Some h"
      using r by (cases "setupRoutes ?path") auto
    show ?thesis
      using rt handlers_json [OF h(2)]
      by (simp add: processRequest_def dispatch_spec_def Some make_request_total p h Let_def)
  next
    case False
    then have "setupRoutes ?path = None \<or> (\<exists>rt. setupRoutes ?path = Some rt \<and> rt m = None)"
      using r by (cases "setupRoutes ?path") auto
    then show ?thesis
      using False
      by (auto simp: processRequest_def dispatch_spec_def Some make_request_total p split: option.splits)
  qed
qed (simp add: processRequest_def dispatch_spec_def)

interpretation by_bytes: strict_weak_order host_order
  by unfold_locales (auto simp: host_order_def not_less intro: order_trans)

lemma stoul_nat_str: "n < 2 ^ 64 \<Longrightarrow> stoul (nat_str n) = Inr n"
  using scan_int_nat_str [of "[]" n] by (simp add: stoul_def)

text \<open>The query \<open>limit=n\<close>.\<close>

definition limit_query :: "nat \<Rightarrow> string" where
  "limit_query n = ''limit='' @ nat_str n"

lemma nat_str_plain: "\<not> is_digit c \<Longrightarrow> c \<notin> set (nat_str n)"
  using nat_str_digits [of n] by blast

lemma limit_query_spec: "query_spec (limit_query n) m = m(''limit'' \<mapsto> nat_str n)"
proof -
  have "CHR ''&'' \<notin> set (limit_query n)"
    by (simp add: limit_query_def nat_str_plain is_digit_def char_code_def)
  moreover have "add_param (limit_query n) m = m(''limit'' \<mapsto> nat_str n)"
    using find_char_append [of "CHR ''=''" "''limit''" "nat_str n"]
    by (simp add: add_param_def limit_query_def substr_def substr_from_def)
  ultimately show ?thesis by (simp add: query_spec_def split_on_none)
qed

section \<open>Properties\<close>

text \<open>
  Query parameters. A query made of \<open>key=value\<close> parts joined by ampersands is read back to
  exactly those parameters, the last value of a repeated key, whatever characters but the
  two separators the keys and values have; the parser returns on every text.
\<close>

theorem query_roundtrip:
  assumes "\<forall>p \<in> set ps. CHR ''='' \<notin> set (fst p) \<and> CHR ''&'' \<notin> set (fst p) \<union> set (snd p)"
  shows "parseQueryParams (render_query ps) m = Some (m ++ map_of (rev ps)) \<and>
    (\<forall>query. parseQueryParams query m \<noteq> None)"
  using query_spec_render [OF assms] by (simp add: parseQueryParams_spec)

theorem query_roundtrip_witness:
  "parseQueryParams ''limit=5&sort=a=b&limit=7'' Map.empty = Some [''limit'' \<mapsto> ''7'', ''sort'' \<mapsto> ''a=b'']"
proof -
  have "\<forall>p \<in> set [(''limit'', ''5''), (''sort'', ''a=b''), (''limit'', ''7'')].
      CHR ''='' \<notin> set (fst p) \<and> CHR ''&'' \<notin> set (fst p) \<union> set (snd p)" by simp
  from query_roundtrip [OF this, of Map.empty] show ?thesis by (simp add: fun_eq_iff)
qed

text \<open>
  C34: Routing. Every request is answered, and the answer depends on the verb and the path
  before the first question mark only through an exact match: an unknown verb gives 405; GET
  of one of the six registered paths gives that handler's answer as JSON, the handler seeing
  the fields of the request and the parameters of the text after the question mark; anything
  else, another verb on a registered path included, gives 404 as plain text. Nothing else enters
  the answer: there is no limit on the rate of requests and no 429, which \<^verbatim>\<open>docs/API.md\<close> promises.
\<close>

theorem api_routing_exact:
  "processRequest setupRoutes env wr = Some
     (case wr_method wr of
        None \<Rightarrow> text_response 405 ''Method not allowed''
      | Some m \<Rightarrow>
          (case map_of api_routes (target_path (wr_target wr)) of
             None \<Rightarrow> text_response 404 ''Not found''
           | Some h \<Rightarrow>
               if m \<noteq> GET then text_response 404 ''Not found''
               else let response = h env (request_of GET wr) in
                 \<lparr>ws_status = status_code response, ws_set = [''Content-Type'' \<mapsto> ''application/json''],
                  ws_content = rs_body response\<rparr>))"
  by (simp only: processRequest_dispatch dispatch_spec_def)

text \<open>
  The documented endpoint of a single metric does not exist: the placeholder of the route
  is compared literally, so GET of \<open>/api/v1/metrics/\<close> followed by any name but the six
  characters \<open>{name}\<close> gives the plain 404, whatever metrics the collectors have.
\<close>

theorem single_metric_unreachable:
  assumes "target_path (wr_target wr) = ''/api/v1/metrics/'' @ name" and "name \<noteq> ''{name}''"
    and "wr_method wr = Some GET"
  shows "processRequest setupRoutes env wr = Some (text_response 404 ''Not found'')"
proof -
  have "map_of api_routes (''/api/v1/metrics/'' @ name) = None"
    using assms(2) by (simp add: api_routes_def)
  then show ?thesis using assms(1,3) by (simp add: processRequest_dispatch dispatch_spec_def)
qed

definition get_request :: "string \<Rightarrow> wire_request" where
  "get_request target = \<lparr>wr_method = Some GET, wr_target = target, wr_fields = [], wr_content = []\<rparr>"

definition sample_env :: api_env where
  "sample_env = \<lparr>av_collectors = [[(''cpu.usage'', 0)], [(''memory.total'', 1)]],
     av_store = [GaugeMetric ''cpu.usage'' 0, GaugeMetric ''memory.total'' 0],
     av_analyzer = Some \<lparr>connections = Map.empty, host_traffic_stats = [''a'' \<mapsto> 5, ''b'' \<mapsto> 7],
       recent_packets = cb_init 1 (tcp_packet [] 0 [] 0 0 0), protocol_parsers = []\<rparr>,
     av_conn_order = [], av_host_order = [(''b'', 7), (''a'', 5)],
     av_hostname = None, av_num_cpus = 4, av_uptime = 9 / 2\<rparr>"

theorem single_metric_unreachable_witness:
  "processRequest setupRoutes sample_env (get_request ''/api/v1/metrics/cpu.usage'') =
     Some (text_response 404 ''Not found'')"
  by (rule single_metric_unreachable [of _ "''cpu.usage''"])
    (simp_all add: get_request_def target_path_def)

text \<open>
  The metrics endpoint lists exactly the registered metrics with their current values, in
  the order of the collectors and, within a collector, of the names.
\<close>

theorem metrics_endpoint_complete:
  assumes "target_path (wr_target wr) = ''/api/v1/metrics''" and "wr_method wr = Some GET"
    and "\<forall>reg \<in> set (av_collectors env). om_ok reg"
  shows "processRequest setupRoutes env wr = Some
    \<lparr>ws_status = 200, ws_set = [''Content-Type'' \<mapsto> ''application/json''],
     ws_content = list_open ''metrics''
       @ json_entries (map (\<lambda>e. json_object 4 [(''name'', json_str (fst e)),
             (''value'', dbl_to_string (current_value (av_store env ! snd e)))])
           (concat (av_collectors env)))
       @ list_close\<rparr>"
proof -
  let ?entry = "\<lambda>e. json_object 4 (metric_fields (fst e) (av_store env ! snd e))"
  let ?name = "\<lambda>reg st name. case getMetric name reg of None \<Rightarrow> st
      | Some p \<Rightarrow> append_entry st (json_object 4 (metric_fields name (av_store env ! p)))"
  have one: "foldl (?name reg) st (getMetricNames reg) = foldl append_entry st (map ?entry reg)"
    if "om_ok reg" for reg st
  proof -
    have "foldl (?name reg) st (map fst es) = foldl append_entry st (map ?entry es)"
      if "set es \<subseteq> set reg" for es
      using that
    proof (induction es arbitrary: st)
      case (Cons e es)
      have "getMetric (fst e) reg = Some (snd e)"
        using Cons.prems om_find_mem [OF \<open>om_ok reg\<close>] by (simp add: getMetric_def)
      with Cons show ?case by simp
    qed simp
    then show ?thesis by (simp add: getMetricNames_def)
  qed
  have "foldl (\<lambda>st reg. foldl (?name reg) st (getMetricNames reg)) st regs =
      foldl append_entry st (map ?entry (concat regs))"
    if "\<forall>reg \<in> set regs. om_ok reg" for st regs
    using that by (induction regs arbitrary: st) (simp_all add: one)
  from this [OF assms(3)] have body: "rs_body (handleGetMetrics env request) =
      list_open ''metrics'' @ json_entries (map ?entry (concat (av_collectors env))) @ list_close" for request
    by (simp add: handleGetMetrics_def Let_def append_entries)
  have "status_code (handleGetMetrics env request) = 200" for request
    by (simp add: handleGetMetrics_def json_response_def new_response_def Let_def)
  with body show ?thesis
    using assms(1,2)
    by (simp add: processRequest_dispatch dispatch_spec_def api_routes_def Let_def metric_fields_def
        getCurrentValue_def counter_getCurrentValue_def gauge_getCurrentValue_def)
qed

theorem metrics_endpoint_complete_witness:
  "map_option ws_status (processRequest setupRoutes sample_env (get_request ''/api/v1/metrics'')) = Some 200"
proof -
  have ok: "\<forall>reg \<in> set (av_collectors sample_env). om_ok reg" by (simp add: sample_env_def om_ok_def)
  have t: "target_path (wr_target (get_request ''/api/v1/metrics'')) = ''/api/v1/metrics''"
    "wr_method (get_request ''/api/v1/metrics'') = Some GET"
    by (simp_all add: get_request_def target_path_def)
  show ?thesis using metrics_endpoint_complete [OF t ok] by simp
qed

text \<open>
  C35: The host report, from the request line to the body: \<open>limit=n\<close> gives the \<open>n\<close> hosts with the
  most traffic, each once, with the analyzer's byte counts, in decreasing order, in whatever
  order the hash map is visited.
\<close>

theorem top_hosts_endpoint:
  assumes "wr_target wr = ''/api/v1/network/hosts?'' @ limit_query n" and "wr_method wr = Some GET"
    and "n < 2 ^ 64" and "av_analyzer env = Some a" and "listing (host_traffic_stats a) (av_host_order env)"
  shows "\<exists>hs. processRequest setupRoutes env wr = Some
      \<lparr>ws_status = 200, ws_set = [''Content-Type'' \<mapsto> ''application/json''],
       ws_content = list_open ''hosts'' @ json_entries (map host_json hs) @ list_close\<rparr>
    \<and> length hs = min n (card (dom (host_traffic_stats a))) \<and> distinct (map fst hs)
    \<and> (\<forall>ip b. (ip, b) \<in> set hs \<longrightarrow> host_traffic_stats a ip = Some b)
    \<and> sorted_wrt (\<lambda>x y. snd y \<le> snd x) hs
    \<and> (\<forall>ip b h. host_traffic_stats a ip = Some b \<longrightarrow> (ip, b) \<notin> set hs \<longrightarrow> h \<in> set hs \<longrightarrow> b \<le> snd h)"
proof -
  let ?s = "std_sort host_order (av_host_order env)"
  define hs where hs: "hs = take n ?s"
  have path: "target_path (wr_target wr) = ''/api/v1/network/hosts''"
    "target_query (wr_target wr) = limit_query n"
    using target_parts [of "CHR ''?''" "''/api/v1/network/hosts''" "limit_query n"]
    by (simp_all add: assms(1) target_path_def target_query_def)
  have "request_limit (request_of GET wr) = n"
    by (simp add: request_limit_def request_of_def path limit_query_spec stoul_nat_str [OF assms(3)])
  moreover have "map (\<lambda>i. host_json (?s ! i)) [0..<min n (length ?s)] = map host_json hs"
    unfolding hs by (rule nth_equalityI) simp_all
  then have "foldl (\<lambda>st i. append_entry st (host_json (?s ! i))) (t, True) [0..<min n (length ?s)]
      = foldl append_entry (t, True) (map host_json hs)" for t
    using foldl_append_map [of "\<lambda>i. host_json (?s ! i)" "(t, True)" "[0..<min n (length ?s)]"] by (simp del: map_map)
  ultimately have "handleGetTopHosts env (request_of GET wr) = json_response\<lparr>rs_body :=
      list_open ''hosts'' @ json_entries (map host_json hs) @ list_close\<rparr>"
    by (simp add: handleGetTopHosts_def assms(4) Let_def append_entries)
  then have "processRequest setupRoutes env wr = Some
      \<lparr>ws_status = 200, ws_set = [''Content-Type'' \<mapsto> ''application/json''],
       ws_content = list_open ''hosts'' @ json_entries (map host_json hs) @ list_close\<rparr>"
    by (simp add: processRequest_dispatch dispatch_spec_def assms(2) path api_routes_def
        json_response_def new_response_def)
  moreover note top = top_entries [OF by_bytes.strict_weak_order_axioms assms(5) hs]
  have "sorted_wrt (\<lambda>x y. snd y \<le> snd x) hs" using top(4) by (simp add: host_order_def not_less)
  moreover have "b \<le> snd h" if "host_traffic_stats a ip = Some b" "(ip, b) \<notin> set hs" "h \<in> set hs" for ip b h
    using top(5) [OF that] by (simp add: host_order_def not_less)
  ultimately show ?thesis using top(1-3) by blast
qed

theorem top_hosts_endpoint_witness:
  "\<exists>hs. map_option ws_content (processRequest setupRoutes sample_env (get_request ''/api/v1/network/hosts?limit=1'')) =
      Some (list_open ''hosts'' @ json_entries (map host_json hs) @ list_close) \<and> length hs = 1"
proof -
  have "nat_str 1 = ''1''" by code_simp
  then have t: "wr_target (get_request ''/api/v1/network/hosts?limit=1'') = ''/api/v1/network/hosts?'' @ limit_query 1"
    by (simp add: get_request_def limit_query_def)
  have l: "listing (host_traffic_stats (the (av_analyzer sample_env))) (av_host_order sample_env)"
    by (simp add: sample_env_def listing_def fun_eq_iff)
  have "av_analyzer sample_env = Some (the (av_analyzer sample_env))" "(1 :: nat) < 2 ^ 64"
    "wr_method (get_request ''/api/v1/network/hosts?limit=1'') = Some GET"
    by (simp_all add: sample_env_def get_request_def)
  moreover have "card (dom (host_traffic_stats (the (av_analyzer sample_env)))) = 2"
    using listing_length [OF l] by (simp add: sample_env_def)
  ultimately show ?thesis using top_hosts_endpoint [OF t _ _ _ l] by fastforce
qed

end
