(* ===== verification/Rest_Session.thy ===== *)
theory Rest_Session
  imports Rest_Api Event_Machine
begin

text \<open>
  \<^verbatim>\<open>api/rest_api.cpp\<close>: the listener and its sessions. Boost.Asio is outside: it completes the
  pending operations, an accept, the read of a request, the write of a response, one at a time and
  in any order, each with an error or a result. A completion is an event; its handler is a step.
\<close>

section \<open>State\<close>

text \<open>The response object as it is written, with the keep-alive flag copied from the request.\<close>

record wire_answer =
  an_keep_alive :: bool
  an_response :: wire_response

text \<open>
  What a session waits for. Its handlers hold the only references to it: without a pending
  operation the session and its socket are destroyed, after an answer (\<open>Closed\<close>) or without one.
\<close>

datatype session_state = Reading | Writing wire_answer | Closed wire_answer | Dropped

record listener =
  accept_pending :: bool
  sessions :: "session_state list"
  accept_errors :: nat

definition new_listener :: listener where
  "new_listener = \<lparr>accept_pending = False, sessions = [], accept_errors = 0\<rparr>"

text \<open>
  The constructor opens the acceptor, sets its option, binds it and listens; the first error among
  the four answers of the system is thrown with its message.
\<close>

definition Listener ::
    "string option \<Rightarrow> string option \<Rightarrow> string option \<Rightarrow> string option \<Rightarrow> string + listener" where
  "Listener open_error option_error bind_error listen_error =
     (case open_error of
        Some msg \<Rightarrow> Inl (''Failed to open acceptor: '' @ msg)
      | None \<Rightarrow>
          (case option_error of
             Some msg \<Rightarrow> Inl (''Failed to set reuse_address: '' @ msg)
           | None \<Rightarrow>
               (case bind_error of
                  Some msg \<Rightarrow> Inl (''Failed to bind: '' @ msg)
                | None \<Rightarrow>
                    (case listen_error of
                       Some msg \<Rightarrow> Inl (''Failed to listen: '' @ msg)
                     | None \<Rightarrow> Inr new_listener))))"

text \<open>\<open>Listener::run\<close> starts the first accept.\<close>

definition listener_run :: "listener \<Rightarrow> listener" where
  "listener_run l = l\<lparr>accept_pending := True\<rparr>"

section \<open>Completion handlers\<close>

text \<open>\<open>onAccept\<close> uses up the pending accept and starts the next one, also after an error.\<close>

definition onAccept :: "bool \<Rightarrow> listener \<Rightarrow> listener option" where
  "onAccept failed l =
     (if \<not> accept_pending l then None
      else
        let l = l\<lparr>accept_pending := False\<rparr>;
            l = (if failed then l\<lparr>accept_errors := accept_errors l + 1\<rparr>
                 else l\<lparr>sessions := sessions l @ [Reading]\<rparr>)
        in Some (l\<lparr>accept_pending := True\<rparr>))"

text \<open>
  The handler of \<open>readRequest\<close>: the request and its keep-alive flag, or an error. \<open>env\<close> is the state
  the route handlers see.
\<close>

definition onRead ::
    "routes \<Rightarrow> nat \<Rightarrow> (wire_request \<times> bool) option \<Rightarrow> api_env \<Rightarrow> listener \<Rightarrow> listener option" where
  "onRead rt i received env l =
     (if i < length (sessions l) \<and> sessions l ! i = Reading
      then (case received of
              None \<Rightarrow> Some (l\<lparr>sessions := (sessions l)[i := Dropped]\<rparr>)
            | Some (wr, keep_alive) \<Rightarrow>
                map_option (\<lambda>r. l\<lparr>sessions := (sessions l)[i := Writing \<lparr>an_keep_alive = keep_alive, an_response = r\<rparr>]\<rparr>)
                  (processRequest rt env wr))
      else None)"

text \<open>The handler of \<open>writeResponse\<close> shuts the socket down, whether the write failed or not.\<close>

definition onWrite :: "nat \<Rightarrow> listener \<Rightarrow> listener option" where
  "onWrite i l =
     (if i < length (sessions l)
      then (case sessions l ! i of
              Writing a \<Rightarrow> Some (l\<lparr>sessions := (sessions l)[i := Closed a]\<rparr>)
            | _ \<Rightarrow> None)
      else None)"

datatype completion =
  Accepted bool | ReadDone nat "(wire_request \<times> bool) option" api_env | WriteDone nat

fun listener_step :: "routes \<Rightarrow> completion \<Rightarrow> listener \<Rightarrow> listener option" where
  "listener_step rt (Accepted failed) l = onAccept failed l"
| "listener_step rt (ReadDone i received env) l = onRead rt i received env l"
| "listener_step rt (WriteDone i) l = onWrite i l"

section \<open>What a session has done\<close>

text \<open>The requests read on connection \<open>i\<close>, and the number of connections accepted.\<close>

fun reads_of :: "nat \<Rightarrow> completion list \<Rightarrow> ((wire_request \<times> bool) option \<times> api_env) list" where
  "reads_of i [] = []"
| "reads_of i (ReadDone j r env # es) = (if i = j then (r, env) # reads_of i es else reads_of i es)"
| "reads_of i (_ # es) = reads_of i es"

definition connections_accepted :: "completion list \<Rightarrow> nat" where
  "connections_accepted es = length (filter (\<lambda>e. e = Accepted False) es)"

lemma reads_of_append: "reads_of i (es @ es') = reads_of i es @ reads_of i es'"
  by (induction i es rule: reads_of.induct) simp_all

text \<open>
  The contract of a session: it reads one request, answers it with the router's response, and
  is done.
\<close>

fun session_meets :: "routes \<Rightarrow> ((wire_request \<times> bool) option \<times> api_env) list \<Rightarrow> session_state \<Rightarrow> bool" where
  "session_meets rt [] st = (st = Reading)"
| "session_meets rt [(None, env)] st = (st = Dropped)"
| "session_meets rt [(Some (wr, keep), env)] st =
     (\<exists>r. processRequest rt env wr = Some r \<and>
       st \<in> {Writing \<lparr>an_keep_alive = keep, an_response = r\<rparr>, Closed \<lparr>an_keep_alive = keep, an_response = r\<rparr>})"
| "session_meets rt _ st = False"

definition listener_ok :: "routes \<Rightarrow> completion list \<Rightarrow> listener \<Rightarrow> bool" where
  "listener_ok rt es l \<longleftrightarrow> accept_pending l \<and> length (sessions l) = connections_accepted es \<and>
     (\<forall>i. if i < length (sessions l) then session_meets rt (reads_of i es) (sessions l ! i) else reads_of i es = [])"

lemma session_meets_Reading: "session_meets rt rs Reading \<longleftrightarrow> rs = []"
  by (cases "(rt, rs, Reading)" rule: session_meets.cases) auto

lemma session_meets_Writing:
  "session_meets rt rs (Writing a) \<Longrightarrow> session_meets rt rs (Closed a)"
  by (cases "(rt, rs, Writing a)" rule: session_meets.cases) auto

lemma listener_ok_step:
  assumes "listener_ok rt es l" and "listener_step rt e l = Some l'"
  shows "listener_ok rt (es @ [e]) l'"
proof (cases e)
  case (Accepted failed)
  have "session_meets rt (reads_of i es) ((sessions l @ [Reading]) ! i)" if "i < Suc (length (sessions l))" for i
    using assms(1) that by (cases "i < length (sessions l)")
      (auto simp: listener_ok_def nth_append session_meets_Reading less_Suc_eq dest: spec [of _ i])
  then show ?thesis
    using assms Accepted
    by (auto simp: listener_ok_def onAccept_def connections_accepted_def reads_of_append Let_def split: if_splits)
      (metis less_SucI)
next
  case (ReadDone i received env)
  then have i: "i < length (sessions l)" "sessions l ! i = Reading"
    using assms(2) by (auto simp: onRead_def split: if_splits)
  then have none: "reads_of i es = []"
    using assms(1) unfolding listener_ok_def by (metis session_meets_Reading)
  then show ?thesis
    using assms i ReadDone
    by (auto simp: listener_ok_def onRead_def connections_accepted_def reads_of_append nth_list_update
        split: if_splits option.splits)
next
  case (WriteDone i)
  then obtain a where "i < length (sessions l)" "sessions l ! i = Writing a"
    using assms(2) by (auto simp: onWrite_def split: if_splits session_state.splits)
  moreover from this have "session_meets rt (reads_of i es) (Closed a)"
    using assms(1) session_meets_Writing unfolding listener_ok_def by metis
  ultimately show ?thesis
    using assms WriteDone
    by (auto simp: listener_ok_def onWrite_def connections_accepted_def reads_of_append nth_list_update)
qed

lemma listener_ok_run:
  "run_events (listener_step rt) es (listener_run new_listener) = Some l \<Longrightarrow> listener_ok rt es l"
proof (induction es arbitrary: l rule: rev_induct)
  case Nil
  then show ?case by (auto simp: listener_ok_def listener_run_def new_listener_def connections_accepted_def)
next
  case (snoc e es)
  then obtain l1 where "run_events (listener_step rt) es (listener_run new_listener) = Some l1" "listener_step rt e l1 = Some l"
    by (auto simp: run_events_append split: Option.bind_splits option.splits)
  then show ?case using snoc.IH listener_ok_step by blast
qed

section \<open>Properties\<close>

text \<open>
  C32: The server answers every connection once. Under every order of completions and with any
  errors an accept stays pending and there is one session per accepted connection; a session has
  read nothing yet, or has lost its only read and is gone without an answer, or has read one
  request, whose answer, by the router in the state of that moment, is being written or is written
  and the connection shut down. No second request of a connection is ever read, although the
  answer repeats the keep-alive flag of the request.
\<close>

theorem sessions_answer_once:
  assumes "Listener e1 e2 e3 e4 = Inr l0"
    and "run_events (listener_step setupRoutes) es (listener_run l0) = Some l"
  shows "accept_pending l \<and> length (sessions l) = connections_accepted es \<and>
    (\<forall>i < length (sessions l).
       (reads_of i es = [] \<and> sessions l ! i = Reading) \<or>
       (\<exists>env. reads_of i es = [(None, env)] \<and> sessions l ! i = Dropped) \<or>
       (\<exists>wr keep env. reads_of i es = [(Some (wr, keep), env)] \<and>
          (let a = \<lparr>an_keep_alive = keep, an_response = the (processRequest setupRoutes env wr)\<rparr>
           in sessions l ! i \<in> {Writing a, Closed a})))"
proof -
  have "l0 = new_listener" using assms(1) by (auto simp: Listener_def split: option.splits)
  then have ok: "listener_ok setupRoutes es l" using assms(2) listener_ok_run by blast
  have "(rs = [] \<and> st = Reading) \<or> (\<exists>env. rs = [(None, env)] \<and> st = Dropped) \<or>
      (\<exists>wr keep env. rs = [(Some (wr, keep), env)] \<and>
         (let a = \<lparr>an_keep_alive = keep, an_response = the (processRequest setupRoutes env wr)\<rparr>
          in st \<in> {Writing a, Closed a}))" if "session_meets setupRoutes rs st" for rs st
    using that by (cases "(setupRoutes, rs, st)" rule: session_meets.cases) (auto simp: Let_def)
  then show ?thesis using ok by (simp add: listener_ok_def)
qed

theorem sessions_answer_once_witness:
  "\<exists>l. run_events (listener_step setupRoutes)
      [Accepted True, Accepted False, Accepted False, ReadDone 1 (Some (get_request ''/'', True)) sample_env,
       ReadDone 0 None sample_env, WriteDone 1] (listener_run new_listener) = Some l \<and>
    sessions l = [Dropped, Closed \<lparr>an_keep_alive = True, an_response = text_response 404 ''Not found''\<rparr>]"
proof -
  let ?es = "[Accepted True, Accepted False, Accepted False, ReadDone 1 (Some (get_request ''/'', True)) sample_env,
    ReadDone 0 None sample_env, WriteDone 1]"
  have r: "processRequest setupRoutes sample_env (get_request ''/'') = Some (text_response 404 ''Not found'')"
    by (simp add: processRequest_dispatch dispatch_spec_def get_request_def target_path_def api_routes_def)
  obtain l where l: "run_events (listener_step setupRoutes) ?es (listener_run new_listener) = Some l"
    by (simp add: onAccept_def onRead_def onWrite_def listener_run_def new_listener_def r Let_def)
  have "Listener None None None None = Inr new_listener" by (simp add: Listener_def)
  note t = sessions_answer_once [OF this l]
  have n: "length (sessions l) = 2" using t by (simp add: connections_accepted_def)
  have st: "sessions l ! 0 = Dropped"
    "sessions l ! 1 \<in> {Writing \<lparr>an_keep_alive = True, an_response = text_response 404 ''Not found''\<rparr>,
       Closed \<lparr>an_keep_alive = True, an_response = text_response 404 ''Not found''\<rparr>}"
    using t n r by (auto simp: dest: spec [of _ 0] spec [of _ 1])
  have "sessions l ! 1 = Closed \<lparr>an_keep_alive = True, an_response = text_response 404 ''Not found''\<rparr>"
    using l by (auto simp: onAccept_def onRead_def onWrite_def listener_run_def new_listener_def r Let_def)
  moreover have "sessions l = [sessions l ! 0, sessions l ! 1]"
    using n by (auto simp: list_eq_iff_nth_eq less_Suc_eq numeral_eq_Suc)
  ultimately have "sessions l = [Dropped, Closed \<lparr>an_keep_alive = True, an_response = text_response 404 ''Not found''\<rparr>]"
    using st by metis
  with l show ?thesis by blast
qed

end
