(* ===== verification/Served_Program.thy ===== *)
theory Served_Program
  imports Exit_Progress Rest_Session "HOL-Library.AList"
begin

text \<open>
  \<^verbatim>\<open>main.cpp\<close> with its API server: the machine of \<open>Monitor_System\<close> together with the threads of
  \<open>Rest_Server\<close> and the sessions of \<open>Rest_Session\<close>. The handlers read the metrics and the analyzer
  while the collectors and the tasks write them: a handler looks at the analyzer under one lock, so a
  request is one step, but \<open>handleGetMetrics\<close> locks each metric by itself and takes one step for each.
\<close>

section \<open>State\<close>

text \<open>A running \<open>handleGetMetrics\<close>: the keep-alive flag of its request, the metrics to be read, and the variables \<open>json\<close> and \<open>first\<close>.\<close>

record metrics_handler =
  mh_keep_alive :: bool
  mh_todo :: "(registry \<times> string) list"
  mh_json :: "string \<times> bool"

text \<open>
  \<open>sv_capturing\<close>: the pointer to the analyzer is not null. \<open>sv_server\<close> is the server while it exists;
  \<open>sv_handling\<close> has the sessions an I/O thread is busy with. \<open>sv_read\<close>, the requests read, is there
  to state properties. \<open>sv_terminated\<close>: the server was destroyed with a thread that could be joined.
\<close>

record 'h served =
  sv_monitor :: "'h monitor"
  sv_capturing :: bool
  sv_server :: "rest_server option"
  sv_listener :: listener
  sv_handling :: "(nat \<times> metrics_handler) list"
  sv_read :: "(nat \<times> wire_request \<times> bool) list"
  sv_terminated :: bool

abbreviation served_world :: "'h served \<Rightarrow> shared" where
  "served_world s \<equiv> world (sv_monitor s)"

text \<open>The program that \<open>startup\<close> has started; the listener is the one \<open>run\<close> will make, with its first accept.\<close>

definition served_of :: "'h environment \<Rightarrow> int \<Rightarrow> 'h program \<Rightarrow> 'h served" where
  "served_of e t0 p =
     \<lparr>sv_monitor = monitor_of e t0 p, sv_capturing = (pg_network p \<noteq> None), sv_server = map_option snd (pg_api p),
      sv_listener = listener_run new_listener, sv_handling = [], sv_read = [], sv_terminated = False\<rparr>"

section \<open>Handlers\<close>

text \<open>What a handler sees, beside the answers of the system and the visiting orders in \<open>env\<close>.\<close>

definition handler_view :: "api_env \<Rightarrow> 'h served \<Rightarrow> api_env" where
  "handler_view env s = env\<lparr>av_collectors := sh_collectors (served_world s), av_store := sh_metrics (served_world s),
     av_analyzer := (if sv_capturing s then Some (sh_analyzer (served_world s)) else None)\<rparr>"

text \<open>The one route whose handler takes several locks.\<close>

definition handles_metrics :: "wire_request \<Rightarrow> bool" where
  "handles_metrics wr \<longleftrightarrow> wr_method wr = Some GET \<and> target_path (wr_target wr) = ''/api/v1/metrics''"

definition read_gauge :: "mstore \<Rightarrow> registry \<times> string \<Rightarrow> string \<times> bool \<Rightarrow> string \<times> bool" where
  "read_gauge h x st =
     (case getMetric (snd x) (fst x) of
        None \<Rightarrow> st
      | Some p \<Rightarrow> append_entry st (json_object 4 (metric_fields (snd x) (h ! p))))"

definition metrics_answer :: "string \<times> bool \<Rightarrow> wire_response" where
  "metrics_answer st =
     \<lparr>ws_status = 200, ws_set = [''Content-Type'' \<mapsto> ''application/json''], ws_content = fst st @ list_close\<rparr>"

text \<open>With the metrics held still these steps make the answer of the router.\<close>

lemma metrics_at_once:
  assumes "handles_metrics wr"
  shows "processRequest setupRoutes env wr =
    Some (metrics_answer (foldl (\<lambda>st x. read_gauge (av_store env) x st) (list_open ''metrics'', True) (metric_names (av_collectors env))))"
proof -
  let ?name = "\<lambda>reg st name. case getMetric name reg of None \<Rightarrow> st
      | Some p \<Rightarrow> append_entry st (json_object 4 (metric_fields name (av_store env ! p)))"
  have one: "foldl (?name reg) st names = foldl (\<lambda>st x. read_gauge (av_store env) x st) st (map (Pair reg) names)" for reg st names
    by (simp add: foldl_map read_gauge_def cong: option.case_cong)
  have "foldl (\<lambda>st reg. foldl (?name reg) st (getMetricNames reg)) st regs =
      foldl (\<lambda>st x. read_gauge (av_store env) x st) st (metric_names regs)" for st regs
    by (induction regs arbitrary: st) (simp_all add: one metric_names_def)
  then show ?thesis using assms
    by (simp add: processRequest_dispatch dispatch_spec_def handles_metrics_def api_routes_def handleGetMetrics_def
        json_response_def new_response_def metrics_answer_def Let_def)
qed

section \<open>Steps\<close>

text \<open>
  An I/O thread takes up a completion, or goes on with a handler. \<open>ReadCompleted\<close> is the read of a
  request: \<open>GET /api/v1/metrics\<close> begins the handler, any other request is answered.
\<close>

datatype api_event =
  AcceptCompleted bool | ReadCompleted nat "(wire_request \<times> bool) option" api_env | ReadGauge nat | SendMetrics nat
| WriteCompleted nat

definition note_read :: "nat \<Rightarrow> (wire_request \<times> bool) option \<Rightarrow> 'h served \<Rightarrow> 'h served" where
  "note_read i received s = (case received of None \<Rightarrow> s | Some r \<Rightarrow> s\<lparr>sv_read := sv_read s @ [(i, r)]\<rparr>)"

definition begin_metrics :: "nat \<Rightarrow> bool \<Rightarrow> 'h served \<Rightarrow> 'h served option" where
  "begin_metrics i keep s =
     (if i < length (sessions (sv_listener s)) \<and> sessions (sv_listener s) ! i = session_state.Reading
      then Some (s\<lparr>sv_handling := sv_handling s @
             [(i, \<lparr>mh_keep_alive = keep, mh_todo = metric_names (sh_collectors (served_world s)),
                   mh_json = (list_open ''metrics'', True)\<rparr>)]\<rparr>)
      else None)"

definition api_read :: "nat \<Rightarrow> (wire_request \<times> bool) option \<Rightarrow> api_env \<Rightarrow> 'h served \<Rightarrow> 'h served option" where
  "api_read i received env s =
     (if map_of (sv_handling s) i \<noteq> None then None
      else
        map_option (note_read i received)
          (case received of
             Some (wr, keep) \<Rightarrow>
               if handles_metrics wr then begin_metrics i keep s
               else map_option (\<lambda>l. s\<lparr>sv_listener := l\<rparr>) (onRead setupRoutes i received (handler_view env s) (sv_listener s))
           | None \<Rightarrow> map_option (\<lambda>l. s\<lparr>sv_listener := l\<rparr>) (onRead setupRoutes i None (handler_view env s) (sv_listener s))))"

definition api_gauge :: "nat \<Rightarrow> 'h served \<Rightarrow> 'h served option" where
  "api_gauge i s =
     (case map_of (sv_handling s) i of
        None \<Rightarrow> None
      | Some h \<Rightarrow>
          (case mh_todo h of
             [] \<Rightarrow> None
           | x # todo \<Rightarrow> Some (s\<lparr>sv_handling := AList.update i
                 (h\<lparr>mh_todo := todo, mh_json := read_gauge (sh_metrics (served_world s)) x (mh_json h)\<rparr>) (sv_handling s)\<rparr>)))"

definition api_send :: "nat \<Rightarrow> 'h served \<Rightarrow> 'h served option" where
  "api_send i s =
     (case map_of (sv_handling s) i of
        None \<Rightarrow> None
      | Some h \<Rightarrow>
          if mh_todo h = []
          then Some (s\<lparr>sv_handling := AList.delete i (sv_handling s),
                 sv_listener := (sv_listener s)\<lparr>sessions := (sessions (sv_listener s))[i :=
                   Writing \<lparr>an_keep_alive = mh_keep_alive h, an_response = metrics_answer (mh_json h)\<rparr>]\<rparr>\<rparr>)
          else None)"

text \<open>A completion is taken up by an I/O thread that is not in a handler.\<close>

definition free_thread :: "'h served \<Rightarrow> bool" where
  "free_thread s \<longleftrightarrow> (case sv_server s of None \<Rightarrow> False | Some sv \<Rightarrow> serving sv \<and> length (sv_handling s) < io_threads sv)"

fun api_call :: "api_event \<Rightarrow> 'h served \<Rightarrow> 'h served option" where
  "api_call (AcceptCompleted failed) s =
     (if free_thread s then map_option (\<lambda>l. s\<lparr>sv_listener := l\<rparr>) (onAccept failed (sv_listener s)) else None)"
| "api_call (ReadCompleted i received env) s = (if free_thread s then api_read i received env s else None)"
| "api_call (ReadGauge i) s = api_gauge i s"
| "api_call (SendMetrics i) s = api_send i s"
| "api_call (WriteCompleted i) s =
     (if free_thread s then map_option (\<lambda>l. s\<lparr>sv_listener := l\<rparr>) (onWrite i (sv_listener s)) else None)"

text \<open>
  The server thread, and \<open>stop\<close>, which the main thread calls past the loop. The joins of the I/O
  threads return when no handler is running; \<open>ApiStop\<close> is that moment. \<open>main\<close> starts the server once.
\<close>

definition server_call :: "server_event \<Rightarrow> 'h served \<Rightarrow> 'h served option" where
  "server_call e s =
     (case sv_server s of
        None \<Rightarrow> None
      | Some sv \<Rightarrow>
          if (case e of
                ApiStart \<Rightarrow> True
              | ApiStop \<Rightarrow> mo_main (sv_monitor s) \<noteq> Leaving 0 \<or> \<not> api_running sv \<or> (impl_running sv \<and> sv_handling s \<noteq> [])
              | ApiJoin \<Rightarrow> mo_main (sv_monitor s) \<noteq> Leaving 0
              | _ \<Rightarrow> False)
          then None
          else map_option (\<lambda>sv. s\<lparr>sv_server := Some sv\<rparr>) (server_step e sv))"

text \<open>
  The program: the collectors are stopped after the server, and the destructor of the server, which
  has been stopped, terminates the process when a thread of it can be joined.
\<close>

definition still_stopping :: "'h served \<Rightarrow> bool" where
  "still_stopping s \<longleftrightarrow> mo_main (sv_monitor s) = Leaving 0 \<and> (\<exists>sv \<in> set_option (sv_server s). api_running sv)"

definition destroy_server :: "'h served \<Rightarrow> 'h served" where
  "destroy_server s =
     (case sv_server s of
        None \<Rightarrow> s
      | Some sv \<Rightarrow>
          if ApiServer \<in> alive_objects (mo_main (sv_monitor s)) then s
          else if destroyed_cleanly sv then s\<lparr>sv_server := None\<rparr> else s\<lparr>sv_terminated := True\<rparr>)"

definition monitor_call ::
    "(packet_info \<Rightarrow> packet_info) \<Rightarrow> 'h monitor_event \<Rightarrow> 'h served \<Rightarrow> 'h served option" where
  "monitor_call mv e s =
     (if e = StopCollector \<and> still_stopping s then None
      else map_option (\<lambda>m. destroy_server (s\<lparr>sv_monitor := m\<rparr>)) (monitor_step mv e (sv_monitor s)))"

datatype 'h served_event = MonitorStep "'h monitor_event" | ServerStep server_event | ApiStep api_event

definition served_step ::
    "(packet_info \<Rightarrow> packet_info) \<Rightarrow> 'h served_event \<Rightarrow> 'h served \<Rightarrow> 'h served option" where
  "served_step mv e s =
     (if sv_terminated s \<or> mo_dangling (sv_monitor s) \<or> sh_terminated (served_world s) \<or> ended (mo_net (sv_monitor s)) \<noteq> None
      then None
      else case e of
        MonitorStep x \<Rightarrow> monitor_call mv x s
      | ServerStep x \<Rightarrow> server_call x s
      | ApiStep x \<Rightarrow> api_call x s)"

text \<open>The environment: that of the program, and visiting orders that list the maps of the analyzer.\<close>

definition visits :: "api_env \<Rightarrow> bool" where
  "visits env \<longleftrightarrow> (case av_analyzer env of
     None \<Rightarrow> True
   | Some a \<Rightarrow> listing (connections a) (av_conn_order env) \<and> listing (host_traffic_stats a) (av_host_order env))"

definition served_ok :: "'h served_event \<Rightarrow> 'h served \<Rightarrow> bool" where
  "served_ok e s = (case e of
     MonitorStep x \<Rightarrow> environment_ok x (sv_monitor s)
   | ApiStep (ReadCompleted i received env) \<Rightarrow> visits (handler_view env s)
   | _ \<Rightarrow> True)"

section \<open>The server and the objects\<close>

text \<open>Until the server has been stopped.\<close>

definition in_service :: "main_position \<Rightarrow> bool" where
  "in_service m \<longleftrightarrow> m = Leaving 0 \<or> (\<exists>l ts. m = InLoop l ts)"

lemma in_service_simps [simp]:
  "in_service (InLoop l ts)" "in_service (Leaving n) \<longleftrightarrow> n = 0" "\<not> in_service (Joining n)" "\<not> in_service (Unwinding objs)"
  "\<not> in_service PoolStopped"
  by (simp_all add: in_service_def)

lemma monitor_step_position:
  assumes "monitor_inv s" and "monitor_step mv e s = Some s'"
  shows "(in_service (mo_main s') \<longrightarrow> in_service (mo_main s)) \<and>
    (in_service (mo_main s) \<longrightarrow> in_service (mo_main s') \<or> mo_main s = Leaving 0 \<and> e = StopCollector)"
proof -
  have running: "\<not> mo_dangling s" "\<not> sh_terminated (world s)" "ended (mo_net s) = None"
    using assms(2) by (auto simp: monitor_step_def split: if_splits)
  have same: "mo_main s' = mo_main s" if "capture_call mv x s = Some s'" for x
    using that by (auto simp: capture_call_def)
  have same': "mo_main s' = mo_main s" if "worker_call i k s = Some s'" for i k
    using worker_call_inv [OF assms(1) that] by blast
  show ?thesis
    using assms(2) running
    by (cases e)
      (auto simp: monitor_step_def main_round_def main_queue_def main_signal_def stop_pool_step_def destroy_object_def
        stop_collector_def join_collector_def cpu_thread_def memory_thread_def set_life_def set_world_def
        case_prod_beta Let_def dest!: same same'
        split: main_position.splits list.splits if_splits option.splits)
qed

definition server_inv :: "'h served \<Rightarrow> bool" where
  "server_inv s \<longleftrightarrow> monitor_inv (sv_monitor s) \<and> exit_inv (sv_monitor s) \<and>
     (sv_terminated s \<or> sv_server s = None \<or> ApiServer \<in> alive_objects (mo_main (sv_monitor s))) \<and>
     (sv_handling s \<noteq> [] \<longrightarrow> (\<exists>sv. sv_server s = Some sv \<and> serving sv)) \<and>
     (\<forall>sv. sv_server s = Some sv \<longrightarrow> in_service (mo_main (sv_monitor s)) \<or> \<not> api_running sv)"

lemma server_inv_start: "startup e args = Started p \<Longrightarrow> server_inv (served_of e t0 p)"
  using exit_inv_start by (simp add: server_inv_def served_of_def monitor_of_start declaration_order_def)

lemma api_call_frame:
  "api_call x s = Some s' \<Longrightarrow> sv_monitor s' = sv_monitor s \<and> sv_capturing s' = sv_capturing s \<and> sv_server s' = sv_server s \<and>
    sv_terminated s' = sv_terminated s"
  by (cases x)
    (auto simp: api_read_def api_gauge_def api_send_def begin_metrics_def note_read_def
      split: if_splits option.splits list.splits)

lemma serving_step:
  assumes "server_step x sv = Some sv'" and "serving sv" and "x = ApiStop \<Longrightarrow> \<not> impl_running sv"
  shows "serving sv'"
  using assms by (cases x) (auto simp: server_defs serving_def split: if_splits)

lemma server_inv_step:
  assumes inv: "server_inv s" and ok: "served_ok e s" and step: "served_step mv e s = Some s'"
  shows "server_inv s'"
proof (cases e)
  case (ApiStep x)
  then have x: "api_call x s = Some s'" using step by (simp add: served_step_def split: if_splits)
  have "sv_handling s' \<noteq> [] \<longrightarrow> sv_handling s \<noteq> [] \<or> free_thread s"
    using x by (cases x)
      (auto simp: api_read_def api_gauge_def api_send_def begin_metrics_def note_read_def AList.delete_eq
        split: if_splits option.splits list.splits)
  moreover have "\<exists>sv. sv_server s = Some sv \<and> serving sv" if "free_thread s" using that by (auto simp: free_thread_def split: option.splits)
  ultimately show ?thesis using inv api_call_frame [OF x] by (auto simp: server_inv_def)
next
  case (ServerStep x)
  then have x: "server_call x s = Some s'" using step by (simp add: served_step_def split: if_splits)
  then obtain sv sv' where sv: "sv_server s = Some sv" "server_step x sv = Some sv'" "s' = s\<lparr>sv_server := Some sv'\<rparr>"
    and stop: "x = ApiStop \<Longrightarrow> api_running sv \<and> (impl_running sv \<longrightarrow> sv_handling s = [])" and start: "x \<noteq> ApiStart"
    by (auto simp: server_call_def split: option.splits if_splits server_event.splits)
  have "serving sv'" if "sv_handling s \<noteq> []" using that inv serving_step [OF sv(2)] stop sv(1) by (auto simp: server_inv_def)
  moreover have "\<not> api_running sv'" if "\<not> api_running sv"
    using that sv(2) start by (cases x) (auto simp: server_defs split: if_splits)
  ultimately show ?thesis using inv sv by (auto simp: server_inv_def)
next
  case (MonitorStep x)
  then have "monitor_call mv x s = Some s'" using step by (simp add: served_step_def split: if_splits)
  then obtain m where m: "monitor_step mv x (sv_monitor s) = Some m" "s' = destroy_server (s\<lparr>sv_monitor := m\<rparr>)"
    and wait: "x = StopCollector \<Longrightarrow> \<not> still_stopping s"
    by (auto simp: monitor_call_def split: if_splits)
  have mi: "monitor_inv (sv_monitor s)" "exit_inv (sv_monitor s)" using inv by (simp_all add: server_inv_def)
  note pos = monitor_step_position [OF mi(1) m(1)]
  have env: "environment_ok x (sv_monitor s)" using ok MonitorStep by (simp add: served_ok_def)
  have inv': "monitor_inv m" "exit_inv m"
    using monitor_step_shared [OF mi(1) env [unfolded environment_ok_def] m(1)] exit_inv_step [OF mi env m(1)] by blast+
  have run: "in_service (mo_main m) \<or> \<not> api_running sv" if "sv_server s = Some sv" for sv
    using that inv pos wait by (auto simp: server_inv_def still_stopping_def)
  have idle: "sv_handling s = []" if "destroyed_cleanly sv" "sv_server s = Some sv" for sv
    using that inv by (auto simp: server_inv_def destroyed_cleanly_def serving_def)
  show ?thesis
    using inv inv' pos run idle
    by (auto simp: server_inv_def m(2) destroy_server_def split: option.splits)
qed

interpretation api_server: machine_invariant "served_step mv" served_ok server_inv for mv
  by unfold_locales (rule server_inv_step)

section \<open>The program inside\<close>

text \<open>The requests read on a connection.\<close>

definition requests_of :: "nat \<Rightarrow> 'h served \<Rightarrow> (wire_request \<times> bool) list" where
  "requests_of i s = map snd (filter (\<lambda>r. fst r = i) (sv_read s))"

definition monitor_events :: "'h served_event \<Rightarrow> 'h served \<Rightarrow> 'h monitor_event list" where
  "monitor_events e s = (case e of MonitorStep x \<Rightarrow> [x] | _ \<Rightarrow> [])"

lemma requests_of_cong [simp]:
  "requests_of j (s\<lparr>sv_listener := l\<rparr>) = requests_of j s" "requests_of j (s\<lparr>sv_handling := hs\<rparr>) = requests_of j s"
  "requests_of j (s\<lparr>sv_server := x\<rparr>) = requests_of j s" "requests_of j (s\<lparr>sv_monitor := m\<rparr>) = requests_of j s"
  "requests_of j (s\<lparr>sv_terminated := b\<rparr>) = requests_of j s"
  by (simp_all add: requests_of_def)

lemma destroy_server_frame [simp]:
  "sv_monitor (destroy_server s) = sv_monitor s" "sv_capturing (destroy_server s) = sv_capturing s"
  "sv_listener (destroy_server s) = sv_listener s" "sv_handling (destroy_server s) = sv_handling s"
  "requests_of i (destroy_server s) = requests_of i s"
  by (simp_all add: destroy_server_def split: option.splits)

lemma served_step_monitor:
  assumes "served_step mv e s = Some s'"
  shows "run_events (monitor_step mv) (monitor_events e s) (sv_monitor s) = Some (sv_monitor s') \<and> sv_capturing s' = sv_capturing s"
proof (cases e)
  case (ApiStep x)
  then have "api_call x s = Some s'" using assms by (simp add: served_step_def split: if_splits)
  from api_call_frame [OF this] show ?thesis using ApiStep by (simp add: monitor_events_def)
qed (use assms in \<open>auto simp: served_step_def monitor_events_def monitor_call_def server_call_def split: if_splits option.splits\<close>)

text \<open>The server only reads the program.\<close>

interpretation program_inside:
  machine_simulation "served_step mv" served_ok "\<lambda>s. True" "monitor_step mv" environment_ok sv_monitor monitor_events
  for mv
proof unfold_locales
  fix e :: "'h served_event" and s s' :: "'h served"
  assume "served_ok e s" and "served_step mv e s = Some s'"
  moreover have "run_allowed environment_ok (monitor_step mv) (monitor_events e s) (sv_monitor s)"
    using \<open>served_ok e s\<close> by (cases e) (simp_all add: monitor_events_def served_ok_def split: option.splits)
  ultimately show "run_events (monitor_step mv) (monitor_events e s) (sv_monitor s) = Some (sv_monitor s') \<and>
      run_allowed environment_ok (monitor_step mv) (monitor_events e s) (sv_monitor s)"
    using served_step_monitor by blast
qed simp

text \<open>What is declared before the server outlives it.\<close>

lemma server_outlived:
  assumes "unwinds m" and "ApiServer \<in> alive_objects m"
  shows "alive_during_destruction ApiServer \<subseteq> alive_objects m"
proof (cases m)
  case (Unwinding objs)
  then obtain rest where d: "declaration_order = objs @ rest" using assms(1) by (auto simp: unwinds_def prefix_def)
  have "takeWhile (\<lambda>y. y \<noteq> ApiServer) declaration_order = takeWhile (\<lambda>y. y \<noteq> ApiServer) objs"
    unfolding d using assms(2) Unwinding by (auto simp: takeWhile_append1)
  then show ?thesis using Unwinding by (auto simp: alive_during_destruction_def dest: set_takeWhileD)
qed (use assms(2) in \<open>auto simp: alive_during_destruction_def dest: set_takeWhileD\<close>)

section \<open>A patient exit\<close>

text \<open>\<open>stop\<close> comes when \<open>ServerImpl::run\<close> has returned.\<close>

definition patient_owner :: "'h served_event \<Rightarrow> 'h served \<Rightarrow> bool" where
  "patient_owner e s \<longleftrightarrow> (\<forall>x sv. e = ServerStep x \<and> sv_server s = Some sv \<longrightarrow> patient x sv)"

definition patient_inv :: "'h served \<Rightarrow> bool" where
  "patient_inv s \<longleftrightarrow> server_inv s \<and> \<not> sv_terminated s \<and> (\<forall>sv. sv_server s = Some sv \<longrightarrow> server_ok sv)"

lemma patient_inv_step:
  assumes inv: "patient_inv s" and ok: "served_ok e s" "patient_owner e s" and step: "served_step mv e s = Some s'"
  shows "patient_inv s'"
proof -
  have inv': "server_inv s'" by (rule server_inv_step [OF _ ok(1) step]) (use inv in \<open>simp add: patient_inv_def\<close>)
  show ?thesis
  proof (cases e)
    case (ApiStep x)
    then have "api_call x s = Some s'" using step by (simp add: served_step_def split: if_splits)
    from api_call_frame [OF this] show ?thesis using inv inv' by (simp add: patient_inv_def)
  next
    case (ServerStep x)
    then have "server_call x s = Some s'" using step by (simp add: served_step_def split: if_splits)
    then obtain sv sv' where sv: "sv_server s = Some sv" "server_step x sv = Some sv'" "s' = s\<lparr>sv_server := Some sv'\<rparr>"
      by (auto simp: server_call_def split: option.splits if_splits)
    have "server_ok sv'" using server_ok_step [OF _ sv(2)] inv ok(2) sv(1) ServerStep
      by (simp add: patient_inv_def patient_owner_def)
    then show ?thesis using inv inv' sv(3) by (simp add: patient_inv_def)
  next
    case (MonitorStep x)
    then have "monitor_call mv x s = Some s'" using step by (simp add: served_step_def split: if_splits)
    then obtain m where s': "s' = destroy_server (s\<lparr>sv_monitor := m\<rparr>)" by (auto simp: monitor_call_def split: if_splits)
    have "destroyed_cleanly sv" if sv: "sv_server s = Some sv" "ApiServer \<notin> alive_objects (mo_main m)" for sv
    proof (rule ccontr)
      assume "\<not> destroyed_cleanly sv"
      moreover have "\<not> in_service (mo_main m)" using sv(2) by (auto simp: in_service_def declaration_order_def)
      ultimately have "\<not> api_running sv" using inv' sv by (simp add: s' server_inv_def destroy_server_def)
      then have "server_thread sv = NoServer" "io_threads sv = 0" "\<not> in_join sv"
        using inv sv(1) by (auto simp: patient_inv_def server_ok_def)
      then show False using \<open>\<not> destroyed_cleanly sv\<close> by (simp add: destroyed_cleanly_def)
    qed
    then show ?thesis using inv inv' by (auto simp: s' patient_inv_def destroy_server_def split: option.splits)
  qed
qed

interpretation patient_exit: machine_invariant "served_step mv" "\<lambda>e s. served_ok e s \<and> patient_owner e s" patient_inv for mv
  by unfold_locales (blast intro: patient_inv_step)

lemma patient_inv_start: "startup e args = Started p \<Longrightarrow> patient_inv (served_of e t0 p)"
  using server_inv_start [of e args p t0] started_shape(11) [of e args p]
  by (auto simp: patient_inv_def served_of_def server_ok_def api_start_def new_server_def split: if_splits)

section \<open>A handler ends\<close>

definition alive_program :: "'h served \<Rightarrow> bool" where
  "alive_program s \<longleftrightarrow> \<not> sv_terminated s \<and> \<not> mo_dangling (sv_monitor s) \<and> \<not> sh_terminated (served_world s) \<and>
     ended (mo_net (sv_monitor s)) = None"

lemma gauges_run:
  "alive_program s \<Longrightarrow> map_of (sv_handling s) i = Some h \<Longrightarrow>
    \<exists>hs h'. run_events (served_step mv) (replicate (length (mh_todo h)) (ApiStep (ReadGauge i))) s = Some (s\<lparr>sv_handling := hs\<rparr>) \<and>
      map_of hs i = Some h' \<and> mh_todo h' = [] \<and> mh_keep_alive h' = mh_keep_alive h \<and> map fst hs = map fst (sv_handling s)"
proof (induction "mh_todo h" arbitrary: s h)
  case Nil
  then show ?case by (intro exI [of _ "sv_handling s"] exI [of _ h]) simp
next
  case (Cons x todo)
  let ?h = "h\<lparr>mh_todo := todo, mh_json := read_gauge (sh_metrics (served_world s)) x (mh_json h)\<rparr>"
  let ?s = "s\<lparr>sv_handling := AList.update i ?h (sv_handling s)\<rparr>"
  have step: "served_step mv (ApiStep (ReadGauge i)) s = Some ?s"
    using Cons.prems Cons.hyps(2) [symmetric] by (simp add: served_step_def alive_program_def api_gauge_def)
  have "alive_program ?s" "map_of (sv_handling ?s) i = Some ?h" using Cons.prems(1) by (simp_all add: alive_program_def update_conv')
  from Cons.hyps(1) [OF _ this] obtain hs h' where
    "run_events (served_step mv) (replicate (length todo) (ApiStep (ReadGauge i))) ?s = Some (?s\<lparr>sv_handling := hs\<rparr>)"
    "map_of hs i = Some h'" "mh_todo h' = []" "mh_keep_alive h' = mh_keep_alive h"
    "map fst hs = map fst (AList.update i ?h (sv_handling s))" by auto
  moreover have "i \<in> fst ` set (sv_handling s)" using Cons.prems(2) by (metis domI dom_map_of_conv_image_fst)
  ultimately show ?case using step Cons.hyps(2) [symmetric]
    by (intro exI [of _ hs] exI [of _ h']) (simp add: update_keys)
qed

definition finish_metrics :: "nat \<Rightarrow> metrics_handler \<Rightarrow> 'h served_event list" where
  "finish_metrics i h = replicate (length (mh_todo h)) (ApiStep (ReadGauge i)) @ [ApiStep (SendMetrics i)]"

lemma handler_ends:
  assumes "alive_program s" and "map_of (sv_handling s) i = Some h" and "i < length (sessions (sv_listener s))"
  shows "\<exists>s' a. run_events (served_step mv) (finish_metrics i h) s = Some s' \<and>
    sessions (sv_listener s') = (sessions (sv_listener s))[i := Writing a] \<and> an_keep_alive a = mh_keep_alive h \<and>
    map fst (sv_handling s') = removeAll i (map fst (sv_handling s)) \<and> sv_server s' = sv_server s \<and> sv_read s' = sv_read s \<and>
    sv_monitor s' = sv_monitor s \<and> sv_terminated s' = sv_terminated s"
proof -
  obtain hs h' where r: "run_events (served_step mv) (replicate (length (mh_todo h)) (ApiStep (ReadGauge i))) s = Some (s\<lparr>sv_handling := hs\<rparr>)"
    "map_of hs i = Some h'" "mh_todo h' = []" "mh_keep_alive h' = mh_keep_alive h" "map fst hs = map fst (sv_handling s)"
    using gauges_run [OF assms(1,2)] by blast
  let ?a = "\<lparr>an_keep_alive = mh_keep_alive h', an_response = metrics_answer (mh_json h')\<rparr>"
  have "served_step mv (ApiStep (SendMetrics i)) (s\<lparr>sv_handling := hs\<rparr>) =
      Some (s\<lparr>sv_handling := AList.delete i hs, sv_listener := (sv_listener s)\<lparr>sessions := (sessions (sv_listener s))[i := Writing ?a]\<rparr>\<rparr>)"
    using assms(1) r(2,3) by (simp add: served_step_def alive_program_def api_send_def)
  then have "run_events (served_step mv) (finish_metrics i h) s = Some (s\<lparr>sv_handling := AList.delete i hs,
      sv_listener := (sv_listener s)\<lparr>sessions := (sessions (sv_listener s))[i := Writing ?a]\<rparr>\<rparr>)"
    using r(1) by (simp add: finish_metrics_def run_events_append)
  then show ?thesis using r(4,5) by (intro exI [of _ "s\<lparr>sv_handling := AList.delete i hs,
      sv_listener := (sv_listener s)\<lparr>sessions := (sessions (sv_listener s))[i := Writing ?a]\<rparr>\<rparr>"] exI [of _ ?a])
    (simp add: delete_keys)
qed

lemma finish_allowed: "run_allowed served_ok (served_step mv) (finish_metrics i h) s"
  by (rule run_allowed_mono [OF run_allowed_True]) (auto simp: finish_metrics_def served_ok_def)

end
