(* ===== verification/Served_Answers.thy ===== *)
theory Served_Answers
  imports Served_Program
begin

text \<open>
  What the API server of the running program answers, and that it is gone before what it reads: the
  properties of \<open>Served_Program\<close> for every program that \<open>startup\<close> starts and every interleaving.
\<close>

section \<open>The answers\<close>

text \<open>\<open>P\<close> says which values a metric may have had: the entries of a report, one for every name, in order.\<close>

definition gauges_read :: "(nat \<Rightarrow> dbl \<Rightarrow> bool) \<Rightarrow> (registry \<times> string) list \<Rightarrow> (string \<times> dbl) list \<Rightarrow> bool" where
  "gauges_read P names entries \<longleftrightarrow>
     list_all2 (\<lambda>(reg, name) (n, v). n = name \<and> (\<exists>q. getMetric name reg = Some q \<and> P q v)) names entries"

definition gauge_json :: "string \<times> dbl \<Rightarrow> string" where
  "gauge_json e = json_object 4 [(''name'', json_str (fst e)), (''value'', dbl_to_string (snd e))]"

definition metrics_report :: "(string \<times> dbl) list \<Rightarrow> wire_response" where
  "metrics_report entries =
     \<lparr>ws_status = 200, ws_set = [''Content-Type'' \<mapsto> ''application/json''],
      ws_content = list_open ''metrics'' @ json_entries (map gauge_json entries) @ list_close\<rparr>"

lemma metrics_answer_entries:
  "metrics_answer (foldl append_entry (list_open ''metrics'', True) (map gauge_json entries)) = metrics_report entries"
  by (simp add: metrics_answer_def metrics_report_def append_entries)

lemma gauge_read:
  assumes "gauges_read P got entries" and "getMetric name reg = Some q" and "P q (getCurrentValue (h ! q))"
    and "st = foldl append_entry st0 (map gauge_json entries)"
  shows "\<exists>entries'. gauges_read P (got @ [(reg, name)]) entries' \<and>
    read_gauge h (reg, name) st = foldl append_entry st0 (map gauge_json entries')"
  using assms
  by (intro exI [of _ "entries @ [(name, getCurrentValue (h ! q))]"])
    (auto simp: gauges_read_def read_gauge_def gauge_json_def metric_fields_def intro!: list_all2_appendI)

text \<open>
  \<open>hist\<close> is an order of the packets processed. An answer about the network shows the analyzer after an
  initial part of it.
\<close>

definition answer_ok ::
    "(nat \<Rightarrow> dbl \<Rightarrow> bool) \<Rightarrow> registry list \<Rightarrow> bool \<Rightarrow> packet_info \<Rightarrow> packet_info list \<Rightarrow> wire_request \<Rightarrow> wire_response \<Rightarrow> bool" where
  "answer_ok P regs capturing d hist wr r \<longleftrightarrow>
     (if handles_metrics wr then \<exists>entries. gauges_read P (metric_names regs) entries \<and> r = metrics_report entries
      else \<exists>env pre. processRequest setupRoutes env wr = Some r \<and> av_collectors env = regs \<and>
        (\<forall>q < length (av_store env). P q (getCurrentValue (av_store env ! q))) \<and>
        prefix pre hist \<and> av_analyzer env = (if capturing then Some (analyzer_after d pre) else None) \<and> visits env)"

lemma gauges_later: "gauges_read P names entries \<Longrightarrow> (\<And>q v. P q v \<Longrightarrow> Q q v) \<Longrightarrow> gauges_read Q names entries"
  unfolding gauges_read_def by (erule list_all2_mono) (auto split: prod.splits)

lemma answer_later:
  assumes "answer_ok P regs capturing d hist wr r" and PQ: "\<And>q v. P q v \<Longrightarrow> Q q v" and "prefix hist hist'"
  shows "answer_ok Q regs capturing d hist' wr r"
proof (cases "handles_metrics wr")
  case True
  then show ?thesis using assms(1) gauges_later [of P _ _ Q, OF _ PQ] unfolding answer_ok_def by auto
next
  case False
  then obtain env pre where "processRequest setupRoutes env wr = Some r" "av_collectors env = regs" "visits env"
    "\<forall>q < length (av_store env). P q (getCurrentValue (av_store env ! q))" "prefix pre hist"
    "av_analyzer env = (if capturing then Some (analyzer_after d pre) else None)"
    using assms(1) unfolding answer_ok_def by auto
  moreover from this have "prefix pre hist'" using assms(3) prefix_order.trans by blast
  ultimately show ?thesis using False PQ unfolding answer_ok_def by (simp only: if_False) blast
qed

text \<open>What there is to a session: the requests it has read, its state, and the handler that runs for it.\<close>

definition handler_ok ::
    "(nat \<Rightarrow> dbl \<Rightarrow> bool) \<Rightarrow> registry list \<Rightarrow> metrics_handler \<Rightarrow> bool" where
  "handler_ok P regs h \<longleftrightarrow> (\<exists>got entries. metric_names regs = got @ mh_todo h \<and> gauges_read P got entries \<and>
     mh_json h = foldl append_entry (list_open ''metrics'', True) (map gauge_json entries))"

fun session_ok ::
    "(nat \<Rightarrow> dbl \<Rightarrow> bool) \<Rightarrow> registry list \<Rightarrow> bool \<Rightarrow> packet_info \<Rightarrow> packet_info list \<Rightarrow> (wire_request \<times> bool) list \<Rightarrow>
      session_state \<Rightarrow> metrics_handler option \<Rightarrow> bool" where
  "session_ok P regs c d hist rs session_state.Reading None \<longleftrightarrow> rs = []"
| "session_ok P regs c d hist rs session_state.Reading (Some h) \<longleftrightarrow>
     (\<exists>wr. rs = [(wr, mh_keep_alive h)] \<and> handles_metrics wr) \<and> handler_ok P regs h"
| "session_ok P regs c d hist rs (Writing a) None \<longleftrightarrow>
     (\<exists>wr. rs = [(wr, an_keep_alive a)] \<and> answer_ok P regs c d hist wr (an_response a))"
| "session_ok P regs c d hist rs (Closed a) None \<longleftrightarrow>
     (\<exists>wr. rs = [(wr, an_keep_alive a)] \<and> answer_ok P regs c d hist wr (an_response a))"
| "session_ok P regs c d hist rs Dropped None \<longleftrightarrow> rs = []"
| "session_ok P regs c d hist rs _ _ \<longleftrightarrow> False"

definition answers_inv ::
    "(nat \<Rightarrow> dbl \<Rightarrow> bool) \<Rightarrow> registry list \<Rightarrow> packet_info \<Rightarrow> packet_info list \<Rightarrow> 'h served \<Rightarrow> bool" where
  "answers_inv P regs d hist s \<longleftrightarrow>
     (\<forall>i. if i < length (sessions (sv_listener s))
          then session_ok P regs (sv_capturing s) d hist (requests_of i s) (sessions (sv_listener s) ! i) (map_of (sv_handling s) i)
          else requests_of i s = [] \<and> map_of (sv_handling s) i = None)"

lemma session_later:
  assumes s: "session_ok P regs c d hist rs st h" and PQ: "\<And>q v. P q v \<Longrightarrow> Q q v" and pre: "prefix hist hist'"
  shows "session_ok Q regs c d hist' rs st h"
proof -
  have h: "handler_ok Q regs x" if "handler_ok P regs x" for x
    using that gauges_later [of P _ _ Q, OF _ PQ] unfolding handler_ok_def by blast
  note a = answer_later [of P _ _ _ _ _ _ Q, OF _ PQ pre]
  show ?thesis using s by (cases "(P, regs, c, d, hist, rs, st, h)" rule: session_ok.cases) (auto intro: h a)
qed

subsection \<open>Steps of the server\<close>

lemma requests_of_note [simp]:
  "requests_of j (note_read i received s) = requests_of j s @ (if i = j then (case received of None \<Rightarrow> [] | Some r \<Rightarrow> [r]) else [])"
  by (simp add: requests_of_def note_read_def split: option.splits)

lemma note_read_simps [simp]:
  "sv_listener (note_read i received s) = sv_listener s" "sv_handling (note_read i received s) = sv_handling s"
  "sv_capturing (note_read i received s) = sv_capturing s" "sv_monitor (note_read i received s) = sv_monitor s"
  by (simp_all add: note_read_def split: option.splits)

lemma answers_at:
  assumes "answers_inv P regs d hist s" and "i < length (sessions (sv_listener s))"
  shows "session_ok P regs (sv_capturing s) d hist (requests_of i s) (sessions (sv_listener s) ! i) (map_of (sv_handling s) i)"
  using assms unfolding answers_inv_def by metis

text \<open>A step changes one session.\<close>

lemma answers_update:
  assumes "answers_inv P regs d hist s" and "sv_capturing s' = sv_capturing s"
    and "length (sessions (sv_listener s')) = length (sessions (sv_listener s))" and "i < length (sessions (sv_listener s))"
    and "\<And>j. j \<noteq> i \<Longrightarrow> sessions (sv_listener s') ! j = sessions (sv_listener s) ! j"
    and "\<And>j. j \<noteq> i \<Longrightarrow> requests_of j s' = requests_of j s" and "\<And>j. j \<noteq> i \<Longrightarrow> map_of (sv_handling s') j = map_of (sv_handling s) j"
    and "session_ok P regs (sv_capturing s) d hist (requests_of i s') (sessions (sv_listener s') ! i) (map_of (sv_handling s') i)"
  shows "answers_inv P regs d hist s'"
  unfolding answers_inv_def
proof
  fix j
  show "if j < length (sessions (sv_listener s'))
    then session_ok P regs (sv_capturing s') d hist (requests_of j s') (sessions (sv_listener s') ! j) (map_of (sv_handling s') j)
    else requests_of j s' = [] \<and> map_of (sv_handling s') j = None"
    using assms(1) [unfolded answers_inv_def, rule_format, of j] assms(2-8) by (cases "j = i") simp_all
qed

lemma answers_read:
  assumes inv: "answers_inv P regs d hist s" and read: "api_read i received env s = Some s'"
    and regs: "sh_collectors (served_world s) = regs" and vals: "\<forall>q < length (sh_metrics (served_world s)). P q (getCurrentValue (sh_metrics (served_world s) ! q))"
    and an: "sh_analyzer (served_world s) = analyzer_after d hist" and visits: "visits (handler_view env s)"
  shows "answers_inv P regs d hist s'"
proof -
  have free: "map_of (sv_handling s) i = None" using read by (auto simp: api_read_def split: if_splits)
  have i: "i < length (sessions (sv_listener s))" "sessions (sv_listener s) ! i = session_state.Reading"
    using read by (auto simp: api_read_def begin_metrics_def onRead_def split: if_splits option.splits)
  have none: "requests_of i s = []" using answers_at [OF inv i(1)] i(2) free by simp
  consider (lost) "received = None" "s' = s\<lparr>sv_listener := (sv_listener s)\<lparr>sessions := (sessions (sv_listener s))[i := Dropped]\<rparr>\<rparr>"
    | (metrics) wr keep where "received = Some (wr, keep)" "handles_metrics wr"
        "s' = note_read i received (s\<lparr>sv_handling := sv_handling s @ [(i, \<lparr>mh_keep_alive = keep, mh_todo = metric_names regs,
           mh_json = (list_open ''metrics'', True)\<rparr>)]\<rparr>)"
    | (other) wr keep r where "received = Some (wr, keep)" "\<not> handles_metrics wr"
        "processRequest setupRoutes (handler_view env s) wr = Some r"
        "s' = note_read i received (s\<lparr>sv_listener := (sv_listener s)\<lparr>sessions := (sessions (sv_listener s))
           [i := Writing \<lparr>an_keep_alive = keep, an_response = r\<rparr>]\<rparr>\<rparr>)"
    using read regs i free
    by (auto simp: api_read_def begin_metrics_def onRead_def note_read_def split: option.splits if_splits)
  then show ?thesis
  proof cases
    case lost
    then show ?thesis using i none free by (intro answers_update [OF inv, of _ i]) simp_all
  next
    case metrics
    have "handler_ok P regs \<lparr>mh_keep_alive = keep, mh_todo = metric_names regs, mh_json = (list_open ''metrics'', True)\<rparr>"
      by (auto simp: handler_ok_def gauges_read_def intro: exI [of _ "[]"])
    then show ?thesis unfolding metrics(3) using i none free metrics(1,2)
      by (intro answers_update [OF inv, of _ i]) (simp_all add: map_add_def split: option.splits)
  next
    case other
    have "answer_ok P regs (sv_capturing s) d hist wr r"
      unfolding answer_ok_def using other(2,3) regs vals an visits
      by (auto simp: handler_view_def intro!: exI [of _ "handler_view env s"] exI [of _ hist])
    then show ?thesis unfolding other(4) using i none free other(1) by (intro answers_update [OF inv, of _ i]) simp_all
  qed
qed

lemma answers_gauge:
  assumes inv: "answers_inv P regs d hist s" and g: "api_gauge i s = Some s'"
    and regs: "\<forall>reg \<in> set regs. om_ok reg \<and> (\<forall>e \<in> set reg. snd e < length (sh_metrics (served_world s)))"
    and vals: "\<forall>q < length (sh_metrics (served_world s)). P q (getCurrentValue (sh_metrics (served_world s) ! q))"
  shows "answers_inv P regs d hist s'"
proof -
  let ?store = "sh_metrics (served_world s)"
  obtain h x todo where h: "map_of (sv_handling s) i = Some h" "mh_todo h = x # todo"
    and s': "s' = s\<lparr>sv_handling := AList.update i (h\<lparr>mh_todo := todo, mh_json := read_gauge ?store x (mh_json h)\<rparr>) (sv_handling s)\<rparr>"
    using g by (auto simp: api_gauge_def split: option.splits list.splits)
  have i: "i < length (sessions (sv_listener s))" using inv h(1) unfolding answers_inv_def by (metis option.distinct(1))
  note ok = answers_at [OF inv i, unfolded h(1)]
  obtain reg name where x: "x = (reg, name)" by (cases x)
  have st: "sessions (sv_listener s) ! i = session_state.Reading"
    using ok by (cases "sessions (sv_listener s) ! i") simp_all
  then have "handler_ok P regs h" using ok by simp
  then obtain got entries where e: "metric_names regs = got @ (reg, name) # todo" "gauges_read P got entries"
      "mh_json h = foldl append_entry (list_open ''metrics'', True) (map gauge_json entries)"
    using h(2) x by (auto simp: handler_ok_def)
  have "(reg, name) \<in> set (metric_names regs)" using e(1) by simp
  then obtain q where q: "q < length ?store" "getMetric name reg = Some q" using named_metric [OF _ regs] by blast
  obtain entries' where e': "gauges_read P (got @ [(reg, name)]) entries'"
      "read_gauge ?store (reg, name) (mh_json h) = foldl append_entry (list_open ''metrics'', True) (map gauge_json entries')"
    using gauge_read [of P, OF e(2) q(2) _ e(3)] vals q(1) by blast
  have "handler_ok P regs (h\<lparr>mh_todo := todo, mh_json := read_gauge ?store x (mh_json h)\<rparr>)"
    unfolding handler_ok_def using e(1) e' x
    by (intro exI [of _ "got @ [(reg, name)]"] exI [of _ entries']) simp
  then show ?thesis unfolding s' using i ok st by (intro answers_update [OF inv, of _ i]) (simp_all add: update_conv')
qed

lemma answers_send:
  assumes inv: "answers_inv P regs d hist s" and g: "api_send i s = Some s'"
  shows "answers_inv P regs d hist s'"
proof -
  obtain h where h: "map_of (sv_handling s) i = Some h" "mh_todo h = []"
    and s': "s' = s\<lparr>sv_handling := AList.delete i (sv_handling s),
        sv_listener := (sv_listener s)\<lparr>sessions := (sessions (sv_listener s))[i :=
          Writing \<lparr>an_keep_alive = mh_keep_alive h, an_response = metrics_answer (mh_json h)\<rparr>]\<rparr>\<rparr>"
    using g by (auto simp: api_send_def split: option.splits if_splits)
  have i: "i < length (sessions (sv_listener s))" using inv h(1) unfolding answers_inv_def by (metis option.distinct(1))
  note ok = answers_at [OF inv i, unfolded h(1)]
  have "sessions (sv_listener s) ! i = session_state.Reading"
    using ok by (cases "sessions (sv_listener s) ! i") simp_all
  then obtain wr entries where w: "requests_of i s = [(wr, mh_keep_alive h)]" "handles_metrics wr"
      "gauges_read P (metric_names regs) entries" "mh_json h = foldl append_entry (list_open ''metrics'', True) (map gauge_json entries)"
    using ok h(2) by (auto simp: handler_ok_def)
  then have "answer_ok P regs (sv_capturing s) d hist wr (metrics_answer (mh_json h))"
    unfolding answer_ok_def by (auto simp: metrics_answer_entries)
  then show ?thesis unfolding s' using i w(1) by (intro answers_update [OF inv, of _ i]) (simp_all add: delete_conv' requests_of_def)
qed

lemma answers_accept:
  assumes inv: "answers_inv P regs d hist s" and a: "onAccept failed (sv_listener s) = Some l"
  shows "answers_inv P regs d hist (s\<lparr>sv_listener := l\<rparr>)"
proof -
  have l: "sessions l = sessions (sv_listener s) \<or> sessions l = sessions (sv_listener s) @ [session_state.Reading]"
    using a by (auto simp: onAccept_def Let_def split: if_splits)
  show ?thesis unfolding answers_inv_def
  proof
    fix i
    show "if i < length (sessions (sv_listener (s\<lparr>sv_listener := l\<rparr>)))
      then session_ok P regs (sv_capturing (s\<lparr>sv_listener := l\<rparr>)) d hist (requests_of i (s\<lparr>sv_listener := l\<rparr>))
        (sessions (sv_listener (s\<lparr>sv_listener := l\<rparr>)) ! i) (map_of (sv_handling (s\<lparr>sv_listener := l\<rparr>)) i)
      else requests_of i (s\<lparr>sv_listener := l\<rparr>) = [] \<and> map_of (sv_handling (s\<lparr>sv_listener := l\<rparr>)) i = None"
      using inv [unfolded answers_inv_def, rule_format, of i] l
      by (cases "i < length (sessions (sv_listener s))") (auto simp: nth_append less_Suc_eq)
  qed
qed

lemma answers_write:
  assumes inv: "answers_inv P regs d hist s" and w: "onWrite i (sv_listener s) = Some l"
  shows "answers_inv P regs d hist (s\<lparr>sv_listener := l\<rparr>)"
proof -
  obtain a where a: "i < length (sessions (sv_listener s))" "sessions (sv_listener s) ! i = Writing a"
    "l = (sv_listener s)\<lparr>sessions := (sessions (sv_listener s))[i := Closed a]\<rparr>"
    using w by (auto simp: onWrite_def split: if_splits session_state.splits)
  have "map_of (sv_handling s) i = None" using answers_at [OF inv a(1)] a(2) by (cases "map_of (sv_handling s) i") simp_all
  then show ?thesis using a answers_at [OF inv a(1)] by (intro answers_update [OF inv, of _ i]) simp_all
qed

lemma answers_api:
  assumes inv: "answers_inv P regs d hist s" and x: "api_call x s = Some s'"
    and w: "sh_collectors (served_world s) = regs" "sh_analyzer (served_world s) = analyzer_after d hist"
    and regs: "\<forall>reg \<in> set regs. om_ok reg \<and> (\<forall>e \<in> set reg. snd e < length (sh_metrics (served_world s)))"
    and vals: "\<forall>q < length (sh_metrics (served_world s)). P q (getCurrentValue (sh_metrics (served_world s) ! q))"
    and "served_ok (ApiStep x) s"
  shows "answers_inv P regs d hist s'"
proof (cases x)
  case (ReadCompleted i received env)
  then show ?thesis using x answers_read [OF inv _ w(1) vals w(2)] assms(7) by (simp add: served_ok_def split: if_splits)
next
  case (ReadGauge i)
  then show ?thesis using x answers_gauge [OF inv _ regs vals] by simp
next
  case (SendMetrics i)
  then show ?thesis using x answers_send [OF inv] by simp
next
  case (AcceptCompleted failed)
  then show ?thesis using x answers_accept [OF inv] by (auto split: if_splits)
next
  case (WriteCompleted i)
  then show ?thesis using x answers_write [OF inv] by (auto split: if_splits)
qed

section \<open>Runs\<close>

lemma answers_outside:
  assumes "answers_inv P regs d hist s" and "served_step mv e s = Some s'" and "\<forall>x. e \<noteq> ApiStep x"
    and PQ: "\<And>q v. P q v \<Longrightarrow> Q q v" and pre: "prefix hist hist'"
  shows "answers_inv Q regs d hist' s'"
proof -
  have same: "sv_listener s' = sv_listener s \<and> sv_handling s' = sv_handling s \<and> sv_capturing s' = sv_capturing s \<and>
      (\<forall>i. requests_of i s' = requests_of i s)"
    using assms(2,3) by (cases e) (auto simp: served_step_def monitor_call_def server_call_def split: if_splits option.splits)
  show ?thesis using assms(1) session_later [of P _ _ _ _ _ _ _ Q, OF _ PQ pre] unfolding answers_inv_def
    by (simp add: same)
qed

lemma packets_later:
  assumes "monitor_inv m" and "environment_ok e m" and "monitor_step mv e m = Some m'"
    and "pool_part n (world m)" and "packet_inv d past (world m)"
  shows "packet_inv d past (world m')"
proof -
  have env: "monitor_env (\<lambda>q v. True) e m" using assms(2) by (simp add: environment_ok_def)
  note sh = monitor_step_shared [OF assms(1) env assms(3)]
  have "run_allowed readable_events pool_event_step (shared_events e m) (world m)"
    by (rule run_allowed_mono [OF conjunct2 [OF conjunct2 [OF sh]]]) (simp add: pool_env_def)
  then show ?thesis using packet_tasks.in_pool.holds_after [OF conjI [OF assms(4,5)]] sh by blast
qed

lemma packet_inv_now: "packet_inv d past w \<Longrightarrow> \<exists>hist. prefix past hist \<and> sh_analyzer w = analyzer_after d hist \<and>
    mset hist = mset (begun_packets w) \<and> packet_inv d hist w"
  unfolding packet_inv_def by blast

lemma served_run:
  assumes st: "startup e args = Started p" and "run_allowed served_ok (served_step mv) es (served_of e t0 p)"
    and "run_events (served_step mv) es (served_of e t0 p) = Some s"
  shows "sv_capturing s = (pg_network p \<noteq> None) \<and>
    (\<exists>hist. packet_inv (en_packet e) hist (served_world s) \<and>
      answers_inv (sampled p (sv_monitor s)) (registries p) (en_packet e) hist s)"
  using assms(2,3)
proof (induction es arbitrary: s rule: rev_induct)
  case Nil
  have "packet_inv (en_packet e) [] (start_world e p)" by (rule start_inv(4) [OF st, of "\<lambda>q v. True"]) simp
  then show ?case using Nil
    by (auto simp: served_of_def monitor_of_start answers_inv_def requests_of_def listener_run_def new_listener_def
        intro!: exI [of _ "[]"])
next
  case (snoc x es)
  obtain s1 where s1: "run_events (served_step mv) es (served_of e t0 p) = Some s1" "served_step mv x s1 = Some s"
    using snoc.prems(2) by (auto simp: run_events_append split: Option.bind_splits option.splits)
  have ok: "run_allowed served_ok (served_step mv) es (served_of e t0 p)" "served_ok x s1"
    using snoc.prems(1) s1(1) by (simp_all add: run_allowed_append)
  obtain hist where cap: "sv_capturing s1 = (pg_network p \<noteq> None)" and hist: "packet_inv (en_packet e) hist (served_world s1)"
      "answers_inv (sampled p (sv_monitor s1)) (registries p) (en_packet e) hist s1"
    using snoc.IH [OF ok(1) s1(1)] by blast
  have start: "sv_monitor (served_of e t0 p) = monitor_of e t0 p" by (simp add: served_of_def)
  obtain xs where xs: "run_allowed environment_ok (monitor_step mv) xs (monitor_of e t0 p)"
      "run_events (monitor_step mv) xs (monitor_of e t0 p) = Some (sv_monitor s1)"
    using program_inside.run_simulates [OF _ ok(1) s1(1)] unfolding start by blast
  note prog = program_state [OF st xs]
  obtain hist' where h: "prefix hist hist'" "sh_analyzer (served_world s1) = analyzer_after (en_packet e) hist'"
      "packet_inv (en_packet e) hist' (served_world s1)"
    using packet_inv_now [OF hist(1)] by blast
  have cap': "sv_capturing s = (pg_network p \<noteq> None)" using served_step_monitor [OF s1(2)] cap by simp
  show ?case
  proof (cases "\<exists>y. x = ApiStep y")
    case True
    then obtain y where y: "x = ApiStep y" by blast
    then have call: "api_call y s1 = Some s" using s1(2) by (simp add: served_step_def split: if_splits)
    have now: "answers_inv (sampled p (sv_monitor s1)) (registries p) (en_packet e) hist' s1"
      using hist(2) session_later [OF _ _ h(1)] unfolding answers_inv_def by metis
    have "answers_inv (sampled p (sv_monitor s1)) (registries p) (en_packet e) hist' s"
      by (rule answers_api [OF now call _ h(2)]) (use prog(5) ok(2) y in \<open>auto simp: periodic_inv_def\<close>)
    then show ?thesis using h(3) cap' api_call_frame [OF call] by auto
  next
    case False
    have later: "packet_inv (en_packet e) hist (served_world s) \<and> (\<forall>q v. sampled p (sv_monitor s1) q v \<longrightarrow> sampled p (sv_monitor s) q v)"
    proof (cases "\<exists>y. x = MonitorStep y")
      case True
      then obtain y where y: "x = MonitorStep y" by blast
      have m: "monitor_step mv y (sv_monitor s1) = Some (sv_monitor s)"
        using served_step_monitor [OF s1(2)] y by (auto simp: monitor_events_def split: option.splits)
      have env: "environment_ok y (sv_monitor s1)" using ok(2) y by (simp add: served_ok_def)
      note c = monitor_step_collectors [OF conjunct1 [OF conjunct2 [OF env_sampled [OF xs start_collectors]]] m]
      show ?thesis
        using packets_later [OF program_inv [OF xs] env m prog(1) hist(1)] c sampled_mono by blast
    next
      case no: False
      then have "sv_monitor s = sv_monitor s1"
        using served_step_monitor [OF s1(2)] by (cases x) (simp_all add: monitor_events_def)
      then show ?thesis using hist(1) by simp
    qed
    have "answers_inv (sampled p (sv_monitor s)) (registries p) (en_packet e) hist s"
      by (rule answers_outside [OF hist(2) s1(2)]) (use False later in auto)
    then show ?thesis using later cap' by blast
  qed
qed

section \<open>Samples\<close>

definition api_config :: config where
  "api_config = cfg_set ''enable_api'' (CBool True) ConfigManager"

lemma api_settings: "cfg_bool ''enable_api'' False api_config" "\<not> cfg_bool ''enable_packet_capture'' False api_config"
  by (simp_all add: api_config_def cfg_bool_def cfg_set_def settings_simps)

lemma api_program:
  obtains p where "startup (sample_machine n) [''--api-enable''] = Started p" and "pg_network p = None"
    and "pg_api p = Some (cfg_u16 ''api_port'' 8080 api_config, api_start new_server)"
    and "pg_threads p = [collector_start new_collector, collector_start new_collector]"
proof -
  have conf: "parse_args files [''--api-enable''] ConfigManager = Configured api_config" for files
    using parse_option [of files OApiEnable "[]"] by (simp add: api_config_def apply_settings_def)
  obtain p where p: "startup (sample_machine n) [''--api-enable''] = Started p"
    using sample_starts [OF conf, of "sample_machine n"] by (auto simp: sample_environment_def)
  note shape = started_shape [OF p]
  have c: "pg_config p = api_config" using shape(1) by (simp add: conf)
  show ?thesis
    by (rule that [OF p]) (use shape(8,10,11) c api_settings in \<open>simp_all add: network_setup_total\<close>)
qed

abbreviation sample_served :: "u32 \<Rightarrow> nat program \<Rightarrow> nat served" where
  "sample_served n p \<equiv> served_of (sample_machine n) 0 p"

text \<open>The server opens, a client connects and asks for the metrics.\<close>

definition asking_schedule :: "nat served_event list" where
  "asking_schedule =
     [ServerStep (RunListen True), ServerStep (RunSpawn 4), ApiStep (AcceptCompleted False),
      ApiStep (ReadCompleted 0 (Some (get_request ''/api/v1/metrics'', True)) sample_env)]"

lemma asking_run:
  assumes "pg_network p = None" and "pg_api p = Some (port, api_start new_server)"
  shows "\<exists>s h. run_events (served_step id) asking_schedule (sample_served n p) = Some s \<and>
    run_allowed served_ok (served_step id) asking_schedule (sample_served n p) \<and>
    sv_handling s = [(0, h)] \<and> mh_keep_alive h \<and> sessions (sv_listener s) = [session_state.Reading] \<and>
    sv_read s = [(0, get_request ''/api/v1/metrics'', True)] \<and> alive_program s"
proof -
  let ?m = "sample_start n p"
  have m: "\<not> mo_dangling ?m" "\<not> sh_terminated (world ?m)" "ended (mo_net ?m) = None"
    using monitor_of_start [of "sample_machine n" 0 p, THEN conjunct1] monitor_of_start [of "sample_machine n" 0 p]
    unfolding monitor_inv_def system_ok_def by blast+
  show ?thesis
    using m assms by (simp add: asking_schedule_def served_of_def served_step_def server_call_def
      server_defs new_server_def free_thread_def serving_def onAccept_def listener_run_def new_listener_def api_read_def begin_metrics_def
      note_read_def handles_metrics_def get_request_def target_path_def served_ok_def visits_def handler_view_def alive_program_def Let_def)
qed

text \<open>A signal before the server thread has opened its listener, up to the destructor of the server.\<close>

definition early_signal :: "nat served_event list" where
  "early_signal =
     [MonitorStep Signal, ServerStep ApiStop, ServerStep (RunListen True), ServerStep (RunSpawn 4), ServerStep ApiJoin] @
     map MonitorStep [StopCollector, CpuThread False 0 None, JoinCollector, StopCollector, MemoryThread False 0 (\<lambda>l. 0, None),
       JoinCollector, DestroyObject, DestroyObject]"

definition patient_signal :: "nat served_event list" where
  "patient_signal =
     [ServerStep (RunListen True), ServerStep (RunSpawn 4), MonitorStep Signal, ServerStep ApiStop, ServerStep ApiJoin] @
     map MonitorStep [StopCollector, CpuThread False 0 None, JoinCollector, StopCollector, MemoryThread False 0 (\<lambda>l. 0, None),
       JoinCollector, DestroyObject, DestroyObject]"

lemmas served_simps = served_of_def served_step_def server_call_def server_defs new_server_def served_ok_def monitor_call_def
  still_stopping_def destroy_server_def destroyed_cleanly_def

lemma early_run:
  assumes "pg_network p = None" and "pg_api p = Some (port, api_start new_server)"
    and "pg_threads p = [collector_start new_collector, collector_start new_collector]"
  shows "\<exists>s. run_events (served_step id) early_signal (sample_served 4 p) = Some s \<and> sv_terminated s"
  using assms
  by (simp add: early_signal_def quiet_shape run_simps thread_simps served_simps Let_def)

lemma patient_run:
  assumes "pg_network p = None" and "pg_api p = Some (port, api_start new_server)"
    and "pg_threads p = [collector_start new_collector, collector_start new_collector]"
  shows "\<exists>s. run_events (served_step id) patient_signal (sample_served 4 p) = Some s \<and> sv_server s = None \<and>
    run_allowed (\<lambda>e s. served_ok e s \<and> patient_owner e s) (served_step id) patient_signal (sample_served 4 p)"
  using assms
  by (simp add: patient_signal_def quiet_shape run_simps thread_simps served_simps patient_owner_def patient_def Let_def)

section \<open>Properties\<close>

text \<open>
  C4: What the API answers. In every program that has started, whatever the collectors and the tasks
  write while a request is handled: a session that has an answer has read one request. The answer to
  \<open>GET /api/v1/metrics\<close> lists every registered metric once, in order, each with 0 or a value that a
  collector has computed from what it has read. Every other answer is the router's, for one moment:
  the registered metrics with such values, and the analyzer, when the program captures, as the summary of
  the packets processed by then, an initial part of the one order in which all packets were processed.
\<close>

theorem api_answers:
  assumes "startup e args = Started p" and "run_allowed served_ok (served_step mv) es (served_of e t0 p)"
    and "run_events (served_step mv) es (served_of e t0 p) = Some s"
  shows "\<exists>hist. sh_analyzer (served_world s) = analyzer_after (en_packet e) hist \<and>
    mset hist = mset (begun_packets (served_world s)) \<and>
    (\<forall>i < length (sessions (sv_listener s)). \<forall>a. sessions (sv_listener s) ! i \<in> {Writing a, Closed a} \<longrightarrow>
      (\<exists>wr. requests_of i s = [(wr, an_keep_alive a)] \<and>
        (if handles_metrics wr
         then \<exists>entries. gauges_read (sampled p (sv_monitor s)) (metric_names (registries p)) entries \<and>
           an_response a = metrics_report entries
         else \<exists>env pre. processRequest setupRoutes env wr = Some (an_response a) \<and> av_collectors env = registries p \<and>
           (\<forall>q < length (av_store env). sampled p (sv_monitor s) q (getCurrentValue (av_store env ! q))) \<and>
           prefix pre hist \<and>
           av_analyzer env = (if pg_network p \<noteq> None then Some (analyzer_after (en_packet e) pre) else None) \<and> visits env)))"
proof -
  obtain hist where h: "sv_capturing s = (pg_network p \<noteq> None)" "packet_inv (en_packet e) hist (served_world s)"
      "answers_inv (sampled p (sv_monitor s)) (registries p) (en_packet e) hist s"
    using served_run [OF assms] by blast
  obtain hist' where h': "prefix hist hist'" "sh_analyzer (served_world s) = analyzer_after (en_packet e) hist'"
      "mset hist' = mset (begun_packets (served_world s))"
    using packet_inv_now [OF h(2)] by blast
  have "\<exists>wr. requests_of i s = [(wr, an_keep_alive a)] \<and>
      answer_ok (sampled p (sv_monitor s)) (registries p) (sv_capturing s) (en_packet e) hist' wr (an_response a)"
    if "i < length (sessions (sv_listener s))" "sessions (sv_listener s) ! i \<in> {Writing a, Closed a}" for i a
    using session_later [OF answers_at [OF h(3) that(1)] _ h'(1), of "sampled p (sv_monitor s)"] that(2)
    by (cases "map_of (sv_handling s) i") auto
  then show ?thesis using h'(2,3) unfolding answer_ok_def h(1) by blast
qed

theorem api_answers_witness:
  "\<exists>p (s :: nat served) a entries. startup (sample_machine 4) [''--api-enable''] = Started p \<and> sessions (sv_listener s) = [Writing a] \<and>
    an_keep_alive a \<and> gauges_read (sampled p (sv_monitor s)) (metric_names (registries p)) entries \<and>
    an_response a = metrics_report entries"
proof -
  obtain p where p: "startup (sample_machine 4) [''--api-enable''] = Started p" "pg_network p = None"
    "pg_api p = Some (cfg_u16 ''api_port'' 8080 api_config, api_start new_server)" by (rule api_program)
  obtain s h where s: "run_events (served_step id) asking_schedule (sample_served 4 p) = Some s"
    "run_allowed served_ok (served_step id) asking_schedule (sample_served 4 p)" "sv_handling s = [(0, h)]" "mh_keep_alive h"
    "sessions (sv_listener s) = [session_state.Reading]" "sv_read s = [(0, get_request ''/api/v1/metrics'', True)]" "alive_program s"
    using asking_run [OF p(2,3)] by blast
  obtain t a where t: "run_events (served_step id) (finish_metrics 0 h) s = Some t" "sessions (sv_listener t) = [Writing a]"
    "an_keep_alive a" "sv_read t = sv_read s"
    using handler_ends [OF s(7), of 0 h id] s(3-5) by auto
  have r: "run_events (served_step id) (asking_schedule @ finish_metrics 0 h) (sample_served 4 p) = Some t"
    "run_allowed served_ok (served_step id) (asking_schedule @ finish_metrics 0 h) (sample_served 4 p)"
    using s(1,2) t(1) finish_allowed by (simp_all add: run_events_append run_allowed_append)
  have wr: "handles_metrics (get_request ''/api/v1/metrics'')" by (simp add: handles_metrics_def get_request_def target_path_def)
  have "requests_of 0 t = [(get_request ''/api/v1/metrics'', True)]" using s(6) t(4) by (simp add: requests_of_def)
  then obtain entries where "gauges_read (sampled p (sv_monitor t)) (metric_names (registries p)) entries"
      "an_response a = metrics_report entries"
    using api_answers [OF p(1) r(2,1)] t(2) wr by auto
  then show ?thesis using p(1) t(2,3) by blast
qed

text \<open>
  C9: The API is gone before what it reads. A step of the server, under every interleaving and
  whenever the signal comes, happens while every object declared before the server is alive, the
  collectors and the analyzer among them. And when the main thread stops the server only after the
  server thread has started everything, the destructor of the server does not terminate the process.
\<close>

theorem api_gone_before_objects:
  assumes "startup e args = Started p" and "run_allowed served_ok (served_step mv) es (served_of e t0 p)"
    and "run_events (served_step mv) es (served_of e t0 p) = Some s"
  shows "(\<forall>x s'. served_step mv (ApiStep x) s = Some s' \<longrightarrow>
      alive_during_destruction ApiServer \<subseteq> alive_objects (mo_main (sv_monitor s))) \<and>
    (run_allowed patient_owner (served_step mv) es (served_of e t0 p) \<longrightarrow> \<not> sv_terminated s)"
proof -
  have inv: "server_inv s" by (rule api_server.holds_after [OF server_inv_start [OF assms(1)] assms(2,3)])
  have "alive_during_destruction ApiServer \<subseteq> alive_objects (mo_main (sv_monitor s))"
    if "served_step mv (ApiStep x) s = Some s'" for x s'
  proof -
    have "\<not> sv_terminated s" "api_call x s = Some s'" using that by (auto simp: served_step_def split: if_splits)
    moreover from this(2) have "free_thread s \<or> sv_handling s \<noteq> []"
      by (cases x) (auto simp: api_gauge_def api_send_def split: if_splits option.splits)
    ultimately have "ApiServer \<in> alive_objects (mo_main (sv_monitor s))"
      using inv by (auto simp: server_inv_def free_thread_def split: option.splits)
    then show ?thesis using inv by (intro server_outlived) (simp_all add: server_inv_def exit_inv_def)
  qed
  moreover have "\<not> sv_terminated s" if "run_allowed patient_owner (served_step mv) es (served_of e t0 p)"
    using patient_exit.holds_after [OF patient_inv_start [OF assms(1)] _ assms(3)] assms(2) that
    by (simp add: run_allowed_conj patient_inv_def)
  ultimately show ?thesis by blast
qed

theorem api_gone_before_objects_witness:
  "\<exists>p s s'. startup (sample_machine 4) [''--api-enable''] = Started p \<and>
    run_events (served_step id) patient_signal (sample_served 4 p) = Some s \<and> sv_server s = None \<and> \<not> sv_terminated s \<and>
    run_events (served_step id) early_signal (sample_served 4 p) = Some s' \<and> sv_terminated s'"
proof -
  obtain p where p: "startup (sample_machine 4) [''--api-enable''] = Started p" "pg_network p = None"
    "pg_api p = Some (cfg_u16 ''api_port'' 8080 api_config, api_start new_server)"
    "pg_threads p = [collector_start new_collector, collector_start new_collector]" by (rule api_program)
  obtain s where s: "run_events (served_step id) patient_signal (sample_served 4 p) = Some s" "sv_server s = None"
    "run_allowed (\<lambda>e s. served_ok e s \<and> patient_owner e s) (served_step id) patient_signal (sample_served 4 p)"
    using patient_run [OF p(2-4)] by blast
  have "\<not> sv_terminated s" using api_gone_before_objects [OF p(1) _ s(1)] s(3) by (simp add: run_allowed_conj)
  then show ?thesis using early_run [OF p(2-4)] p(1) s(1,2) by blast
qed

end
