(* ===== verification/Spec2Isabelle.thy ===== *)
theory Spec2Isabelle
  imports Memory_Pool Lock_Free_Queue Program Served_Answers
begin

text \<open>
  A verification library of NetSentry, a monitor of a host and its network written in C++17. The
  program collects CPU and memory figures from \<^verbatim>\<open>/proc\<close>, decodes captured packets, keeps statistics of
  connections and hosts, compares metrics with thresholds, stores points, connections and alerts in
  a database, and serves its state over HTTP. The theories translate the sources under
  \<^verbatim>\<open>src/src\<close> definition by definition; a definition has the name of the function, method or type it
  models, or says in the text before it which part it is.

  \<^bold>\<open>How the program is put together.\<close> \<^verbatim>\<open>main.cpp\<close> reads the settings (command line on top of a file on
  top of defaults), creates the thread pool, the database and the two collectors, whose threads
  fill gauges once per interval. With capturing on, the capture thread decodes frames and calls a
  handler, which queues one task per packet; the task updates the analyzer and copies the
  connection to the database. The main loop queues a check of the alerts, a storing of the metrics
  and now and then a cleanup. The REST server answers from the collectors and the analyzer. On exit
  the server, the collectors and the capture are stopped, and the destructors run.

  \<^bold>\<open>Layers.\<close>

  \<^item> Language and library: \<open>Prelude\<close> (integer types, \<open>size_t\<close> arithmetic, listings of hash maps),
    \<open>Cpp_String\<close> (\<^verbatim>\<open>std::string\<close>, \<^verbatim>\<open>std::stoi\<close> and its kin), \<open>Cpp_Stream\<close> (\<^verbatim>\<open>std::getline\<close>,
    extraction from \<^verbatim>\<open>std::istringstream\<close>), \<open>Cpp_Double\<close> (IEEE binary64 as rounded rationals),
    \<open>Ordered_Map\<close> (\<^verbatim>\<open>std::map\<close>), \<open>Std_Sort\<close> (\<^verbatim>\<open>std::sort\<close> under the locale \<open>strict_weak_order\<close>, which
    the comparators of the analyzer and of the host report interpret).
  \<^item> Interfaces: \<open>Queue_Interface\<close> (the locales \<open>fifo\<close>, \<open>bounded_fifo\<close>, \<open>unbounded_fifo\<close>, interpreted by
    the ring and by the linked queue), \<open>Event_Machine\<close> (runs of an executable step and the locales
    \<open>machine_invariant\<close>, \<open>started_machine\<close>, interpreted by the packet tasks, the network half, the
    server threads, the dying collector, the exit and the program with its server, and \<open>machine_simulation\<close>,
    interpreted by the capture threads over the operations of the object, by the program over the
    pool of its tasks, over the packets captured and over the tasks planned, and by the program with
    its server over the program), \<open>Pool_Order\<close> (the locale \<open>job_invariant\<close>: what a
    property of the tasks has to keep; interpreted by each of the groups below).
  \<^item> \<^verbatim>\<open>core/data\<close>: \<open>Circular_Buffer\<close> is \<^verbatim>\<open>circular_buffer.hpp\<close>, with \<open>size_t\<close> indices and a lock per
    operation; \<open>Lock_Free_Queue\<close> is \<^verbatim>\<open>lock_free_queue.hpp\<close>, one step per access to shared memory.
  \<^item> \<^verbatim>\<open>core/memory\<close>: \<open>Memory_Pool\<close> is \<^verbatim>\<open>memory_pool.hpp\<close> over byte addresses.
  \<^item> \<^verbatim>\<open>core/utils\<close>: \<open>Thread_Pool\<close> is \<^verbatim>\<open>thread_pool.hpp\<close>, one step per locked block, with its condition
    variable: who sleeps on it, which notifications are pending, and spurious wake-ups; \<open>Logger\<close> is
    \<^verbatim>\<open>logger\<close> up to the line that would be written.
  \<^item> \<^verbatim>\<open>core/config\<close>: \<open>Config_Manager\<close> is \<^verbatim>\<open>config_manager\<close>: a map from keys to typed values, its parser
    and its printer.
  \<^item> \<^verbatim>\<open>core/metrics\<close> and \<^verbatim>\<open>core/collectors\<close>: \<open>Metrics\<close> is \<^verbatim>\<open>system_metrics\<close>, \<open>Collector_Base\<close> is
    \<^verbatim>\<open>collector_base.hpp\<close> (registry, worker, destruction), \<open>Cpu_Collector\<close> and \<open>Memory_Collector\<close> are the
    Linux branches of the two collectors. A \<^verbatim>\<open>shared_ptr\<close> to a metric is an index into a store.
  \<^item> \<^verbatim>\<open>network\<close>: \<open>Packet\<close> holds the data, \<open>Packet_Capture\<close> the decoder and the capture object,
    \<open>Capture_Threads\<close> that object under its two threads, \<open>Http_Parser\<close>, \<open>Tls_Parser\<close> and
    \<open>Protocol_Parser\<close> are \<^verbatim>\<open>protocol_parser.cpp\<close>, every read of the TLS and DNS parsers a checked
    one that may be \<open>None\<close>, \<open>Packet_Analyzer\<close> is \<^verbatim>\<open>packet_analyzer.cpp\<close>.
  \<^item> \<^verbatim>\<open>alert\<close>: \<open>Alerts\<close> is \<^verbatim>\<open>alert_rule\<close> and \<^verbatim>\<open>alert_manager\<close>.
  \<^item> \<^verbatim>\<open>api\<close>: \<open>Rest_Api\<close> is the query parser, the router and the handlers of \<^verbatim>\<open>rest_api.cpp\<close>,
    \<open>Rest_Session\<close> its listener and sessions, \<open>Rest_Server\<close> its threads.
  \<^item> \<^verbatim>\<open>db\<close>: \<open>Database\<close> has the records of \<^verbatim>\<open>database.hpp\<close> and the log of the calls made on it.
  \<^item> \<^verbatim>\<open>main.cpp\<close>: \<open>Settings\<close> (typed reads), \<open>Command_Line\<close> (arguments), \<open>Packet_Pipeline\<close> (packet
    tasks on the workers there are, with calls on the database that may throw, and \<open>record_after\<close>, the
    summary of a connection written out field by field), \<open>Alert_Setup\<close> (alerts and their callback), \<open>Main_Loop\<close> (periodic tasks and the order of
    destruction), \<open>Startup\<close> (from the arguments to the running program, and the shutdown),
    \<open>Network_System\<close> (owner, capture thread and workers as one machine, from the frame to the
    database).
  \<^item> The program as a whole: \<open>Pool_Tasks\<close> has all tasks of \<^verbatim>\<open>main\<close> on the workers of the pool, a step
    being what a task does under one lock or in one call on the database, which may throw;
    \<open>Pool_Order\<close> which task is where; \<open>Task_Effects\<close>, \<open>Alert_Effects\<close>, \<open>Task_Order\<close> and \<open>Task_Progress\<close>
    what the tasks have done, in which order, and that they end; \<open>Collector_Threads\<close> the threads of
    the collectors, one gauge at a time; \<open>Monitor_System\<close> the main thread from its loop to the end of
    its block, the capture thread, the workers and the collectors as one machine; \<open>Monitor_Properties\<close> its
    invariants for a program that \<open>startup\<close> has started; \<open>Program_Samples\<close> concrete runs; \<open>Program\<close> the
    properties; \<open>Exit_Progress\<close> that the exit comes to an end; \<open>Served_Program\<close> this machine with the threads of the API server and its sessions, a
    handler taking one step for each lock; \<open>Served_Answers\<close> what the server answers.

  This theory adds the property that joins the capture with the parsers.

  \<^bold>\<open>What the lemmas show.\<close>

  \<^item> The program, under every interleaving of its threads: what each completed task has told the
    database, exactly, with the times it has read from the clock; which readings of \<^verbatim>\<open>/proc\<close> an alert goes back to and which alerts reach the
    database; the order of packets and
    periodic tasks from their origin to their start; that with one worker the program is sequential;
    that the tasks never deadlock; that an error of the database stays in its task; when the exit is
    safe and that it comes to an end; what the API answers while everything goes on, and that the server is
    gone before the objects it reads.
  \<^item> Refinement of abstract contracts: the analyzer is the summary of its packet history; the ring
    and the linked queue are FIFOs; the capture object under its threads is linearizable; the
    network half as a whole takes every frame to the database, its packet tasks amounting to one
    order of packets; the host report and the query for
    the top connections are ordered listings of the busiest; a metric's history is a window of its
    log; the command line is a sequence of settings.
  \<^item> Round trips: settings, HTTP requests and responses, the server name of a ClientHello, query
    parameters, \<^verbatim>\<open>/proc/stat\<close> and \<^verbatim>\<open>/proc/meminfo\<close> are read back from their printed form.
  \<^item> Invariants and safety: no two holders of one block, at most one alert of a name in 60 seconds,
    one worker per running collector, one answer per connection, byte totals that add up.
  \<^item> Termination and liveness: the pool finishes every accepted task, \<open>stop\<close> of a collector and of a
    capture return, no delivered frame is lost, the destructor of the queue returns and leaks nothing.
  \<^item> What the code does not do as it is meant to: reads out of bounds and exactly when they happen, the
    payload that no parser ever sees, settings that no file can give, packet tasks that no worker of an
    empty pool ever runs, tasks that run after their
    objects are destroyed, a server that cannot be restarted, blocks that cannot be given back.

  \<^bold>\<open>Conventions.\<close> Machine integers are words, so they wrap; \<open>int64_t\<close> time stamps and ticks are
  integers within their range. A read out of bounds, a use of freed memory and a \<^verbatim>\<open>pop\<close> that finds
  nothing are \<open>None\<close>, a read out of bounds by the capture thread ends the process (\<open>OutOfBounds\<close>); an
  exception is the left side of a sum. An object whose methods all hold one
  mutex is a function on its state; where locks are given up in between, the steps interleave
  freely, under sequential consistency.

  \<^bold>\<open>Bounds and fuel.\<close> \<open>run_alone\<close> of the linked queue takes 6 steps, the longest path through one
  operation without interference, which \<open>lf_push_quiet\<close> and \<open>lf_pop_quiet\<close> confirm. \<open>walk\<close> takes as
  many steps as there were addresses, more than a path without repetition has. \<open>query_loop\<close> and
  \<open>drain\<close> are partial functions that are proved to return on every text and on every queue. The
  loops of the TLS and HTTP parsers decrease the bytes that are left. The capture thread needs at
  most 5 steps to leave once the flag is cleared, a collector's worker 3.

  \<^bold>\<open>Parameters.\<close> What is outside the sources is an argument: libpcap (the handle or an error text,
  the result code and the bytes of a frame), \<^verbatim>\<open>aligned_alloc\<close> and \<^verbatim>\<open>operator new\<close>, the clocks, the texts
  of files, the order in which a hash map is visited, \<^verbatim>\<open>std::hash\<close>, what \<^verbatim>\<open>snprintf\<close> prints,
  indeterminate values of members that are not initialised, the answers of the operating system,
  and the completions that Boost.Asio reports. The only assumptions are that \<^verbatim>\<open>aligned_alloc\<close> returns
  regions apart from those in use (\<open>fresh_region\<close>), that a visiting order lists a map, and, where a
  lemma says so, that a clock does not go back or that frames do not lead a parser out of bounds
  (\<open>readable\<close>, which \<open>plain_frame_ok\<close> derives from the first byte of the frame); for the program as a
  whole both are \<open>environment_ok\<close>. Each call of a task on the database returns or throws as its
  event says, and a task reads the time that its event has.

  \<^bold>\<open>Not modelled.\<close> The dashboard and the databases are declared but not implemented in the
  repository. Boost.Beast's parsing and printing of HTTP messages, TCP, and the output to the
  terminal and the log file are outside. The Windows branches of the collectors return constants.
  Of the exceptions of pool tasks those of the database are modelled, not those of a failing
  allocation. The collectors and the capture are stopped before the block is left, as an exception of
  \<open>enqueue\<close> there cannot happen. A constructor
  that throws in the object pool, weak memory orders and the reuse of freed addresses by the
  allocator are left out. The unit tests and the deployment files hold no program logic.
\<close>

section \<open>From the wire to the analyzer\<close>

definition http_first_bytes :: "u8 list" where
  "http_first_bytes = [67, 68, 71, 72, 79, 80, 84]"

lemma isHttp_first_byte:
  assumes "isHttpPacket p" and "pk_data p = b # bs"
  shows "b \<in> set http_first_bytes"
proof -
  let ?start = "str_of_bytes (take (min 8 (length (pk_data p))) (pk_data p))"
  have start: "?start = char_of (unat b) # str_of_bytes (take (min 8 (length (pk_data p)) - 1) bs)"
    using assms by (auto simp: isHttpPacket_def str_of_bytes_def take_Cons' split: if_splits)
  obtain w where w: "w \<in> set (''HTTP/'' # http_methods)" "find_sub w ?start = Some 0"
    using assms(1) by (auto simp: isHttpPacket_def Let_def split: if_splits)
  from find_sub_occurs [OF w(2)] have "take (length w) ?start = w" by simp
  with w(1) start have "char_of (unat b) \<in> {CHR ''C'', CHR ''D'', CHR ''G'', CHR ''H'', CHR ''O'', CHR ''P'', CHR ''T''}"
    by (auto simp: http_methods_def)
  then have "of_char (char_of (unat b)) \<in> (of_char :: char \<Rightarrow> nat) ` {CHR ''C'', CHR ''D'', CHR ''G'', CHR ''H'', CHR ''O'', CHR ''P'', CHR ''T''}"
    by (rule imageI)
  moreover have "unat b < 256" using unsigned_less [of b, where 'a = nat] by simp
  ultimately have "unat b \<in> {67, 68, 71, 72, 79, 80, 84}" by simp
  then show ?thesis
    unfolding http_first_bytes_def by (auto simp: word_unat_eq_iff)
qed

text \<open>
  C16: The protocol parsers never see the payload. A captured packet's data is the whole
  Ethernet frame, but the detectors look for HTTP and TLS at its start. So whatever the IP and
  TCP headers and the payload are, a frame whose destination MAC does not begin with a letter
  that starts an HTTP word or with a TLS content type is never classified as HTTP or TLS,
  and the DNS identifier of a DNS packet is read from the destination MAC.
\<close>

theorem payload_never_inspected:
  assumes "0 < res" "capturePacket junk res fr = Some p" "frame_bytes fr = eth @ rest"
    and "length eth = 14" "eth ! 0 \<notin> set http_first_bytes" "eth ! 0 < 20 \<or> 23 < eth ! 0"
  shows "http_parse p = None \<and> tls_parse p = Some None
    \<and> dns_parse p \<noteq> None \<and> (\<forall>d. dns_parse p = Some (Some d) \<longrightarrow> dns_transaction_id d = be16 (eth ! 0) (eth ! 1))"
proof -
  have d: "pk_data p = eth @ rest" using capturePacket_data [OF assms(1,2)] assms(3) by simp
  obtain b bs where eth: "eth = b # bs" using assms(4) by (cases eth) auto
  have "\<not> isHttpPacket p" using isHttp_first_byte [of p b "bs @ rest"] d eth assms(5) by auto
  moreover have "isTlsPacket p = Some False"
    using assms(6) by (auto simp: isTlsPacket_reads Let_def d eth)
  ultimately show ?thesis
    using assms(4) by (auto simp: http_parse_def tls_parse_def dns_parse_reads parseDnsPacket_reads Let_def
        d nth_append split: if_splits)
qed

theorem payload_never_inspected_witness:
  "\<exists>p. capturePacket junk_packet 1 sample_frame = Some p \<and> http_parse p = None \<and> tls_parse p = Some None"
proof -
  obtain p where p: "capturePacket junk_packet 1 sample_frame = Some p"
    using sample_frame_decodes by blast
  have f: "frame_bytes sample_frame = replicate 14 1 @ drop 14 (frame_bytes sample_frame)"
    by (simp add: sample_frame_def)
  show ?thesis
    using payload_never_inspected [OF _ p f] p by (auto simp: http_first_bytes_def)
qed

end
